(* ===== verification/Phantom_Prelude.thy ===== *)
theory Phantom_Prelude
  imports Main "HOL-Library.Word"
begin

text \<open>
  Shared vocabulary of the development: machine integers at the width the Rust
  sources use, the big-endian byte encodings of the wire formats, Rust's
  checked and saturating arithmetic, the result type of fallible code, in-place
  array loops, and runs of a state transformer over a sequence of inputs.
  \<open>usize\<close> is 64 bits wide, as on every platform the crate is released for.
  Instants and durations are natural numbers of nanoseconds; Rust's
  \<open>duration_since\<close> saturates at zero, as subtraction on \<open>nat\<close> does.
\<close>

unbundle bit_operations_syntax

type_synonym u8 = "8 word"
type_synonym u16 = "16 word"
type_synonym u32 = "32 word"
type_synonym u64 = "64 word"
type_synonym bytes = "u8 list"
type_synonym nanos = nat

named_theorems wire_simps \<open>lengths and inverses of the wire encodings\<close>
named_theorems arith_defs \<open>definitions of the saturating and checked operations\<close>

subsection \<open>Results of fallible code\<close>

type_synonym ('e, 'a) result = "'e + 'a"

abbreviation Err :: "'e \<Rightarrow> ('e, 'a) result" where "Err \<equiv> Inl"
abbreviation Ok :: "'a \<Rightarrow> ('e, 'a) result" where "Ok \<equiv> Inr"

subsection \<open>Saturating and checked arithmetic\<close>

definition sat_add :: "'a::len word \<Rightarrow> 'a word \<Rightarrow> 'a word" where
  [arith_defs]: "sat_add a b = (if unat a + unat b < 2 ^ LENGTH('a) then a + b else - 1)"

definition sat_sub :: "'a::len word \<Rightarrow> 'a word \<Rightarrow> 'a word" where
  [arith_defs]: "sat_sub a b = (if b \<le> a then a - b else 0)"

definition checked_sub :: "'a::len word \<Rightarrow> 'a word \<Rightarrow> 'a word option" where
  [arith_defs]: "checked_sub a b = (if b \<le> a then Some (a - b) else None)"

definition checked_add :: "'a::len word \<Rightarrow> 'a word \<Rightarrow> 'a word option" where
  [arith_defs]: "checked_add a b = (if unat a + unat b < 2 ^ LENGTH('a) then Some (a + b) else None)"

definition sat_mul :: "'a::len word \<Rightarrow> 'a word \<Rightarrow> 'a word" where
  [arith_defs]: "sat_mul a b = (if unat a * unat b < 2 ^ LENGTH('a) then a * b else - 1)"

text \<open>Saturation of an exact product at 128 bits.\<close>

definition sat128 :: "nat \<Rightarrow> nat" where
  "sat128 n = min n (2 ^ 128 - 1)"

lemma unat_bound: "unat (w :: 'a::len word) < 2 ^ LENGTH('a)"
  by (rule unsigned_less)

lemma unat_inject [iff]: "unat v = unat w \<longleftrightarrow> v = w"
  by (auto dest: unsigned_word_eqI)

lemma word_less_plus1:
  "unat (n + 1) = unat n + 1 \<Longrightarrow> q < n + 1 \<longleftrightarrow> q = n \<or> q < (n :: 'a::len word)"
  by (auto simp: word_less_nat_alt less_Suc_eq)

lemma word_le_minus1: "n \<noteq> 0 \<Longrightarrow> q \<le> n - 1 \<longleftrightarrow> q < (n :: 'a::len word)"
proof -
  assume "n \<noteq> 0"
  then have "unat (n - 1) = unat n - 1" "unat n > 0" by (simp_all add: unat_minus_one unat_gt_0)
  then show ?thesis unfolding word_le_nat_alt word_less_nat_alt by linarith
qed

lemma unat_u8_bound: "unat (w :: u8) \<le> 255"
  using unat_bound[of w] by simp

lemma unat_u16_bound: "unat (w :: u16) \<le> 65535"
  using unat_bound[of w] by simp

lemma unat_u32_bound: "unat (w :: u32) \<le> 4294967295"
  using unat_bound[of w] by simp

lemma unat_sat_add: "unat (sat_add a (b :: 'a::len word)) = min (unat a + unat b) (2 ^ LENGTH('a) - 1)"
proof (cases "unat a + unat b < 2 ^ LENGTH('a)")
  case True
  then show ?thesis by (simp add: sat_add_def unat_word_ariths(1))
next
  case False
  then show ?thesis by (simp add: sat_add_def unsigned_minus_1_eq_mask mask_eq_exp_minus_1)
qed

lemma unat_sat_sub: "unat (sat_sub a b) = unat a - unat b"
  by (auto simp: sat_sub_def unat_sub word_le_nat_alt)

lemma checked_add_Some_unat:
  "checked_add a (b :: 'a::len word) = Some c \<Longrightarrow> unat c = unat a + unat b"
  by (auto simp: checked_add_def unat_word_ariths(1) split: if_splits)

lemma checked_sub_Some_unat:
  "checked_sub a b = Some c \<Longrightarrow> unat c = unat a - unat b \<and> unat b \<le> unat a"
  by (auto simp: checked_sub_def unat_sub word_le_nat_alt split: if_splits)

subsection \<open>Big-endian encodings\<close>

text \<open>\<open>to_be_bytes\<close> and \<open>from_be_bytes\<close> of the unsigned integers.\<close>

primrec be_encode :: "nat \<Rightarrow> nat \<Rightarrow> bytes" where
  "be_encode 0 x = []"
| "be_encode (Suc n) x = be_encode n (x div 256) @ [word_of_nat x]"

definition be_decode :: "bytes \<Rightarrow> nat" where
  "be_decode bs = foldl (\<lambda>acc b. acc * 256 + unat b) 0 bs"

definition to_be_bytes :: "'a::len word \<Rightarrow> bytes" where
  "to_be_bytes w = be_encode (LENGTH('a) div 8) (unat w)"

definition from_be_bytes :: "bytes \<Rightarrow> 'a::len word" where
  "from_be_bytes bs = word_of_nat (be_decode bs)"

lemma length_be_encode [simp, wire_simps]: "length (be_encode n x) = n"
  by (induction n arbitrary: x) auto

lemma be_decode_snoc [simp]: "be_decode (bs @ [b]) = be_decode bs * 256 + unat b"
  by (simp add: be_decode_def)

lemma be_decode_Nil [simp]: "be_decode [] = 0"
  by (simp add: be_decode_def)

lemma unat_byte_of_nat: "unat (word_of_nat x :: u8) = x mod 256"
  by (simp add: unat_of_nat)

lemma be_decode_encode: "be_decode (be_encode n x) = x mod 256 ^ n"
proof (induction n arbitrary: x)
  case 0
  then show ?case by simp
next
  case (Suc n)
  have "x mod 256 ^ Suc n = (x div 256) mod 256 ^ n * 256 + x mod 256"
    by (simp add: mod_mult2_eq)
  then show ?case by (simp add: Suc.IH unat_byte_of_nat)
qed

lemma be_decode_bound: "be_decode bs < 256 ^ length bs"
proof (induction bs rule: rev_induct)
  case Nil
  then show ?case by simp
next
  case (snoc b bs)
  have "unat b < 256" using unsigned_less[of b] by simp
  with snoc show ?case by simp
qed

lemma be_encode_decode: "be_encode (length bs) (be_decode bs) = bs"
proof (induction bs rule: rev_induct)
  case Nil
  then show ?case by simp
next
  case (snoc b bs)
  have b: "unat b < 256" using unsigned_less[of b] by simp
  then have "(be_decode bs * 256 + unat b) div 256 = be_decode bs" by simp
  have z: "word_of_nat 256 = (0 :: u8)" by simp
  moreover have "word_of_nat (be_decode bs * 256 + unat b) = b"
    by (simp only: of_nat_add of_nat_mult z mult_zero_right add_0) simp
  ultimately show ?case using b by (simp add: snoc del: of_nat_add of_nat_mult)
qed

lemma length_to_be_bytes [simp, wire_simps]:
  "length (to_be_bytes (w :: 'a::len word)) = LENGTH('a) div 8"
  by (simp add: to_be_bytes_def)

lemma from_to_be_bytes [wire_simps]:
  assumes "8 dvd LENGTH('a::len)"
  shows "from_be_bytes (to_be_bytes (w :: 'a word)) = w"
proof -
  from assms obtain k where k: "LENGTH('a) = 8 * k" by (elim dvdE)
  have "unat w < 2 ^ (8 * k)" using unsigned_less[of w] by (simp add: k)
  then have "unat w < 256 ^ k" by (simp add: power_mult)
  then show ?thesis by (simp add: from_be_bytes_def to_be_bytes_def be_decode_encode k)
qed

lemma to_from_be_bytes:
  assumes "LENGTH('a::len) = 8 * length bs"
  shows "to_be_bytes (from_be_bytes bs :: 'a word) = bs"
proof -
  have "be_decode bs < 2 ^ LENGTH('a)"
    using be_decode_bound[of bs] by (simp add: assms power_mult)
  then show ?thesis
    by (simp add: to_be_bytes_def from_be_bytes_def unat_of_nat assms be_encode_decode)
qed

lemma from_to_be_u16 [simp]: "from_be_bytes (to_be_bytes (w :: u16)) = w"
  by (rule from_to_be_bytes) simp

lemma from_to_be_u32 [simp]: "from_be_bytes (to_be_bytes (w :: u32)) = w"
  by (rule from_to_be_bytes) simp

lemma from_to_be_u64 [simp]: "from_be_bytes (to_be_bytes (w :: u64)) = w"
  by (rule from_to_be_bytes) simp

lemma to_be_bytes_inj:
  assumes "8 dvd LENGTH('a::len)" and "to_be_bytes (v :: 'a word) = to_be_bytes w"
  shows "v = w"
  using assms by (metis from_to_be_bytes)

text \<open>A slice \<open>&buf[i..i + n]\<close>.\<close>

definition subslice :: "nat \<Rightarrow> nat \<Rightarrow> 'a list \<Rightarrow> 'a list" where
  "subslice i n xs = take n (drop i xs)"

lemma length_subslice [simp]: "i + n \<le> length xs \<Longrightarrow> length (subslice i n xs) = n"
  by (simp add: subslice_def)

lemma subslice_append1: "i + n \<le> length xs \<Longrightarrow> subslice i n (xs @ ys) = subslice i n xs"
  by (simp add: subslice_def)

lemma subslice_append2: "length xs \<le> i \<Longrightarrow> subslice i n (xs @ ys) = subslice (i - length xs) n ys"
  by (simp add: subslice_def)

lemma subslice_whole [simp]: "n = length xs \<Longrightarrow> subslice 0 n xs = xs"
  by (simp add: subslice_def)

subsection \<open>In-place loops over an array\<close>

text \<open>
  A loop \<open>for i in (a..n).rev() { arr[i] = f(i, arr) }\<close> whose right-hand side
  reads only positions up to \<open>i\<close> computes every element from the array before
  the loop.
\<close>

lemma fold_desc_update_length [simp]:
  "length (fold (\<lambda>i bm. bm[i := f i bm]) is bm) = length bm"
  by (induction "is" arbitrary: bm) auto

lemma fold_desc_update:
  assumes local: "\<And>i b b'. length b = length b' \<Longrightarrow> (\<And>k. k \<le> i \<Longrightarrow> b ! k = b' ! k) \<Longrightarrow> f i b = f i b'"
    and "n \<le> length bm" "j < length bm"
  shows "fold (\<lambda>i bm. bm[i := f i bm]) (rev [a..<n]) bm ! j
         = (if a \<le> j \<and> j < n then f j bm else bm ! j)"
  using assms(2,3)
proof (induction n arbitrary: bm)
  case 0
  then show ?case by simp
next
  case (Suc n)
  show ?case
  proof (cases "a \<le> n")
    case True
    let ?bm1 = "bm[n := f n bm]"
    have *: "f j ?bm1 = f j bm" if "j < n" for j
      by (rule local) (use that in auto)
    show ?thesis
      using Suc.IH[of ?bm1] Suc.prems True * by (auto simp: nth_list_update less_Suc_eq)
  next
    case False
    then show ?thesis using Suc.prems by auto
  qed
qed

subsection \<open>Association lists\<close>

lemma map_of_filter_fst: "map_of (filter (\<lambda>e. P (fst e)) xs) k = (if P k then map_of xs k else None)"
  by (induction xs) auto

lemma map_of_filter_key: "map_of (filter (\<lambda>e. fst e \<noteq> k) xs) k' = (if k' = k then None else map_of xs k')"
  by (induction xs) auto

lemma length_filter_key: "k \<in> fst ` set xs \<Longrightarrow> length (filter (\<lambda>e. fst e \<noteq> k) xs) < length xs"
  by (rule length_filter_less[where x = "SOME e. e \<in> set xs \<and> fst e = k"]) (auto intro: someI2)

subsection \<open>Runs of a state transformer\<close>

fun run :: "('s \<Rightarrow> 'a \<Rightarrow> 'b \<times> 's) \<Rightarrow> 's \<Rightarrow> 'a list \<Rightarrow> 'b list \<times> 's" where
  "run f s [] = ([], s)"
| "run f s (x # xs) =
     (let (y, s') = f s x; (ys, s'') = run f s' xs in (y # ys, s''))"

lemma length_run [simp]: "length (fst (run f s xs)) = length xs"
  by (induction xs arbitrary: s) (simp_all add: split_beta Let_def)

text \<open>The inputs answered with \<open>True\<close>.\<close>

definition chosen :: "bool list \<Rightarrow> 'a list \<Rightarrow> 'a list" where
  "chosen bs xs = map snd (filter fst (zip bs xs))"

lemma chosen_simps [simp]:
  "chosen [] xs = []"
  "chosen (b # bs) (x # xs) = (if b then x # chosen bs xs else chosen bs xs)"
  by (simp_all add: chosen_def)

lemma run_invariant:
  assumes "\<And>s x. I s \<Longrightarrow> I (snd (f s x))" "I s"
  shows "I (snd (run f s xs))"
  using assms(2)
proof (induction xs arbitrary: s)
  case (Cons x xs)
  then show ?case using assms(1)[of s x] by (simp add: split_beta Let_def)
qed simp

lemma run_nth: "k < length xs \<Longrightarrow> fst (run f s xs) ! k = fst (f (snd (run f s (take k xs))) (xs ! k))"
proof (induction xs arbitrary: s k)
  case (Cons x xs)
  then show ?case by (cases k) (simp_all add: split_beta Let_def)
qed simp

lemma run_append:
  "snd (run f s (xs @ ys)) = snd (run f (snd (run f s xs)) ys)"
  by (induction xs arbitrary: s) (simp_all add: split_beta Let_def)

subsection \<open>Updating the first matching element\<close>

text \<open>
  \<open>for x in buffer.iter_mut() { if cond(x) { update(x); return .. } }\<close>: the first
  element that satisfies the condition, as it was, and the buffer after the update.
\<close>

fun update_first :: "('a \<Rightarrow> bool) \<Rightarrow> ('a \<Rightarrow> 'a) \<Rightarrow> 'a list \<Rightarrow> ('a \<times> 'a list) option" where
  "update_first P f [] = None"
| "update_first P f (x # xs) =
     (if P x then Some (x, f x # xs)
      else map_option (\<lambda>(y, ys). (y, x # ys)) (update_first P f xs))"

lemma update_first_None: "update_first P f xs = None \<longleftrightarrow> (\<forall>x\<in>set xs. \<not> P x)"
  by (induction xs) auto

lemma update_first_SomeE:
  assumes "update_first P f xs = Some (x, ys)"
  obtains pre post where "xs = pre @ x # post" "ys = pre @ f x # post" "P x" "\<forall>y\<in>set pre. \<not> P y"
proof -
  have "\<exists>pre post. xs = pre @ x # post \<and> ys = pre @ f x # post \<and> P x \<and> (\<forall>y\<in>set pre. \<not> P y)"
    using assms
  proof (induction xs arbitrary: ys)
    case Nil
    then show ?case by simp
  next
    case (Cons z zs)
    show ?case
    proof (cases "P z")
      case True
      then show ?thesis using Cons.prems by (intro exI[of _ "[]"] exI[of _ zs]) auto
    next
      case False
      then obtain ys' where "update_first P f zs = Some (x, ys')" "ys = z # ys'" using Cons.prems by auto
      with Cons.IH[OF this(1)] False obtain pre post where
        "zs = pre @ x # post" "ys = (z # pre) @ f x # post" "P x" "\<forall>y\<in>set (z # pre). \<not> P y" by auto
      then show ?thesis by (intro exI[of _ "z # pre"] exI[of _ post]) auto
    qed
  qed
  then show ?thesis using that by blast
qed

lemma find_first: "\<forall>y\<in>set pre. \<not> P y \<Longrightarrow> P x \<Longrightarrow> find P (pre @ x # post) = Some x"
  by (induction pre) auto

lemma option_pair_cases [case_names None Some]:
  "(x = None \<Longrightarrow> P) \<Longrightarrow> (\<And>a b. x = Some (a, b) \<Longrightarrow> P) \<Longrightarrow> P"
  by (cases x) auto

text \<open>Removing the first matching element: \<open>position\<close> followed by \<open>remove\<close>.\<close>

fun remove_first :: "('a \<Rightarrow> bool) \<Rightarrow> 'a list \<Rightarrow> ('a \<times> 'a list) option" where
  "remove_first P [] = None"
| "remove_first P (x # xs) =
     (if P x then Some (x, xs) else map_option (\<lambda>(y, ys). (y, x # ys)) (remove_first P xs))"

lemma remove_first_None: "remove_first P xs = None \<longleftrightarrow> (\<forall>x\<in>set xs. \<not> P x)"
  by (induction xs) auto

lemma remove_first_SomeE:
  assumes "remove_first P xs = Some (x, ys)"
  obtains pre post where "xs = pre @ x # post" "ys = pre @ post" "P x" "\<forall>y\<in>set pre. \<not> P y"
proof -
  have "\<exists>pre post. xs = pre @ x # post \<and> ys = pre @ post \<and> P x \<and> (\<forall>y\<in>set pre. \<not> P y)"
    using assms
  proof (induction xs arbitrary: ys)
    case Nil
    then show ?case by simp
  next
    case (Cons z zs)
    show ?case
    proof (cases "P z")
      case True
      then show ?thesis using Cons.prems by (intro exI[of _ "[]"] exI[of _ zs]) auto
    next
      case False
      then obtain ys' where "remove_first P zs = Some (x, ys')" "ys = z # ys'" using Cons.prems by auto
      with Cons.IH[OF this(1)] False obtain pre post where
        "zs = pre @ x # post" "ys = (z # pre) @ post" "P x" "\<forall>y\<in>set (z # pre). \<not> P y" by auto
      then show ?thesis by (intro exI[of _ "z # pre"] exI[of _ post]) auto
    qed
  qed
  then show ?thesis using that by blast
qed

lemma remove_first_length:
  "remove_first P xs = Some (x, ys) \<Longrightarrow> length xs = Suc (length ys)"
  by (erule remove_first_SomeE) simp

end
