(* ===== verification/Replay_Window.thy ===== *)
theory Replay_Window
  imports Phantom_Prelude
begin

text \<open>
  The sliding anti-replay window of \<open>security/replay_window.rs\<close>: a bitmap of
  1024 bits in sixteen 64-bit words, bit \<open>i\<close> standing for the packet number
  \<open>high_watermark - i\<close>. The word-level shift and the accept operation are
  modelled as written; they are shown to implement a history-based
  specification, and the interface the receive path relies on (a packet number
  is accepted at most once) is a locale interpreted on them.
\<close>

subsection \<open>The window\<close>

definition WINDOW_BITS :: nat where "WINDOW_BITS = 1024"

definition WINDOW_WORDS :: nat where "WINDOW_WORDS = WINDOW_BITS div 64"

record replay_window =
  bitmap :: "u64 list"
  high_watermark :: u64
  initialized :: bool

definition replay_new :: replay_window where
  "replay_new = \<lparr>bitmap = replicate WINDOW_WORDS 0, high_watermark = 0, initialized = False\<rparr>"

definition shift_words :: "nat \<Rightarrow> u64 list \<Rightarrow> u64 list" where
  "shift_words word_shift bm =
     (if word_shift > 0 then
        let bm1 = fold (\<lambda>i b. b[i := b ! (i - word_shift)]) (rev [word_shift..<WINDOW_WORDS]) bm
        in fold (\<lambda>i b. b[i := 0]) [0..<word_shift] bm1
      else bm)"

definition shift_bits :: "nat \<Rightarrow> u64 list \<Rightarrow> u64 list" where
  "shift_bits bit_shift bm =
     (if bit_shift > 0 then
        let inv = 64 - bit_shift;
            bm1 = fold (\<lambda>i b. b[i := push_bit bit_shift (b ! i) OR drop_bit inv (b ! (i - 1))])
                       (rev [1..<WINDOW_WORDS]) bm
        in bm1[0 := push_bit bit_shift (bm1 ! 0)]
      else bm)"

definition shift_left :: "u64 list \<Rightarrow> nat \<Rightarrow> u64 list" where
  "shift_left bm shift =
     (let word_shift = shift div 64; bit_shift = shift mod 64
      in shift_bits bit_shift (shift_words word_shift bm))"

definition accept :: "replay_window \<Rightarrow> u64 \<Rightarrow> bool \<times> replay_window" where
  "accept w seq =
     (if \<not> initialized w then
        (True, w\<lparr>high_watermark := seq, bitmap := (bitmap w)[0 := 1], initialized := True\<rparr>)
      else if seq > high_watermark w then
        let shift = unat (seq - high_watermark w);
            bm = (if shift \<ge> WINDOW_BITS then replicate WINDOW_WORDS 0
                  else shift_left (bitmap w) shift);
            bm' = bm[0 := (bm ! 0) OR 1]
        in (True, w\<lparr>bitmap := bm', high_watermark := seq\<rparr>)
      else
        let offset = unat (high_watermark w - seq)
        in if offset \<ge> WINDOW_BITS then (False, w)
           else let word = offset div 64; bit = offset mod 64; mask = push_bit bit (1 :: u64)
                in if (bitmap w ! word) AND mask \<noteq> 0 then (False, w)
                   else (True, w\<lparr>bitmap := (bitmap w)[word := (bitmap w ! word) OR mask]\<rparr>))"

definition is_initialized :: "replay_window \<Rightarrow> bool" where
  "is_initialized w = initialized w"

definition accept_all :: "u64 list \<Rightarrow> bool list" where
  "accept_all seqs = fst (run accept replay_new seqs)"

subsection \<open>Bit view of the word-level shift\<close>

definition bit_at :: "u64 list \<Rightarrow> nat \<Rightarrow> bool" where
  "bit_at bm n = bit (bm ! (n div 64)) (n mod 64)"

lemma window_words [simp]: "WINDOW_WORDS = 16"
  by (simp add: WINDOW_WORDS_def WINDOW_BITS_def)

lemma length_shift_words [simp]: "length (shift_words k bm) = length bm"
  unfolding shift_words_def Let_def
  using fold_desc_update_length[of "\<lambda>i b. b ! (i - k)"] fold_desc_update_length[of "\<lambda>i b. 0"]
  by simp

lemma length_shift_bits [simp]: "length (shift_bits k bm) = length bm"
  unfolding shift_bits_def Let_def
  using fold_desc_update_length[of "\<lambda>i b. push_bit k (b ! i) OR drop_bit (64 - k) (b ! (i - 1))"]
  by simp

lemma length_shift_left [simp]: "length (shift_left bm s) = length bm"
  by (simp add: shift_left_def Let_def)

lemma fold_zero_nth:
  "j < length bm \<Longrightarrow> fold (\<lambda>i b. b[i := 0]) [0..<k] bm ! j = (if j < k then 0 else bm ! j)"
proof (induction k)
  case (Suc k)
  have "length (fold (\<lambda>i b. b[i := 0]) [0..<k] bm) = length bm"
    using fold_desc_update_length[of "\<lambda>i b. 0"] by simp
  with Suc show ?case by (auto simp: nth_list_update less_Suc_eq)
qed simp

lemma nth_shift_words:
  assumes "length bm = 16" "j < 16"
  shows "shift_words k bm ! j = (if j < k then 0 else bm ! (j - k))"
proof (cases "k > 0")
  case True
  let ?f = "\<lambda>i (b :: u64 list). b ! (i - k)"
  have len: "length (fold (\<lambda>i b. b[i := ?f i b]) (rev [k..<16]) bm) = 16"
    using assms by simp
  have "fold (\<lambda>i b. b[i := ?f i b]) (rev [k..<16]) bm ! j
        = (if k \<le> j \<and> j < 16 then ?f j bm else bm ! j)"
    by (rule fold_desc_update) (use assms in auto)
  then show ?thesis
    using True assms fold_zero_nth[of j "fold (\<lambda>i b. b[i := ?f i b]) (rev [k..<16]) bm" k] len
    by (simp add: shift_words_def)
qed (simp add: shift_words_def)

lemma nth_shift_bits:
  assumes "length bm = 16" "j < 16" "k > 0"
  shows "shift_bits k bm ! j =
         (if j = 0 then push_bit k (bm ! 0)
          else push_bit k (bm ! j) OR drop_bit (64 - k) (bm ! (j - 1)))"
proof -
  let ?f = "\<lambda>i (b :: u64 list). push_bit k (b ! i) OR drop_bit (64 - k) (b ! (i - 1))"
  have "fold (\<lambda>i b. b[i := ?f i b]) (rev [1..<16]) bm ! j'
        = (if 1 \<le> j' \<and> j' < 16 then ?f j' bm else bm ! j')" if "j' < 16" for j'
    by (rule fold_desc_update) (use assms that in auto)
  then show ?thesis
    using assms by (simp add: shift_bits_def Let_def nth_list_update)
qed

lemma bit_at_shift_words:
  assumes "length bm = 16" "n < 1024"
  shows "bit_at (shift_words k bm) n \<longleftrightarrow> 64 * k \<le> n \<and> bit_at bm (n - 64 * k)"
proof (cases "64 * k \<le> n")
  case True
  then obtain d where n: "n = d + 64 * k" by (metis le_add_diff_inverse2)
  have "n div 64 = d div 64 + k" "n mod 64 = d mod 64" by (simp_all add: n)
  then show ?thesis
    using assms nth_shift_words[OF assms(1), of "n div 64" k] n by (auto simp: bit_at_def)
next
  case False
  then have "n div 64 < k" by (simp add: div_less_iff_less_mult mult.commute)
  then show ?thesis
    using False assms nth_shift_words[OF assms(1), of "n div 64" k] by (auto simp: bit_at_def)
qed

lemma bit_at_shift_bits:
  assumes "length bm = 16" "n < 1024" "k < 64"
  shows "bit_at (shift_bits k bm) n \<longleftrightarrow> k \<le> n \<and> bit_at bm (n - k)"
proof (cases "k = 0")
  case True
  then show ?thesis by (simp add: shift_bits_def)
next
  case False
  let ?q = "n div 64" and ?r = "n mod 64"
  have n: "n = 64 * ?q + ?r" and r: "?r < 64" by simp_all
  have q: "?q < 16" using assms by auto
  have nth: "shift_bits k bm ! ?q = (if ?q = 0 then push_bit k (bm ! 0)
          else push_bit k (bm ! ?q) OR drop_bit (64 - k) (bm ! (?q - 1)))"
    using nth_shift_bits[OF assms(1) q] False by simp
  show ?thesis
  proof (cases "k \<le> ?r")
    case True
    have "n - k = 64 * ?q + (?r - k)" using True n by linarith
    then have "(n - k) div 64 = ?q" "(n - k) mod 64 = ?r - k" using r by auto
    then show ?thesis using True n r nth False
      by (auto simp: bit_at_def bit_simps dest: bit_imp_le_length)
  next
    case nk: False
    show ?thesis
    proof (cases "?q = 0")
      case True
      then have "n < k" using nk n by linarith
      then show ?thesis using True nk nth r by (simp add: bit_at_def bit_simps)
    next
      case q0: False
      have "n - k = 64 * (?q - 1) + (64 + ?r - k)" "k \<le> n"
        using nk q0 n assms(3) by linarith+
      moreover have "64 + ?r - k < 64" using nk by linarith
      ultimately have "(n - k) div 64 = ?q - 1" "(n - k) mod 64 = 64 + ?r - k" by auto
      moreover have "64 - k + ?r = 64 + ?r - k" using assms(3) by linarith
      ultimately show ?thesis using nk q0 nth r \<open>k \<le> n\<close>
        by (simp add: bit_at_def bit_simps)
    qed
  qed
qed

lemma bit_at_shift_left:
  assumes "length bm = 16" "n < 1024"
  shows "bit_at (shift_left bm s) n \<longleftrightarrow> s \<le> n \<and> bit_at bm (n - s)"
proof -
  have s: "s = 64 * (s div 64) + s mod 64" by simp
  have "bit_at (shift_left bm s) n \<longleftrightarrow> s mod 64 \<le> n \<and> 64 * (s div 64) \<le> n - s mod 64
          \<and> bit_at bm (n - s mod 64 - 64 * (s div 64))"
    using assms by (simp add: shift_left_def Let_def bit_at_shift_bits bit_at_shift_words)
  moreover have "n - s mod 64 - 64 * (s div 64) = n - s" using s by linarith
  moreover have "(s mod 64 \<le> n \<and> 64 * (s div 64) \<le> n - s mod 64) = (s \<le> n)" using s by linarith
  ultimately show ?thesis by auto
qed

lemma bit_at_set:
  assumes "length bm = 16" "n < 1024" "m < 1024"
  shows "bit_at (bm[m div 64 := (bm ! (m div 64)) OR push_bit (m mod 64) 1]) n
         \<longleftrightarrow> n = m \<or> bit_at bm n"
proof -
  have m: "m div 64 < 16" using assms by auto
  have "n = m \<longleftrightarrow> n div 64 = m div 64 \<and> n mod 64 = m mod 64"
    by (metis div_mult_mod_eq)
  then show ?thesis
    using assms m by (auto simp: bit_at_def nth_list_update bit_simps)
qed

lemma bit_at_mask:
  "(bm ! (m div 64)) AND push_bit (m mod 64) (1 :: u64) \<noteq> 0 \<longleftrightarrow> bit_at bm m"
proof -
  have "bit ((bm ! (m div 64)) AND push_bit (m mod 64) (1 :: u64)) i
        \<longleftrightarrow> i = m mod 64 \<and> bit_at bm m" for i
    by (auto simp: bit_at_def bit_simps)
  then show ?thesis by (metis bit_eq_iff bit_0_eq bot_apply bot_bool_def)
qed

lemma bit_at_zero [simp]: "n < 1024 \<Longrightarrow> \<not> bit_at (replicate 16 0) n"
  by (simp add: bit_at_def div_less_iff_less_mult)

subsection \<open>Invariant and the set of dead packet numbers\<close>

definition replay_inv :: "replay_window \<Rightarrow> bool" where
  "replay_inv w \<longleftrightarrow> length (bitmap w) = WINDOW_WORDS
     \<and> (\<forall>i<WINDOW_BITS. bit_at (bitmap w) i \<longrightarrow> initialized w \<and> i \<le> unat (high_watermark w))
     \<and> (initialized w \<longrightarrow> bit_at (bitmap w) 0)"

text \<open>Packet numbers the window will never accept again.\<close>

definition dead :: "replay_window \<Rightarrow> u64 set" where
  "dead w = {s. initialized w \<and> s \<le> high_watermark w \<and>
              (let off = unat (high_watermark w - s)
               in off \<ge> WINDOW_BITS \<or> bit_at (bitmap w) off)}"

lemma dead_iff:
  "s \<in> dead w \<longleftrightarrow> initialized w \<and> unat s \<le> unat (high_watermark w) \<and>
     (unat (high_watermark w) - unat s \<ge> 1024
      \<or> bit_at (bitmap w) (unat (high_watermark w) - unat s))"
  by (auto simp: dead_def WINDOW_BITS_def Let_def unat_sub word_le_nat_alt)

lemma replay_new_inv [simp]: "replay_inv replay_new"
  by (simp add: replay_inv_def replay_new_def WINDOW_BITS_def)

lemma dead_new [simp]: "dead replay_new = {}"
  by (simp add: dead_def replay_new_def)

lemma bit_at_set0:
  assumes "length bm = 16" "n < 1024"
  shows "bit_at (bm[0 := (bm ! 0) OR 1]) n \<longleftrightarrow> n = 0 \<or> bit_at bm n"
  using bit_at_set[OF assms, of 0] by simp

lemma accept_forward:
  assumes "replay_inv w" "initialized w" "high_watermark w < seq"
  shows "fst (accept w seq)"
    and "high_watermark (snd (accept w seq)) = seq"
    and "initialized (snd (accept w seq))"
    and "length (bitmap (snd (accept w seq))) = 16"
    and "n < 1024 \<Longrightarrow> bit_at (bitmap (snd (accept w seq))) n \<longleftrightarrow>
           n = 0 \<or> (unat seq - unat (high_watermark w) \<le> n
                    \<and> bit_at (bitmap w) (n - (unat seq - unat (high_watermark w))))"
proof -
  let ?s = "unat seq - unat (high_watermark w)"
  have sh: "unat (seq - high_watermark w) = ?s"
    using assms(3) by (simp add: unat_sub word_less_nat_alt word_le_nat_alt)
  have len: "length (bitmap w) = 16" using assms(1) by (simp add: replay_inv_def)
  let ?bm = "if ?s \<ge> 1024 then replicate 16 0 else shift_left (bitmap w) ?s"
  have acc: "accept w seq = (True, w\<lparr>bitmap := ?bm[0 := (?bm ! 0) OR 1], high_watermark := seq\<rparr>)"
    using assms(2,3) by (simp add: accept_def Let_def sh WINDOW_BITS_def)
  have lbm: "length ?bm = 16" using len by simp
  show "fst (accept w seq)" "high_watermark (snd (accept w seq)) = seq"
    "initialized (snd (accept w seq))" "length (bitmap (snd (accept w seq))) = 16"
    using assms(2) len by (simp_all add: acc)
  show "bit_at (bitmap (snd (accept w seq))) n \<longleftrightarrow>
           n = 0 \<or> (?s \<le> n \<and> bit_at (bitmap w) (n - ?s))" if "n < 1024"
  proof -
    have "bit_at ?bm n \<longleftrightarrow> ?s \<le> n \<and> bit_at (bitmap w) (n - ?s)"
      using that bit_at_shift_left[OF len that] by simp
    then show ?thesis using bit_at_set0[OF lbm that] by (simp add: acc)
  qed
qed

lemma accept_backward:
  assumes "replay_inv w" "initialized w" "seq \<le> high_watermark w"
  shows "fst (accept w seq) \<longleftrightarrow> seq \<notin> dead w"
    and "high_watermark (snd (accept w seq)) = high_watermark w"
    and "initialized (snd (accept w seq))"
    and "length (bitmap (snd (accept w seq))) = 16"
    and "n < 1024 \<Longrightarrow> bit_at (bitmap (snd (accept w seq))) n \<longleftrightarrow>
           bit_at (bitmap w) n \<or> n = unat (high_watermark w) - unat seq"
proof -
  let ?o = "unat (high_watermark w) - unat seq"
  have off: "unat (high_watermark w - seq) = ?o"
    using assms(3) by (simp add: unat_sub word_le_nat_alt)
  have len: "length (bitmap w) = 16" using assms(1) by (simp add: replay_inv_def)
  have acc: "accept w seq = (if ?o \<ge> 1024 \<or> bit_at (bitmap w) ?o then (False, w)
     else (True, w\<lparr>bitmap := (bitmap w)[?o div 64 := (bitmap w ! (?o div 64)) OR push_bit (?o mod 64) 1]\<rparr>))"
    using assms(2) leD[OF assms(3)] bit_at_mask[of "bitmap w" ?o]
    by (simp add: accept_def Let_def off WINDOW_BITS_def)
  show "fst (accept w seq) \<longleftrightarrow> seq \<notin> dead w"
    using assms(2,3) by (simp add: acc dead_iff word_le_nat_alt)
  show "high_watermark (snd (accept w seq)) = high_watermark w"
    "initialized (snd (accept w seq))" "length (bitmap (snd (accept w seq))) = 16"
    using assms(2) len by (simp_all add: acc)
  show "bit_at (bitmap (snd (accept w seq))) n \<longleftrightarrow> bit_at (bitmap w) n \<or> n = ?o" if "n < 1024"
    using that bit_at_set[OF len that, of ?o] by (auto simp: acc)
qed

lemma accept_first:
  assumes "replay_inv w" "\<not> initialized w"
  shows "fst (accept w seq)"
    and "high_watermark (snd (accept w seq)) = seq"
    and "initialized (snd (accept w seq))"
    and "length (bitmap (snd (accept w seq))) = 16"
    and "n < 1024 \<Longrightarrow> bit_at (bitmap (snd (accept w seq))) n \<longleftrightarrow> n = 0"
proof -
  have len: "length (bitmap w) = 16" and z: "\<And>i. i < 1024 \<Longrightarrow> \<not> bit_at (bitmap w) i"
    using assms by (auto simp: replay_inv_def WINDOW_BITS_def)
  show "fst (accept w seq)" "high_watermark (snd (accept w seq)) = seq"
    "initialized (snd (accept w seq))" "length (bitmap (snd (accept w seq))) = 16"
    using assms len by (simp_all add: accept_def)
  show "bit_at (bitmap (snd (accept w seq))) n \<longleftrightarrow> n = 0" if "n < 1024"
  proof (cases "n div 64 = 0")
    case True
    then show ?thesis using assms len that by (auto simp: accept_def bit_at_def bit_1_iff)
  next
    case False
    then show ?thesis using assms len that z[OF that] by (auto simp: accept_def bit_at_def)
  qed
qed

lemma accept_inv: "replay_inv w \<Longrightarrow> replay_inv (snd (accept w seq))"
proof -
  assume inv: "replay_inv w"
  consider "\<not> initialized w" | "initialized w" "high_watermark w < seq"
    | "initialized w" "seq \<le> high_watermark w" by fastforce
  then show ?thesis
  proof cases
    case 1
    then show ?thesis using accept_first[OF inv 1] by (simp add: replay_inv_def WINDOW_BITS_def)
  next
    case 2
    have "n \<le> unat seq" if "n < 1024" "bit_at (bitmap (snd (accept w seq))) n" for n
    proof (cases "n = 0")
      case False
      then have "n - (unat seq - unat (high_watermark w)) \<le> unat (high_watermark w)"
        using accept_forward(5)[OF inv 2, of n] that inv by (auto simp: replay_inv_def WINDOW_BITS_def)
      then show ?thesis using 2(2) by (simp add: word_less_nat_alt)
    qed simp
    then show ?thesis using accept_forward[OF inv 2] by (simp add: replay_inv_def WINDOW_BITS_def)
  next
    case 3
    then show ?thesis using accept_backward[OF inv 3] inv
      by (auto simp: replay_inv_def WINDOW_BITS_def)
  qed
qed

lemma accept_iff_not_dead:
  assumes "replay_inv w"
  shows "fst (accept w seq) \<longleftrightarrow> seq \<notin> dead w"
proof (cases "initialized w \<and> seq \<le> high_watermark w")
  case True
  then show ?thesis using accept_backward(1)[OF assms] by blast
next
  case False
  then show ?thesis using accept_first(1)[OF assms] accept_forward(1)[OF assms]
    by (cases "initialized w") (auto simp: dead_def)
qed

lemma accept_dead_mono:
  assumes inv: "replay_inv w"
  shows "insert seq (dead w) \<subseteq> dead (snd (accept w seq))"
proof -
  consider "\<not> initialized w" | "initialized w" "high_watermark w < seq"
    | "initialized w" "seq \<le> high_watermark w" by fastforce
  then show ?thesis
  proof cases
    case 1
    then show ?thesis using accept_first[OF inv 1, where seq = seq] accept_first(5)[OF inv 1, where n = 0 and seq = seq]
      by (auto simp: dead_iff)
  next
    case 2
    let ?h = "unat (high_watermark w)" and ?w = "snd (accept w seq)"
    have "t \<in> dead ?w" if t: "t \<in> dead w" for t
    proof (cases "unat seq - unat t < 1024")
      case True
      have "unat t \<le> ?h" "bit_at (bitmap w) (?h - unat t)" "?h < unat seq"
        using t True 2 by (auto simp: dead_iff word_less_nat_alt)
      moreover from this have "unat seq - unat t - (unat seq - ?h) = ?h - unat t"
        "unat seq - ?h \<le> unat seq - unat t" by linarith+
      ultimately show ?thesis
        using accept_forward[OF inv 2] True by (simp add: dead_iff)
    next
      case False
      then show ?thesis using accept_forward[OF inv 2] by (simp add: dead_iff)
    qed
    moreover have "seq \<in> dead ?w" using accept_forward[OF inv 2] by (simp add: dead_iff)
    ultimately show ?thesis by blast
  next
    case 3
    then have "unat seq \<le> unat (high_watermark w)" by (simp add: word_le_nat_alt)
    then have "seq \<in> dead (snd (accept w seq))"
      using accept_backward[OF inv 3] by (cases "unat (high_watermark w) - unat seq < 1024") (auto simp: dead_iff)
    moreover have "dead w \<subseteq> dead (snd (accept w seq))"
    proof
      fix t assume "t \<in> dead w"
      then show "t \<in> dead (snd (accept w seq))"
        using accept_backward[OF inv 3]
        by (cases "unat (high_watermark w) - unat t < 1024") (auto simp: dead_iff)
    qed
    ultimately show ?thesis by blast
  qed
qed

subsection \<open>The interface the receive path relies on\<close>

text \<open>
  A replay guard answers whether a packet number is fresh. Its promise: the
  numbers it refuses only grow, and every number it was asked about is refused
  from then on.
\<close>

locale replay_guard =
  fixes ask :: "'w \<Rightarrow> 'n \<Rightarrow> bool \<times> 'w"
    and refused :: "'w \<Rightarrow> 'n set"
    and guard_inv :: "'w \<Rightarrow> bool"
  assumes ask_iff: "guard_inv w \<Longrightarrow> fst (ask w n) \<longleftrightarrow> n \<notin> refused w"
    and ask_refuses: "guard_inv w \<Longrightarrow> insert n (refused w) \<subseteq> refused (snd (ask w n))"
    and ask_inv: "guard_inv w \<Longrightarrow> guard_inv (snd (ask w n))"
begin

lemma fresh_not_refused:
  "guard_inv w \<Longrightarrow> set (chosen (fst (run ask w ns)) ns) \<inter> refused w = {}"
proof (induction ns arbitrary: w)
  case Nil
  then show ?case by simp
next
  case (Cons n ns)
  have "set (chosen (fst (run ask (snd (ask w n)) ns)) ns) \<inter> refused (snd (ask w n)) = {}"
    by (rule Cons.IH) (rule ask_inv[OF Cons.prems])
  with ask_iff[OF Cons.prems, of n] ask_refuses[OF Cons.prems, of n] show ?case
    by (auto simp: split_beta Let_def)
qed

lemma fresh_distinct: "guard_inv w \<Longrightarrow> distinct (chosen (fst (run ask w ns)) ns)"
proof (induction ns arbitrary: w)
  case Nil
  then show ?case by simp
next
  case (Cons n ns)
  have inv': "guard_inv (snd (ask w n))" by (rule ask_inv[OF Cons.prems])
  have "n \<notin> set (chosen (fst (run ask (snd (ask w n)) ns)) ns)"
    using fresh_not_refused[OF inv', of ns] ask_refuses[OF Cons.prems, of n] by auto
  with Cons.IH[OF inv'] show ?case by (simp add: split_beta Let_def)
qed

end

interpretation window: replay_guard accept dead replay_inv
  by unfold_locales (rule accept_iff_not_dead accept_dead_mono accept_inv; assumption)+

subsection \<open>History-based specification\<close>

text \<open>
  The specification keeps every number ever accepted. A number is accepted when
  it is above all of them, or less than a window below the highest and new.
\<close>

definition spec_accepts :: "nat set \<Rightarrow> nat \<Rightarrow> bool" where
  "spec_accepts H s \<longleftrightarrow> H = {} \<or> Max H < s \<or> (Max H - s < WINDOW_BITS \<and> s \<notin> H)"

definition spec_step :: "nat set \<Rightarrow> nat \<Rightarrow> bool \<times> nat set" where
  "spec_step H s = (spec_accepts H s, if spec_accepts H s then insert s H else H)"

definition window_rel :: "replay_window \<Rightarrow> nat set \<Rightarrow> bool" where
  "window_rel w H \<longleftrightarrow> replay_inv w \<and> finite H \<and> (initialized w \<longleftrightarrow> H \<noteq> {})
     \<and> (H \<noteq> {} \<longrightarrow> Max H = unat (high_watermark w))
     \<and> (\<forall>i<1024. bit_at (bitmap w) i \<longleftrightarrow>
            H \<noteq> {} \<and> i \<le> unat (high_watermark w) \<and> unat (high_watermark w) - i \<in> H)"

lemma window_rel_new: "window_rel replay_new {}"
  using replay_new_inv by (simp add: window_rel_def) (simp add: replay_new_def)

lemma window_rel_le: "window_rel w H \<Longrightarrow> s \<in> H \<Longrightarrow> s \<le> unat (high_watermark w)"
  unfolding window_rel_def by (metis Max_ge empty_iff)

lemma window_rel_dead:
  assumes "window_rel w H"
  shows "fst (accept w seq) \<longleftrightarrow> spec_accepts H (unat seq)"
proof -
  have "seq \<in> dead w \<longleftrightarrow> \<not> spec_accepts H (unat seq)"
  proof (cases "H = {}")
    case True
    then show ?thesis using assms by (simp add: window_rel_def dead_def spec_accepts_def)
  next
    case False
    then show ?thesis
      using assms by (auto simp: window_rel_def dead_iff spec_accepts_def WINDOW_BITS_def not_less)
  qed
  then show ?thesis using accept_iff_not_dead assms by (auto simp: window_rel_def)
qed

lemma window_rel_step:
  assumes rel: "window_rel w H"
  shows "window_rel (snd (accept w seq)) (snd (spec_step H (unat seq)))"
proof -
  have inv: "replay_inv w" and fin: "finite H" and ini: "initialized w \<longleftrightarrow> H \<noteq> {}"
    using rel by (auto simp: window_rel_def)
  have inv': "replay_inv (snd (accept w seq))" by (rule accept_inv[OF inv])
  consider "\<not> initialized w" | "initialized w" "high_watermark w < seq"
    | "initialized w" "seq \<le> high_watermark w" by fastforce
  then show ?thesis
  proof cases
    case 1
    then have "H = {}" using ini by simp
    moreover have "(i = 0) = (i \<le> unat seq \<and> unat seq - i = unat seq)" for i by auto
    ultimately show ?thesis using accept_first[OF inv 1, where seq = seq] inv'
      by (simp add: window_rel_def spec_step_def spec_accepts_def)
  next
    case 2
    let ?h = "unat (high_watermark w)"
    have H: "H \<noteq> {}" "Max H = ?h" and lt: "?h < unat seq"
      using rel 2 by (auto simp: window_rel_def word_less_nat_alt)
    have le: "\<And>s. s \<in> H \<Longrightarrow> s \<le> ?h" by (rule window_rel_le[OF rel])
    have spec: "snd (spec_step H (unat seq)) = insert (unat seq) H"
      using H lt by (simp add: spec_step_def spec_accepts_def)
    have "Max (insert (unat seq) H) = unat seq" using H fin lt by simp
    moreover have "bit_at (bitmap (snd (accept w seq))) i \<longleftrightarrow>
        i \<le> unat seq \<and> unat seq - i \<in> insert (unat seq) H" if i: "i < 1024" for i
    proof -
      have b: "bit_at (bitmap w) k \<longleftrightarrow> k \<le> ?h \<and> ?h - k \<in> H" if "k < 1024" for k
        using rel that H by (simp add: window_rel_def)
      have "unat seq - ?h \<le> i \<and> bit_at (bitmap w) (i - (unat seq - ?h)) \<longleftrightarrow>
          i \<le> unat seq \<and> unat seq - i \<in> H"
      proof (cases "unat seq - ?h \<le> i")
        case True
        then have "i - (unat seq - ?h) \<le> ?h \<longleftrightarrow> i \<le> unat seq"
          "?h - (i - (unat seq - ?h)) = unat seq - i" using lt by linarith+
        then show ?thesis using b[of "i - (unat seq - ?h)"] i True by simp
      next
        case False
        then show ?thesis using le[of "unat seq - i"] by auto
      qed
      then show ?thesis using accept_forward(5)[OF inv 2 i] lt by (cases "i = 0") auto
    qed
    ultimately show ?thesis
      using accept_forward[OF inv 2] inv' fin by (simp add: window_rel_def spec)
  next
    case 3
    let ?h = "unat (high_watermark w)"
    have H: "H \<noteq> {}" "Max H = ?h" and le: "unat seq \<le> ?h"
      using rel 3 by (auto simp: window_rel_def word_le_nat_alt)
    have b: "bit_at (bitmap w) k \<longleftrightarrow> k \<le> ?h \<and> ?h - k \<in> H" if "k < 1024" for k
      using rel that H by (simp add: window_rel_def)
    let ?H' = "snd (spec_step H (unat seq))"
    have fin': "finite ?H'" "?H' \<noteq> {}" using fin H by (simp_all add: spec_step_def)
    have max': "Max ?H' = ?h" using H fin le by (simp add: spec_step_def)
    have "bit_at (bitmap (snd (accept w seq))) i \<longleftrightarrow> i \<le> ?h \<and> ?h - i \<in> ?H'" if i: "i < 1024" for i
      using accept_backward(5)[OF inv 3 i] b[OF i] le H i
      by (auto simp: spec_step_def spec_accepts_def WINDOW_BITS_def)
    then show ?thesis
      using accept_backward[OF inv 3] inv' fin' max' by (simp add: window_rel_def)
  qed
qed

lemma run_refines:
  "window_rel w H \<Longrightarrow> fst (run accept w seqs) = fst (run spec_step H (map unat seqs))"
proof (induction seqs arbitrary: w H)
  case (Cons s seqs)
  then show ?case
    using window_rel_dead[OF Cons.prems] Cons.IH[OF window_rel_step[OF Cons.prems]]
    by (simp add: split_beta Let_def spec_step_def)
qed simp

subsection \<open>Properties\<close>

text \<open>
  C34. The word-level window implements its history-based specification: on
  every sequence of packet numbers, starting from an empty window, it gives the
  same accept/reject answers as the specification that remembers every accepted
  number and accepts a number iff it exceeds all of them, or lies less than
  1024 below the highest and was not accepted before.
\<close>

theorem accept_refines_history:
  "accept_all seqs = fst (run spec_step {} (map unat seqs))"
  unfolding accept_all_def by (rule run_refines[OF window_rel_new])

text \<open>
  Anti-replay safety: whatever sequence of packet numbers arrives, in any
  order and with any duplicates, no number is accepted twice.
\<close>

theorem accept_at_most_once: "distinct (chosen (accept_all seqs) seqs)"
  unfolding accept_all_def by (rule window.fresh_distinct[OF replay_new_inv])

end
