(* ===== verification/Wire_Types.thy ===== *)
theory Wire_Types
  imports Phantom_Prelude
begin

text \<open>
  The on-wire data packet of \<open>transport/types.rs\<close> (wire version 8): flags, the
  15-byte header and its 47-byte authenticated image, packets, and the
  header-protection codec (\<open>to_wire_masked\<close>, \<open>RawPacket\<close>). The mask is an
  argument, as in the source: this layer does no cryptography.
\<close>

subsection \<open>Identifiers and flags\<close>

type_synonym session_id = bytes
type_synonym stream_id = u16
type_synonym packet_number = u64

definition WIRE_VERSION :: u8 where "WIRE_VERSION = 8"
definition CONTROL_CLOSE :: u8 where "CONTROL_CLOSE = 1"
definition CONTROL_SUBTYPE_LEN :: nat where "CONTROL_SUBTYPE_LEN = 1"
definition WINDOW_UPDATE_PAYLOAD_LEN :: nat where "WINDOW_UPDATE_PAYLOAD_LEN = 8"
definition HP_PROTECTED_OFFSET :: nat where "HP_PROTECTED_OFFSET = 0"
definition HEADER_SIZE :: nat where "HEADER_SIZE = 15"
definition AAD_SIZE :: nat where "AAD_SIZE = 47"
definition HP_PROTECTED_LEN :: nat where "HP_PROTECTED_LEN = HEADER_SIZE - HP_PROTECTED_OFFSET"

lemmas wire_consts = HEADER_SIZE_def AAD_SIZE_def HP_PROTECTED_OFFSET_def HP_PROTECTED_LEN_def

datatype wire_error = Truncated

type_synonym packet_flags = u16

definition F_RELIABLE :: packet_flags where "F_RELIABLE = 0x0001"
definition F_ACK :: packet_flags where "F_ACK = 0x0002"
definition F_FIN :: packet_flags where "F_FIN = 0x0004"
definition F_UNRELIABLE :: packet_flags where "F_UNRELIABLE = 0x0008"
definition F_PRIORITY :: packet_flags where "F_PRIORITY = 0x0010"
definition F_ENCRYPTED :: packet_flags where "F_ENCRYPTED = 0x0020"
definition F_COMPRESSED :: packet_flags where "F_COMPRESSED = 0x0040"
definition F_CONTROL :: packet_flags where "F_CONTROL = 0x0080"
definition F_REKEY :: packet_flags where "F_REKEY = 0x0100"
definition F_PATH_VALIDATION :: packet_flags where "F_PATH_VALIDATION = 0x0200"
definition F_COALESCED :: packet_flags where "F_COALESCED = 0x0400"
definition F_WINDOW_UPDATE :: packet_flags where "F_WINDOW_UPDATE = 0x0800"
definition F_KEEPALIVE :: packet_flags where "F_KEEPALIVE = 0x1000"
definition F_PADDED :: packet_flags where "F_PADDED = 0x2000"
definition F_COVER :: packet_flags where "F_COVER = 0x4000"

lemmas flag_defs = F_RELIABLE_def F_ACK_def F_FIN_def F_UNRELIABLE_def F_PRIORITY_def
  F_ENCRYPTED_def F_COMPRESSED_def F_CONTROL_def F_REKEY_def F_PATH_VALIDATION_def
  F_COALESCED_def F_WINDOW_UPDATE_def F_KEEPALIVE_def F_PADDED_def F_COVER_def

definition flags_contains :: "packet_flags \<Rightarrow> u16 \<Rightarrow> bool" where
  "flags_contains f flag \<longleftrightarrow> (f AND flag) = flag"

definition flags_set :: "packet_flags \<Rightarrow> u16 \<Rightarrow> packet_flags" where
  "flags_set f flag = f OR flag"

definition flags_clear :: "packet_flags \<Rightarrow> u16 \<Rightarrow> packet_flags" where
  "flags_clear f flag = f AND NOT flag"

lemma flags_contains_set [simp]: "flags_contains (flags_set f x) x"
  by (simp add: flags_contains_def flags_set_def and.commute or.commute)

lemma flags_contains_bits: "flags_contains f x \<longleftrightarrow> (\<forall>n<16. bit x n \<longrightarrow> bit f n)"
  by (auto simp: flags_contains_def bit_eq_iff bit_simps)

lemma flags_contains_set_mono: "flags_contains f y \<Longrightarrow> flags_contains (flags_set f x) y"
  by (auto simp: flags_contains_bits flags_set_def bit_simps)

lemma flags_contains_clear: "x AND y = 0 \<Longrightarrow> flags_contains (flags_clear f x) y \<longleftrightarrow> flags_contains f y"
  by (auto simp: flags_contains_bits flags_clear_def bit_simps bit_eq_iff)

subsection \<open>Packet header\<close>

record packet_header =
  hdr_version :: u8
  hdr_session_id :: session_id
  hdr_stream_id :: stream_id
  hdr_packet_number :: packet_number
  hdr_flags :: packet_flags
  hdr_epoch :: u8
  hdr_path_id :: u8

definition header_new :: "session_id \<Rightarrow> stream_id \<Rightarrow> packet_number \<Rightarrow> packet_flags \<Rightarrow> packet_header" where
  "header_new sid stream pn flags =
     \<lparr>hdr_version = WIRE_VERSION, hdr_session_id = sid, hdr_stream_id = stream,
      hdr_packet_number = pn, hdr_flags = flags, hdr_epoch = 0, hdr_path_id = 0\<rparr>"

definition with_epoch :: "packet_header \<Rightarrow> u8 \<Rightarrow> packet_header" where
  "with_epoch h e = h\<lparr>hdr_epoch := e\<rparr>"

definition with_path_id :: "packet_header \<Rightarrow> u8 \<Rightarrow> packet_header" where
  "with_path_id h p = h\<lparr>hdr_path_id := p\<rparr>"

definition header_to_wire :: "packet_header \<Rightarrow> bytes" where
  "header_to_wire h =
     [hdr_version h] @ to_be_bytes (hdr_packet_number h) @ to_be_bytes (hdr_flags h)
     @ to_be_bytes (hdr_stream_id h) @ [hdr_epoch h] @ [hdr_path_id h]"

definition to_aad_image :: "packet_header \<Rightarrow> bytes" where
  "to_aad_image h =
     [hdr_version h] @ hdr_session_id h @ to_be_bytes (hdr_packet_number h)
     @ to_be_bytes (hdr_flags h) @ to_be_bytes (hdr_stream_id h) @ [hdr_epoch h] @ [hdr_path_id h]"

definition zero_session_id :: session_id where "zero_session_id = replicate 32 0"

definition header_from_wire :: "bytes \<Rightarrow> (wire_error, packet_header) result" where
  "header_from_wire bs =
     (if length bs < HEADER_SIZE then Err Truncated
      else Ok \<lparr>hdr_version = bs ! 0, hdr_session_id = zero_session_id,
               hdr_stream_id = from_be_bytes (subslice 11 2 bs),
               hdr_packet_number = from_be_bytes (subslice 1 8 bs),
               hdr_flags = from_be_bytes (subslice 9 2 bs),
               hdr_epoch = bs ! 13, hdr_path_id = bs ! 14\<rparr>)"

subsection \<open>Packets\<close>

record phantom_packet =
  pkt_header :: packet_header
  pkt_payload :: bytes
  pkt_extensions :: bytes

definition packet_new :: "packet_header \<Rightarrow> bytes \<Rightarrow> phantom_packet" where
  "packet_new h p = \<lparr>pkt_header = h, pkt_payload = p, pkt_extensions = []\<rparr>"

definition packet_ack :: "session_id \<Rightarrow> stream_id \<Rightarrow> u64 \<Rightarrow> phantom_packet" where
  "packet_ack sid stream pn =
     \<lparr>pkt_header = header_new sid stream pn F_ACK, pkt_payload = [], pkt_extensions = []\<rparr>"

definition packet_wire_size :: "phantom_packet \<Rightarrow> nat" where
  "packet_wire_size p = HEADER_SIZE + length (pkt_payload p)"

definition packet_to_wire :: "phantom_packet \<Rightarrow> bytes" where
  "packet_to_wire p = header_to_wire (pkt_header p) @ pkt_payload p"

text \<open>\<open>for (b, m) in region.iter_mut().zip(mask) { *b ^= *m }\<close>\<close>

fun xor_zip :: "bytes \<Rightarrow> bytes \<Rightarrow> bytes" where
  "xor_zip (b # bs) (m # ms) = (b XOR m) # xor_zip bs ms"
| "xor_zip bs [] = bs"
| "xor_zip [] ms = []"

definition to_wire_masked :: "phantom_packet \<Rightarrow> bytes \<Rightarrow> bytes" where
  "to_wire_masked p msk =
     (let buf = packet_to_wire p
      in take HP_PROTECTED_OFFSET buf
         @ xor_zip (subslice HP_PROTECTED_OFFSET (HEADER_SIZE - HP_PROTECTED_OFFSET) buf) msk
         @ drop HEADER_SIZE buf)"

definition packet_from_wire :: "bytes \<Rightarrow> (wire_error, phantom_packet) result" where
  "packet_from_wire bs =
     (case header_from_wire bs of Inl e \<Rightarrow> Err e
      | Inr h \<Rightarrow> Ok \<lparr>pkt_header = h, pkt_payload = drop HEADER_SIZE bs, pkt_extensions = []\<rparr>)"

record raw_packet =
  masked_header :: bytes
  raw_payload :: bytes
  raw_extensions :: bytes

definition raw_from_wire :: "bytes \<Rightarrow> (wire_error, raw_packet) result" where
  "raw_from_wire bs =
     (if length bs < HEADER_SIZE then Err Truncated
      else Ok \<lparr>masked_header = subslice HP_PROTECTED_OFFSET HP_PROTECTED_LEN bs,
               raw_payload = drop HEADER_SIZE bs, raw_extensions = []\<rparr>)"

definition unmask_header :: "raw_packet \<Rightarrow> bytes \<Rightarrow> (wire_error, packet_header) result" where
  "unmask_header r msk =
     (if length msk < HP_PROTECTED_LEN then Err Truncated
      else header_from_wire (xor_zip (masked_header r) msk))"

definition into_packet :: "raw_packet \<Rightarrow> packet_header \<Rightarrow> phantom_packet" where
  "into_packet r h = \<lparr>pkt_header = h, pkt_payload = raw_payload r, pkt_extensions = raw_extensions r\<rparr>"

subsection \<open>Transport-leg labels\<close>

datatype leg_type = Kcp | Tcp | FakeTls | Udp

fun leg_is_reliable :: "leg_type \<Rightarrow> bool" where
  "leg_is_reliable l = (case l of Kcp \<Rightarrow> True | Tcp \<Rightarrow> True | FakeTls \<Rightarrow> True | Udp \<Rightarrow> True)"

fun leg_is_obfuscated :: "leg_type \<Rightarrow> bool" where
  "leg_is_obfuscated FakeTls = True"
| "leg_is_obfuscated _ = False"

subsection \<open>Lemmas\<close>

lemma length_header_to_wire [simp]: "length (header_to_wire h) = 15"
  by (simp add: header_to_wire_def)

lemma length_to_aad_image [simp]:
  "length (hdr_session_id h) = 32 \<Longrightarrow> length (to_aad_image h) = AAD_SIZE"
  by (simp add: to_aad_image_def AAD_SIZE_def)

lemma length_packet_to_wire: "length (packet_to_wire p) = packet_wire_size p"
  by (simp add: packet_to_wire_def packet_wire_size_def HEADER_SIZE_def)

lemma length_xor_zip [simp]: "length (xor_zip bs ms) = length bs"
  by (induction bs ms rule: xor_zip.induct) auto

lemma xor_zip_invol [simp]: "xor_zip (xor_zip bs ms) ms = bs"
  by (induction bs ms rule: xor_zip.induct) (auto simp: xor.assoc)

lemma header_from_to_wire:
  "header_from_wire (header_to_wire h @ rest) = Ok (h\<lparr>hdr_session_id := zero_session_id\<rparr>)"
proof -
  let ?w = "header_to_wire h @ rest"
  have "subslice 1 8 ?w = to_be_bytes (hdr_packet_number h)"
    "subslice 9 2 ?w = to_be_bytes (hdr_flags h)"
    "subslice 11 2 ?w = to_be_bytes (hdr_stream_id h)"
    by (simp_all add: header_to_wire_def subslice_def)
  moreover have "?w ! 0 = hdr_version h" "?w ! 13 = hdr_epoch h" "?w ! 14 = hdr_path_id h"
    by (simp_all add: header_to_wire_def nth_append)
  ultimately show ?thesis by (simp add: header_from_wire_def HEADER_SIZE_def)
qed

lemma header_to_from_wire:
  assumes "header_from_wire bs = Ok h"
  shows "header_to_wire h = take 15 bs"
proof -
  have len: "length bs \<ge> 15" using assms by (auto simp: header_from_wire_def HEADER_SIZE_def split: if_splits)
  have h: "to_be_bytes (hdr_packet_number h) = subslice 1 8 bs"
    "to_be_bytes (hdr_flags h) = subslice 9 2 bs"
    "to_be_bytes (hdr_stream_id h) = subslice 11 2 bs"
    "hdr_version h = bs ! 0" "hdr_epoch h = bs ! 13" "hdr_path_id h = bs ! 14"
    using assms len by (auto simp: header_from_wire_def HEADER_SIZE_def to_from_be_bytes split: if_splits)
  have cat: "take n (drop i bs) @ take m (drop (i + n) bs) = take (n + m) (drop i bs)" for i n m
    by (simp add: take_add add.commute[of i])
  have one: "[bs ! i] = take 1 (drop i bs)" if "i < 15" for i
    using that len by (simp add: take_Suc_conv_app_nth take_Suc hd_drop_conv_nth)
  have "header_to_wire h = take 1 (drop 0 bs) @ take 8 (drop (0+1) bs) @ take 2 (drop (0+9) bs)
      @ take 2 (drop (0+11) bs) @ take 1 (drop (0+13) bs) @ take 1 (drop (0+14) bs)"
    using one[of 0] one[of 13] one[of 14] by (simp add: header_to_wire_def h subslice_def)
  also have "\<dots> = take 15 (drop 0 bs)"
    using cat[of 1 0 8] cat[of 9 0 2] cat[of 11 0 2] cat[of 13 0 1] cat[of 14 0 1]
    by (simp flip: append_assoc)
  finally show ?thesis by simp
qed

lemma to_aad_image_inj:
  assumes "length (hdr_session_id h) = 32" "length (hdr_session_id h') = 32"
    and "to_aad_image h = to_aad_image h'"
  shows "h = h'"
proof -
  have "hdr_session_id h = hdr_session_id h'"
    "to_be_bytes (hdr_packet_number h) = to_be_bytes (hdr_packet_number h')"
    "to_be_bytes (hdr_flags h) = to_be_bytes (hdr_flags h')"
    "to_be_bytes (hdr_stream_id h) = to_be_bytes (hdr_stream_id h')"
    "hdr_version h = hdr_version h'" "hdr_epoch h = hdr_epoch h'" "hdr_path_id h = hdr_path_id h'"
    using assms by (simp_all add: to_aad_image_def)
  then show ?thesis
    by (auto intro!: packet_header.equality dest: to_be_bytes_inj[rotated])
qed

lemma raw_masked_from_wire:
  "raw_from_wire (to_wire_masked p msk) =
     Ok \<lparr>masked_header = xor_zip (header_to_wire (pkt_header p)) msk,
         raw_payload = pkt_payload p, raw_extensions = []\<rparr>"
  by (simp add: raw_from_wire_def to_wire_masked_def packet_to_wire_def wire_consts subslice_def)

lemma unmask_masked:
  assumes "length msk \<ge> HP_PROTECTED_LEN"
  shows "unmask_header \<lparr>masked_header = xor_zip (header_to_wire h) msk,
           raw_payload = pl, raw_extensions = ex\<rparr> msk = Ok (h\<lparr>hdr_session_id := zero_session_id\<rparr>)"
  using assms header_from_to_wire[of h "[]"] by (simp add: unmask_header_def)

subsection \<open>Properties\<close>

definition recv_unmask :: "bytes \<Rightarrow> bytes \<Rightarrow> (wire_error, phantom_packet) result" where
  "recv_unmask wire msk =
     (case raw_from_wire wire of Inl e \<Rightarrow> Err e
      | Inr r \<Rightarrow> (case unmask_header r msk of Inl e \<Rightarrow> Err e | Inr h \<Rightarrow> Ok (into_packet r h)))"

text \<open>
  Header protection round trip: a packet serialised under any mask of at
  least 15 bytes, then parsed as a raw packet, unmasked with the same mask and
  reassembled, is the packet that was sent, with the off-wire fields (session
  identifier, extensions) at their placeholders.
\<close>

theorem masked_packet_round_trip:
  assumes "HP_PROTECTED_LEN \<le> length msk"
  shows "recv_unmask (to_wire_masked p msk) msk =
    Ok \<lparr>pkt_header = (pkt_header p)\<lparr>hdr_session_id := zero_session_id\<rparr>,
        pkt_payload = pkt_payload p, pkt_extensions = []\<rparr>"
  using unmask_masked[OF assms]
  by (simp add: recv_unmask_def raw_masked_from_wire into_packet_def)

theorem masked_packet_round_trip_witness:
  "HP_PROTECTED_LEN \<le> length (replicate 16 (0xA5 :: u8)) \<and>
   recv_unmask (to_wire_masked (packet_new (header_new (replicate 32 7) 3 5 F_ACK) [1, 2]) (replicate 16 0xA5))
     (replicate 16 0xA5) =
   Ok \<lparr>pkt_header = (header_new (replicate 32 7) 3 5 F_ACK)\<lparr>hdr_session_id := zero_session_id\<rparr>,
       pkt_payload = [1, 2], pkt_extensions = []\<rparr>"
  using masked_packet_round_trip[of "replicate 16 0xA5" "packet_new (header_new (replicate 32 7) 3 5 F_ACK) [1, 2]"]
  by (simp add: wire_consts packet_new_def)

text \<open>
  The authenticated header image determines the header: two headers with
  32-byte session identifiers and the same 47-byte image are equal, so every
  header field, the off-wire session identifier included, is bound by the AEAD.
\<close>

theorem aad_image_binds_header:
  assumes "length (hdr_session_id h) = 32" "length (hdr_session_id h') = 32"
  shows "to_aad_image h = to_aad_image h' \<longleftrightarrow> h = h'"
  using to_aad_image_inj[OF assms] by auto

theorem aad_image_binds_header_witness:
  "let h = header_new (replicate 32 7) 3 5 F_ACK; h' = with_epoch h 1
   in length (hdr_session_id h) = 32 \<and> length (hdr_session_id h') = 32
      \<and> to_aad_image h \<noteq> to_aad_image h'"
  using aad_image_binds_header[of "header_new (replicate 32 7) 3 5 F_ACK"
      "with_epoch (header_new (replicate 32 7) 3 5 F_ACK) 1"]
  by (simp add: header_new_def with_epoch_def Let_def)

end
