(* ===== verification/Sack_Codec.thy ===== *)
theory Sack_Codec
  imports Phantom_Prelude
begin

text \<open>
  The selective-acknowledgement frame of \<open>transport/sack.rs\<close>: inclusive ranges
  of stream offsets, highest first, the constructors that coalesce and cap
  them, and the delta-encoded wire form with its validating decoder.
  Sorting with equal keys is the stable sort here; the set of ranges produced
  does not depend on that choice.
\<close>

subsection \<open>Frames, construction, wire form\<close>

definition MAX_SACK_RANGES :: nat where "MAX_SACK_RANGES = 32"
definition MIN_WIRE_LEN :: nat where "MIN_WIRE_LEN = 14"
definition FIXED_HDR_LEN :: nat where "FIXED_HDR_LEN = 10"
definition CONTINUATION_BYTES :: nat where "CONTINUATION_BYTES = 8"
definition MAX_SACK_WIRE :: nat where
  "MAX_SACK_WIRE = MIN_WIRE_LEN + CONTINUATION_BYTES * (MAX_SACK_RANGES - 1)"

lemmas sack_consts = MAX_SACK_RANGES_def MIN_WIRE_LEN_def FIXED_HDR_LEN_def
  CONTINUATION_BYTES_def MAX_SACK_WIRE_def

record sack =
  largest_acked :: u32
  ack_delay_us :: u32
  sack_ranges :: "(u32 \<times> u32) list"

datatype sack_error = Truncated | TooManyRanges | Malformed

text \<open>One iteration of the coalescing loop: \<open>asc.last_mut()\<close> is extended or a range is pushed.\<close>

definition coalesce_step :: "(u32 \<times> u32) list \<Rightarrow> u32 \<times> u32 \<Rightarrow> (u32 \<times> u32) list" where
  "coalesce_step asc r =
     (case r of (lo, hi) \<Rightarrow>
        if asc \<noteq> [] \<and> lo \<le> sat_add (snd (last asc)) 1 then
          if hi > snd (last asc) then butlast asc @ [(fst (last asc), hi)] else asc
        else asc @ [(lo, hi)])"

definition coalesce_seq :: "(u32 \<times> u32) list \<Rightarrow> u32 \<Rightarrow> (u32 \<times> u32) list" where
  "coalesce_seq asc seq =
     (if asc \<noteq> [] \<and> seq \<le> sat_add (snd (last asc)) 1 then
        if seq > snd (last asc) then butlast asc @ [(fst (last asc), seq)] else asc
      else asc @ [(seq, seq)])"

definition from_ascending_coalesced :: "(u32 \<times> u32) list \<Rightarrow> u32 \<Rightarrow> sack option" where
  "from_ascending_coalesced asc delay =
     (if asc = [] then None
      else let desc = rev asc;
               kept = (if length desc > MAX_SACK_RANGES
                       then take (MAX_SACK_RANGES - 1) desc @ [last desc] else desc)
           in Some \<lparr>largest_acked = snd (kept ! 0), ack_delay_us = delay, sack_ranges = kept\<rparr>)"

definition from_received :: "u32 list \<Rightarrow> u32 \<Rightarrow> sack option" where
  "from_received received delay =
     (if received = [] then None
      else from_ascending_coalesced (foldl coalesce_seq [] (sort received)) delay)"

definition from_inclusive_ranges :: "(u32 \<times> u32) list \<Rightarrow> u32 \<Rightarrow> sack option" where
  "from_inclusive_ranges rs delay =
     (if rs = [] then None
      else from_ascending_coalesced (foldl coalesce_step [] (sort_key fst rs)) delay)"

fun encode_conts :: "u32 \<Rightarrow> (u32 \<times> u32) list \<Rightarrow> bytes" where
  "encode_conts prev_low [] = []"
| "encode_conts prev_low ((low, high) # rs) =
     to_be_bytes (sat_sub (sat_sub prev_low 1) high) @ to_be_bytes (high - low) @ encode_conts low rs"

definition sack_to_wire :: "sack \<Rightarrow> bytes" where
  "sack_to_wire s =
     (let range_count_wire = (word_of_nat (min (length (sack_ranges s)) 65535) :: u16);
          (first_low, first_high) = sack_ranges s ! 0
      in to_be_bytes (largest_acked s) @ to_be_bytes (ack_delay_us s) @ to_be_bytes range_count_wire
         @ to_be_bytes (first_high - first_low) @ encode_conts first_low (drop 1 (sack_ranges s)))"

text \<open>The continuation loop of the decoder: \<open>n\<close> ranges left, read position, low end of the previous range.\<close>

fun decode_conts :: "nat \<Rightarrow> bytes \<Rightarrow> nat \<Rightarrow> u32 \<Rightarrow> (sack_error, (u32 \<times> u32) list) result" where
  "decode_conts 0 buf pos prev_low = Ok []"
| "decode_conts (Suc n) buf pos prev_low =
     (let gap = from_be_bytes (subslice pos 4 buf);
          len = from_be_bytes (subslice (pos + 4) 4 buf)
      in if gap = 0 then Err Malformed
         else case checked_sub prev_low 1 of None \<Rightarrow> Err Malformed
         | Some below_prev \<Rightarrow>
           (case checked_sub below_prev gap of None \<Rightarrow> Err Malformed
            | Some high \<Rightarrow>
              (case checked_sub high len of None \<Rightarrow> Err Malformed
               | Some low \<Rightarrow>
                 if low > high then Err Malformed
                 else case decode_conts n buf (pos + 8) low of Inl e \<Rightarrow> Err e
                      | Inr rs \<Rightarrow> Ok ((low, high) # rs))))"

definition sack_from_wire :: "bytes \<Rightarrow> (sack_error, sack) result" where
  "sack_from_wire buf =
     (if length buf < MIN_WIRE_LEN then Err Truncated
      else let largest = from_be_bytes (subslice 0 4 buf);
               delay = from_be_bytes (subslice 4 4 buf);
               range_count = unat (from_be_bytes (subslice 8 2 buf) :: u16)
           in if range_count = 0 then Err Malformed
              else if range_count > MAX_SACK_RANGES then Err TooManyRanges
              else let needed = FIXED_HDR_LEN + 4 + CONTINUATION_BYTES * (range_count - 1)
                   in if length buf < needed then Err Truncated
                      else let first_len = from_be_bytes (subslice 10 4 buf)
                           in case checked_sub largest first_len of None \<Rightarrow> Err Malformed
                              | Some first_low \<Rightarrow>
                                (case decode_conts (range_count - 1) buf 14 first_low of Inl e \<Rightarrow> Err e
                                 | Inr rs \<Rightarrow> Ok \<lparr>largest_acked = largest, ack_delay_us = delay,
                                                sack_ranges = (first_low, largest) # rs\<rparr>))"

fun range_acks :: "(u32 \<times> u32) list \<Rightarrow> u32 \<Rightarrow> bool" where
  "range_acks [] seq = False"
| "range_acks ((low, high) # rs) seq = (if seq \<ge> low \<and> seq \<le> high then True else range_acks rs seq)"

definition acks :: "sack \<Rightarrow> u32 \<Rightarrow> bool" where
  "acks s seq = range_acks (sack_ranges s) seq"

subsection \<open>Well-formed frames\<close>

fun desc_chain :: "u32 \<Rightarrow> (u32 \<times> u32) list \<Rightarrow> bool" where
  "desc_chain prev_low [] = True"
| "desc_chain prev_low ((low, high) # rs) =
     (low \<le> high \<and> unat high + 1 < unat prev_low \<and> desc_chain low rs)"

definition wf_sack :: "sack \<Rightarrow> bool" where
  "wf_sack s \<longleftrightarrow> (case sack_ranges s of [] \<Rightarrow> False
     | (low, high) # rs \<Rightarrow> high = largest_acked s \<and> low \<le> high \<and> desc_chain low rs
                          \<and> length rs < MAX_SACK_RANGES)"

lemma range_acks_iff: "range_acks rs s \<longleftrightarrow> (\<exists>r\<in>set rs. fst r \<le> s \<and> s \<le> snd r)"
  by (induction rs s rule: range_acks.induct) auto

subsection \<open>Codec\<close>

lemma subslice_split: "subslice i n xs @ subslice (i + n) m xs = subslice i (n + m) xs"
  by (simp add: subslice_def take_add add.commute[of i])

lemma length_encode_conts [simp]: "length (encode_conts pl rs) = 8 * length rs"
  by (induction pl rs rule: encode_conts.induct) auto

lemma subslice_prefix: "subslice (length pre) n (pre @ xs) = take n xs"
  by (simp add: subslice_def)

lemma gap_facts:
  assumes "unat high + 1 < unat (pl :: u32)"
  shows "1 \<le> pl" and "high \<le> pl - 1" and "pl - 1 - high \<noteq> 0"
    and "sat_sub (sat_sub pl 1) high = pl - 1 - high"
proof -
  show 1: "1 \<le> pl" using assms by (simp add: word_le_nat_alt)
  have pl1: "unat (pl - 1) = unat pl - 1" using 1 by (simp add: unat_sub)
  show 2: "high \<le> pl - 1" using assms by (simp add: word_le_nat_alt pl1)
  have "unat (pl - 1 - high) = unat pl - 1 - unat high" using 2 by (simp add: unat_sub pl1)
  then have "unat (pl - 1 - high) > 0" using assms by linarith
  then show "pl - 1 - high \<noteq> 0" by (metis less_irrefl unat_0)
  show "sat_sub (sat_sub pl 1) high = pl - 1 - high" using 1 2 by (simp add: sat_sub_def)
qed

lemma decode_conts_step:
  assumes "from_be_bytes (subslice pos 4 buf) = pl - 1 - high"
    and "from_be_bytes (subslice (pos + 4) 4 buf) = high - low"
    and "low \<le> high" "unat high + 1 < unat pl"
    and "decode_conts n buf (pos + 8) low = Ok rs"
  shows "decode_conts (Suc n) buf pos pl = Ok ((low, high) # rs)"
proof -
  have "pl - 1 - high \<le> pl - 1" "high - low \<le> high"
    using gap_facts(2)[OF assms(4)] assms(3) by (simp_all add: word_sub_le)
  then show ?thesis
    using gap_facts[OF assms(4)] assms by (simp add: checked_sub_def del: right_minus_eq)
qed

lemma decode_encode_conts:
  "desc_chain pl rs \<Longrightarrow> decode_conts (length rs) (pre @ encode_conts pl rs) (length pre) pl = Ok rs"
proof (induction pl rs arbitrary: pre rule: encode_conts.induct)
  case (1 pl)
  then show ?case by simp
next
  case (2 pl low high rs)
  let ?buf = "pre @ encode_conts pl ((low, high) # rs)"
  have lh: "low \<le> high" and hp: "unat high + 1 < unat pl" and chain: "desc_chain low rs"
    using 2(2) by auto
  have "decode_conts (length rs) ?buf (length pre + 8) low = Ok rs"
    using 2(1)[OF chain, of "pre @ to_be_bytes (sat_sub (sat_sub pl 1) high) @ to_be_bytes (high - low)"]
    by simp
  moreover have "from_be_bytes (subslice (length pre) 4 ?buf) = pl - 1 - high"
    by (simp add: subslice_prefix gap_facts(4)[OF hp])
  moreover have "from_be_bytes (subslice (length pre + 4) 4 ?buf) = high - low"
    by (simp add: subslice_def)
  ultimately show ?case using decode_conts_step[OF _ _ lh hp] by simp
qed

lemma decode_conts_sound:
  "decode_conts n buf pos pl = Ok rs \<Longrightarrow> pos + 8 * n \<le> length buf \<Longrightarrow>
   length rs = n \<and> desc_chain pl rs \<and> encode_conts pl rs = subslice pos (8 * n) buf"
proof (induction n arbitrary: pos pl rs)
  case 0
  then show ?case by (simp add: subslice_def)
next
  case (Suc n)
  let ?gap = "from_be_bytes (subslice pos 4 buf) :: u32"
  let ?len = "from_be_bytes (subslice (pos + 4) 4 buf) :: u32"
  let ?high = "pl - 1 - ?gap"
  let ?low = "?high - ?len"
  from Suc.prems(1) obtain rs' where g: "?gap \<noteq> 0" and p1: "1 \<le> pl" and p2: "?gap \<le> pl - 1"
    and p3: "?len \<le> ?high" and dec: "decode_conts n buf (pos + 8) ?low = Ok rs'"
    and rs: "rs = (?low, ?high) # rs'"
    by (auto simp: checked_sub_def Let_def split: if_splits option.splits sum.splits)
  have u: "unat ?high = unat pl - 1 - unat ?gap" "unat ?gap \<le> unat pl - 1" "unat ?gap > 0" "unat pl \<ge> 1"
    using p1 p2 g by (auto simp: unat_sub word_le_nat_alt unat_gt_0)
  have ih: "length rs' = n" "desc_chain ?low rs'" "encode_conts ?low rs' = subslice (pos + 8) (8 * n) buf"
    using Suc.IH[OF dec] Suc.prems(2) by auto
  have hp: "unat ?high + 1 < unat pl" using u by linarith
  have chain: "desc_chain pl rs"
    using ih hp p3 by (simp add: rs word_sub_le)
  have "?gap = pl - 1 - ?high" "?len = ?high - ?low" by simp_all
  then have "encode_conts pl rs = to_be_bytes ?gap @ to_be_bytes ?len @ subslice (pos + 8) (8 * n) buf"
    by (simp add: rs ih gap_facts(4)[OF hp])
  also have "\<dots> = subslice pos 4 buf @ subslice (pos + 4) 4 buf @ subslice (pos + 8) (8 * n) buf"
    using Suc.prems(2) by (simp add: to_from_be_bytes)
  also have "\<dots> = subslice pos (8 * Suc n) buf"
    using subslice_split[of pos 4 buf 4] subslice_split[of pos 8 buf "8 * n"]
    by (simp flip: append_assoc)
  finally show ?case using ih chain by (simp add: rs)
qed

lemma sack_from_to_wire:
  assumes "wf_sack s"
  shows "sack_from_wire (sack_to_wire s) = Ok s"
proof -
  obtain low rs where r: "sack_ranges s = (low, largest_acked s) # rs" "low \<le> largest_acked s"
    "desc_chain low rs" "length rs < 32"
    using assms by (auto simp: wf_sack_def MAX_SACK_RANGES_def split: list.splits)
  let ?n = "word_of_nat (Suc (length rs)) :: u16"
  let ?pre = "to_be_bytes (largest_acked s) @ to_be_bytes (ack_delay_us s) @ to_be_bytes ?n
    @ to_be_bytes (largest_acked s - low)"
  have w: "sack_to_wire s = ?pre @ encode_conts low rs"
    using r by (simp add: sack_to_wire_def)
  have n: "unat ?n = Suc (length rs)" using r(4) by (simp add: unat_of_nat del: of_nat_Suc)
  have lp: "length ?pre = 14" by simp
  have "subslice 0 4 (?pre @ encode_conts low rs) = to_be_bytes (largest_acked s)"
    "subslice 4 4 (?pre @ encode_conts low rs) = to_be_bytes (ack_delay_us s)"
    "subslice 8 2 (?pre @ encode_conts low rs) = to_be_bytes ?n"
    "subslice 10 4 (?pre @ encode_conts low rs) = to_be_bytes (largest_acked s - low)"
    by (simp_all add: subslice_def)
  moreover have "decode_conts (length rs) (?pre @ encode_conts low rs) 14 low = Ok rs"
    using decode_encode_conts[OF r(3), of ?pre] lp by simp
  moreover have "length (?pre @ encode_conts low rs) = 14 + 8 * length rs" by simp
  ultimately show ?thesis
    using n r unfolding w sack_from_wire_def Let_def
    by (simp add: sack_consts checked_sub_def word_sub_le del: of_nat_Suc)
qed

lemma sack_from_wire_sound:
  assumes "sack_from_wire buf = Ok s"
  shows "wf_sack s" and "sack_to_wire s = take (length (sack_to_wire s)) buf"
proof -
  let ?largest = "from_be_bytes (subslice 0 4 buf) :: u32"
  let ?cnt = "from_be_bytes (subslice 8 2 buf) :: u16"
  let ?len = "from_be_bytes (subslice 10 4 buf) :: u32"
  let ?low = "?largest - ?len"
  from assms obtain rs where len: "14 \<le> length buf" and cnt: "unat ?cnt \<noteq> 0" "unat ?cnt \<le> 32"
    and need: "14 + 8 * (unat ?cnt - 1) \<le> length buf" and le: "?len \<le> ?largest"
    and dec: "decode_conts (unat ?cnt - 1) buf 14 ?low = Ok rs"
    and s: "s = \<lparr>largest_acked = ?largest, ack_delay_us = from_be_bytes (subslice 4 4 buf),
              sack_ranges = (?low, ?largest) # rs\<rparr>"
    by (auto simp: sack_from_wire_def Let_def sack_consts checked_sub_def not_less
        split: if_splits option.splits sum.splits)
  have rs: "length rs = unat ?cnt - 1" "desc_chain ?low rs"
    "encode_conts ?low rs = subslice 14 (8 * (unat ?cnt - 1)) buf"
    using decode_conts_sound[OF dec] need by auto
  show "wf_sack s"
    using rs le cnt by (simp add: wf_sack_def s MAX_SACK_RANGES_def word_sub_le)
  have n': "Suc (length rs) = unat ?cnt" using cnt rs(1) by linarith
  have n: "word_of_nat (Suc (length rs)) = ?cnt" "Suc (length rs) \<le> 32"
    using cnt by (simp_all only: n' of_nat_unat ucast_id)
  have "sack_to_wire s = to_be_bytes ?largest @ to_be_bytes (from_be_bytes (subslice 4 4 buf) :: u32)
      @ to_be_bytes ?cnt @ to_be_bytes ?len @ encode_conts ?low rs"
    using n by (simp add: sack_to_wire_def s del: of_nat_Suc)
  also have "\<dots> = subslice 0 4 buf @ subslice 4 4 buf @ subslice 8 2 buf @ subslice 10 4 buf
      @ subslice 14 (8 * (unat ?cnt - 1)) buf"
    using len by (simp add: to_from_be_bytes rs(3))
  also have "\<dots> = subslice 0 (14 + 8 * (unat ?cnt - 1)) buf"
    using subslice_split[of 0 4 buf 4] subslice_split[of 0 8 buf 2] subslice_split[of 0 10 buf 4]
      subslice_split[of 0 14 buf "8 * (unat ?cnt - 1)"]
    by (simp flip: append_assoc)
  finally show "sack_to_wire s = take (length (sack_to_wire s)) buf"
    using need by (simp add: subslice_def)
qed

subsection \<open>Coalescing\<close>

definition covers :: "(u32 \<times> u32) list \<Rightarrow> u32 \<Rightarrow> bool" where
  "covers rs q \<longleftrightarrow> (\<exists>r\<in>set rs. fst r \<le> q \<and> q \<le> snd r)"

definition asc_ok :: "(u32 \<times> u32) list \<Rightarrow> bool" where
  "asc_ok asc \<longleftrightarrow> sorted_wrt (\<lambda>a b. unat (snd a) + 1 < unat (fst b)) asc \<and> (\<forall>r\<in>set asc. fst r \<le> snd r)"

lemma coalesce_seq_step: "coalesce_seq asc q = coalesce_step asc (q, q)"
  by (simp add: coalesce_seq_def coalesce_step_def)

lemma coalesce_step_ok:
  assumes ok: "asc_ok asc" and lh: "lo \<le> hi" and last: "asc \<noteq> [] \<Longrightarrow> fst (last asc) \<le> lo"
  shows "asc_ok (coalesce_step asc (lo, hi))"
    and "fst (last (coalesce_step asc (lo, hi))) \<le> lo"
    and "covers (coalesce_step asc (lo, hi)) q \<longleftrightarrow> covers asc q \<or> (lo \<le> q \<and> q \<le> hi)"
    and "coalesce_step asc (lo, hi) \<noteq> []"
proof -
  have "asc_ok (coalesce_step asc (lo, hi)) \<and> fst (last (coalesce_step asc (lo, hi))) \<le> lo
    \<and> (covers (coalesce_step asc (lo, hi)) q \<longleftrightarrow> covers asc q \<or> (lo \<le> q \<and> q \<le> hi))
    \<and> coalesce_step asc (lo, hi) \<noteq> []"
  proof (cases asc rule: rev_cases)
    case Nil
    then show ?thesis using lh by (auto simp: coalesce_step_def asc_ok_def covers_def)
  next
    case (snoc pre r)
    obtain l h where r: "r = (l, h)" by (cases r)
    have l: "l \<le> lo" "l \<le> h" using last ok by (auto simp: snoc r asc_ok_def)
    have pre: "asc_ok pre" "\<forall>a\<in>set pre. unat (snd a) + 1 < unat l"
      using ok by (auto simp: snoc r asc_ok_def sorted_wrt_append)
    show ?thesis
    proof (cases "lo \<le> sat_add h 1")
      case True
      then have m: "unat lo \<le> unat h + 1" by (simp add: word_le_nat_alt unat_sat_add)
      have "covers [(l, max h hi)] q \<longleftrightarrow> covers [(l, h)] q \<or> (lo \<le> q \<and> q \<le> hi)"
        using m l lh by (auto simp: covers_def word_le_nat_alt max_def)
      moreover have "coalesce_step asc (lo, hi) = pre @ [(l, max h hi)]"
        using True by (auto simp: coalesce_step_def snoc r max_def)
      ultimately show ?thesis
        using pre l by (auto simp: asc_ok_def sorted_wrt_append covers_def snoc r max_def
            intro: order_trans)
    next
      case False
      then have m: "unat h + 1 < unat lo" using unat_u32_bound[of lo]
        by (simp add: word_le_nat_alt unat_sat_add)
      have lm: "unat l \<le> unat h" using l by (simp add: word_le_nat_alt)
      have "coalesce_step asc (lo, hi) = asc @ [(lo, hi)]"
        using False by (simp add: coalesce_step_def snoc r)
      moreover have "asc_ok (asc @ [(lo, hi)])"
        using ok lh m pre lm by (force simp: asc_ok_def sorted_wrt_append snoc r)
      ultimately show ?thesis by (auto simp: covers_def)
    qed
  qed
  then show "asc_ok (coalesce_step asc (lo, hi))" "fst (last (coalesce_step asc (lo, hi))) \<le> lo"
    "covers (coalesce_step asc (lo, hi)) q \<longleftrightarrow> covers asc q \<or> (lo \<le> q \<and> q \<le> hi)"
    "coalesce_step asc (lo, hi) \<noteq> []" by auto
qed

lemma foldl_coalesce:
  assumes "sorted (map fst rs)" "\<forall>r\<in>set rs. fst r \<le> snd r" "asc_ok asc"
    and "asc \<noteq> [] \<Longrightarrow> \<forall>r\<in>set rs. fst (last asc) \<le> fst r"
  shows "asc_ok (foldl coalesce_step asc rs)
    \<and> (\<forall>q. covers (foldl coalesce_step asc rs) q \<longleftrightarrow> covers asc q \<or> covers rs q)
    \<and> (rs \<noteq> [] \<or> asc \<noteq> [] \<longrightarrow> foldl coalesce_step asc rs \<noteq> [])"
  using assms
proof (induction rs arbitrary: asc)
  case Nil
  then show ?case by (simp add: covers_def)
next
  case (Cons r rs)
  obtain lo hi where r: "r = (lo, hi)" by (cases r)
  note st = coalesce_step_ok[of asc lo hi]
  have pre: "asc_ok asc" "lo \<le> hi" "asc \<noteq> [] \<Longrightarrow> fst (last asc) \<le> lo"
    using Cons.prems by (auto simp: r)
  let ?asc = "coalesce_step asc (lo, hi)"
  have "\<forall>r\<in>set rs. fst (last ?asc) \<le> fst r"
    using st(2)[OF pre] Cons.prems(1) by (auto simp: r intro: order_trans)
  then have "asc_ok (foldl coalesce_step ?asc rs)
    \<and> (\<forall>q. covers (foldl coalesce_step ?asc rs) q \<longleftrightarrow> covers ?asc q \<or> covers rs q)
    \<and> (rs \<noteq> [] \<or> ?asc \<noteq> [] \<longrightarrow> foldl coalesce_step ?asc rs \<noteq> [])"
    using Cons.IH[of ?asc] Cons.prems st(1)[OF pre] by simp
  then show ?case
    using st(3)[OF pre] st(4)[OF pre] by (auto simp: r covers_def)
qed

subsection \<open>Capping\<close>

abbreviation desc_sorted :: "(u32 \<times> u32) list \<Rightarrow> bool" where
  "desc_sorted \<equiv> sorted_wrt (\<lambda>a b. unat (snd b) + 1 < unat (fst a))"

lemma desc_chain_of_sorted:
  "desc_sorted (r # rs) \<Longrightarrow> \<forall>x\<in>set rs. fst x \<le> snd x \<Longrightarrow> desc_chain (fst r) rs"
  by (induction rs arbitrary: r) auto

definition kept_ranges :: "(u32 \<times> u32) list \<Rightarrow> (u32 \<times> u32) list" where
  "kept_ranges asc = (if length asc > MAX_SACK_RANGES
     then take (MAX_SACK_RANGES - 1) (rev asc) @ [hd asc] else rev asc)"

lemma kept_ranges_facts:
  assumes "asc_ok asc" "asc \<noteq> []"
  shows "desc_sorted (kept_ranges asc)" "set (kept_ranges asc) \<subseteq> set asc"
    "length (kept_ranges asc) \<le> MAX_SACK_RANGES" "kept_ranges asc \<noteq> []"
    "hd (kept_ranges asc) = last asc" "hd asc \<in> set (kept_ranges asc)"
proof -
  have d: "desc_sorted (rev asc)" using assms(1) by (simp add: asc_ok_def sorted_wrt_rev)
  have split: "desc_sorted (take 31 (rev asc) @ drop 31 (rev asc))" using d by simp
  show "desc_sorted (kept_ranges asc)"
  proof (cases "length asc > 32")
    case True
    have "last (rev asc) \<in> set (drop 31 (rev asc))"
      using True last_drop[of 31 "rev asc"] last_in_set[of "drop 31 (rev asc)"] by force
    moreover have "desc_sorted (take 31 (rev asc))"
      "\<forall>a\<in>set (take 31 (rev asc)). \<forall>b\<in>set (drop 31 (rev asc)). unat (snd b) + 1 < unat (fst a)"
      using split unfolding sorted_wrt_append by blast+
    ultimately show ?thesis
      using True assms(2) by (simp add: kept_ranges_def sorted_wrt_append MAX_SACK_RANGES_def last_rev)
  qed (use d in \<open>simp add: kept_ranges_def MAX_SACK_RANGES_def\<close>)
  show "set (kept_ranges asc) \<subseteq> set asc"
    using assms(2) by (auto simp: kept_ranges_def dest: in_set_takeD)
  show "length (kept_ranges asc) \<le> MAX_SACK_RANGES"
    by (auto simp: kept_ranges_def MAX_SACK_RANGES_def)
  show "kept_ranges asc \<noteq> []" "hd asc \<in> set (kept_ranges asc)"
    using assms(2) by (auto simp: kept_ranges_def)
  have "take 31 (rev asc) \<noteq> [] \<and> hd (take 31 (rev asc)) = last asc"
    using assms(2) by (simp add: hd_rev hd_take)
  then show "hd (kept_ranges asc) = last asc"
    using assms(2) by (simp add: kept_ranges_def MAX_SACK_RANGES_def hd_rev)
qed

lemma from_ascending_facts:
  assumes ok: "asc_ok asc" and ne: "asc \<noteq> []"
  shows "from_ascending_coalesced asc d =
      Some \<lparr>largest_acked = snd (last asc), ack_delay_us = d, sack_ranges = kept_ranges asc\<rparr>"
    and "wf_sack \<lparr>largest_acked = snd (last asc), ack_delay_us = d, sack_ranges = kept_ranges asc\<rparr>"
proof -
  note k = kept_ranges_facts[OF assms]
  have "kept_ranges asc ! 0 = last asc" using k(4,5) by (simp add: hd_conv_nth)
  then show "from_ascending_coalesced asc d =
      Some \<lparr>largest_acked = snd (last asc), ack_delay_us = d, sack_ranges = kept_ranges asc\<rparr>"
    using ne by (auto simp: from_ascending_coalesced_def Let_def kept_ranges_def last_rev)
  obtain low rs where kr: "kept_ranges asc = (low, snd (last asc)) # rs"
    using k(4,5) by (metis list.collapse prod.collapse)
  have all: "\<forall>r\<in>set (kept_ranges asc). fst r \<le> snd r"
    using ok k(2) by (auto simp: asc_ok_def)
  show "wf_sack \<lparr>largest_acked = snd (last asc), ack_delay_us = d, sack_ranges = kept_ranges asc\<rparr>"
    using k(1,3) all desc_chain_of_sorted[of "(low, snd (last asc))" rs]
    by (simp add: wf_sack_def kr)
qed

lemma asc_ok_le_last:
  assumes "asc_ok asc" "covers asc q"
  shows "q \<le> snd (last asc)"
proof (cases asc rule: rev_cases)
  case Nil
  then show ?thesis using assms(2) by (simp add: covers_def)
next
  case (snoc pre r)
  have r: "unat (fst r) \<le> unat (snd r)" "\<forall>a\<in>set pre. unat (snd a) + 1 < unat (fst r)"
    using assms(1) by (auto simp: snoc asc_ok_def sorted_wrt_append word_le_nat_alt)
  obtain a where "a \<in> set asc" "unat q \<le> unat (snd a)"
    using assms(2) unfolding covers_def word_le_nat_alt by blast
  then have "unat q \<le> unat (snd r)" using r by (auto simp: snoc)
  then show ?thesis by (simp add: snoc word_le_nat_alt)
qed

lemma lowest_run:
  assumes ok: "asc_ok asc" and ne: "asc \<noteq> []" and m: "m = fst (hd asc)" "m \<le> q"
    and run: "\<And>p. m \<le> p \<Longrightarrow> p \<le> q \<Longrightarrow> covers asc p"
  shows "q \<le> snd (hd asc)"
proof (rule ccontr)
  obtain l h rest where asc: "asc = (l, h) # rest" using ne by (cases asc) auto
  assume "\<not> q \<le> snd (hd asc)"
  then have hq: "unat h < unat q" by (simp add: asc word_le_nat_alt)
  have lh: "unat l \<le> unat h" using ok by (simp add: asc asc_ok_def word_le_nat_alt)
  have up: "unat (h + 1) = unat h + 1"
    using hq unat_u32_bound[of q] by (subst unat_word_ariths(1)) simp
  have "covers asc (h + 1)"
    by (rule run) (use hq lh in \<open>simp_all add: m asc word_le_nat_alt up\<close>)
  moreover have "\<forall>r\<in>set rest. unat h + 1 < unat (fst r)" using ok by (auto simp: asc asc_ok_def)
  ultimately show False by (auto simp: covers_def asc word_le_nat_alt up)
qed

lemma asc_ok_hd_min: "asc_ok asc \<Longrightarrow> covers asc q \<Longrightarrow> fst (hd asc) \<le> q"
proof (cases asc)
  case (Cons r rest)
  assume "asc_ok asc" "covers asc q"
  then have r: "unat (fst r) \<le> unat (snd r)" "\<forall>a\<in>set rest. unat (snd r) + 1 < unat (fst a)"
    by (auto simp: Cons asc_ok_def word_le_nat_alt)
  obtain a where "a \<in> set asc" "unat (fst a) \<le> unat q"
    using \<open>covers asc q\<close> unfolding covers_def word_le_nat_alt by blast
  then have "unat (fst r) \<le> unat q" using r by (auto simp: Cons)
  then show ?thesis by (simp add: Cons word_le_nat_alt)
qed (simp add: covers_def)

lemma inclusive_ranges_asc:
  assumes "rs \<noteq> []" "\<forall>r\<in>set rs. fst r \<le> snd r"
  defines "asc \<equiv> foldl coalesce_step [] (sort_key fst rs)"
  shows "asc_ok asc" "asc \<noteq> []" "covers asc q \<longleftrightarrow> covers rs q"
proof -
  have "sorted (map fst (sort_key fst rs))" by (rule sorted_sort_key)
  moreover have "sort_key fst rs \<noteq> []" using assms(1) by (metis length_sort length_0_conv)
  ultimately show "asc_ok asc" "asc \<noteq> []" "covers asc q \<longleftrightarrow> covers rs q"
    using foldl_coalesce[of "sort_key fst rs" "[]"] assms(2)
    by (auto simp: asc_def asc_ok_def covers_def)
qed

lemma from_received_ranges:
  "from_received qs d = from_inclusive_ranges (map (\<lambda>q. (q, q)) qs) d"
proof -
  have "foldl coalesce_seq asc xs = foldl coalesce_step asc (map (\<lambda>q. (q, q)) xs)" for asc xs
    by (induction xs arbitrary: asc) (simp_all add: coalesce_seq_step)
  moreover have "insort_key fst (a, a) (map (\<lambda>q. (q, q)) ys) = map (\<lambda>q. (q, q)) (insort a ys)"
    for a :: u32 and ys by (induction ys) auto
  then have "sort_key fst (map (\<lambda>q. (q, q)) qs) = map (\<lambda>q. (q, q)) (sort qs)"
    by (induction qs) simp_all
  ultimately show ?thesis by (simp add: from_received_def from_inclusive_ranges_def)
qed

lemma sack_construction:
  assumes "rs \<noteq> []" "\<forall>r\<in>set rs. fst r \<le> snd r"
  shows "\<exists>s. from_inclusive_ranges rs d = Some s \<and> wf_sack s
    \<and> (\<forall>q. acks s q \<longrightarrow> covers rs q)
    \<and> acks s (largest_acked s) \<and> (\<forall>q. covers rs q \<longrightarrow> q \<le> largest_acked s)
    \<and> (\<forall>m q. covers rs m \<and> (\<forall>p. covers rs p \<longrightarrow> m \<le> p) \<and> m \<le> q
           \<and> (\<forall>p. m \<le> p \<and> p \<le> q \<longrightarrow> covers rs p) \<longrightarrow> acks s q)
    \<and> (length (foldl coalesce_step [] (sort_key fst rs)) \<le> MAX_SACK_RANGES
         \<longrightarrow> (\<forall>q. acks s q \<longleftrightarrow> covers rs q))
    \<and> (length (sack_ranges s) < MAX_SACK_RANGES \<longrightarrow> (\<forall>q. acks s q \<longleftrightarrow> covers rs q))"
proof -
  let ?asc = "foldl coalesce_step [] (sort_key fst rs)"
  let ?s = "\<lparr>largest_acked = snd (last ?asc), ack_delay_us = d, sack_ranges = kept_ranges ?asc\<rparr>"
  note a = inclusive_ranges_asc[OF assms]
  note k = kept_ranges_facts[OF a(1,2)] and f = from_ascending_facts[OF a(1,2), of d]
  have acks: "acks ?s q \<longleftrightarrow> covers (kept_ranges ?asc) q" for q
    by (simp add: acks_def range_acks_iff covers_def)
  have sub: "covers (kept_ranges ?asc) q \<Longrightarrow> covers ?asc q" for q
    using k(2) by (auto simp: covers_def)
  have top: "acks ?s (snd (last ?asc))"
    using k(4,5) a(1,2) unfolding acks by (auto simp: covers_def asc_ok_def intro!: bexI[of _ "last ?asc"])
      (metis list.set_sel(1))
  have low: "acks ?s q" if m: "covers rs m" "\<forall>p. covers rs p \<longrightarrow> m \<le> p" "m \<le> q"
    "\<forall>p. m \<le> p \<and> p \<le> q \<longrightarrow> covers rs p" for m q
  proof -
    have "covers ?asc (fst (hd ?asc))" using a(1,2) by (auto simp: covers_def asc_ok_def)
    then have hd: "m = fst (hd ?asc)"
      using m(1,2) asc_ok_hd_min[OF a(1)] a(3) by (metis order.antisym)
    have "q \<le> snd (hd ?asc)" by (rule lowest_run[OF a(1,2) hd m(3)]) (use m(4) a(3) in blast)
    then show ?thesis unfolding acks covers_def using k(6) m(3) hd by blast
  qed
  have ex: "acks ?s q \<longleftrightarrow> covers rs q" if "length ?asc \<le> MAX_SACK_RANGES" for q
    using that a(3)[of q] by (simp add: acks_def range_acks_iff kept_ranges_def covers_def)
  moreover have "length ?asc \<le> MAX_SACK_RANGES" if "length (kept_ranges ?asc) < MAX_SACK_RANGES"
    using that by (auto simp: kept_ranges_def MAX_SACK_RANGES_def split: if_splits)
  ultimately show ?thesis
    using f assms(1) top sub a(3) acks asc_ok_le_last[OF a(1)]
    by (intro exI[of _ ?s] conjI) (simp_all add: from_inclusive_ranges_def, use low in blast)
qed

subsection \<open>Properties\<close>

text \<open>
  SACK codec round trip: every well-formed SACK (non-empty, at most 32
  ranges, strictly descending and non-adjacent, headed by the largest
  acknowledged offset) decodes from its own encoding to itself.
\<close>

theorem sack_round_trip:
  assumes "wf_sack s"
  shows "sack_from_wire (sack_to_wire s) = Ok s"
  using assms by (rule sack_from_to_wire)

theorem sack_round_trip_witness:
  "wf_sack \<lparr>largest_acked = 9, ack_delay_us = 25, sack_ranges = [(7, 9), (0, 3)]\<rparr> \<and>
   sack_from_wire (sack_to_wire \<lparr>largest_acked = 9, ack_delay_us = 25, sack_ranges = [(7, 9), (0, 3)]\<rparr>)
     = Ok \<lparr>largest_acked = 9, ack_delay_us = 25, sack_ranges = [(7, 9), (0, 3)]\<rparr>"
  using sack_round_trip[of "\<lparr>largest_acked = 9, ack_delay_us = 25, sack_ranges = [(7, 9), (0, 3)]\<rparr>"]
  by (simp add: wf_sack_def MAX_SACK_RANGES_def)

text \<open>
  The SACK decoder validates: whatever bytes a peer sends, a frame the
  decoder accepts is well-formed, and re-encoding it gives back exactly the
  prefix of the buffer it was read from (one encoding per frame).
\<close>

theorem sack_decode_valid:
  assumes "sack_from_wire buf = Ok s"
  shows "wf_sack s \<and> sack_to_wire s = take (length (sack_to_wire s)) buf"
  using sack_from_wire_sound[OF assms] by blast

theorem sack_decode_valid_witness:
  "let buf = [0, 0, 0, 9, 0, 0, 0, 25, 0, 2, 0, 0, 0, 2, 0, 0, 0, 3, 0, 0, 0, 3, 77];
       s = \<lparr>largest_acked = 9, ack_delay_us = 25, sack_ranges = [(7, 9), (0, 3)]\<rparr>
   in sack_from_wire buf = Ok s \<and> wf_sack s \<and> sack_to_wire s = take (length (sack_to_wire s)) buf"
proof -
  let ?buf = "[0, 0, 0, 9, 0, 0, 0, 25, 0, 2, 0, 0, 0, 2, 0, 0, 0, 3, 0, 0, 0, 3, 77] :: bytes"
  let ?s = "\<lparr>largest_acked = 9, ack_delay_us = 25, sack_ranges = [(7, 9), (0, 3)]\<rparr>"
  have "sack_from_wire ?buf = Ok ?s"
    by (simp add: sack_from_wire_def sack_consts subslice_def from_be_bytes_def be_decode_def checked_sub_def Let_def)
  then show ?thesis using sack_decode_valid[of ?buf ?s] by (simp add: Let_def)
qed

text \<open>
  Building a SACK from received ranges: the result is well-formed (so it
  always decodes at the peer), it never acknowledges an offset that was not
  received, its largest acknowledged offset is the highest received one, the
  whole contiguous run that starts at the lowest received offset is always
  acknowledged, even when the range set overflows the cap of 32, and when the set
  fits the cap it acknowledges exactly what was received.
\<close>

theorem sack_construction_sound:
  assumes "rs \<noteq> []" "\<forall>r\<in>set rs. fst r \<le> snd r"
  shows "\<exists>s. from_inclusive_ranges rs d = Some s \<and> wf_sack s
    \<and> (\<forall>q. acks s q \<longrightarrow> covers rs q)
    \<and> acks s (largest_acked s) \<and> (\<forall>q. covers rs q \<longrightarrow> q \<le> largest_acked s)
    \<and> (\<forall>m q. covers rs m \<and> (\<forall>p. covers rs p \<longrightarrow> m \<le> p) \<and> m \<le> q
           \<and> (\<forall>p. m \<le> p \<and> p \<le> q \<longrightarrow> covers rs p) \<longrightarrow> acks s q)
    \<and> (length (foldl coalesce_step [] (sort_key fst rs)) \<le> MAX_SACK_RANGES
         \<longrightarrow> (\<forall>q. acks s q \<longleftrightarrow> covers rs q))
    \<and> (length (sack_ranges s) < MAX_SACK_RANGES \<longrightarrow> (\<forall>q. acks s q \<longleftrightarrow> covers rs q))"
  by (rule sack_construction[OF assms])

theorem sack_construction_sound_witness:
  "[(4, 6), (0, 2)] \<noteq> ([] :: (u32 \<times> u32) list) \<and> list_all (\<lambda>r. fst r \<le> snd r) [(4, 6), (0, 2 :: u32)]
   \<and> (\<exists>s. from_inclusive_ranges [(4, 6), (0, 2)] 0 = Some s \<and> wf_sack s \<and> \<not> acks s 3)"
proof -
  have *: "[(4, 6), (0, 2)] \<noteq> ([] :: (u32 \<times> u32) list)"
    "\<forall>r\<in>set [(4, 6), (0, 2 :: u32)]. fst r \<le> snd r" by simp_all
  from sack_construction_sound[OF *, of 0] obtain s where
    "from_inclusive_ranges [(4, 6), (0, 2)] 0 = Some s" "wf_sack s"
    "\<forall>q. acks s q \<longrightarrow> covers [(4, 6), (0, 2)] q" by blast
  moreover have "\<not> covers [(4, 6), (0, 2)] 3" by (simp add: covers_def)
  ultimately show ?thesis using * by (auto simp: list_all_iff simp del: set_simps list.set)
qed

end
