(* ===== verification/Rto_Estimator.thy ===== *)
theory Rto_Estimator
  imports Phantom_Prelude
begin

text \<open>
  The retransmission-timeout estimator of \<open>transport/stream.rs\<close> (RFC 6298).
  Durations are nanoseconds; division of a \<open>Duration\<close> by an integer rounds down
  to whole nanoseconds, as \<open>div\<close> does. \<open>checked_mul\<close> fails above the largest
  representable duration.
\<close>

definition millis :: "nat \<Rightarrow> nanos" where "millis n = n * 1000000"
definition secs :: "nat \<Rightarrow> nanos" where "secs n = n * 1000000000"

definition DURATION_MAX :: nanos where "DURATION_MAX = 2 ^ 64 * 1000000000 - 1"

abbreviation INITIAL_RTO :: nanos where "INITIAL_RTO \<equiv> secs 1"
abbreviation MIN_RTO :: nanos where "MIN_RTO \<equiv> millis 200"
abbreviation MAX_RTO :: nanos where "MAX_RTO \<equiv> secs 60"
abbreviation GRANULARITY :: nanos where "GRANULARITY \<equiv> millis 1"
abbreviation MAX_BACKOFF_SHIFT :: nat where "MAX_BACKOFF_SHIFT \<equiv> 6"

lemmas rto_consts =
  millis_def secs_def

record rto_estimator =
  srtt :: "nanos option"
  min_rtt :: "nanos option"
  rttvar :: nanos
  backoff_shift :: nat

definition rto_new :: rto_estimator where
  "rto_new = \<lparr>srtt = None, min_rtt = None, rttvar = 0, backoff_shift = 0\<rparr>"

definition abs_diff :: "nat \<Rightarrow> nat \<Rightarrow> nat" where
  "abs_diff a b = (if a \<ge> b then a - b else b - a)"

definition on_rtt_sample :: "nanos \<Rightarrow> rto_estimator \<Rightarrow> rto_estimator" where
  "on_rtt_sample r e =
     (let e1 = e\<lparr>min_rtt := Some (case min_rtt e of Some m \<Rightarrow> min m r | None \<Rightarrow> r)\<rparr>;
          e2 = (case srtt e1 of
                  None \<Rightarrow> e1\<lparr>srtt := Some r, rttvar := r div 2\<rparr>
                | Some s \<Rightarrow> e1\<lparr>rttvar := (rttvar e1 * 3 + abs_diff s r) div 4,
                               srtt := Some ((s * 7 + r) div 8)\<rparr>)
      in e2\<lparr>backoff_shift := 0\<rparr>)"

definition rto_base :: "rto_estimator \<Rightarrow> nanos" where
  "rto_base e = (case srtt e of None \<Rightarrow> INITIAL_RTO | Some s \<Rightarrow> s + max GRANULARITY (rttvar e * 4))"

definition rto :: "rto_estimator \<Rightarrow> nanos" where
  "rto e =
     (let prod = rto_base e * 2 ^ backoff_shift e;
          scaled = (if prod \<le> DURATION_MAX then prod else MAX_RTO)
      in max MIN_RTO (min MAX_RTO scaled))"

definition on_timeout :: "rto_estimator \<Rightarrow> rto_estimator" where
  "on_timeout e = e\<lparr>backoff_shift := min (backoff_shift e + 1) MAX_BACKOFF_SHIFT\<rparr>"

definition rto_reset :: "rto_estimator \<Rightarrow> rto_estimator" where
  "rto_reset e = e\<lparr>srtt := None, min_rtt := None, rttvar := 0, backoff_shift := 0\<rparr>"

subsection \<open>Estimator states reached by a session\<close>

text \<open>The operations a stream performs on its estimator.\<close>

datatype rto_op = Sample nanos | Timeout | Reset

fun rto_apply :: "rto_estimator \<Rightarrow> rto_op \<Rightarrow> rto_estimator" where
  "rto_apply e (Sample r) = on_rtt_sample r e"
| "rto_apply e Timeout = on_timeout e"
| "rto_apply e Reset = rto_reset e"

definition rto_inv :: "rto_estimator \<Rightarrow> bool" where
  "rto_inv e \<longleftrightarrow> backoff_shift e \<le> MAX_BACKOFF_SHIFT
     \<and> (srtt e = None \<longleftrightarrow> min_rtt e = None)
     \<and> (\<forall>s m. srtt e = Some s \<and> min_rtt e = Some m \<longrightarrow> m \<le> s)"

lemma rto_new_inv: "rto_inv rto_new"
  by (simp add: rto_inv_def rto_new_def)

lemma smoothed_ge_min:
  assumes "m \<le> s" shows "min m r \<le> (s * 7 + r) div (8 :: nat)"
proof -
  have "min m r * 8 \<le> s * 7 + r" using assms by (auto simp: min_def)
  then show ?thesis by (simp add: less_eq_div_iff_mult_less_eq)
qed

lemma rto_apply_inv: "rto_inv e \<Longrightarrow> rto_inv (rto_apply e op)"
  by (cases op)
    (auto simp: rto_inv_def on_rtt_sample_def on_timeout_def rto_reset_def Let_def smoothed_ge_min
      split: option.splits)

lemma rto_run_inv: "rto_inv e \<Longrightarrow> rto_inv (foldl rto_apply e ops)"
  by (induction ops arbitrary: e) (simp_all add: rto_apply_inv)

lemma rto_clamped: "MIN_RTO \<le> rto e \<and> rto e \<le> MAX_RTO"
  by (simp add: rto_def Let_def rto_consts)

text \<open>A timeout never shortens the retransmission timeout.\<close>

lemma rto_on_timeout_mono:
  assumes "rto_inv e"
  shows "rto e \<le> rto (on_timeout e)"
proof -
  have mono: "max MIN_RTO (min MAX_RTO (if x \<le> DURATION_MAX then x else MAX_RTO))
      \<le> max MIN_RTO (min MAX_RTO (if y \<le> DURATION_MAX then y else MAX_RTO))" if "x \<le> y" for x y
    using that by (auto simp: rto_consts DURATION_MAX_def)
  have "rto_base (on_timeout e) = rto_base e" by (simp add: rto_base_def on_timeout_def split: option.split)
  moreover have "backoff_shift e \<le> backoff_shift (on_timeout e)"
    using assms by (auto simp: rto_inv_def on_timeout_def min_def)
  ultimately have "rto_base e * 2 ^ backoff_shift e
      \<le> rto_base (on_timeout e) * 2 ^ backoff_shift (on_timeout e)"
    by (simp add: power_increasing)
  then show ?thesis unfolding rto_def Let_def by (rule mono)
qed

subsection \<open>Properties\<close>

text \<open>
  The retransmission timeout stays between 200 ms and 60 s after every
  sequence of round-trip samples, timeouts and resets; a timeout never shortens
  it, a fresh sample clears the exponential backoff, and the smoothed round-trip
  time never falls below the minimum ever sampled since the last reset.
\<close>

theorem rto_bounds:
  "let e = foldl rto_apply rto_new ops
   in MIN_RTO \<le> rto e \<and> rto e \<le> MAX_RTO \<and> rto e \<le> rto (on_timeout e)
      \<and> backoff_shift (on_rtt_sample r e) = 0 \<and> rto_inv e"
proof -
  have inv: "rto_inv (foldl rto_apply rto_new ops)" by (rule rto_run_inv[OF rto_new_inv])
  then show ?thesis
    using rto_clamped rto_on_timeout_mono[OF inv] by (simp add: Let_def on_rtt_sample_def)
qed

end
