(* ===== verification/Stream_Base.thy ===== *)
theory Stream_Base
  imports Rto_Estimator Wire_Types
begin

text \<open>
  The state of a stream (\<open>Stream\<close> of \<open>transport/stream.rs\<close>), its data types and
  its flow control: the sender's cumulative limit, the receiver's advertised
  window, and the window autotuner that draws on a growth budget shared by all
  streams of a session (\<open>SharedRecvTuning\<close>).

  Locks and atomics: every method is one step on the record. A
  compare-and-exchange loop is the read-modify-write it retries until it
  succeeds. The one compare-and-exchange that is not retried, in the autotuner,
  takes an argument saying whether another thread moved the window in between.
  The current time is an argument of the methods that read the clock.
\<close>

subsection \<open>Constants\<close>

definition MAX_PENDING_PACKETS :: nat where "MAX_PENDING_PACKETS = 1024"
definition MAX_RECV_REORDER :: nat where "MAX_RECV_REORDER = 2048"
definition INITIAL_STREAM_WINDOW :: u32 where "INITIAL_STREAM_WINDOW = 64 * 1024"
definition MAX_SEND_WINDOW :: u32 where "MAX_SEND_WINDOW = 16 * INITIAL_STREAM_WINDOW"
definition MAX_RECV_WINDOW :: u32 where "MAX_RECV_WINDOW = MAX_SEND_WINDOW"
definition PACKET_THRESHOLD :: u32 where "PACKET_THRESHOLD = 3"
definition SESSION_RECV_WINDOW_GROWTH_BUDGET :: u32 where
  "SESSION_RECV_WINDOW_GROWTH_BUDGET = 8 * 1024 * 1024"
definition MAX_RECV_REORDER_BYTES_CEILING :: nat where
  "MAX_RECV_REORDER_BYTES_CEILING = unat MAX_RECV_WINDOW + unat INITIAL_STREAM_WINDOW"
definition AUTOTUNE_RTT_FALLBACK :: nanos where "AUTOTUNE_RTT_FALLBACK = MIN_RTO"
definition AUTOTUNE_MIN_INTERVAL :: nanos where "AUTOTUNE_MIN_INTERVAL = millis 10"
definition U32_MAX :: u32 where "U32_MAX = - 1"

lemma window_consts [simp]:
  "unat INITIAL_STREAM_WINDOW = 65536" "unat MAX_SEND_WINDOW = 1048576"
  "unat MAX_RECV_WINDOW = 1048576" "unat SESSION_RECV_WINDOW_GROWTH_BUDGET = 8388608"
  "unat U32_MAX = 4294967295"
  by (simp_all add: INITIAL_STREAM_WINDOW_def MAX_SEND_WINDOW_def MAX_RECV_WINDOW_def
      SESSION_RECV_WINDOW_GROWTH_BUDGET_def U32_MAX_def unsigned_minus_1_eq_mask mask_eq_exp_minus_1)

subsection \<open>Data types\<close>

datatype stream_state = Open | HalfClosedLocal | HalfClosedRemote | Closed

datatype loss_cause = PacketThreshold | TimeThreshold | BothThresholds | RtoExpired

record pending_data =
  pd_stream_offset :: u32
  pd_data :: bytes
  pd_sent_at :: "nanos option"
  pd_delivered_at_send :: u64
  pd_delivered_time_at_send :: "nanos option"
  pd_app_limited_at_send :: bool
  pd_retries :: u32
  pd_lost :: "loss_cause option"
  pd_fin :: bool
  pd_charged :: bool

record retired_segment =
  rs_sent_at :: "nanos option"
  rs_size :: nat
  rs_was_retransmit :: bool
  rs_delivered_at_send :: u64
  rs_delivered_time_at_send :: "nanos option"
  rs_app_limited_at_send :: bool

record lost_segment =
  ls_stream_offset :: u32
  ls_size :: nat

record sack_result =
  sr_retired :: "retired_segment list"
  sr_lost :: "lost_segment list"

record outbound_segment =
  ob_stream_offset :: u32
  ob_data :: bytes
  ob_reliable :: bool
  ob_retransmit :: bool
  ob_first_retransmit :: bool
  ob_loss_cause :: "loss_cause option"
  ob_fin :: bool

datatype send_blocked = Idle | CongestionWindow | FlowControl

datatype stream_error = OffsetSpaceExhausted

record recv_window_probe =
  probe_started_at :: "nanos option"
  probe_bytes :: u64

record stream =
  st_id :: stream_id
  st_state :: stream_state
  st_reliable_offset :: u32
  st_recv_sequence :: u32
  st_send_buffer :: "pending_data list"
  st_unreliable_buffer :: "bytes list"
  st_recv_buffer :: "(u32 \<times> bytes list) list"
  st_recv_buffer_bytes :: nat
  st_recv_ready :: "bytes list"
  st_local_finished :: bool
  st_remote_finished :: bool
  st_remote_fin_offset :: u32
  st_app_released :: bool
  st_priority :: u32
  st_send_permits :: nat
  st_bytes_sent :: u64
  st_peer_send_limit :: u64
  st_bytes_consumed :: u64
  st_advertised_recv_window :: u32
  st_probe :: recv_window_probe
  st_bytes_since_last_update :: u32
  st_pending_window_update :: u64
  st_rto :: rto_estimator
  st_last_data_recv_at :: "nanos option"
  st_persist_probe_at :: "nanos option"
  st_highest_acked_plus_one :: u32

definition stream_new :: "stream_id \<Rightarrow> stream" where
  "stream_new i =
     \<lparr>st_id = i, st_state = Open, st_reliable_offset = 0, st_recv_sequence = 0,
      st_send_buffer = [], st_unreliable_buffer = [], st_recv_buffer = [],
      st_recv_buffer_bytes = 0, st_recv_ready = [], st_local_finished = False,
      st_remote_finished = False, st_remote_fin_offset = U32_MAX, st_app_released = False,
      st_priority = 0, st_send_permits = MAX_PENDING_PACKETS, st_bytes_sent = 0,
      st_peer_send_limit = ucast INITIAL_STREAM_WINDOW, st_bytes_consumed = 0,
      st_advertised_recv_window = INITIAL_STREAM_WINDOW,
      st_probe = \<lparr>probe_started_at = None, probe_bytes = 0\<rparr>,
      st_bytes_since_last_update = 0, st_pending_window_update = 0, st_rto = rto_new,
      st_last_data_recv_at = None, st_persist_probe_at = None, st_highest_acked_plus_one = 0\<rparr>"

subsection \<open>Small operations\<close>

definition current_rto :: "stream \<Rightarrow> nanos" where "current_rto s = rto (st_rto s)"

definition reset_rto :: "stream \<Rightarrow> stream" where
  "reset_rto s = s\<lparr>st_rto := rto_reset (st_rto s)\<rparr>"

definition smoothed_rtt :: "stream \<Rightarrow> nanos option" where "smoothed_rtt s = srtt (st_rto s)"

definition record_rtt_sample :: "nanos \<Rightarrow> stream \<Rightarrow> stream" where
  "record_rtt_sample r s = s\<lparr>st_rto := on_rtt_sample r (st_rto s)\<rparr>"

definition note_rto_timeout :: "stream \<Rightarrow> stream" where
  "note_rto_timeout s = s\<lparr>st_rto := on_timeout (st_rto s)\<rparr>"

definition note_acked_offset :: "u32 \<Rightarrow> stream \<Rightarrow> stream" where
  "note_acked_offset off s =
     s\<lparr>st_highest_acked_plus_one := max (st_highest_acked_plus_one s) (sat_add off 1)\<rparr>"

definition last_acked_offset :: "stream \<Rightarrow> u32 option" where
  "last_acked_offset s =
     (if st_highest_acked_plus_one s = 0 then None else Some (st_highest_acked_plus_one s - 1))"

subsection \<open>Sender-side flow control\<close>

definition peer_send_window :: "stream \<Rightarrow> u32" where
  "peer_send_window s = ucast (min (sat_sub (st_peer_send_limit s) (st_bytes_sent s)) (ucast U32_MAX))"

definition try_consume_send_window :: "u32 \<Rightarrow> stream \<Rightarrow> bool \<times> stream" where
  "try_consume_send_window n s =
     (case checked_add (st_bytes_sent s) (ucast n) of
        None \<Rightarrow> (False, s)
      | Some nxt \<Rightarrow> if nxt > st_peer_send_limit s then (False, s) else (True, s\<lparr>st_bytes_sent := nxt\<rparr>))"

definition apply_peer_window_limit :: "u64 \<Rightarrow> stream \<Rightarrow> stream" where
  "apply_peer_window_limit limit s =
     (let ceiling = sat_add (st_bytes_sent s) (ucast MAX_SEND_WINDOW)
      in s\<lparr>st_peer_send_limit := max (st_peer_send_limit s) (min limit ceiling)\<rparr>)"

subsection \<open>Receiver-side flow control and the window autotuner\<close>

definition recv_reorder_byte_limit :: "stream \<Rightarrow> nat" where
  "recv_reorder_byte_limit s = unat (st_advertised_recv_window s) + unat INITIAL_STREAM_WINDOW"

definition try_take_growth :: "u32 \<Rightarrow> u32 \<Rightarrow> bool \<times> u32" where
  "try_take_growth budget n = (if budget < n then (False, budget) else (True, budget - n))"

definition return_growth :: "u32 \<Rightarrow> u32 \<Rightarrow> u32" where
  "return_growth budget n =
     (if n = 0 then budget else min (sat_add budget n) SESSION_RECV_WINDOW_GROWTH_BUDGET)"

text \<open>
  The measuring half of the autotuner: account \<open>n\<close> consumed bytes to the probe,
  and when its interval has closed say whether the application kept up with the
  window (more than four fifths of a window per interval).
\<close>

definition probe_tick ::
  "nanos \<Rightarrow> u32 \<Rightarrow> u32 \<Rightarrow> nanos option \<Rightarrow> recv_window_probe \<Rightarrow> bool \<times> recv_window_probe" where
  "probe_tick now n window mrtt pr =
     (let rtt = (case mrtt of Some m \<Rightarrow> m | None \<Rightarrow> AUTOTUNE_RTT_FALLBACK);
          interval = max (min (rtt * 2) DURATION_MAX) AUTOTUNE_MIN_INTERVAL;
          seen = sat_add (probe_bytes pr) (ucast n)
      in case probe_started_at pr of
           None \<Rightarrow> (False, \<lparr>probe_started_at = Some now, probe_bytes = seen\<rparr>)
         | Some started_at \<Rightarrow>
             let elapsed = now - started_at
             in if elapsed < interval then (False, pr\<lparr>probe_bytes := seen\<rparr>)
                else (sat128 (sat128 (unat seen * 5) * interval) > sat128 (sat128 (unat window * 4) * elapsed),
                      \<lparr>probe_started_at = Some now, probe_bytes = 0\<rparr>))"

text \<open>
  The granting half: double the window up to its maximum, paid for from the
  budget. \<open>raced\<close> says that the final compare-and-exchange found another value,
  in which case the payment is returned. Returns whether the window grew, the
  budget left and the window.
\<close>

definition claim_growth :: "bool \<Rightarrow> u32 \<Rightarrow> u32 \<Rightarrow> bool \<times> u32 \<times> u32" where
  "claim_growth raced budget window =
     (let nxt = min (sat_mul window 2) MAX_RECV_WINDOW; growth = nxt - window;
          (taken, b) = try_take_growth budget growth
      in if \<not> taken then (False, b, window)
         else if raced then (False, return_growth b growth, window)
         else (True, b, nxt))"

definition tune_recv_window :: "nanos \<Rightarrow> bool \<Rightarrow> u32 \<Rightarrow> u32 \<Rightarrow> stream \<Rightarrow> bool \<times> u32 \<times> stream" where
  "tune_recv_window now raced n budget s =
     (let window = st_advertised_recv_window s
      in if window \<ge> MAX_RECV_WINDOW then (False, budget, s)
         else
           let (keeps_up, pr) = probe_tick now n window (min_rtt (st_rto s)) (st_probe s)
           in if \<not> keeps_up then (False, budget, s\<lparr>st_probe := pr\<rparr>)
              else
                let (grew, b, window') = claim_growth raced budget window
                in (grew, b, s\<lparr>st_probe := pr, st_advertised_recv_window := window'\<rparr>))"

definition recv_limit :: "stream \<Rightarrow> u64" where
  "recv_limit s = sat_add (st_bytes_consumed s) (ucast (st_advertised_recv_window s))"

definition record_app_consumed ::
  "nanos \<Rightarrow> bool \<Rightarrow> u32 \<Rightarrow> bool \<Rightarrow> u32 \<Rightarrow> stream \<Rightarrow> u64 option \<times> u32 \<times> stream" where
  "record_app_consumed now raced n reliable budget s =
     (if \<not> reliable then (None, budget, s)
      else
        let s1 = s\<lparr>st_bytes_consumed := st_bytes_consumed s + ucast n\<rparr>;
            (grew, budget', s2) = tune_recv_window now raced n budget s1;
            threshold = INITIAL_STREAM_WINDOW div 2;
            pending = sat_add (st_bytes_since_last_update s2) n;
            (nxt, crossed) = (if pending \<ge> threshold then (0, True) else (pending, False));
            s3 = s2\<lparr>st_bytes_since_last_update := nxt\<rparr>
        in (if crossed \<or> grew then Some (recv_limit s3) else None, budget', s3))"

definition stage_window_update_limit :: "u64 \<Rightarrow> stream \<Rightarrow> stream" where
  "stage_window_update_limit limit s =
     s\<lparr>st_pending_window_update := max (st_pending_window_update s) limit\<rparr>"

definition take_pending_window_update :: "stream \<Rightarrow> u64 option \<times> stream" where
  "take_pending_window_update s =
     (if st_pending_window_update s = 0 then None else Some (st_pending_window_update s),
      s\<lparr>st_pending_window_update := 0\<rparr>)"

text \<open>Dropping a stream returns what it grew by.\<close>

definition stream_drop :: "stream \<Rightarrow> u32 \<Rightarrow> u32" where
  "stream_drop s budget =
     return_growth budget (sat_sub (st_advertised_recv_window s) INITIAL_STREAM_WINDOW)"

subsection \<open>Flow-control lemmas\<close>

lemma unat_ucast_u32_u64 [simp]: "unat (ucast (w :: u32) :: u64) = unat w"
  by (simp add: unsigned_ucast_eq take_bit_nat_eq_self order_le_less_trans[OF unat_u32_bound])

lemma try_consume_iff:
  "fst (try_consume_send_window n s) \<longleftrightarrow> unat (st_bytes_sent s) + unat n \<le> unat (st_peer_send_limit s)"
  using unat_bound[of "st_peer_send_limit s"]
  by (auto simp: try_consume_send_window_def checked_add_def word_less_nat_alt unat_word_ariths(1))

lemma try_consume_snd:
  "snd (try_consume_send_window n s) =
     (if fst (try_consume_send_window n s) then s\<lparr>st_bytes_sent := st_bytes_sent s + ucast n\<rparr> else s)"
  by (auto simp: try_consume_send_window_def checked_add_def)

lemma try_consume_sent:
  "fst (try_consume_send_window n s) \<Longrightarrow>
   unat (st_bytes_sent (snd (try_consume_send_window n s))) = unat (st_bytes_sent s) + unat n"
  by (auto simp: try_consume_send_window_def checked_add_def unat_word_ariths(1) split: if_splits)

lemma apply_limit_fold:
  "fold apply_peer_window_limit ls s =
     s\<lparr>st_peer_send_limit := fold (\<lambda>l acc. max acc (min l (sat_add (st_bytes_sent s) (ucast MAX_SEND_WINDOW))))
                               ls (st_peer_send_limit s)\<rparr>"
  by (induction ls arbitrary: s) (simp_all add: apply_peer_window_limit_def Let_def)

lemma fold_max_Max:
  "fold (\<lambda>l acc. max acc (f l)) ls a = Max (insert a (f ` set ls))" for a :: "'a::linorder"
proof (induction ls arbitrary: a)
  case (Cons x xs)
  have "Max (insert (max a (f x)) (f ` set xs)) = Max (insert a (insert (f x) (f ` set xs)))"
    by (cases "xs = []") (simp_all add: max.assoc)
  then show ?case using Cons by simp
qed simp

subsection \<open>The growth budget shared by a session's streams\<close>

text \<open>
  The streams of one session and the budget they draw on. Opening a stream takes
  the initial window, consuming application data may grow one stream's window,
  dropping a stream returns its growth.
\<close>

record recv_pool =
  pool_budget :: u32
  pool_streams :: "stream list"

definition pool_new :: recv_pool where
  "pool_new = \<lparr>pool_budget = SESSION_RECV_WINDOW_GROWTH_BUDGET, pool_streams = []\<rparr>"

datatype pool_op = PoolOpen stream_id | PoolConsume nat nanos bool u32 bool | PoolDrop nat

fun pool_step :: "recv_pool \<Rightarrow> pool_op \<Rightarrow> recv_pool" where
  "pool_step p (PoolOpen i) = p\<lparr>pool_streams := pool_streams p @ [stream_new i]\<rparr>"
| "pool_step p (PoolConsume i now raced n reliable) =
     (if i < length (pool_streams p) then
        case record_app_consumed now raced n reliable (pool_budget p) (pool_streams p ! i) of
          (_, b, s) \<Rightarrow> p\<lparr>pool_budget := b, pool_streams := (pool_streams p)[i := s]\<rparr>
      else p)"
| "pool_step p (PoolDrop i) =
     (if i < length (pool_streams p) then
        p\<lparr>pool_budget := stream_drop (pool_streams p ! i) (pool_budget p),
          pool_streams := take i (pool_streams p) @ drop (Suc i) (pool_streams p)\<rparr>
      else p)"

definition growth_of :: "stream \<Rightarrow> nat" where
  "growth_of s = unat (st_advertised_recv_window s) - unat INITIAL_STREAM_WINDOW"

definition window_ok :: "stream \<Rightarrow> bool" where
  "window_ok s \<longleftrightarrow> INITIAL_STREAM_WINDOW \<le> st_advertised_recv_window s
                 \<and> st_advertised_recv_window s \<le> MAX_RECV_WINDOW"

definition pool_inv :: "recv_pool \<Rightarrow> bool" where
  "pool_inv p \<longleftrightarrow> (\<forall>s\<in>set (pool_streams p). window_ok s)
     \<and> unat (pool_budget p) + sum_list (map growth_of (pool_streams p))
       = unat SESSION_RECV_WINDOW_GROWTH_BUDGET"

lemma window_ok_unat:
  "window_ok s \<longleftrightarrow> 65536 \<le> unat (st_advertised_recv_window s) \<and> unat (st_advertised_recv_window s) \<le> 1048576"
  by (simp add: window_ok_def word_le_nat_alt)

lemma return_growth_exact:
  assumes "unat b + unat n \<le> 8388608"
  shows "unat (return_growth b n) = unat b + unat n"
proof (cases "n = 0")
  case False
  have "unat (sat_add b n) = unat b + unat n" using assms by (simp add: unat_sat_add)
  moreover from this have "sat_add b n \<le> SESSION_RECV_WINDOW_GROWTH_BUDGET"
    using assms by (simp add: word_le_nat_alt)
  ultimately show ?thesis using False by (simp add: return_growth_def min_def)
qed (simp add: return_growth_def)

lemma next_window:
  assumes "w < MAX_RECV_WINDOW"
  shows "unat (min (sat_mul w 2) MAX_RECV_WINDOW) = min (unat w * 2) 1048576"
proof -
  have w: "unat w < 1048576" using assms by (simp add: word_less_nat_alt)
  then have "unat (sat_mul w 2) = unat w * 2"
    by (simp add: sat_mul_def unat_word_ariths(2))
  then show ?thesis by (simp add: min_def word_le_nat_alt)
qed

lemma claim_growth_facts:
  assumes w: "65536 \<le> unat w" "w < MAX_RECV_WINDOW"
    and fits: "unat budget + (unat w - 65536) \<le> 8388608"
    and "claim_growth raced budget w = (grew, b, w')"
  shows "unat w \<le> unat w' \<and> unat w' \<le> 1048576 \<and> unat b + unat w' = unat budget + unat w"
proof -
  let ?nxt = "min (sat_mul w 2) MAX_RECV_WINDOW"
  have nxt: "unat ?nxt = min (unat w * 2) 1048576" by (rule next_window[OF w(2)])
  have wlt: "unat w < 1048576" using w(2) by (simp add: word_less_nat_alt)
  then have le: "unat w \<le> unat ?nxt" "unat ?nxt \<le> 1048576" using nxt by simp_all
  then have g: "unat (?nxt - w) = unat ?nxt - unat w" by (simp add: unat_sub word_le_nat_alt)
  show ?thesis
  proof (cases "budget < ?nxt - w")
    case True
    then have "b = budget \<and> w' = w" using assms(4) by (simp add: claim_growth_def Let_def try_take_growth_def)
    then show ?thesis using wlt by simp
  next
    case False
    then have lb: "unat ?nxt - unat w \<le> unat budget" by (simp add: word_less_nat_alt g)
    then have sb: "unat (budget - (?nxt - w)) = unat budget - (unat ?nxt - unat w)"
      by (simp add: unat_sub word_le_nat_alt g)
    show ?thesis
    proof (cases raced)
      case True
      then have "w' = w" "b = return_growth (budget - (?nxt - w)) (?nxt - w)"
        using False assms(4) by (auto simp: claim_growth_def Let_def try_take_growth_def)
      then show ?thesis using wlt lb sb fits g by (simp add: return_growth_exact)
    next
      case nr: False
      then have "w' = ?nxt" "b = budget - (?nxt - w)"
        using False assms(4) by (auto simp: claim_growth_def Let_def try_take_growth_def)
      then show ?thesis using sb lb le by simp
    qed
  qed
qed

lemma tune_recv_window_facts:
  assumes ok: "window_ok s" and fits: "unat budget + growth_of s \<le> 8388608"
    and tune: "tune_recv_window now raced n budget s = (grew, b, s')"
  shows "window_ok s' \<and> unat b + growth_of s' = unat budget + growth_of s
    \<and> st_advertised_recv_window s \<le> st_advertised_recv_window s'"
proof -
  let ?w = "st_advertised_recv_window s"
  have w: "65536 \<le> unat ?w" "unat ?w \<le> 1048576" using ok by (simp_all add: window_ok_unat)
  obtain k pr where pt: "probe_tick now n ?w (min_rtt (st_rto s)) (st_probe s) = (k, pr)"
    by (rule prod.exhaust)
  obtain gr bb ww where cg: "claim_growth raced budget ?w = (gr, bb, ww)"
    by (rule prod_cases3)
  show ?thesis
  proof (cases "MAX_RECV_WINDOW \<le> ?w \<or> \<not> k")
    case True
    then have "b = budget" "st_advertised_recv_window s' = ?w"
      using tune pt by (auto simp: tune_recv_window_def Let_def split: if_splits)
    then show ?thesis using ok by (simp add: window_ok_def growth_of_def)
  next
    case False
    then have eq: "b = bb" "st_advertised_recv_window s' = ww"
      using tune pt cg by (auto simp: tune_recv_window_def Let_def)
    have "unat ?w \<le> unat ww \<and> unat ww \<le> 1048576 \<and> unat bb + unat ww = unat budget + unat ?w"
      by (rule claim_growth_facts[OF w(1) _ _ cg]) (use False fits in \<open>simp_all add: growth_of_def not_le\<close>)
    then show ?thesis using w eq by (simp add: window_ok_unat growth_of_def word_le_nat_alt)
  qed
qed

lemma consumed_facts:
  assumes ok: "window_ok s" and fits: "unat budget + growth_of s \<le> 8388608"
    and cons: "record_app_consumed now raced n reliable budget s = (lim, b, s')"
  shows "window_ok s'" and "unat b + growth_of s' = unat budget + growth_of s"
proof -
  have "window_ok s' \<and> unat b + growth_of s' = unat budget + growth_of s"
  proof (cases reliable)
    case True
    let ?s1 = "s\<lparr>st_bytes_consumed := st_bytes_consumed s + ucast n\<rparr>"
    obtain grew b' s2 where t: "tune_recv_window now raced n budget ?s1 = (grew, b', s2)"
      by (cases "tune_recv_window now raced n budget ?s1") auto
    have "window_ok ?s1" "unat budget + growth_of ?s1 \<le> 8388608"
      using ok fits by (simp_all add: window_ok_def growth_of_def)
    note f = tune_recv_window_facts[OF this t]
    obtain k where "b = b'" "s' = s2\<lparr>st_bytes_since_last_update := k\<rparr>"
      using cons True t by (auto simp: record_app_consumed_def Let_def split: if_splits)
    then show ?thesis using f by (simp add: window_ok_def growth_of_def)
  qed (use assms in \<open>simp add: record_app_consumed_def\<close>)
  then show "window_ok s'" "unat b + growth_of s' = unat budget + growth_of s" by auto
qed

lemma sum_list_growth_nth:
  "i < length ss \<Longrightarrow> sum_list (map f ss) =
     (f (ss ! i) :: nat) + sum_list (map f (take i ss)) + sum_list (map f (drop (Suc i) ss))"
  by (subst id_take_nth_drop[of i ss]) auto

lemma pool_step_inv:
  assumes inv: "pool_inv p"
  shows "pool_inv (pool_step p op)"
proof (cases op)
  case (PoolOpen i)
  then show ?thesis using inv by (simp add: pool_inv_def stream_new_def window_ok_unat growth_of_def)
next
  case (PoolConsume i now raced n reliable)
  show ?thesis
  proof (cases "i < length (pool_streams p)")
    case True
    let ?s = "pool_streams p ! i"
    obtain l b s' where c: "record_app_consumed now raced n reliable (pool_budget p) ?s = (l, b, s')"
      by (cases "record_app_consumed now raced n reliable (pool_budget p) ?s") auto
    note sum = sum_list_growth_nth[OF True, of growth_of]
    have "window_ok ?s" "unat (pool_budget p) + growth_of ?s \<le> 8388608"
      using inv True sum by (auto simp: pool_inv_def)
    note f = consumed_facts[OF this c]
    have "sum_list (map growth_of ((pool_streams p)[i := s'])) =
       growth_of s' + sum_list (map growth_of (take i (pool_streams p)))
         + sum_list (map growth_of (drop (Suc i) (pool_streams p)))"
      using True sum_list_growth_nth[of i "(pool_streams p)[i := s']" growth_of] by simp
    moreover have "\<forall>x\<in>set ((pool_streams p)[i := s']). window_ok x"
      using inv f(1) by (auto simp: pool_inv_def dest!: set_update_subset_insert[THEN subsetD])
    ultimately show ?thesis using inv True f(2) sum
      by (simp add: PoolConsume c pool_inv_def)
  qed (use inv PoolConsume in simp)
next
  case (PoolDrop i)
  show ?thesis
  proof (cases "i < length (pool_streams p)")
    case True
    let ?s = "pool_streams p ! i"
    note sum = sum_list_growth_nth[OF True, of growth_of]
    have ok: "window_ok ?s" "unat (pool_budget p) + growth_of ?s \<le> 8388608"
      using inv True sum by (auto simp: pool_inv_def)
    have "unat (sat_sub (st_advertised_recv_window ?s) INITIAL_STREAM_WINDOW) = growth_of ?s"
      by (simp add: unat_sat_sub growth_of_def)
    then have "unat (stream_drop ?s (pool_budget p)) = unat (pool_budget p) + growth_of ?s"
      using ok(2) by (simp add: stream_drop_def return_growth_exact)
    then show ?thesis using inv True sum
      by (auto simp: PoolDrop pool_inv_def dest: in_set_takeD in_set_dropD)
  qed (use inv PoolDrop in simp)
qed

lemma pool_run_inv: "pool_inv p \<Longrightarrow> pool_inv (foldl pool_step p ops)"
  by (induction ops arbitrary: p) (simp_all add: pool_step_inv)

lemma pool_new_inv: "pool_inv pool_new"
  by (simp add: pool_inv_def pool_new_def)

subsection \<open>Properties\<close>

text \<open>
  Window updates are idempotent, reorder-safe and loss-tolerant: the sender's
  state after a batch of window updates depends only on the set of limits that
  arrived, not on their order or multiplicity; the limit never decreases, and no
  peer can raise it more than \<open>MAX_SEND_WINDOW\<close> beyond what was already sent.
\<close>

theorem window_updates_reorder_safe:
  assumes "set ls = set ls'"
  shows "fold apply_peer_window_limit ls s = fold apply_peer_window_limit ls' s
    \<and> st_peer_send_limit s \<le> st_peer_send_limit (fold apply_peer_window_limit ls s)
    \<and> st_peer_send_limit (fold apply_peer_window_limit ls s)
         \<le> max (st_peer_send_limit s) (sat_add (st_bytes_sent s) (ucast MAX_SEND_WINDOW))"
proof -
  let ?c = "sat_add (st_bytes_sent s) (ucast MAX_SEND_WINDOW)"
  have "min l ?c \<le> max (st_peer_send_limit s) ?c" for l by (simp add: min_le_iff_disj le_max_iff_disj)
  then show ?thesis using assms by (simp add: apply_limit_fold fold_max_Max)
qed

theorem window_updates_reorder_safe_witness:
  "set [70000, 90000 :: u64] = set [90000, 70000, 90000] \<and>
   fold apply_peer_window_limit [70000, 90000] (stream_new 1)
     = fold apply_peer_window_limit [90000, 70000, 90000] (stream_new 1)"
  using window_updates_reorder_safe[of "[70000, 90000]" "[90000, 70000, 90000]" "stream_new 1"]
  by auto

text \<open>
  A charge against the peer's limit succeeds exactly when the bytes sent so
  far plus the charge stay within the limit; it then adds exactly the charge, and
  otherwise changes nothing.
\<close>

theorem consume_send_window_exact:
  "(fst (try_consume_send_window n s) \<longleftrightarrow>
      unat (st_bytes_sent s) + unat n \<le> unat (st_peer_send_limit s))
   \<and> snd (try_consume_send_window n s) =
       (if fst (try_consume_send_window n s) then s\<lparr>st_bytes_sent := st_bytes_sent s + ucast n\<rparr> else s)"
  using try_consume_iff try_consume_snd by blast

text \<open>
  Receive-memory bound of a session: after every interleaving of opening
  streams, consuming application data on them (with the autotuner growing
  windows, and losing races) and dropping them, the growth budget left plus the
  growth held by live streams is exactly the session's 8 MiB; no stream
  advertises more than 1 MiB, and all live streams together advertise at most
  64 KiB each plus 8 MiB.
\<close>

theorem growth_budget_conserved:
  "let p = foldl pool_step pool_new ops
   in unat (pool_budget p) + sum_list (map growth_of (pool_streams p)) = 8 * 1024 * 1024
      \<and> list_all window_ok (pool_streams p)
      \<and> sum_list (map (\<lambda>s. unat (st_advertised_recv_window s)) (pool_streams p))
          \<le> length (pool_streams p) * 65536 + 8 * 1024 * 1024"
proof -
  let ?p = "foldl pool_step pool_new ops"
  have inv: "pool_inv ?p" by (rule pool_run_inv[OF pool_new_inv])
  then have ok: "\<forall>s\<in>set (pool_streams ?p). window_ok s"
    and sum: "unat (pool_budget ?p) + sum_list (map growth_of (pool_streams ?p)) = 8388608"
    by (simp_all add: pool_inv_def)
  have "sum_list (map (\<lambda>s. unat (st_advertised_recv_window s)) ss)
      = length ss * 65536 + sum_list (map growth_of ss)" if "\<forall>s\<in>set ss. window_ok s" for ss
    using that by (induction ss) (auto simp: window_ok_unat growth_of_def)
  with ok sum show ?thesis by (auto simp: Let_def list_all_iff)
qed

end
