(* ===== verification/Stream_Send.thy ===== *)
theory Stream_Send
  imports Stream_Base Sack_Codec
begin

text \<open>
  The sending half of a stream (\<open>transport/stream.rs\<close>): queueing reliable data
  and FIN under the send semaphore, the transmission scheduler \<open>poll_send\<close>
  (unreliable data, then detected losses, then timeouts, then new data under
  congestion and flow control, then the persist probe), acknowledgement
  processing with loss detection, and \<open>mark_unsent\<close>.
  Waiting on the semaphore is the result \<open>None\<close>.
\<close>

subsection \<open>Queueing\<close>

definition next_reliable_offset :: "stream \<Rightarrow> (stream_error, u32 \<times> stream) result" where
  "next_reliable_offset s =
     (case checked_add (st_reliable_offset s) 1 of
        None \<Rightarrow> Err OffsetSpaceExhausted
      | Some nxt \<Rightarrow> Ok (st_reliable_offset s, s\<lparr>st_reliable_offset := nxt\<rparr>))"

definition new_pending :: "u32 \<Rightarrow> bytes \<Rightarrow> bool \<Rightarrow> pending_data" where
  "new_pending off data fin =
     \<lparr>pd_stream_offset = off, pd_data = data, pd_sent_at = None, pd_delivered_at_send = 0,
      pd_delivered_time_at_send = None, pd_app_limited_at_send = False, pd_retries = 0,
      pd_lost = None, pd_fin = fin, pd_charged = False\<rparr>"

definition send_reliable :: "bytes \<Rightarrow> stream \<Rightarrow> (stream_error, u32) result option \<times> stream" where
  "send_reliable data s =
     (if st_send_permits s = 0 then (None, s)
      else case next_reliable_offset s of
             Inl e \<Rightarrow> (Some (Err e), s)
           | Inr (off, s1) \<Rightarrow>
               (Some (Ok off), s1\<lparr>st_send_permits := st_send_permits s1 - 1,
                                 st_send_buffer := st_send_buffer s1 @ [new_pending off data False]\<rparr>))"

definition try_send_reliable :: "bytes \<Rightarrow> stream \<Rightarrow> (stream_error, bool) result \<times> stream" where
  "try_send_reliable data s =
     (if st_send_permits s = 0 then (Ok False, s)
      else case next_reliable_offset s of
             Inl e \<Rightarrow> (Err e, s)
           | Inr (off, s1) \<Rightarrow>
               (Ok True, s1\<lparr>st_send_permits := st_send_permits s1 - 1,
                            st_send_buffer := st_send_buffer s1 @ [new_pending off data False]\<rparr>))"

definition try_queue_fin :: "stream \<Rightarrow> (stream_error, bool) result \<times> stream" where
  "try_queue_fin s =
     (if st_send_permits s = 0 then (Ok False, s)
      else case next_reliable_offset s of
             Inl e \<Rightarrow> (Err e, s)
           | Inr (off, s1) \<Rightarrow>
               (Ok True, s1\<lparr>st_send_permits := st_send_permits s1 - 1,
                            st_send_buffer := st_send_buffer s1 @ [new_pending off [] True],
                            st_local_finished := True\<rparr>))"

definition queue_fin :: "stream \<Rightarrow> (stream_error, unit) result option \<times> stream" where
  "queue_fin s =
     (if st_send_permits s = 0 then (None, s)
      else case next_reliable_offset s of
             Inl e \<Rightarrow> (Some (Err e), s)
           | Inr (off, s1) \<Rightarrow>
               (Some (Ok ()), s1\<lparr>st_send_permits := st_send_permits s1 - 1,
                                st_send_buffer := st_send_buffer s1 @ [new_pending off [] True],
                                st_local_finished := True\<rparr>))"

definition send_unreliable :: "bytes \<Rightarrow> stream \<Rightarrow> stream" where
  "send_unreliable data s = s\<lparr>st_unreliable_buffer := st_unreliable_buffer s @ [data]\<rparr>"

definition is_fin_acked :: "stream \<Rightarrow> bool" where
  "is_fin_acked s \<longleftrightarrow> st_local_finished s \<and> st_send_buffer s = []"

definition is_fully_closed :: "stream \<Rightarrow> bool" where
  "is_fully_closed s \<longleftrightarrow> st_remote_finished s \<and> is_fin_acked s"

definition release_app_handle :: "stream \<Rightarrow> stream" where
  "release_app_handle s = s\<lparr>st_app_released := True\<rparr>"

definition is_retirable :: "stream \<Rightarrow> bool" where
  "is_retirable s \<longleftrightarrow> (st_remote_finished s \<or> st_app_released s) \<and> is_fin_acked s"

definition has_sent_reliable :: "stream \<Rightarrow> bool" where
  "has_sent_reliable s \<longleftrightarrow> st_reliable_offset s > 0"

definition send_buffer_full :: "stream \<Rightarrow> bool" where
  "send_buffer_full s \<longleftrightarrow> st_send_permits s = 0"

subsection \<open>Transmission\<close>

definition unreliable_segment :: "bytes \<Rightarrow> outbound_segment" where
  "unreliable_segment data =
     \<lparr>ob_stream_offset = 0, ob_data = data, ob_reliable = False, ob_retransmit = False,
      ob_first_retransmit = False, ob_loss_cause = None, ob_fin = False\<rparr>"

definition retransmit_segment :: "pending_data \<Rightarrow> loss_cause option \<Rightarrow> outbound_segment" where
  "retransmit_segment p cause =
     \<lparr>ob_stream_offset = pd_stream_offset p, ob_data = pd_data p, ob_reliable = True,
      ob_retransmit = True, ob_first_retransmit = (pd_retries p = 0), ob_loss_cause = cause,
      ob_fin = pd_fin p\<rparr>"

definition fresh_segment :: "pending_data \<Rightarrow> outbound_segment" where
  "fresh_segment p =
     \<lparr>ob_stream_offset = pd_stream_offset p, ob_data = pd_data p, ob_reliable = True,
      ob_retransmit = False, ob_first_retransmit = False, ob_loss_cause = None, ob_fin = pd_fin p\<rparr>"

definition try_persist_probe :: "nanos \<Rightarrow> bool \<Rightarrow> stream \<Rightarrow> outbound_segment option \<times> stream" where
  "try_persist_probe now anything_in_flight s =
     (if anything_in_flight then (None, s)
      else case last_acked_offset s of
             None \<Rightarrow> (None, s)
           | Some off \<Rightarrow>
               (case st_persist_probe_at s of
                  Some at \<Rightarrow> if now - at < current_rto s then (None, s)
                            else (Some \<lparr>ob_stream_offset = off, ob_data = [], ob_reliable = True,
                                        ob_retransmit = False, ob_first_retransmit = False,
                                        ob_loss_cause = None, ob_fin = False\<rparr>,
                                  s\<lparr>st_persist_probe_at := Some now\<rparr>)
                | None \<Rightarrow> (Some \<lparr>ob_stream_offset = off, ob_data = [], ob_reliable = True,
                                ob_retransmit = False, ob_first_retransmit = False,
                                ob_loss_cause = None, ob_fin = False\<rparr>,
                          s\<lparr>st_persist_probe_at := Some now\<rparr>)))"

definition lost_in_flight :: "pending_data \<Rightarrow> bool" where
  "lost_in_flight p \<longleftrightarrow> pd_lost p \<noteq> None \<and> pd_sent_at p \<noteq> None"

definition timed_out :: "nanos \<Rightarrow> nanos \<Rightarrow> pending_data \<Rightarrow> bool" where
  "timed_out now timeout p \<longleftrightarrow>
     (case pd_sent_at p of Some sent_at \<Rightarrow> now - sent_at \<ge> timeout | None \<Rightarrow> False)"

definition mark_sent :: "nanos \<Rightarrow> u64 \<Rightarrow> nanos \<Rightarrow> bool \<Rightarrow> pending_data \<Rightarrow> pending_data" where
  "mark_sent now delivered_now delivered_time_now app_limited_now p =
     p\<lparr>pd_charged := (pd_charged p \<or> \<not> pd_fin p), pd_sent_at := Some now,
       pd_delivered_at_send := delivered_now,
       pd_delivered_time_at_send := Some delivered_time_now,
       pd_app_limited_at_send := app_limited_now\<rparr>"

text \<open>Pass 2 of \<open>poll_send\<close>: the oldest segment not yet on the wire.\<close>

definition poll_new :: "nanos \<Rightarrow> u64 \<Rightarrow> u64 \<Rightarrow> nanos \<Rightarrow> bool \<Rightarrow> stream \<Rightarrow> (send_blocked, outbound_segment) result \<times> stream" where
  "poll_new now cwnd_budget delivered_now delivered_time_now app_limited_now s =
     (case update_first (\<lambda>p. pd_sent_at p = None)
             (mark_sent now delivered_now delivered_time_now app_limited_now) (st_send_buffer s) of
        None \<Rightarrow> (Err Idle, s)
      | Some (p, buf) \<Rightarrow>
          let len = (word_of_nat (length (pd_data p)) :: u64)
          in if len > cwnd_budget then (Err CongestionWindow, s)
             else
               let (granted, s1) = (if \<not> pd_fin p \<and> \<not> pd_charged p
                                    then try_consume_send_window (ucast len) s else (True, s))
               in if granted then (Ok (fresh_segment p), s1\<lparr>st_send_buffer := buf\<rparr>)
                  else
                    let anything_in_flight = list_ex (\<lambda>p. pd_sent_at p \<noteq> None) (st_send_buffer s)
                    in case try_persist_probe now anything_in_flight s1 of
                         (Some probe, s2) \<Rightarrow> (Ok probe, s2)
                       | (None, s2) \<Rightarrow> (Err FlowControl, s2))"

definition poll_send :: "nanos \<Rightarrow> u64 \<Rightarrow> u64 \<Rightarrow> nanos \<Rightarrow> bool \<Rightarrow> stream \<Rightarrow> (send_blocked, outbound_segment) result \<times> stream" where
  "poll_send now cwnd_budget delivered_now delivered_time_now app_limited_now s =
     (case st_unreliable_buffer s of
        data # rest \<Rightarrow> (Ok (unreliable_segment data), s\<lparr>st_unreliable_buffer := rest\<rparr>)
      | [] \<Rightarrow>
          (case update_first lost_in_flight
                  (\<lambda>p. p\<lparr>pd_lost := None, pd_sent_at := Some now, pd_retries := pd_retries p + 1\<rparr>)
                  (st_send_buffer s) of
             Some (p, buf) \<Rightarrow> (Ok (retransmit_segment p (pd_lost p)), s\<lparr>st_send_buffer := buf\<rparr>)
           | None \<Rightarrow>
               (case update_first (timed_out now (current_rto s))
                       (\<lambda>p. p\<lparr>pd_sent_at := Some now, pd_retries := pd_retries p + 1\<rparr>)
                       (st_send_buffer s) of
                  Some (p, buf) \<Rightarrow>
                    (Ok (retransmit_segment p (Some RtoExpired)), note_rto_timeout (s\<lparr>st_send_buffer := buf\<rparr>))
                | None \<Rightarrow> poll_new now cwnd_budget delivered_now delivered_time_now app_limited_now s)))"

definition mark_unsent :: "u32 \<Rightarrow> stream \<Rightarrow> stream" where
  "mark_unsent off s =
     (case update_first (\<lambda>p. pd_stream_offset p = off)
             (\<lambda>p. p\<lparr>pd_sent_at := None,
                   pd_charged := (if pd_charged p \<and> pd_retries p = 0 then False else pd_charged p)\<rparr>)
             (st_send_buffer s) of
        None \<Rightarrow> s
      | Some (p, buf) \<Rightarrow>
          s\<lparr>st_send_buffer := buf,
            st_bytes_sent := (if pd_charged p \<and> pd_retries p = 0
                              then sat_sub (st_bytes_sent s) (word_of_nat (length (pd_data p)))
                              else st_bytes_sent s)\<rparr>)"

subsection \<open>Acknowledgement\<close>

definition stream_ack :: "nanos \<Rightarrow> u32 \<Rightarrow> stream \<Rightarrow> (nanos \<times> nat) option \<times> stream" where
  "stream_ack now off s =
     (case remove_first (\<lambda>p. pd_stream_offset p = off) (st_send_buffer s) of
        None \<Rightarrow> (None, s)
      | Some (p, buf) \<Rightarrow>
          let s1 = note_acked_offset off (s\<lparr>st_send_buffer := buf\<rparr>);
              s2 = s1\<lparr>st_send_permits := st_send_permits s1 + 1\<rparr>
          in case pd_sent_at p of
               None \<Rightarrow> (None, s2)
             | Some sent_at \<Rightarrow>
                 (Some (sent_at, length (pd_data p)),
                  if pd_retries p = 0 then record_rtt_sample (now - sent_at) s2 else s2))"

definition retired_of :: "pending_data \<Rightarrow> retired_segment" where
  "retired_of p =
     \<lparr>rs_sent_at = pd_sent_at p, rs_size = length (pd_data p), rs_was_retransmit = (pd_retries p > 0),
      rs_delivered_at_send = pd_delivered_at_send p,
      rs_delivered_time_at_send = pd_delivered_time_at_send p,
      rs_app_limited_at_send = pd_app_limited_at_send p\<rparr>"

definition note_retired :: "nanos \<Rightarrow> pending_data \<Rightarrow> stream \<Rightarrow> stream" where
  "note_retired now p s =
     (let s1 = note_acked_offset (pd_stream_offset p) s
      in case pd_sent_at p of
           Some sent_at \<Rightarrow> if \<not> pd_retries p > 0 then record_rtt_sample (now - sent_at) s1 else s1
         | None \<Rightarrow> s1)"

text \<open>The retire loop: segments kept, segments retired (in buffer order), permits freed, the stream.\<close>

fun retire_loop :: "sack \<Rightarrow> nanos \<Rightarrow> pending_data list \<Rightarrow> stream
    \<Rightarrow> pending_data list \<times> retired_segment list \<times> nat \<times> stream" where
  "retire_loop sack now [] s = ([], [], 0, s)"
| "retire_loop sack now (p # ps) s =
     (if acks sack (pd_stream_offset p) then
        let (kept, retired, freed, s') = retire_loop sack now ps (note_retired now p s)
        in (kept, retired_of p # retired, freed + 1, s')
      else
        let (kept, retired, freed, s') = retire_loop sack now ps s
        in (p # kept, retired, freed, s'))"

definition loss_verdict :: "nanos \<Rightarrow> u32 \<Rightarrow> nanos option \<Rightarrow> pending_data \<Rightarrow> loss_cause option" where
  "loss_verdict now largest time_threshold p =
     (if pd_lost p \<noteq> None then None
      else case pd_sent_at p of
             None \<Rightarrow> None
           | Some sent_at \<Rightarrow>
               if pd_stream_offset p \<ge> largest then None
               else
                 let packet_lost = (pd_retries p = 0
                        \<and> largest \<ge> sat_add (pd_stream_offset p) PACKET_THRESHOLD);
                     time_lost = (case time_threshold of Some t \<Rightarrow> now - sent_at \<ge> t | None \<Rightarrow> False)
                 in case (packet_lost, time_lost) of
                      (True, True) \<Rightarrow> Some BothThresholds
                    | (True, False) \<Rightarrow> Some PacketThreshold
                    | (False, True) \<Rightarrow> Some TimeThreshold
                    | (False, False) \<Rightarrow> None)"

fun detect_losses :: "nanos \<Rightarrow> u32 \<Rightarrow> nanos option \<Rightarrow> pending_data list \<Rightarrow> pending_data list \<times> lost_segment list" where
  "detect_losses now largest thr [] = ([], [])"
| "detect_losses now largest thr (p # ps) =
     (let (ps', lost) = detect_losses now largest thr ps
      in case loss_verdict now largest thr p of
           None \<Rightarrow> (p # ps', lost)
         | Some cause \<Rightarrow> (p\<lparr>pd_lost := Some cause\<rparr> # ps',
                          \<lparr>ls_stream_offset = pd_stream_offset p, ls_size = length (pd_data p)\<rparr> # lost))"

definition on_sack :: "nanos \<Rightarrow> sack \<Rightarrow> stream \<Rightarrow> sack_result \<times> stream" where
  "on_sack now sack s =
     (let (kept, retired, freed, s1) = retire_loop sack now (st_send_buffer s) s;
          largest = min (largest_acked sack) (st_reliable_offset s1);
          time_threshold = map_option (\<lambda>r. max (millis 1) (r * 9 div 8)) (smoothed_rtt s1);
          (buf, lost) = detect_losses now largest time_threshold kept
      in (\<lparr>sr_retired = retired, sr_lost = lost\<rparr>,
          s1\<lparr>st_send_buffer := buf, st_send_permits := st_send_permits s1 + freed\<rparr>))"

subsection \<open>Sender invariant\<close>

definition charge_of :: "pending_data \<Rightarrow> nat" where
  "charge_of p = (if pd_charged p then length (pd_data p) else 0)"

definition segment_ok :: "pending_data \<Rightarrow> bool" where
  "segment_ok p \<longleftrightarrow> length (pd_data p) < 2 ^ 32 \<and> (pd_fin p \<longrightarrow> \<not> pd_charged p)
     \<and> (pd_sent_at p \<noteq> None \<and> \<not> pd_fin p \<longrightarrow> pd_charged p)"

definition send_inv :: "stream \<Rightarrow> bool" where
  "send_inv s \<longleftrightarrow> sorted_wrt (\<lambda>a b. pd_stream_offset a < pd_stream_offset b) (st_send_buffer s)
     \<and> (\<forall>p\<in>set (st_send_buffer s). pd_stream_offset p < st_reliable_offset s \<and> segment_ok p)
     \<and> st_send_permits s + length (st_send_buffer s) = MAX_PENDING_PACKETS
     \<and> st_bytes_sent s \<le> st_peer_send_limit s
     \<and> sum_list (map charge_of (st_send_buffer s)) \<le> unat (st_bytes_sent s)"

lemma send_inv_frame:
  assumes "send_inv s" "st_send_buffer s' = st_send_buffer s" "st_reliable_offset s' = st_reliable_offset s"
    "st_send_permits s' = st_send_permits s" "st_bytes_sent s' = st_bytes_sent s"
    "st_peer_send_limit s \<le> st_peer_send_limit s'"
  shows "send_inv s'"
  using assms by (auto simp: send_inv_def)

lemma new_pending_ok: "length data < 2 ^ 32 \<Longrightarrow> segment_ok (new_pending off data fin)"
  by (simp add: segment_ok_def new_pending_def)

lemma enqueue_inv:
  assumes inv: "send_inv s" and ok: "next_reliable_offset s = Ok (off, s1)"
    and "0 < st_send_permits s" "length data < 2 ^ 32"
  shows "send_inv (s1\<lparr>st_send_permits := st_send_permits s1 - 1,
                    st_send_buffer := st_send_buffer s1 @ [new_pending off data fin]\<rparr>)"
proof -
  have s1: "s1 = s\<lparr>st_reliable_offset := st_reliable_offset s + 1\<rparr>" "off = st_reliable_offset s"
    "unat (st_reliable_offset s + 1) = unat (st_reliable_offset s) + 1"
    using ok by (auto simp: next_reliable_offset_def checked_add_def unat_word_ariths(1) split: option.splits if_splits)
  then have lt: "st_reliable_offset s < st_reliable_offset s + 1" by (simp add: word_less_nat_alt)
  then have "p < st_reliable_offset s + 1" if "p < st_reliable_offset s" for p
    using that by (rule less_trans[rotated])
  then show ?thesis
    using inv assms(3) new_pending_ok[OF assms(4)] lt
    by (auto simp: send_inv_def s1 sorted_wrt_append charge_of_def) (simp_all add: new_pending_def)
qed

lemma update_first_inv:
  assumes inv: "send_inv s" and up: "update_first P f (st_send_buffer s) = Some (p, buf)"
    and off: "pd_stream_offset (f p) = pd_stream_offset p" and ok: "segment_ok p \<Longrightarrow> segment_ok (f p)"
    and sent: "unat sent + charge_of p = unat (st_bytes_sent s) + charge_of (f p)"
    and lim: "sent \<le> st_peer_send_limit s"
    and s': "st_send_buffer s' = buf" "st_reliable_offset s' = st_reliable_offset s"
    "st_send_permits s' = st_send_permits s" "st_bytes_sent s' = sent"
    "st_peer_send_limit s' = st_peer_send_limit s"
  shows "send_inv s'"
proof -
  obtain pre post where b: "st_send_buffer s = pre @ p # post" "buf = pre @ f p # post"
    using up by (rule update_first_SomeE)
  show ?thesis
    using inv off ok sent lim unfolding send_inv_def s' b
    by (auto simp: sorted_wrt_append)
qed

lemma charge_zero: "segment_ok p \<Longrightarrow> pd_fin p \<Longrightarrow> charge_of p = 0"
  by (simp add: segment_ok_def charge_of_def)

lemma unat_word_of_len: "n < 2 ^ 32 \<Longrightarrow> unat (ucast (word_of_nat n :: u64) :: u32) = n"
  by (simp add: unsigned_ucast_eq unsigned_of_nat take_bit_nat_eq_self)

lemma unat_word_of_len64: "n < 2 ^ 32 \<Longrightarrow> unat (word_of_nat n :: u64) = n"
  by (simp add: unsigned_of_nat take_bit_nat_eq_self)

lemma persist_probe_frame:
  assumes "try_persist_probe now b s = (r, s')"
  obtains x where "s' = s\<lparr>st_persist_probe_at := x\<rparr>"
proof -
  have "s' = s\<lparr>st_persist_probe_at := st_persist_probe_at s\<rparr> \<or> s' = s\<lparr>st_persist_probe_at := Some now\<rparr>"
    using assms by (auto simp: try_persist_probe_def split: if_splits option.splits)
  then show ?thesis using that by blast
qed

lemma persist_probe_snd:
  "snd (try_persist_probe now b s) =
     s\<lparr>st_persist_probe_at := (if fst (try_persist_probe now b s) = None then st_persist_probe_at s else Some now)\<rparr>"
  by (simp add: try_persist_probe_def split: option.split)

lemma poll_new_inv:
  assumes inv: "send_inv s"
  shows "send_inv (snd (poll_new now cwnd dn dt al s))"
proof (cases "update_first (\<lambda>p. pd_sent_at p = None) (mark_sent now dn dt al) (st_send_buffer s)")
  case None
  then show ?thesis using inv by (simp add: poll_new_def)
next
  case (Some a)
  obtain p buf where up: "update_first (\<lambda>p. pd_sent_at p = None) (mark_sent now dn dt al) (st_send_buffer s) = Some (p, buf)"
    using Some by (cases a) auto
  obtain pre post where b: "st_send_buffer s = pre @ p # post" "pd_sent_at p = None"
    using up by (rule update_first_SomeE)
  have pok: "segment_ok p" and len: "length (pd_data p) < 2 ^ 32"
    using inv b by (auto simp: send_inv_def segment_ok_def)
  let ?len = "word_of_nat (length (pd_data p)) :: u64"
  let ?need = "\<not> pd_fin p \<and> \<not> pd_charged p"
  let ?tc = "try_consume_send_window (ucast ?len) s"
  have mok: "segment_ok (mark_sent now dn dt al p)"
    using pok by (auto simp: segment_ok_def mark_sent_def)
  consider (cwnd) "?len > cwnd" | (blocked) "\<not> ?len > cwnd" ?need "\<not> fst ?tc"
    | (charge) "\<not> ?len > cwnd" ?need "fst ?tc" | (free) "\<not> ?len > cwnd" "\<not> ?need" by blast
  then show ?thesis
  proof cases
    case cwnd
    then show ?thesis using inv up by (simp add: poll_new_def)
  next
    case blocked
    obtain r s2 where pp: "try_persist_probe now (list_ex (\<lambda>p. pd_sent_at p \<noteq> None) (st_send_buffer s)) s = (r, s2)"
      by (rule prod.exhaust)
    have "snd (poll_new now cwnd dn dt al s) = s2"
      using blocked up pp try_consume_snd[of "ucast ?len" s]
      by (cases ?tc) (auto simp: poll_new_def Let_def split: option.splits)
    moreover obtain x where "s2 = s\<lparr>st_persist_probe_at := x\<rparr>" using pp by (rule persist_probe_frame)
    then have "send_inv s2" by (intro send_inv_frame[OF inv]) simp_all
    ultimately show ?thesis by simp
  next
    case charge
    have eq: "snd (poll_new now cwnd dn dt al s) =
        s\<lparr>st_bytes_sent := st_bytes_sent s + ucast (ucast ?len :: u32), st_send_buffer := buf\<rparr>"
      using charge up try_consume_snd[of "ucast ?len" s]
      by (cases ?tc) (auto simp: poll_new_def Let_def)
    have fits: "unat (st_bytes_sent s) + length (pd_data p) \<le> unat (st_peer_send_limit s)"
      using charge(3) by (simp add: try_consume_iff unat_word_of_len[OF len])
    have u: "unat (st_bytes_sent s + ucast (ucast ?len :: u32)) = unat (st_bytes_sent s) + length (pd_data p)"
      using try_consume_sent[OF charge(3)] charge(3)
      by (simp add: try_consume_snd unat_word_of_len[OF len])
    show ?thesis
      by (rule update_first_inv[OF inv up, where sent = "st_bytes_sent s + ucast (ucast ?len :: u32)"])
        (use charge(2) mok u fits in \<open>simp_all add: eq mark_sent_def charge_of_def word_le_nat_alt\<close>)
  next
    case free
    have eq: "snd (poll_new now cwnd dn dt al s) = s\<lparr>st_send_buffer := buf\<rparr>"
      using free up by (auto simp: poll_new_def Let_def)
    have "charge_of (mark_sent now dn dt al p) = charge_of p"
      using free(2) pok by (auto simp: charge_of_def mark_sent_def segment_ok_def)
    then show ?thesis
      by (intro update_first_inv[OF inv up, where sent = "st_bytes_sent s"])
        (use mok inv in \<open>simp_all add: eq mark_sent_def send_inv_def\<close>)
  qed
qed

lemma poll_send_inv:
  assumes inv: "send_inv s"
  shows "send_inv (snd (poll_send now cwnd dn dt al s))"
proof (cases "st_unreliable_buffer s")
  case (Cons d ds)
  then show ?thesis using inv by (simp add: poll_send_def send_inv_def)
next
  case Nil
  let ?f0 = "\<lambda>p. p\<lparr>pd_lost := None, pd_sent_at := Some now, pd_retries := pd_retries p + 1\<rparr>"
  let ?f1 = "\<lambda>p. p\<lparr>pd_sent_at := Some now, pd_retries := pd_retries p + 1\<rparr>"
  have lim: "st_bytes_sent s \<le> st_peer_send_limit s" using inv by (simp add: send_inv_def)
  show ?thesis
  proof (cases "update_first lost_in_flight ?f0 (st_send_buffer s)" rule: option_pair_cases)
    case (Some p buf)
    have "lost_in_flight p" using Some by (rule update_first_SomeE)
    then have ok: "segment_ok p \<Longrightarrow> segment_ok (?f0 p)" by (auto simp: segment_ok_def lost_in_flight_def)
    have "snd (poll_send now cwnd dn dt al s) = s\<lparr>st_send_buffer := buf\<rparr>"
      using Some Nil by (simp add: poll_send_def)
    then show ?thesis
      by (intro update_first_inv[OF inv Some, where sent = "st_bytes_sent s"])
        (simp_all add: ok charge_of_def lim)
  next
    case nolost: None
    show ?thesis
    proof (cases "update_first (timed_out now (current_rto s)) ?f1 (st_send_buffer s)" rule: option_pair_cases)
      case (Some p buf)
      have "timed_out now (current_rto s) p" using Some by (rule update_first_SomeE)
      then have ok: "segment_ok p \<Longrightarrow> segment_ok (?f1 p)"
        by (auto simp: segment_ok_def timed_out_def split: option.splits)
      have "snd (poll_send now cwnd dn dt al s) = note_rto_timeout (s\<lparr>st_send_buffer := buf\<rparr>)"
        using nolost Some Nil by (simp add: poll_send_def)
      then show ?thesis
        by (intro update_first_inv[OF inv Some, where sent = "st_bytes_sent s"])
          (simp_all add: ok charge_of_def note_rto_timeout_def lim)
    next
      case None
      then show ?thesis using poll_new_inv[OF inv] nolost Nil by (simp add: poll_send_def)
    qed
  qed
qed

lemma mark_unsent_inv:
  assumes inv: "send_inv s"
  shows "send_inv (mark_unsent off s)"
proof -
  let ?f = "\<lambda>p. p\<lparr>pd_sent_at := None,
      pd_charged := (if pd_charged p \<and> pd_retries p = 0 then False else pd_charged p)\<rparr>"
  let ?P = "\<lambda>p. pd_stream_offset p = off"
  show ?thesis
  proof (cases "update_first ?P ?f (st_send_buffer s)")
    case None
    then show ?thesis using inv by (simp add: mark_unsent_def)
  next
    case (Some a)
    obtain p buf where up: "update_first ?P ?f (st_send_buffer s) = Some (p, buf)"
      using Some by (cases a) auto
    obtain pre post where b: "st_send_buffer s = pre @ p # post" using up by (rule update_first_SomeE)
    have pok: "segment_ok p" and len: "length (pd_data p) < 2 ^ 32"
      and ch: "charge_of p \<le> unat (st_bytes_sent s)"
      using inv b by (auto simp: send_inv_def segment_ok_def)
    let ?sent = "if pd_charged p \<and> pd_retries p = 0
        then sat_sub (st_bytes_sent s) (word_of_nat (length (pd_data p))) else st_bytes_sent s"
    have "unat ?sent + charge_of p = unat (st_bytes_sent s) + charge_of (?f p)"
      using ch by (auto simp: charge_of_def unat_sat_sub unat_word_of_len64[OF len])
    moreover have "?sent \<le> st_peer_send_limit s"
      using inv by (auto simp: send_inv_def word_le_nat_alt unat_sat_sub)
    moreover have "segment_ok p \<Longrightarrow> segment_ok (?f p)" by (auto simp: segment_ok_def)
    ultimately show ?thesis
      by (intro update_first_inv[OF inv up, where sent = ?sent]) (simp_all add: mark_unsent_def up)
  qed
qed

lemma sorted_wrt_remove: "sorted_wrt R (pre @ x # post) \<Longrightarrow> sorted_wrt R (pre @ post)"
  by (auto simp: sorted_wrt_append)

lemma stream_ack_inv:
  assumes inv: "send_inv s"
  shows "send_inv (snd (stream_ack now off s))"
proof (cases "remove_first (\<lambda>p. pd_stream_offset p = off) (st_send_buffer s)")
  case None
  then show ?thesis using inv by (simp add: stream_ack_def)
next
  case (Some a)
  obtain p buf where rm: "remove_first (\<lambda>p. pd_stream_offset p = off) (st_send_buffer s) = Some (p, buf)"
    using Some by (cases a) auto
  obtain pre post where b: "st_send_buffer s = pre @ p # post" "buf = pre @ post"
    using rm by (rule remove_first_SomeE)
  let ?s = "snd (stream_ack now off s)"
  have "st_send_buffer ?s = buf" "st_send_permits ?s = st_send_permits s + 1"
    "st_reliable_offset ?s = st_reliable_offset s" "st_bytes_sent ?s = st_bytes_sent s"
    "st_peer_send_limit ?s = st_peer_send_limit s"
    using rm by (simp_all add: stream_ack_def Let_def note_acked_offset_def record_rtt_sample_def
        split: option.split)
  then show ?thesis
    using inv b(1) unfolding send_inv_def b(2) by (auto simp: sorted_wrt_append)
qed

subsection \<open>Acknowledgement lemmas\<close>

abbreviation covered :: "sack \<Rightarrow> pending_data \<Rightarrow> bool" where
  "covered sack p \<equiv> acks sack (pd_stream_offset p)"

lemma note_retired_frame:
  obtains r h where "note_retired now p s = s\<lparr>st_rto := r, st_highest_acked_plus_one := h\<rparr>"
proof -
  let ?h = "max (st_highest_acked_plus_one s) (sat_add (pd_stream_offset p) 1)"
  have "note_retired now p s = s\<lparr>st_rto := st_rto s, st_highest_acked_plus_one := ?h\<rparr>
    \<or> note_retired now p s = s\<lparr>st_rto := on_rtt_sample (now - the (pd_sent_at p)) (st_rto s), st_highest_acked_plus_one := ?h\<rparr>"
    by (simp add: note_retired_def Let_def note_acked_offset_def record_rtt_sample_def split: option.split)
  then show ?thesis using that by blast
qed

lemma retire_loop_eq:
  "\<exists>r h. retire_loop sack now ps s =
     (filter (\<lambda>p. \<not> covered sack p) ps, map retired_of (filter (covered sack) ps),
      length (filter (covered sack) ps), s\<lparr>st_rto := r, st_highest_acked_plus_one := h\<rparr>)"
proof (induction ps arbitrary: s)
  case Nil
  show ?case by (intro exI[of _ "st_rto s"] exI[of _ "st_highest_acked_plus_one s"]) simp
next
  case (Cons p ps)
  show ?case
  proof (cases "covered sack p")
    case True
    obtain r h where n: "note_retired now p s = s\<lparr>st_rto := r, st_highest_acked_plus_one := h\<rparr>"
      by (rule note_retired_frame)
    obtain r' h' where "retire_loop sack now ps (note_retired now p s) =
     (filter (\<lambda>p. \<not> covered sack p) ps, map retired_of (filter (covered sack) ps),
      length (filter (covered sack) ps), (note_retired now p s)\<lparr>st_rto := r', st_highest_acked_plus_one := h'\<rparr>)"
      using Cons.IH[of "note_retired now p s"] by blast
    then show ?thesis using True n by (intro exI[of _ r'] exI[of _ h']) simp
  next
    case False
    obtain r' h' where "retire_loop sack now ps s =
     (filter (\<lambda>p. \<not> covered sack p) ps, map retired_of (filter (covered sack) ps),
      length (filter (covered sack) ps), s\<lparr>st_rto := r', st_highest_acked_plus_one := h'\<rparr>)"
      using Cons.IH[of s] by blast
    then show ?thesis using False by (intro exI[of _ r'] exI[of _ h']) simp
  qed
qed

definition mark_lost :: "nanos \<Rightarrow> u32 \<Rightarrow> nanos option \<Rightarrow> pending_data \<Rightarrow> pending_data" where
  "mark_lost now largest thr p =
     (case loss_verdict now largest thr p of None \<Rightarrow> p | Some c \<Rightarrow> p\<lparr>pd_lost := Some c\<rparr>)"

lemma detect_losses_eq:
  "detect_losses now largest thr ps =
     (map (mark_lost now largest thr) ps,
      map (\<lambda>p. \<lparr>ls_stream_offset = pd_stream_offset p, ls_size = length (pd_data p)\<rparr>)
          (filter (\<lambda>p. loss_verdict now largest thr p \<noteq> None) ps))"
  by (induction ps) (auto simp: mark_lost_def split: option.split)

lemma mark_lost_simps [simp]:
  "pd_stream_offset (mark_lost now l t p) = pd_stream_offset p"
  "pd_data (mark_lost now l t p) = pd_data p"
  "pd_fin (mark_lost now l t p) = pd_fin p"
  "pd_sent_at (mark_lost now l t p) = pd_sent_at p"
  "pd_charged (mark_lost now l t p) = pd_charged p"
  "pd_retries (mark_lost now l t p) = pd_retries p"
  by (simp_all add: mark_lost_def split: option.split)

lemma on_sack_eq:
  obtains r h thr where
    "thr = map_option (\<lambda>r. max (millis 1) (r * 9 div 8)) (srtt r)"
    "on_sack now sack s =
     (\<lparr>sr_retired = map retired_of (filter (covered sack) (st_send_buffer s)),
       sr_lost = map (\<lambda>p. \<lparr>ls_stream_offset = pd_stream_offset p, ls_size = length (pd_data p)\<rparr>)
          (filter (\<lambda>p. loss_verdict now (min (largest_acked sack) (st_reliable_offset s)) thr p \<noteq> None)
             (filter (\<lambda>p. \<not> covered sack p) (st_send_buffer s)))\<rparr>,
      s\<lparr>st_rto := r, st_highest_acked_plus_one := h,
        st_send_buffer := map (mark_lost now (min (largest_acked sack) (st_reliable_offset s)) thr)
          (filter (\<lambda>p. \<not> covered sack p) (st_send_buffer s)),
        st_send_permits := st_send_permits s + length (filter (covered sack) (st_send_buffer s))\<rparr>)"
proof -
  obtain r h where rl: "retire_loop sack now (st_send_buffer s) s =
     (filter (\<lambda>p. \<not> covered sack p) (st_send_buffer s), map retired_of (filter (covered sack) (st_send_buffer s)),
      length (filter (covered sack) (st_send_buffer s)), s\<lparr>st_rto := r, st_highest_acked_plus_one := h\<rparr>)"
    using retire_loop_eq by blast
  show ?thesis
    by (rule that[of "map_option (\<lambda>r. max (millis 1) (r * 9 div 8)) (srtt r)" r h])
      (simp_all add: on_sack_def rl detect_losses_eq smoothed_rtt_def Let_def)
qed

lemma on_sack_inv:
  assumes inv: "send_inv s"
  shows "send_inv (snd (on_sack now sack s))"
proof -
  let ?unc = "filter (\<lambda>p. \<not> covered sack p) (st_send_buffer s)"
  obtain r h thr where eq: "snd (on_sack now sack s) = s\<lparr>st_rto := r, st_highest_acked_plus_one := h,
        st_send_buffer := map (mark_lost now (min (largest_acked sack) (st_reliable_offset s)) thr) ?unc,
        st_send_permits := st_send_permits s + length (filter (covered sack) (st_send_buffer s))\<rparr>"
    by (rule on_sack_eq[of now sack s]) simp
  have "sum_list (map charge_of ?unc) \<le> sum_list (map charge_of (st_send_buffer s))"
    by (rule sum_list_filter_le_nat)
  moreover have "charge_of \<circ> mark_lost now l thr = charge_of" for l
    by (simp add: charge_of_def fun_eq_iff)
  moreover have "segment_ok (mark_lost now l thr p) = segment_ok p" for l p
    by (simp add: segment_ok_def)
  moreover have "length (filter (covered sack) (st_send_buffer s)) + length ?unc = length (st_send_buffer s)"
    by (rule sum_length_filter_compl)
  moreover have "sorted_wrt (\<lambda>a b. pd_stream_offset a < pd_stream_offset b) ?unc"
    using inv by (simp add: send_inv_def sorted_wrt_filter)
  ultimately show ?thesis
    using inv unfolding send_inv_def eq by (simp add: sorted_wrt_map)
qed

subsection \<open>What a transmission carries\<close>

text \<open>The wire content of a buffered segment: it never changes while the segment is buffered.\<close>

definition seg_key :: "pending_data \<Rightarrow> u32 \<times> bytes \<times> bool" where
  "seg_key p = (pd_stream_offset p, pd_data p, pd_fin p)"

definition out_key :: "outbound_segment \<Rightarrow> u32 \<times> bytes \<times> bool" where
  "out_key g = (ob_stream_offset g, ob_data g, ob_fin g)"

abbreviation buf_keys :: "stream \<Rightarrow> (u32 \<times> bytes \<times> bool) list" where
  "buf_keys s \<equiv> map seg_key (st_send_buffer s)"

lemma update_first_keys:
  assumes "update_first P f xs = Some (x, ys)" "seg_key (f x) = seg_key x"
  shows "map seg_key ys = map seg_key xs" and "x \<in> set xs" and "P x"
  using assms(2) by (rule_tac update_first_SomeE[OF assms(1)]; simp)+

lemma persist_probe_key:
  "fst (try_persist_probe now b s) = Some g \<Longrightarrow>
   last_acked_offset s = Some (ob_stream_offset g) \<and> ob_data g = [] \<and> \<not> ob_fin g \<and> ob_reliable g
   \<and> \<not> ob_retransmit g \<and> \<not> b"
  by (auto simp: try_persist_probe_def split: if_splits option.splits)

text \<open>The window is probed when nothing is in flight, once per timeout.\<close>

definition probe_due :: "nanos \<Rightarrow> stream \<Rightarrow> bool" where
  "probe_due now s \<longleftrightarrow> list_all (\<lambda>p. pd_sent_at p = None) (st_send_buffer s) \<and> last_acked_offset s \<noteq> None
     \<and> (case st_persist_probe_at s of None \<Rightarrow> True | Some at \<Rightarrow> current_rto s \<le> now - at)"

lemma persist_probe_due:
  "fst (try_persist_probe now (list_ex (\<lambda>p. pd_sent_at p \<noteq> None) (st_send_buffer s)) s) \<noteq> None \<longleftrightarrow> probe_due now s"
  by (auto simp: try_persist_probe_def probe_due_def list_all_iff list_ex_iff split: option.splits)

lemma try_consume_frame:
  obtains b where "snd (try_consume_send_window n s) = s\<lparr>st_bytes_sent := b\<rparr>"
proof -
  have "snd (try_consume_send_window n s) = s\<lparr>st_bytes_sent := st_bytes_sent s\<rparr>
    \<or> snd (try_consume_send_window n s) = s\<lparr>st_bytes_sent := st_bytes_sent s + ucast n\<rparr>"
    by (simp add: try_consume_snd)
  then show ?thesis using that by blast
qed

lemma mark_sent_key [simp]: "seg_key (mark_sent now dn dt al p) = seg_key p"
  by (simp add: seg_key_def mark_sent_def)

text \<open>
  What sending a segment for the first time takes from the peer's limit: its length
  as the 32-bit argument of \<open>try_consume_send_window\<close>, once, and nothing for a FIN.
\<close>

definition fresh_charge :: "pending_data \<Rightarrow> nat" where
  "fresh_charge p = (if pd_fin p \<or> pd_charged p then 0
     else unat (ucast (word_of_nat (length (pd_data p)) :: u64) :: u32))"

text \<open>The outcomes of the new-data pass.\<close>

lemma poll_new_cases:
  obtains (idle) "poll_new now cwnd dn dt al s = (Err Idle, s)" "\<forall>p\<in>set (st_send_buffer s). pd_sent_at p \<noteq> None"
  | (cwnd) p where "poll_new now cwnd dn dt al s = (Err CongestionWindow, s)"
      "find (\<lambda>p. pd_sent_at p = None) (st_send_buffer s) = Some p"
      "cwnd < word_of_nat (length (pd_data p))"
  | (fresh) p buf b where "poll_new now cwnd dn dt al s = (Ok (fresh_segment p), s\<lparr>st_bytes_sent := b, st_send_buffer := buf\<rparr>)"
      "update_first (\<lambda>p. pd_sent_at p = None) (mark_sent now dn dt al) (st_send_buffer s) = Some (p, buf)"
      "word_of_nat (length (pd_data p)) \<le> cwnd" "unat b = unat (st_bytes_sent s) + fresh_charge p"
      "fresh_charge p = 0 \<or> unat b \<le> unat (st_peer_send_limit s)"
  | (blocked) p r x where "poll_new now cwnd dn dt al s =
          (case r of Some probe \<Rightarrow> Ok probe | None \<Rightarrow> Err FlowControl, s\<lparr>st_persist_probe_at := x\<rparr>)"
      "r = fst (try_persist_probe now (list_ex (\<lambda>p. pd_sent_at p \<noteq> None) (st_send_buffer s)) s)"
      "find (\<lambda>p. pd_sent_at p = None) (st_send_buffer s) = Some p" "\<not> pd_fin p" "\<not> pd_charged p"
      "\<not> fst (try_consume_send_window (ucast (word_of_nat (length (pd_data p)) :: u64)) s)"
      "x = (if r = None then st_persist_probe_at s else Some now)" "word_of_nat (length (pd_data p)) \<le> cwnd"
proof (cases "update_first (\<lambda>p. pd_sent_at p = None) (mark_sent now dn dt al) (st_send_buffer s)" rule: option_pair_cases)
  case None
  then have "\<forall>p\<in>set (st_send_buffer s). pd_sent_at p \<noteq> None" unfolding update_first_None .
  moreover have "poll_new now cwnd dn dt al s = (Err Idle, s)" using None by (simp add: poll_new_def)
  ultimately show ?thesis by (rule idle[rotated])
next
  case (Some p buf)
  have fnd: "find (\<lambda>p. pd_sent_at p = None) (st_send_buffer s) = Some p"
    using Some by (rule update_first_SomeE) (simp add: find_first)
  let ?len = "word_of_nat (length (pd_data p)) :: u64"
  let ?tc = "try_consume_send_window (ucast ?len) s"
  consider "cwnd < ?len" | "?len \<le> cwnd" "\<not> pd_fin p \<and> \<not> pd_charged p" "\<not> fst ?tc"
    | "?len \<le> cwnd" "\<not> pd_fin p \<and> \<not> pd_charged p" "fst ?tc"
    | "?len \<le> cwnd" "\<not> (\<not> pd_fin p \<and> \<not> pd_charged p)" by fastforce
  then show ?thesis
  proof cases
    case 1
    then show ?thesis using fnd Some by (intro cwnd) (simp_all add: poll_new_def)
  next
    case 2
    let ?pp = "try_persist_probe now (list_ex (\<lambda>p. pd_sent_at p \<noteq> None) (st_send_buffer s)) s"
    let ?x = "if fst ?pp = None then st_persist_probe_at s else Some now"
    have x: "snd ?pp = s\<lparr>st_persist_probe_at := ?x\<rparr>" by (rule persist_probe_snd)
    have "snd ?tc = s" using 2(3) by (simp add: try_consume_snd)
    then have "poll_new now cwnd dn dt al s =
        (case fst ?pp of Some probe \<Rightarrow> Ok probe | None \<Rightarrow> Err FlowControl, s\<lparr>st_persist_probe_at := ?x\<rparr>)"
      using 2(2,3) leD[OF 2(1)] Some x
      by (cases ?tc; cases ?pp) (simp add: poll_new_def Let_def split: option.split)
    then show ?thesis using 2 fnd by (intro blocked[of "fst ?pp" ?x p]) simp_all
  next
    case 3
    obtain b where b: "snd ?tc = s\<lparr>st_bytes_sent := b\<rparr>" by (rule try_consume_frame)
    have u: "unat b = unat (st_bytes_sent s) + unat (ucast ?len :: u32)" using try_consume_sent[OF 3(3)] b by simp
    show ?thesis
    proof (rule fresh[of p buf b])
      show "poll_new now cwnd dn dt al s = (Ok (fresh_segment p), s\<lparr>st_bytes_sent := b, st_send_buffer := buf\<rparr>)"
        using b 3 leD[OF 3(1)] Some by (cases ?tc) (simp add: poll_new_def Let_def)
      show "unat b = unat (st_bytes_sent s) + fresh_charge p" using u 3(2) by (simp add: fresh_charge_def)
      show "fresh_charge p = 0 \<or> unat b \<le> unat (st_peer_send_limit s)" using u 3(3) by (simp add: try_consume_iff)
    qed (rule Some 3(1))+
  next
    case 4
    have "poll_new now cwnd dn dt al s = (Ok (fresh_segment p), s\<lparr>st_bytes_sent := st_bytes_sent s, st_send_buffer := buf\<rparr>)"
      using Some leD[OF 4(1)] 4(2) by (auto simp: poll_new_def Let_def)
    moreover have "fresh_charge p = 0" using 4(2) by (auto simp: fresh_charge_def)
    ultimately show ?thesis using Some 4(1) by (intro fresh[of p buf "st_bytes_sent s"]) simp_all
  qed
qed

lemma poll_new_keys:
  "buf_keys (snd (poll_new now cwnd dn dt al s)) = buf_keys s"
  by (rule poll_new_cases[of now cwnd dn dt al s]) (auto dest: update_first_keys(1))

lemma poll_new_out:
  assumes "fst (poll_new now cwnd dn dt al s) = Ok g"
  shows "ob_reliable g \<and> \<not> ob_retransmit g \<and>
    (out_key g \<in> set (buf_keys s) \<or> last_acked_offset s = Some (ob_stream_offset g) \<and> ob_data g = [] \<and> \<not> ob_fin g)"
proof (cases rule: poll_new_cases[of now cwnd dn dt al s])
  case (fresh p buf b)
  have "p \<in> set (st_send_buffer s)" by (rule update_first_keys(2)[OF fresh(2)]) simp
  moreover have "g = fresh_segment p" using assms fresh(1) by simp
  ultimately show ?thesis by (auto simp: fresh_segment_def out_key_def seg_key_def)
next
  case (blocked p r x)
  then have "r = Some g" using assms by (simp split: option.splits)
  then show ?thesis using persist_probe_key[of now _ s g] blocked(2) by auto
qed (use assms in auto)

text \<open>The outcomes of the whole scheduler.\<close>

lemma poll_send_cases:
  obtains (unreliable) d rest where "st_unreliable_buffer s = d # rest"
      "poll_send now cwnd dn dt al s = (Ok (unreliable_segment d), s\<lparr>st_unreliable_buffer := rest\<rparr>)"
  | (lost) p buf where "st_unreliable_buffer s = []"
      "update_first lost_in_flight (\<lambda>p. p\<lparr>pd_lost := None, pd_sent_at := Some now, pd_retries := pd_retries p + 1\<rparr>)
         (st_send_buffer s) = Some (p, buf)"
      "poll_send now cwnd dn dt al s = (Ok (retransmit_segment p (pd_lost p)), s\<lparr>st_send_buffer := buf\<rparr>)"
  | (rto) p buf where "st_unreliable_buffer s = []" "\<forall>p\<in>set (st_send_buffer s). \<not> lost_in_flight p"
      "update_first (timed_out now (current_rto s)) (\<lambda>p. p\<lparr>pd_sent_at := Some now, pd_retries := pd_retries p + 1\<rparr>)
         (st_send_buffer s) = Some (p, buf)"
      "poll_send now cwnd dn dt al s =
         (Ok (retransmit_segment p (Some RtoExpired)), note_rto_timeout (s\<lparr>st_send_buffer := buf\<rparr>))"
  | (fresh) "st_unreliable_buffer s = []" "\<forall>p\<in>set (st_send_buffer s). \<not> lost_in_flight p"
      "\<forall>p\<in>set (st_send_buffer s). \<not> timed_out now (current_rto s) p"
      "poll_send now cwnd dn dt al s = poll_new now cwnd dn dt al s"
proof (cases "st_unreliable_buffer s")
  case (Cons d rest)
  then show ?thesis by (intro unreliable) (simp_all add: poll_send_def)
next
  case Nil
  let ?f0 = "\<lambda>p. p\<lparr>pd_lost := None, pd_sent_at := Some now, pd_retries := pd_retries p + 1\<rparr>"
  let ?f1 = "\<lambda>p. p\<lparr>pd_sent_at := Some now, pd_retries := pd_retries p + 1\<rparr>"
  show ?thesis
  proof (cases "update_first lost_in_flight ?f0 (st_send_buffer s)" rule: option_pair_cases)
    case (Some p buf)
    then show ?thesis using Nil by (intro lost) (simp_all add: poll_send_def)
  next
    case nolost: None
    then have nl: "\<forall>p\<in>set (st_send_buffer s). \<not> lost_in_flight p" unfolding update_first_None .
    show ?thesis
    proof (cases "update_first (timed_out now (current_rto s)) ?f1 (st_send_buffer s)" rule: option_pair_cases)
      case (Some p buf)
      then show ?thesis using Nil nolost nl by (intro rto[of p buf]) (simp_all add: poll_send_def)
    next
      case None
      then have "\<forall>p\<in>set (st_send_buffer s). \<not> timed_out now (current_rto s) p" unfolding update_first_None .
      moreover have "poll_send now cwnd dn dt al s = poll_new now cwnd dn dt al s"
        using Nil nolost None by (simp add: poll_send_def)
      ultimately show ?thesis using Nil nl by (intro fresh)
    qed
  qed
qed

lemma poll_send_keys: "buf_keys (snd (poll_send now cwnd dn dt al s)) = buf_keys s"
proof (cases rule: poll_send_cases[of s now cwnd dn dt al])
  case (lost p buf)
  have "map seg_key buf = buf_keys s" by (rule update_first_keys(1)[OF lost(2)]) (simp add: seg_key_def)
  then show ?thesis using lost(3) by simp
next
  case (rto p buf)
  have "map seg_key buf = buf_keys s" by (rule update_first_keys(1)[OF rto(3)]) (simp add: seg_key_def)
  then show ?thesis using rto(4) by (simp add: note_rto_timeout_def)
qed (simp_all add: poll_new_keys)

lemma poll_send_out:
  assumes "fst (poll_send now cwnd dn dt al s) = Ok g" "ob_reliable g"
  shows "out_key g \<in> set (buf_keys s) \<or> last_acked_offset s = Some (ob_stream_offset g) \<and> ob_data g = [] \<and> \<not> ob_fin g"
proof (cases rule: poll_send_cases[of s now cwnd dn dt al])
  case (unreliable d rest)
  then show ?thesis using assms by (auto simp: unreliable_segment_def)
next
  case (lost p buf)
  have "p \<in> set (st_send_buffer s)" by (rule update_first_keys(2)[OF lost(2)]) (simp add: seg_key_def)
  then show ?thesis using assms(1) lost(3) by (auto simp: retransmit_segment_def out_key_def seg_key_def)
next
  case (rto p buf)
  have "p \<in> set (st_send_buffer s)" by (rule update_first_keys(2)[OF rto(3)]) (simp add: seg_key_def)
  then show ?thesis using assms(1) rto(4) by (auto simp: retransmit_segment_def out_key_def seg_key_def)
next
  case fresh
  then show ?thesis using poll_new_out[of now cwnd dn dt al s g] assms(1) by simp
qed

subsection \<open>Runs of the sender\<close>

datatype send_op =
    OpSend bytes | OpTrySend bytes | OpFin | OpTryFin | OpUnreliable bytes
  | OpPoll nanos u64 u64 nanos bool | OpSack nanos sack | OpAck nanos u32
  | OpUnsent u32 | OpLimit u64 | OpResetRto | OpRelease

fun send_apply :: "stream \<Rightarrow> send_op \<Rightarrow> stream" where
  "send_apply s (OpSend d) = snd (send_reliable d s)"
| "send_apply s (OpTrySend d) = snd (try_send_reliable d s)"
| "send_apply s OpFin = snd (queue_fin s)"
| "send_apply s OpTryFin = snd (try_queue_fin s)"
| "send_apply s (OpUnreliable d) = send_unreliable d s"
| "send_apply s (OpPoll now cwnd dn dt al) = snd (poll_send now cwnd dn dt al s)"
| "send_apply s (OpSack now k) = snd (on_sack now k s)"
| "send_apply s (OpAck now off) = snd (stream_ack now off s)"
| "send_apply s (OpUnsent off) = mark_unsent off s"
| "send_apply s (OpLimit l) = apply_peer_window_limit l s"
| "send_apply s OpResetRto = reset_rto s"
| "send_apply s OpRelease = release_app_handle s"

text \<open>The application hands over chunks shorter than 4 GiB (the pump cuts them at the path MTU).\<close>

fun op_ok :: "send_op \<Rightarrow> bool" where
  "op_ok (OpSend d) = (length d < 2 ^ 32)"
| "op_ok (OpTrySend d) = (length d < 2 ^ 32)"
| "op_ok _ = True"

lemma send_inv_local_finished: "send_inv (s\<lparr>st_local_finished := b\<rparr>) = send_inv s"
  by (simp add: send_inv_def)

lemma enqueue_ops_inv:
  assumes inv: "send_inv s"
  shows "length d < 2 ^ 32 \<Longrightarrow> send_inv (snd (send_reliable d s))"
    and "length d < 2 ^ 32 \<Longrightarrow> send_inv (snd (try_send_reliable d s))"
    and "send_inv (snd (queue_fin s))" and "send_inv (snd (try_queue_fin s))"
proof -
  note e = enqueue_inv[OF inv]
  have e': "send_inv (s1\<lparr>st_send_permits := st_send_permits s1 - 1,
        st_send_buffer := st_send_buffer s1 @ [new_pending off [] True], st_local_finished := True\<rparr>)"
    if "next_reliable_offset s = Ok (off, s1)" "0 < st_send_permits s" for off s1
    using e[OF that, of "[]" True] by (simp add: send_inv_local_finished)
  show "length d < 2 ^ 32 \<Longrightarrow> send_inv (snd (send_reliable d s))"
    "length d < 2 ^ 32 \<Longrightarrow> send_inv (snd (try_send_reliable d s))"
    using e inv by (auto simp: send_reliable_def try_send_reliable_def split: sum.split)
  show "send_inv (snd (queue_fin s))" "send_inv (snd (try_queue_fin s))"
    using e' inv by (auto simp: queue_fin_def try_queue_fin_def split: sum.split)
qed

lemma frame_ops_inv:
  assumes "send_inv s"
  shows "send_inv (send_unreliable d s)" "send_inv (reset_rto s)" "send_inv (release_app_handle s)"
    "send_inv (apply_peer_window_limit l s)"
  using assms by (simp_all add: send_inv_def send_unreliable_def reset_rto_def release_app_handle_def
      apply_peer_window_limit_def Let_def le_max_iff_disj)

lemma send_apply_inv: "send_inv s \<Longrightarrow> op_ok op \<Longrightarrow> send_inv (send_apply s op)"
  by (cases op) (simp_all add: enqueue_ops_inv poll_send_inv on_sack_inv stream_ack_inv
      mark_unsent_inv frame_ops_inv)

lemma send_run_inv: "send_inv s \<Longrightarrow> list_all op_ok ops \<Longrightarrow> send_inv (foldl send_apply s ops)"
  by (induction ops arbitrary: s) (simp_all add: send_apply_inv)

lemma stream_new_send_inv: "send_inv (stream_new i)"
  by (simp add: send_inv_def stream_new_def MAX_PENDING_PACKETS_def)

subsection \<open>Exact charging\<close>

text \<open>The charge the buffered segments carry, and the charge an operation retires for good.\<close>

definition outstanding_charge :: "stream \<Rightarrow> nat" where
  "outstanding_charge s = sum_list (map charge_of (st_send_buffer s))"

fun settled_by :: "send_op \<Rightarrow> stream \<Rightarrow> nat" where
  "settled_by (OpSack now k) s = sum_list (map charge_of (filter (covered k) (st_send_buffer s)))"
| "settled_by (OpAck now off) s =
     (case find (\<lambda>p. pd_stream_offset p = off) (st_send_buffer s) of Some p \<Rightarrow> charge_of p | None \<Rightarrow> 0)"
| "settled_by _ s = 0"

fun settled :: "stream \<Rightarrow> send_op list \<Rightarrow> nat" where
  "settled s [] = 0"
| "settled s (op # ops) = settled_by op s + settled (send_apply s op) ops"

text \<open>Every operation balances what it charges, refunds and settles.\<close>

definition balanced :: "stream \<Rightarrow> nat \<Rightarrow> stream \<Rightarrow> bool" where
  "balanced s n s' \<longleftrightarrow> unat (st_bytes_sent s') + outstanding_charge s = unat (st_bytes_sent s) + outstanding_charge s' + n"

lemma balanced_frame:
  "st_bytes_sent s' = st_bytes_sent s \<Longrightarrow> map charge_of (st_send_buffer s') = map charge_of (st_send_buffer s) \<Longrightarrow> balanced s 0 s'"
  by (simp add: balanced_def outstanding_charge_def)

lemma balanced_update:
  assumes "update_first P f (st_send_buffer s) = Some (p, buf)"
    and "unat (st_bytes_sent s') + charge_of p = unat (st_bytes_sent s) + charge_of (f p)" "st_send_buffer s' = buf"
  shows "balanced s 0 s'"
proof -
  obtain pre post where "st_send_buffer s = pre @ p # post" "buf = pre @ f p # post"
    using assms(1) by (rule update_first_SomeE)
  then show ?thesis using assms(2,3) by (simp add: balanced_def outstanding_charge_def)
qed

lemma fresh_charge_exact:
  "segment_ok p \<Longrightarrow> charge_of (mark_sent now dn dt al p) = charge_of p + fresh_charge p"
  by (auto simp: segment_ok_def charge_of_def mark_sent_def fresh_charge_def unat_word_of_len)

lemma poll_balanced:
  assumes inv: "send_inv s"
  shows "balanced s 0 (snd (poll_send now cwnd dn dt al s))"
proof (cases rule: poll_send_cases[of s now cwnd dn dt al])
  case (unreliable d rest)
  then show ?thesis by (simp add: balanced_frame)
next
  case (lost p buf)
  show ?thesis by (rule balanced_update[OF lost(2)]) (simp_all add: lost(3) charge_of_def)
next
  case (rto p buf)
  show ?thesis by (rule balanced_update[OF rto(3)]) (simp_all add: rto(4) charge_of_def note_rto_timeout_def)
next
  case new: fresh
  show ?thesis unfolding new(4)
  proof (cases rule: poll_new_cases[of now cwnd dn dt al s])
    case (fresh p buf b)
    have "p \<in> set (st_send_buffer s)" by (rule update_first_keys(2)[OF fresh(2)]) simp
    then have "segment_ok p" using inv by (simp add: send_inv_def)
    then show "balanced s 0 (snd (poll_new now cwnd dn dt al s))"
      by (intro balanced_update[OF fresh(2)]) (simp_all add: fresh(1,4) fresh_charge_exact)
  qed (simp_all add: balanced_frame)
qed

lemma unsent_balanced:
  assumes inv: "send_inv s"
  shows "balanced s 0 (mark_unsent off s)"
proof (cases "update_first (\<lambda>p. pd_stream_offset p = off)
             (\<lambda>p. p\<lparr>pd_sent_at := None,
                   pd_charged := (if pd_charged p \<and> pd_retries p = 0 then False else pd_charged p)\<rparr>)
             (st_send_buffer s)" rule: option_pair_cases)
  case None
  then show ?thesis by (simp add: mark_unsent_def balanced_def)
next
  case (Some p buf)
  obtain pre post where b: "st_send_buffer s = pre @ p # post" using Some by (rule update_first_SomeE)
  then have len: "length (pd_data p) < 2 ^ 32" and ch: "charge_of p \<le> unat (st_bytes_sent s)"
    using inv by (auto simp: send_inv_def segment_ok_def)
  show ?thesis
    by (rule balanced_update[OF Some]) (use ch Some in \<open>auto simp: mark_unsent_def charge_of_def unat_sat_sub unat_word_of_len64[OF len]\<close>)
qed

lemma ack_balanced: "balanced s (settled_by (OpAck now off) s) (snd (stream_ack now off s))"
proof (cases "remove_first (\<lambda>p. pd_stream_offset p = off) (st_send_buffer s)" rule: option_pair_cases)
  case None
  then have "find (\<lambda>p. pd_stream_offset p = off) (st_send_buffer s) = None" by (simp add: remove_first_None find_None_iff)
  then show ?thesis using None by (simp add: stream_ack_def balanced_def)
next
  case (Some p buf)
  obtain pre post where b: "st_send_buffer s = pre @ p # post" "buf = pre @ post" "pd_stream_offset p = off"
    "\<forall>y\<in>set pre. \<not> pd_stream_offset y = off"
    using Some by (rule remove_first_SomeE)
  then have "find (\<lambda>p. pd_stream_offset p = off) (st_send_buffer s) = Some p" by (simp add: find_first)
  moreover have "st_send_buffer (snd (stream_ack now off s)) = buf" "st_bytes_sent (snd (stream_ack now off s)) = st_bytes_sent s"
    using Some by (simp_all add: stream_ack_def Let_def note_acked_offset_def record_rtt_sample_def split: option.split)
  ultimately show ?thesis using b(1,2) by (simp add: balanced_def outstanding_charge_def)
qed

lemma sack_balanced: "balanced s (settled_by (OpSack now k) s) (snd (on_sack now k s))"
proof -
  have c: "charge_of \<circ> mark_lost now l thr = charge_of" for l thr by (simp add: charge_of_def fun_eq_iff)
  have "sum_list (map charge_of (filter (\<lambda>p. \<not> covered k p) xs)) + sum_list (map charge_of (filter (covered k) xs))
      = sum_list (map charge_of xs)" for xs by (induction xs) simp_all
  then show ?thesis by (rule_tac on_sack_eq[of now k s]) (simp add: balanced_def outstanding_charge_def c)
qed

lemma enqueue_balanced:
  "balanced s 0 (snd (send_reliable d s))" "balanced s 0 (snd (try_send_reliable d s))"
  "balanced s 0 (snd (queue_fin s))" "balanced s 0 (snd (try_queue_fin s))"
  by (auto simp: balanced_def outstanding_charge_def send_reliable_def try_send_reliable_def queue_fin_def
      try_queue_fin_def next_reliable_offset_def checked_add_def charge_of_def new_pending_def
      split: option.split sum.split)

lemma send_apply_balanced: "send_inv s \<Longrightarrow> op_ok op \<Longrightarrow> balanced s (settled_by op s) (send_apply s op)"
  using ack_balanced sack_balanced
  by (cases op) (simp_all add: enqueue_balanced poll_balanced unsent_balanced balanced_frame send_unreliable_def
      reset_rto_def release_app_handle_def apply_peer_window_limit_def Let_def)

lemma send_run_balanced:
  "send_inv s \<Longrightarrow> list_all op_ok ops \<Longrightarrow> balanced s (settled s ops) (foldl send_apply s ops)"
proof (induction ops arbitrary: s)
  case Nil
  show ?case by (simp add: balanced_def)
next
  case (Cons op ops)
  then have "balanced (send_apply s op) (settled (send_apply s op) ops) (foldl send_apply (send_apply s op) ops)"
    "balanced s (settled_by op s) (send_apply s op)"
    by (simp_all add: send_apply_inv send_apply_balanced)
  then show ?case by (simp add: balanced_def)
qed

subsection \<open>Properties\<close>

text \<open>
  C26. Sender invariant over every sequence of sender operations (queueing data
  and FIN, polling for transmission, selective and single acknowledgements,
  reverting a failed transmission, window updates). The unacknowledged segments
  keep strictly increasing offsets below the next offset, never more than 1024 are
  buffered and the free permits are exactly the rest, the bytes charged never
  exceed the peer's limit, and every transmitted data segment has been charged.
  Charging is exact: the bytes charged are the lengths of the charged segments
  still buffered plus those of the charged segments acknowledged so far, so no
  segment is charged twice, however often it is sent or reverted.
\<close>

theorem sender_invariant:
  assumes "list_all op_ok ops"
  shows "let s = foldl send_apply (stream_new i) ops
    in send_inv s \<and> unat (st_bytes_sent s) = outstanding_charge s + settled (stream_new i) ops"
proof -
  have "outstanding_charge (stream_new i) = 0" "st_bytes_sent (stream_new i) = 0"
    by (simp_all add: outstanding_charge_def stream_new_def)
  then show ?thesis using send_run_inv[OF stream_new_send_inv assms, of i] send_run_balanced[OF stream_new_send_inv assms, of i]
    by (simp add: Let_def balanced_def)
qed

theorem sender_invariant_witness:
  "let s = foldl send_apply (stream_new 7) [OpSend [1, 2], OpFin, OpPoll 5 1000 0 0 False, OpAck 9 0, OpSend [3]]
   in send_inv s \<and> st_bytes_sent s = 2 \<and> outstanding_charge s = 0"
proof -
  let ?ops = "[OpSend [1, 2], OpFin, OpPoll 5 1000 0 0 False, OpAck 9 0, OpSend [3]]"
  let ?s = "foldl send_apply (stream_new 7) ?ops"
  have "list_all op_ok ?ops" by simp
  from sender_invariant[OF this, of 7] have t: "send_inv ?s" "unat (st_bytes_sent ?s) = outstanding_charge ?s + settled (stream_new 7) ?ops"
    by (simp_all add: Let_def)
  note eval = send_reliable_def queue_fin_def next_reliable_offset_def stream_new_def checked_add_def MAX_PENDING_PACKETS_def
    poll_send_def new_pending_def lost_in_flight_def timed_out_def poll_new_def try_consume_send_window_def
    INITIAL_STREAM_WINDOW_def mark_sent_def stream_ack_def note_acked_offset_def record_rtt_sample_def charge_of_def
  have "outstanding_charge ?s = 0" "settled (stream_new 7) ?ops = 2"
    by (simp_all add: eval outstanding_charge_def Let_def)
  then have "unat (st_bytes_sent ?s) = unat (2 :: u64)" using t(2) by simp
  then have "st_bytes_sent ?s = 2" by (simp only: unat_inject)
  then show ?thesis using t(1) \<open>outstanding_charge ?s = 0\<close> unfolding Let_def by blast
qed


text \<open>
  Loss detection is one-shot: processing the same selective acknowledgement
  again, at the same instant, retires nothing, declares no segment lost a second
  time and leaves the send buffer as it was.
\<close>

theorem on_sack_idempotent:
  "let s1 = snd (on_sack now sack s); (res, s2) = on_sack now sack s1
   in sr_retired res = [] \<and> sr_lost res = [] \<and> st_send_buffer s2 = st_send_buffer s1"
proof -
  let ?l = "min (largest_acked sack) (st_reliable_offset s)"
  let ?thr = "\<lambda>r. map_option (\<lambda>x. max (millis 1) (x * 9 div 8)) (srtt r)"
  obtain r h thr where thr: "thr = ?thr r" and eq: "snd (on_sack now sack s) =
      s\<lparr>st_rto := r, st_highest_acked_plus_one := h,
        st_send_buffer := map (mark_lost now ?l thr) (filter (\<lambda>p. \<not> covered sack p) (st_send_buffer s)),
        st_send_permits := st_send_permits s + length (filter (covered sack) (st_send_buffer s))\<rparr>"
    by (rule on_sack_eq[of now sack s]) simp
  let ?s1 = "snd (on_sack now sack s)"
  have nc: "filter (covered sack) (st_send_buffer ?s1) = []"
    "filter (\<lambda>p. \<not> covered sack p) (st_send_buffer ?s1) = st_send_buffer ?s1"
    by (auto simp: eq filter_empty_conv filter_id_conv)
  have rl: "retire_loop sack now ps t = (ps, [], 0, t)" if "\<forall>p\<in>set ps. \<not> covered sack p" for ps t
    using that by (induction ps) auto
  have "loss_verdict now ?l thr (mark_lost now ?l thr p) = None" for p
  proof (cases "loss_verdict now ?l thr p")
    case None
    then show ?thesis by (simp add: mark_lost_def)
  next
    case (Some c)
    then show ?thesis by (simp add: mark_lost_def) (simp add: loss_verdict_def)
  qed
  then have id: "mark_lost now ?l thr (mark_lost now ?l thr p) = mark_lost now ?l thr p"
    and none: "loss_verdict now ?l thr (mark_lost now ?l thr p) = None" for p
    by (simp_all add: mark_lost_def[of now ?l thr "mark_lost now ?l thr p"])
  have "on_sack now sack ?s1 = (\<lparr>sr_retired = [], sr_lost = []\<rparr>, ?s1)"
    unfolding on_sack_def[of now sack ?s1] using rl[of "st_send_buffer ?s1" ?s1]
    by (simp add: eq Let_def detect_losses_eq smoothed_rtt_def thr[symmetric, unfolded One_nat_def] id none o_def
        filter_empty_conv)
  then show ?thesis by (simp add: Let_def)
qed

text \<open>
  C28. What each answer of the transmission scheduler means and the state it
  leaves. A refusal leaves the stream unchanged, and nothing lost or timed out
  awaits repair: \<open>Idle\<close> says everything buffered is on the wire,
  \<open>CongestionWindow\<close> and \<open>FlowControl\<close> that the oldest unsent segment exceeds the
  congestion budget, respectively the peer's limit with no probe due. A segment handed out is, in
  order of preference, the oldest unreliable datagram, which leaves its queue; the
  first segment declared lost, or failing that the first one timed out, which is
  stamped with the present, cleared of its loss mark and counted as resent without
  a charge (a timeout backs the timer off); the oldest unsent segment, stamped and
  charged against the peer's limit once; or, when that limit is closed and nothing
  is in flight, an empty probe, once per timeout, at the highest acknowledged offset. Nothing else of
  the stream changes.
\<close>

theorem poll_send_outcome:
  "case poll_send now cwnd dn dt al s of
     (Inl e, s') \<Rightarrow> s' = s \<and> st_unreliable_buffer s = []
       \<and> list_all (\<lambda>p. \<not> lost_in_flight p \<and> \<not> timed_out now (current_rto s) p) (st_send_buffer s)
       \<and> (case (e, find (\<lambda>p. pd_sent_at p = None) (st_send_buffer s)) of
            (Idle, None) \<Rightarrow> True
          | (CongestionWindow, Some p) \<Rightarrow> cwnd < word_of_nat (length (pd_data p))
          | (FlowControl, Some p) \<Rightarrow> unat (st_peer_send_limit s) < unat (st_bytes_sent s) + fresh_charge p \<and> \<not> probe_due now s
          | _ \<Rightarrow> False)
   | (Inr g, s') \<Rightarrow>
       (\<exists>d rest. st_unreliable_buffer s = d # rest \<and> g = unreliable_segment d \<and> s' = s\<lparr>st_unreliable_buffer := rest\<rparr>)
     \<or> st_unreliable_buffer s = [] \<and> (\<exists>pre p post. st_send_buffer s = pre @ p # post
         \<and> ((lost_in_flight p \<and> list_all (\<lambda>q. \<not> lost_in_flight q) pre
               \<and> g = retransmit_segment p (pd_lost p)
               \<and> s' = s\<lparr>st_send_buffer := pre @ p\<lparr>pd_lost := None, pd_sent_at := Some now, pd_retries := pd_retries p + 1\<rparr> # post\<rparr>)
           \<or> (list_all (\<lambda>q. \<not> lost_in_flight q) (st_send_buffer s)
               \<and> timed_out now (current_rto s) p \<and> list_all (\<lambda>q. \<not> timed_out now (current_rto s) q) pre
               \<and> g = retransmit_segment p (Some RtoExpired)
               \<and> s' = s\<lparr>st_rto := on_timeout (st_rto s), st_send_buffer :=
                      pre @ p\<lparr>pd_lost := None, pd_sent_at := Some now, pd_retries := pd_retries p + 1\<rparr> # post\<rparr>)
           \<or> (list_all (\<lambda>q. \<not> lost_in_flight q \<and> \<not> timed_out now (current_rto s) q) (st_send_buffer s)
               \<and> pd_sent_at p = None \<and> list_all (\<lambda>q. pd_sent_at q \<noteq> None) pre
               \<and> word_of_nat (length (pd_data p)) \<le> cwnd
               \<and> (fresh_charge p = 0 \<or> unat (st_bytes_sent s) + fresh_charge p \<le> unat (st_peer_send_limit s))
               \<and> g = fresh_segment p
               \<and> (\<exists>b. unat b = unat (st_bytes_sent s) + fresh_charge p
                      \<and> s' = s\<lparr>st_bytes_sent := b, st_send_buffer := pre @ mark_sent now dn dt al p # post\<rparr>))
           \<or> (probe_due now s \<and> pre = []
               \<and> unat (st_peer_send_limit s) < unat (st_bytes_sent s) + fresh_charge p
               \<and> last_acked_offset s = Some (ob_stream_offset g) \<and> ob_data g = [] \<and> \<not> ob_fin g
               \<and> ob_reliable g \<and> \<not> ob_retransmit g
               \<and> s' = s\<lparr>st_persist_probe_at := Some now\<rparr>)))"
proof (cases rule: poll_send_cases[of s now cwnd dn dt al])
  case (unreliable d rest)
  then show ?thesis by simp
next
  case (lost p buf)
  obtain pre post where b: "st_send_buffer s = pre @ p # post"
    "buf = pre @ p\<lparr>pd_lost := None, pd_sent_at := Some now, pd_retries := pd_retries p + 1\<rparr> # post"
    "lost_in_flight p" "\<forall>q\<in>set pre. \<not> lost_in_flight q"
    using lost(2) by (rule update_first_SomeE)
  show ?thesis unfolding lost(3) prod.case sum.case
    by (intro disjI2 conjI exI[of _ pre] exI[of _ p] exI[of _ post] disjI1) (use lost(1) b in \<open>simp_all add: list_all_iff\<close>)
next
  case (rto p buf)
  obtain pre post where b: "st_send_buffer s = pre @ p # post"
    "buf = pre @ p\<lparr>pd_sent_at := Some now, pd_retries := pd_retries p + 1\<rparr> # post"
    "timed_out now (current_rto s) p" "\<forall>q\<in>set pre. \<not> timed_out now (current_rto s) q"
    using rto(3) by (rule update_first_SomeE)
  have "pd_lost p = None" using rto(2) b(1,3) by (auto simp: lost_in_flight_def timed_out_def split: option.splits)
  then have "p\<lparr>pd_sent_at := Some now, pd_retries := pd_retries p + 1\<rparr>
      = p\<lparr>pd_lost := None, pd_sent_at := Some now, pd_retries := pd_retries p + 1\<rparr>" by simp
  then show ?thesis unfolding rto(4) prod.case sum.case
    by (intro disjI2 conjI exI[of _ pre] exI[of _ p] exI[of _ post] disjI2 disjI1)
      (use rto(1,2) b in \<open>simp_all add: list_all_iff note_rto_timeout_def\<close>)
next
  case new: fresh
  have la: "list_all (\<lambda>p. \<not> lost_in_flight p \<and> \<not> timed_out now (current_rto s) p) (st_send_buffer s)"
    using new(2,3) by (simp add: list_all_iff)
  show ?thesis
  proof (cases rule: poll_new_cases[of now cwnd dn dt al s])
    case idle
    then have "find (\<lambda>p. pd_sent_at p = None) (st_send_buffer s) = None" by (simp add: find_None_iff)
    then show ?thesis unfolding new(4) idle(1) using new(1) la by simp
  next
    case (cwnd p)
    then show ?thesis using new(1,4) la by simp
  next
    case (fresh p buf b)
    obtain pre post where u: "st_send_buffer s = pre @ p # post" "buf = pre @ mark_sent now dn dt al p # post"
      "pd_sent_at p = None" "\<forall>q\<in>set pre. \<not> pd_sent_at q = None"
      using fresh(2) by (rule update_first_SomeE)
    show ?thesis unfolding new(4) fresh(1) prod.case sum.case
      by (rule disjI2, rule conjI[OF new(1)], rule exI[of _ pre], rule exI[of _ p], rule exI[of _ post],
          rule conjI[OF u(1)], rule disjI2, rule disjI2, rule disjI1, intro conjI exI[of _ b])
        (use new(1) la u fresh(3-5) in \<open>simp_all add: list_all_iff\<close>)
  next
    case (blocked p r x)
    have lim: "unat (st_peer_send_limit s) < unat (st_bytes_sent s) + fresh_charge p"
      using blocked(4-6) by (simp add: try_consume_iff fresh_charge_def)
    show ?thesis
    proof (cases r)
      case None
      then have "\<not> probe_due now s" using blocked(2) persist_probe_due[of now s] by simp
      then show ?thesis using None blocked(1,3,7) new(1,4) la lim by simp
    next
      case (Some g)
      have k: "last_acked_offset s = Some (ob_stream_offset g)" "ob_data g = []" "\<not> ob_fin g" "ob_reliable g" "\<not> ob_retransmit g"
        using persist_probe_key[of now _ s g] Some blocked(2) by auto
      have no: "probe_due now s" using Some blocked(2) persist_probe_due[of now s] by simp
      obtain post where "st_send_buffer s = [] @ p # post"
        using blocked(3) no by (cases "st_send_buffer s") (auto simp: probe_due_def)
      then show ?thesis unfolding new(4) blocked(1) Some option.case prod.case sum.case
        by (intro disjI2 conjI exI[of _ "[]"] exI[of _ p] exI[of _ post])
          (use k no lim new(1) blocked(7) Some in simp_all)
    qed
  qed
qed

end
