(* ===== verification/Stream_Recv.thy ===== *)
theory Stream_Recv
  imports Stream_Base Sack_Codec
begin

text \<open>
  The receiving half of a stream (\<open>transport/stream.rs\<close>): in-order reassembly
  with a bounded reorder buffer, the selective acknowledgement built from it, FIN
  ordering, and the application's receive queue.
\<close>

subsection \<open>Reassembly\<close>

definition seg_bytes :: "bytes list \<Rightarrow> nat" where
  "seg_bytes payloads = sum_list (map length payloads)"

text \<open>
  The drain loop: while the reorder buffer holds the next expected offset, remove
  it, append its payloads to the output and advance. State: next offset, buffer,
  buffered bytes, output.
\<close>

function drain :: "u32 \<Rightarrow> (u32 \<times> bytes list) list \<Rightarrow> nat \<Rightarrow> bytes list
    \<Rightarrow> u32 \<times> (u32 \<times> bytes list) list \<times> nat \<times> bytes list" where
  "drain nxt buf n out =
     (case remove_first (\<lambda>e. fst e = nxt) buf of
        None \<Rightarrow> (nxt, buf, n, out)
      | Some (e, buf') \<Rightarrow> drain (nxt + 1) buf' (n - seg_bytes (snd e)) (out @ snd e))"
  by pat_completeness auto
termination
  by (relation "measure (\<lambda>(nxt, buf, n, out). length buf)") (auto dest: remove_first_length)

declare drain.simps [simp del]

definition accept_in_order :: "nanos \<Rightarrow> u32 \<Rightarrow> bytes list \<Rightarrow> stream \<Rightarrow> bytes list \<times> stream" where
  "accept_in_order now sequence payloads s =
     (let s1 = s\<lparr>st_last_data_recv_at := Some now\<rparr>;
          expected = st_recv_sequence s1
      in if sequence < expected then ([], s1)
         else if sequence \<noteq> expected then
           let already = list_ex (\<lambda>e. fst e = sequence) (st_recv_buffer s1);
               seg = seg_bytes payloads;
               within_byte_budget = (st_recv_buffer_bytes s1 + seg \<le> recv_reorder_byte_limit s1)
           in if \<not> already \<and> length (st_recv_buffer s1) < MAX_RECV_REORDER \<and> within_byte_budget
              then ([], s1\<lparr>st_recv_buffer := st_recv_buffer s1 @ [(sequence, payloads)],
                          st_recv_buffer_bytes := st_recv_buffer_bytes s1 + seg\<rparr>)
              else ([], s1)
         else
           let (nxt, buf, n, out) = drain (expected + 1) (st_recv_buffer s1) (st_recv_buffer_bytes s1) payloads
           in (out, s1\<lparr>st_recv_sequence := nxt, st_recv_buffer := buf, st_recv_buffer_bytes := n\<rparr>))"

definition sack_delay :: "nanos \<Rightarrow> u32 \<Rightarrow> stream \<Rightarrow> u32" where
  "sack_delay now delay_us s =
     (if delay_us \<noteq> 0 then delay_us
      else case st_last_data_recv_at s of
             None \<Rightarrow> 0
           | Some t \<Rightarrow> let micros = (now - t) div 1000
                      in if micros \<le> unat U32_MAX then word_of_nat micros else U32_MAX)"

definition received_sack :: "nanos \<Rightarrow> u32 \<Rightarrow> stream \<Rightarrow> sack option" where
  "received_sack now delay_us s =
     (let nxt = st_recv_sequence s; buf = st_recv_buffer s
      in if nxt = 0 \<and> buf = [] then None
         else
           let ranges0 = (if nxt > 0 then [(0, nxt - 1)] else []);
               ranges = foldl coalesce_seq ranges0 (sort (map fst buf))
           in from_inclusive_ranges ranges (sack_delay now delay_us s))"

subsection \<open>FIN ordering and the application queue\<close>

definition note_remote_fin :: "u32 \<Rightarrow> stream \<Rightarrow> stream" where
  "note_remote_fin off s =
     (if st_remote_fin_offset s = U32_MAX then s\<lparr>st_remote_fin_offset := off\<rparr> else s)"

definition take_in_order_fin :: "stream \<Rightarrow> bool \<times> stream" where
  "take_in_order_fin s =
     (let fin = st_remote_fin_offset s
      in if fin \<noteq> U32_MAX \<and> st_recv_sequence s > fin
         then (\<not> st_remote_finished s, s\<lparr>st_remote_finished := True\<rparr>)
         else (False, s))"

definition note_unordered_remote_fin :: "stream \<Rightarrow> bool \<times> stream" where
  "note_unordered_remote_fin s = (\<not> st_remote_finished s, s\<lparr>st_remote_finished := True\<rparr>)"

definition on_receive :: "nanos \<Rightarrow> u32 \<Rightarrow> bytes \<Rightarrow> stream \<Rightarrow> stream" where
  "on_receive now sequence data s =
     (let (delivered, s1) = accept_in_order now sequence [data] s
      in s1\<lparr>st_recv_ready := st_recv_ready s1 @ delivered\<rparr>)"

datatype recv_outcome = Data bytes | EndOfStream | Waiting

text \<open>One turn of the receive loop: \<open>Waiting\<close> parks on the notification.\<close>

definition recv_turn :: "stream \<Rightarrow> recv_outcome \<times> stream" where
  "recv_turn s =
     (case st_recv_ready s of
        d # rest \<Rightarrow> (Data d, s\<lparr>st_recv_ready := rest\<rparr>)
      | [] \<Rightarrow> if st_remote_finished s then (EndOfStream, s) else (Waiting, s))"

definition try_recv :: "stream \<Rightarrow> bytes option \<times> stream" where
  "try_recv s =
     (case st_recv_ready s of d # rest \<Rightarrow> (Some d, s\<lparr>st_recv_ready := rest\<rparr>) | [] \<Rightarrow> (None, s))"

definition update_state :: "stream \<Rightarrow> stream" where
  "update_state s =
     s\<lparr>st_state := (case (st_local_finished s, st_remote_finished s) of
        (True, True) \<Rightarrow> Closed | (True, False) \<Rightarrow> HalfClosedLocal
      | (False, True) \<Rightarrow> HalfClosedRemote | (False, False) \<Rightarrow> Open)\<rparr>"

definition finish :: "stream \<Rightarrow> stream" where
  "finish s = update_state (s\<lparr>st_local_finished := True\<rparr>)"

definition on_remote_finish :: "stream \<Rightarrow> stream" where
  "on_remote_finish s = update_state (s\<lparr>st_remote_finished := True\<rparr>)"

definition is_closed :: "stream \<Rightarrow> bool" where
  "is_closed s \<longleftrightarrow> st_local_finished s \<and> st_remote_finished s"

subsection \<open>Receiver invariant\<close>

definition buf_bytes :: "(u32 \<times> bytes list) list \<Rightarrow> nat" where
  "buf_bytes buf = sum_list (map (\<lambda>e. seg_bytes (snd e)) buf)"

definition recv_inv :: "stream \<Rightarrow> bool" where
  "recv_inv s \<longleftrightarrow> distinct (map fst (st_recv_buffer s))
     \<and> (\<forall>e\<in>set (st_recv_buffer s). st_recv_sequence s < fst e \<and> fst e < U32_MAX)
     \<and> st_recv_buffer_bytes s = buf_bytes (st_recv_buffer s)
     \<and> length (st_recv_buffer s) \<le> MAX_RECV_REORDER
     \<and> st_recv_buffer_bytes s \<le> recv_reorder_byte_limit s"

text \<open>The offsets the receiver holds or has delivered.\<close>

definition received :: "stream \<Rightarrow> u32 set" where
  "received s = {q. q < st_recv_sequence s} \<union> fst ` set (st_recv_buffer s)"

text \<open>The buffered and delivered payloads are those of the source \<open>src\<close>.\<close>

definition faithful :: "(nat \<Rightarrow> bytes list) \<Rightarrow> stream \<Rightarrow> bool" where
  "faithful src s \<longleftrightarrow> (\<forall>e\<in>set (st_recv_buffer s). snd e = src (unat (fst e)))"

definition upto_payloads :: "(nat \<Rightarrow> bytes list) \<Rightarrow> nat \<Rightarrow> nat \<Rightarrow> bytes list" where
  "upto_payloads src a b = concat (map src [a..<b])"

lemma upto_payloads_empty [simp]: "upto_payloads src a a = []"
  by (simp add: upto_payloads_def)

lemma upto_payloads_Suc: "a < b \<Longrightarrow> upto_payloads src a b = src a @ upto_payloads src (Suc a) b"
  by (simp add: upto_payloads_def upt_conv_Cons)

lemma upto_payloads_append:
  "a \<le> b \<Longrightarrow> b \<le> c \<Longrightarrow> upto_payloads src a b @ upto_payloads src b c = upto_payloads src a c"
proof -
  assume "a \<le> b" "b \<le> c"
  then have "[a..<c] = [a..<b] @ [b..<c]" by (metis le_add_diff_inverse upt_add_eq_append)
  then show ?thesis by (simp add: upto_payloads_def)
qed

lemma next_offset: "x < y \<Longrightarrow> unat (x + 1) = unat x + 1" for x y :: u32
  using unat_u32_bound[of y] by (subst unat_word_ariths(1)) (simp add: word_less_nat_alt)

lemma drain_facts:
  assumes "distinct (map fst buf)" "\<forall>e\<in>set buf. nxt \<le> fst e \<and> fst e < U32_MAX"
    "\<forall>e\<in>set buf. snd e = src (unat (fst e))" "n = buf_bytes buf"
    "drain nxt buf n out = (nxt', buf', n', out')"
  shows "unat nxt \<le> unat nxt' \<and> out' = out @ upto_payloads src (unat nxt) (unat nxt')
    \<and> n' = buf_bytes buf' \<and> n' \<le> n \<and> length buf' \<le> length buf \<and> set buf' \<subseteq> set buf \<and> distinct (map fst buf')
    \<and> (\<forall>e\<in>set buf'. nxt' < fst e)
    \<and> {q. q < nxt} \<union> fst ` set buf = {q. q < nxt'} \<union> fst ` set buf'"
  using assms
proof (induction nxt buf n out rule: drain.induct)
  case (1 nxt buf n out)
  show ?case
  proof (cases "remove_first (\<lambda>e. fst e = nxt) buf" rule: option_pair_cases)
    case None
    then have no: "\<forall>e\<in>set buf. fst e \<noteq> nxt" unfolding remove_first_None .
    have "nxt' = nxt" "buf' = buf" "n' = n" "out' = out"
      using "1.prems"(5) None by (simp_all add: drain.simps)
    moreover have "\<forall>e\<in>set buf. nxt < fst e" using no "1.prems"(2) by force
    ultimately show ?thesis using "1.prems"(1,4) by simp
  next
    case (Some e buf1)
    obtain pre post where b: "buf = pre @ e # post" "buf1 = pre @ post" "fst e = nxt"
      using Some by (rule remove_first_SomeE)
    have "e \<in> set buf" by (simp add: b(1))
    then have "nxt < U32_MAX" using "1.prems"(2) b(3) by metis
    then have up: "unat (nxt + 1) = unat nxt + 1" by (rule next_offset)
    have gt: "\<forall>x\<in>set buf1. nxt < fst x"
    proof
      fix x assume "x \<in> set buf1"
      then have x: "x \<in> set buf" "x \<in> set pre \<or> x \<in> set post" by (auto simp: b(1,2))
      have "nxt \<notin> fst ` set pre" "nxt \<notin> fst ` set post" using "1.prems"(1) b(1,3) by auto
      then have "fst x \<noteq> nxt" using x(2) by blast
      moreover have "nxt \<le> fst x" using "1.prems"(2) x(1) by blast
      ultimately show "nxt < fst x" by simp
    qed
    have le1: "\<forall>x\<in>set buf1. nxt + 1 \<le> fst x \<and> fst x < U32_MAX"
    proof
      fix x assume x: "x \<in> set buf1"
      then have "nxt < fst x" "x \<in> set buf" using gt by (auto simp: b(1,2))
      then show "nxt + 1 \<le> fst x \<and> fst x < U32_MAX"
        using "1.prems"(2) up by (simp add: word_le_nat_alt word_less_nat_alt)
    qed
    have n1: "n - seg_bytes (snd e) = buf_bytes buf1" using "1.prems"(4) b by (simp add: buf_bytes_def)
    have dr: "drain (nxt + 1) buf1 (n - seg_bytes (snd e)) (out @ snd e) = (nxt', buf', n', out')"
      using "1.prems"(5) Some by (simp add: drain.simps[of nxt])
    have ih: "unat (nxt + 1) \<le> unat nxt'
      \<and> out' = (out @ snd e) @ upto_payloads src (unat (nxt + 1)) (unat nxt')
      \<and> n' = buf_bytes buf' \<and> n' \<le> n - seg_bytes (snd e) \<and> length buf' \<le> length buf1
      \<and> set buf' \<subseteq> set buf1 \<and> distinct (map fst buf') \<and> (\<forall>x\<in>set buf'. nxt' < fst x)
      \<and> {q. q < nxt + 1} \<union> fst ` set buf1 = {q. q < nxt'} \<union> fst ` set buf'"
      by (rule "1.IH"[OF Some refl _ le1 _ n1 dr]) (use "1.prems"(1,3) in \<open>simp_all add: b(1,2)\<close>)
    have "snd e = src (unat nxt)" using "1.prems"(3) \<open>e \<in> set buf\<close> b(3) by metis
    moreover have "upto_payloads src (unat nxt) (unat nxt') = src (unat nxt) @ upto_payloads src (unat (nxt + 1)) (unat nxt')"
      using ih up by (simp add: upto_payloads_Suc)
    moreover have "{q. q < nxt} \<union> fst ` set buf = {q. q < nxt + 1} \<union> fst ` set buf1"
    proof -
      have "{q. q < nxt + 1} = insert nxt {q. q < nxt}"
        using word_less_plus1[OF up] by auto
      then show ?thesis by (auto simp: b(1,2) simp flip: b(3))
    qed
    ultimately have out: "out' = out @ upto_payloads src (unat nxt) (unat nxt')"
      and cov: "{q. q < nxt} \<union> fst ` set buf = {q. q < nxt'} \<union> fst ` set buf'"
      using ih by simp_all
    have "unat nxt \<le> unat nxt'" "n' \<le> n" "length buf' \<le> length buf" "set buf' \<subseteq> set buf"
      using ih up by (auto simp: b(1,2))
    then show ?thesis using ih out cov by blast
  qed
qed

lemma accept_expected:
  assumes inv: "recv_inv s" and src: "faithful src s" and lt: "seq < U32_MAX"
    and pl: "payloads = src (unat seq)" and exp: "seq = st_recv_sequence s"
    and acc: "accept_in_order now seq payloads s = (out, s')"
  shows "recv_inv s' \<and> faithful src s' \<and> unat (st_recv_sequence s) < unat (st_recv_sequence s')
    \<and> out = upto_payloads src (unat (st_recv_sequence s)) (unat (st_recv_sequence s'))
    \<and> received s' = insert seq (received s)
    \<and> length (st_recv_buffer s') \<le> length (st_recv_buffer s)
    \<and> st_recv_buffer_bytes s' \<le> st_recv_buffer_bytes s
    \<and> st_advertised_recv_window s' = st_advertised_recv_window s"
proof -
  let ?exp = "st_recv_sequence s"
  have up: "unat (?exp + 1) = unat ?exp + 1" by (rule next_offset[of ?exp U32_MAX]) (use lt exp in simp)
  obtain nxt buf n o' where dr: "drain (?exp + 1) (st_recv_buffer s) (st_recv_buffer_bytes s) payloads = (nxt, buf, n, o')"
    by (rule prod_cases4)
  have res: "out = o'" "s' = s\<lparr>st_last_data_recv_at := Some now, st_recv_sequence := nxt,
      st_recv_buffer := buf, st_recv_buffer_bytes := n\<rparr>"
    using acc dr exp by (simp_all add: accept_in_order_def Let_def)
  have d: "distinct (map fst (st_recv_buffer s))" "st_recv_buffer_bytes s = buf_bytes (st_recv_buffer s)"
    "\<forall>e\<in>set (st_recv_buffer s). snd e = src (unat (fst e))"
    using inv src by (simp_all add: recv_inv_def faithful_def)
  have le: "\<forall>e\<in>set (st_recv_buffer s). ?exp + 1 \<le> fst e \<and> fst e < U32_MAX"
    using inv up by (simp add: recv_inv_def word_le_nat_alt word_less_nat_alt Suc_le_eq)
  note f = drain_facts[OF d(1) le d(3) d(2) dr]
  have out: "out = upto_payloads src (unat ?exp) (unat nxt)"
    using f up pl exp res(1) by (simp add: upto_payloads_Suc)
  have "insert seq (received s) = {q. q < ?exp + 1} \<union> fst ` set (st_recv_buffer s)"
    using word_less_plus1[OF up] exp by (auto simp: received_def)
  also have "\<dots> = received s'" using f by (simp add: received_def res)
  finally have rec: "received s' = insert seq (received s)" by simp
  have "recv_inv s'"
    using inv f le unfolding recv_inv_def res(2) recv_reorder_byte_limit_def by auto
  moreover have "faithful src s'" using f d(3) by (auto simp: faithful_def res)
  ultimately show ?thesis using out rec f up by (simp add: res(2))
qed

lemma accept_facts:
  assumes inv: "recv_inv s" and src: "faithful src s" and lt: "seq < U32_MAX"
    and pl: "payloads = src (unat seq)"
    and acc: "accept_in_order now seq payloads s = (out, s')"
  shows "recv_inv s' \<and> faithful src s' \<and> unat (st_recv_sequence s) \<le> unat (st_recv_sequence s')
    \<and> out = upto_payloads src (unat (st_recv_sequence s)) (unat (st_recv_sequence s'))
    \<and> received s \<subseteq> received s' \<and> received s' \<subseteq> insert seq (received s)"
proof -
  let ?exp = "st_recv_sequence s"
  consider (old) "seq < ?exp" | (ahead) "?exp < seq" | (now) "seq = ?exp" by fastforce
  then show ?thesis
  proof cases
    case old
    then have "out = []" "s' = s\<lparr>st_last_data_recv_at := Some now\<rparr>"
      using acc by (simp_all add: accept_in_order_def)
    then show ?thesis using inv src
      by (simp add: recv_inv_def faithful_def received_def recv_reorder_byte_limit_def subset_insertI)
  next
    case ahead
    let ?s1 = "s\<lparr>st_last_data_recv_at := Some now\<rparr>"
    let ?ok = "\<not> list_ex (\<lambda>e. fst e = seq) (st_recv_buffer s)
        \<and> length (st_recv_buffer s) < MAX_RECV_REORDER
        \<and> st_recv_buffer_bytes s + seg_bytes payloads \<le> recv_reorder_byte_limit s"
    have "\<not> seq < ?exp" "seq \<noteq> ?exp" using ahead by auto
    then have "out = [] \<and> s' = (if ?ok then ?s1\<lparr>st_recv_buffer := st_recv_buffer s @ [(seq, payloads)],
         st_recv_buffer_bytes := st_recv_buffer_bytes s + seg_bytes payloads\<rparr> else ?s1)"
      using acc by (auto simp: accept_in_order_def Let_def recv_reorder_byte_limit_def split: if_splits)
    then have res: "out = []" "s' = (if ?ok then ?s1\<lparr>st_recv_buffer := st_recv_buffer s @ [(seq, payloads)],
         st_recv_buffer_bytes := st_recv_buffer_bytes s + seg_bytes payloads\<rparr> else ?s1)" by blast+
    show ?thesis
    proof (cases ?ok)
      case True
      then have "seq \<notin> fst ` set (st_recv_buffer s)" by (auto simp: list_ex_iff)
      then show ?thesis using inv src ahead lt pl True
        unfolding res(1) res(2) if_P[OF True]
        by (auto simp: recv_inv_def faithful_def received_def recv_reorder_byte_limit_def buf_bytes_def)
    next
      case False
      then show ?thesis using inv src unfolding res(1) res(2) if_not_P[OF False]
        by (simp add: recv_inv_def faithful_def received_def recv_reorder_byte_limit_def subset_insertI)
    qed
  next
    case now
    then show ?thesis using accept_expected[OF inv src lt pl now acc] by auto
  qed
qed

subsection \<open>Runs of arrivals\<close>

type_synonym arrival = "nanos \<times> u32 \<times> bytes list"

definition recv_step :: "stream \<Rightarrow> arrival \<Rightarrow> bytes list \<times> stream" where
  "recv_step s a = (case a of (now, seq, payloads) \<Rightarrow> accept_in_order now seq payloads s)"

definition from_source :: "(nat \<Rightarrow> bytes list) \<Rightarrow> arrival \<Rightarrow> bool" where
  "from_source src a \<longleftrightarrow> (case a of (now, seq, payloads) \<Rightarrow> seq < U32_MAX \<and> payloads = src (unat seq))"

lemma recv_run_facts:
  "recv_inv s \<Longrightarrow> faithful src s \<Longrightarrow> list_all (from_source src) arr \<Longrightarrow> run recv_step s arr = (outs, s') \<Longrightarrow>
   recv_inv s' \<and> faithful src s' \<and> unat (st_recv_sequence s) \<le> unat (st_recv_sequence s')
   \<and> concat outs = upto_payloads src (unat (st_recv_sequence s)) (unat (st_recv_sequence s'))"
proof (induction arr arbitrary: s outs)
  case Nil
  then show ?case by simp
next
  case (Cons a arr)
  obtain now seq pl where a: "a = (now, seq, pl)" by (rule prod_cases3)
  obtain out s1 where acc: "accept_in_order now seq pl s = (out, s1)" by (rule prod.exhaust)
  obtain outs1 where r: "run recv_step s1 arr = (outs1, s')" "outs = out # outs1"
    using Cons.prems(4) acc recv_step_def[of s a] by (auto simp: a split: prod.splits)
  have "seq < U32_MAX" "pl = src (unat seq)" using Cons.prems(3) by (simp_all add: a from_source_def)
  note f = accept_facts[OF Cons.prems(1,2) this acc]
  have "list_all (from_source src) arr" using Cons.prems(3) by simp
  then have ih: "recv_inv s' \<and> faithful src s' \<and> unat (st_recv_sequence s1) \<le> unat (st_recv_sequence s')
   \<and> concat outs1 = upto_payloads src (unat (st_recv_sequence s1)) (unat (st_recv_sequence s'))"
    using Cons.IH[OF _ _ _ r(1)] f by blast
  moreover have "concat outs = upto_payloads src (unat (st_recv_sequence s)) (unat (st_recv_sequence s'))"
    using upto_payloads_append[of "unat (st_recv_sequence s)" "unat (st_recv_sequence s1)" "unat (st_recv_sequence s')" src]
      f ih by (simp add: r(2))
  ultimately show ?case using f by auto
qed

lemma stream_new_recv_inv [simp]: "recv_inv (stream_new i)" "faithful src (stream_new i)"
  "st_recv_sequence (stream_new i) = 0" "received (stream_new i) = {}"
  by (auto simp: recv_inv_def stream_new_def buf_bytes_def recv_reorder_byte_limit_def faithful_def received_def)

text \<open>Within the reorder budget nothing that arrives is dropped.\<close>

lemma accept_keeps:
  assumes inv: "recv_inv s" and src: "faithful src s" and lt: "seq < U32_MAX" "payloads = src (unat seq)"
    and acc: "accept_in_order now seq payloads s = (out, s')"
    and room: "length (st_recv_buffer s) < MAX_RECV_REORDER"
      "st_recv_buffer_bytes s + seg_bytes payloads \<le> recv_reorder_byte_limit s"
  shows "received s' = insert seq (received s)
    \<and> length (st_recv_buffer s') \<le> length (st_recv_buffer s) + 1
    \<and> st_recv_buffer_bytes s' \<le> st_recv_buffer_bytes s + seg_bytes payloads
    \<and> st_advertised_recv_window s' = st_advertised_recv_window s"
proof (cases "seq = st_recv_sequence s")
  case True
  show ?thesis using accept_expected[OF inv src lt True acc] by auto
next
  case False
  note f = accept_facts[OF inv src lt acc]
  have "seq \<in> received s'" using acc room False
    by (auto simp: accept_in_order_def Let_def received_def recv_reorder_byte_limit_def list_ex_iff
        split: if_splits)
  moreover have "length (st_recv_buffer s') \<le> length (st_recv_buffer s) + 1
    \<and> st_recv_buffer_bytes s' \<le> st_recv_buffer_bytes s + seg_bytes payloads
    \<and> st_advertised_recv_window s' = st_advertised_recv_window s"
    using acc False by (auto simp: accept_in_order_def Let_def split: if_splits)
  ultimately show ?thesis using f by auto
qed

lemma recv_run_keeps:
  "recv_inv s \<Longrightarrow> faithful src s \<Longrightarrow> list_all (from_source src) arr \<Longrightarrow> run recv_step s arr = (outs, s') \<Longrightarrow>
   length (st_recv_buffer s) + length arr \<le> MAX_RECV_REORDER \<Longrightarrow>
   st_recv_buffer_bytes s + sum_list (map (\<lambda>(_, _, pl). seg_bytes pl) arr) \<le> recv_reorder_byte_limit s \<Longrightarrow>
   received s' = received s \<union> (\<lambda>(_, q, _). q) ` set arr"
proof (induction arr arbitrary: s outs)
  case Nil
  then show ?case by simp
next
  case (Cons a arr)
  obtain now seq pl where a: "a = (now, seq, pl)" by (rule prod_cases3)
  obtain out s1 where acc: "accept_in_order now seq pl s = (out, s1)" by (rule prod.exhaust)
  obtain outs1 where r: "run recv_step s1 arr = (outs1, s')" "outs = out # outs1"
    using Cons.prems(4) acc recv_step_def[of s a] by (auto simp: a split: prod.splits)
  have src: "seq < U32_MAX" "pl = src (unat seq)" using Cons.prems(3) by (simp_all add: a from_source_def)
  note f = accept_facts[OF Cons.prems(1,2) src acc]
  have "length (st_recv_buffer s) < MAX_RECV_REORDER"
    "st_recv_buffer_bytes s + seg_bytes pl \<le> recv_reorder_byte_limit s"
    using Cons.prems(5,6) by (simp_all add: a)
  note k = accept_keeps[OF Cons.prems(1,2) src acc this]
  have "received s' = received s1 \<union> (\<lambda>(_, q, _). q) ` set arr"
    by (rule Cons.IH[OF _ _ _ r(1)])
      (use f k Cons.prems(3,5,6) in \<open>simp_all add: a recv_reorder_byte_limit_def\<close>)
  then show ?case using k by (auto simp: a)
qed

subsection \<open>Memory bound against arbitrary arrivals\<close>

definition mem_inv :: "stream \<Rightarrow> bool" where
  "mem_inv s \<longleftrightarrow> length (st_recv_buffer s) \<le> MAX_RECV_REORDER
     \<and> st_recv_buffer_bytes s = buf_bytes (st_recv_buffer s)
     \<and> st_recv_buffer_bytes s \<le> recv_reorder_byte_limit s"

lemma drain_mem:
  "n = buf_bytes buf \<Longrightarrow> drain nxt buf n out = (nxt', buf', n', out') \<Longrightarrow>
   n' = buf_bytes buf' \<and> n' \<le> n \<and> length buf' \<le> length buf"
proof (induction nxt buf n out rule: drain.induct)
  case (1 nxt buf n out)
  show ?case
  proof (cases "remove_first (\<lambda>e. fst e = nxt) buf" rule: option_pair_cases)
    case None
    then show ?thesis using "1.prems" by (auto simp: drain.simps)
  next
    case (Some e buf1)
    obtain pre post where b: "buf = pre @ e # post" "buf1 = pre @ post"
      using Some by (rule remove_first_SomeE)
    have n1: "n - seg_bytes (snd e) = buf_bytes buf1" using "1.prems"(1) b by (simp add: buf_bytes_def)
    have "drain (nxt + 1) buf1 (n - seg_bytes (snd e)) (out @ snd e) = (nxt', buf', n', out')"
      using "1.prems"(2) Some by (simp add: drain.simps[of nxt])
    then have "n' = buf_bytes buf' \<and> n' \<le> n - seg_bytes (snd e) \<and> length buf' \<le> length buf1"
      by (rule "1.IH"[OF Some refl n1])
    then show ?thesis by (auto simp: b)
  qed
qed

lemma accept_mem_inv:
  assumes inv: "mem_inv s"
  shows "mem_inv (snd (accept_in_order now seq pl s))"
proof -
  consider (old) "seq < st_recv_sequence s" | (ahead) "st_recv_sequence s < seq" | (now) "seq = st_recv_sequence s"
    by fastforce
  then show ?thesis
  proof cases
    case old
    then show ?thesis using inv by (simp add: accept_in_order_def mem_inv_def recv_reorder_byte_limit_def)
  next
    case ahead
    then have "\<not> seq < st_recv_sequence s" "seq \<noteq> st_recv_sequence s" by auto
    then show ?thesis using inv
      by (simp add: accept_in_order_def Let_def mem_inv_def recv_reorder_byte_limit_def buf_bytes_def)
  next
    case now
    obtain nxt buf n o' where dr: "drain (seq + 1) (st_recv_buffer s) (st_recv_buffer_bytes s) pl = (nxt, buf, n, o')"
      by (rule prod_cases4)
    have "n = buf_bytes buf \<and> n \<le> st_recv_buffer_bytes s \<and> length buf \<le> length (st_recv_buffer s)"
      by (rule drain_mem[OF _ dr]) (use inv in \<open>simp add: mem_inv_def\<close>)
    then show ?thesis using inv dr now
      by (simp add: accept_in_order_def Let_def mem_inv_def recv_reorder_byte_limit_def)
  qed
qed

subsection \<open>Acknowledgements built from the receiver\<close>

lemma foldl_seq_step: "foldl coalesce_seq asc qs = foldl coalesce_step asc (map (\<lambda>q. (q, q)) qs)"
  by (induction qs arbitrary: asc) (simp_all add: coalesce_seq_step)

lemma received_ranges:
  assumes inv: "recv_inv s" and ne: "received s \<noteq> {}"
  defines "r0 \<equiv> (if st_recv_sequence s > 0 then [(0, st_recv_sequence s - 1)] else [])"
  defines "ranges \<equiv> foldl coalesce_seq r0 (sort (map fst (st_recv_buffer s)))"
  shows "ranges \<noteq> []" "\<forall>r\<in>set ranges. fst r \<le> snd r" "covers ranges q \<longleftrightarrow> q \<in> received s"
proof -
  let ?is = "map (\<lambda>q. (q, q)) (sort (map fst (st_recv_buffer s)))"
  have c0: "covers r0 q \<longleftrightarrow> q < st_recv_sequence s" for q
    by (cases "st_recv_sequence s = 0") (simp_all add: r0_def covers_def word_le_minus1 word_gt_0)
  have ok0: "asc_ok r0" by (simp add: asc_ok_def r0_def)
  have hd0: "\<forall>r\<in>set ?is. fst (last r0) \<le> fst r" if "r0 \<noteq> []"
    using that by (auto simp: r0_def split: if_splits)
  have "asc_ok ranges \<and> (\<forall>q. covers ranges q \<longleftrightarrow> covers r0 q \<or> covers ?is q)
      \<and> (?is \<noteq> [] \<or> r0 \<noteq> [] \<longrightarrow> ranges \<noteq> [])"
    unfolding ranges_def foldl_seq_step by (rule foldl_coalesce[OF _ _ ok0 hd0]) (simp_all add: o_def)
  moreover have "covers ?is q \<longleftrightarrow> q \<in> fst ` set (st_recv_buffer s)" for q
    by (force simp: covers_def)
  moreover have "?is \<noteq> [] \<or> r0 \<noteq> []"
  proof (cases "st_recv_sequence s = 0")
    case True
    then have "st_recv_buffer s \<noteq> []" using ne by (auto simp: received_def)
    then have "length ?is \<noteq> 0" by simp
    then show ?thesis by blast
  qed (simp add: r0_def word_gt_0)
  ultimately show "ranges \<noteq> []" "\<forall>r\<in>set ranges. fst r \<le> snd r" "covers ranges q \<longleftrightarrow> q \<in> received s"
    using c0 by (auto simp: asc_ok_def received_def)
qed

lemma received_sack_facts:
  assumes inv: "recv_inv s"
  shows "received s = {} \<Longrightarrow> received_sack now d s = None"
    and "received s \<noteq> {} \<Longrightarrow> \<exists>k. received_sack now d s = Some k \<and> wf_sack k
      \<and> (\<forall>q. acks k q \<longrightarrow> q \<in> received s) \<and> (\<forall>q. q < st_recv_sequence s \<longrightarrow> acks k q)
      \<and> (length (sack_ranges k) < MAX_SACK_RANGES \<longrightarrow> (\<forall>q. acks k q \<longleftrightarrow> q \<in> received s))"
proof -
  have z: "received s = {} \<longleftrightarrow> st_recv_sequence s = 0 \<and> st_recv_buffer s = []"
  proof (cases "st_recv_sequence s = 0")
    case False
    then have "0 \<in> received s" by (simp add: received_def word_gt_0)
    then show ?thesis using False by blast
  qed (simp add: received_def)
  then show "received s = {} \<Longrightarrow> received_sack now d s = None" by (simp add: received_sack_def)
  assume ne: "received s \<noteq> {}"
  note r = received_ranges[OF inv ne]
  let ?rs = "foldl coalesce_seq (if st_recv_sequence s > 0 then [(0, st_recv_sequence s - 1)] else [])
      (sort (map fst (st_recv_buffer s)))"
  let ?d = "sack_delay now d s"
  have eq: "received_sack now d s = from_inclusive_ranges ?rs ?d"
    using ne z by (auto simp: received_sack_def Let_def)
  obtain k where k: "from_inclusive_ranges ?rs ?d = Some k" "wf_sack k"
    "\<forall>q. acks k q \<longrightarrow> covers ?rs q"
    "\<forall>m q. covers ?rs m \<and> (\<forall>p. covers ?rs p \<longrightarrow> m \<le> p) \<and> m \<le> q \<and> (\<forall>p. m \<le> p \<and> p \<le> q \<longrightarrow> covers ?rs p) \<longrightarrow> acks k q"
    "length (sack_ranges k) < MAX_SACK_RANGES \<longrightarrow> (\<forall>q. acks k q \<longleftrightarrow> covers ?rs q)"
    using sack_construction[OF r(1,2), of ?d] by blast
  have "acks k q" if q: "q < st_recv_sequence s" for q
  proof -
    have "covers ?rs p" if "p \<le> q" for p using that q r(3) by (auto simp: received_def)
    then show ?thesis using k(4)[rule_format, of 0 q] by simp
  qed
  then show "\<exists>k. received_sack now d s = Some k \<and> wf_sack k
      \<and> (\<forall>q. acks k q \<longrightarrow> q \<in> received s) \<and> (\<forall>q. q < st_recv_sequence s \<longrightarrow> acks k q)
      \<and> (length (sack_ranges k) < MAX_SACK_RANGES \<longrightarrow> (\<forall>q. acks k q \<longleftrightarrow> q \<in> received s))"
    using k(1,2,3,5) r(3) eq by auto
qed

lemma seq_not_received: "recv_inv s \<Longrightarrow> st_recv_sequence s \<notin> received s"
  by (auto simp: recv_inv_def received_def)

lemma stream_new_recv [simp]:
  "st_recv_buffer (stream_new i) = []" "st_recv_buffer_bytes (stream_new i) = 0"
  "recv_reorder_byte_limit (stream_new i) = 2 * unat INITIAL_STREAM_WINDOW"
  by (simp_all add: stream_new_def recv_reorder_byte_limit_def)

lemma small_offset [simp]: "(0 :: u32) < U32_MAX" "(1 :: u32) < U32_MAX"
  by (simp_all add: U32_MAX_def word_less_nat_alt unsigned_minus_1_eq_mask mask_eq_exp_minus_1)

subsection \<open>Properties\<close>

text \<open>
  In-order delivery: whatever the order, duplication and loss of arrivals,
  as long as each arrival carries the payloads its sender assigned to that offset,
  the concatenation of everything handed to the application is exactly the
  source's payloads at offsets 0, 1, 2, ... up to the next expected offset:
  nothing is reordered, duplicated or skipped.
\<close>

theorem in_order_delivery:
  assumes "list_all (from_source src) arr"
  shows "case run recv_step (stream_new i) arr of (outs, s') \<Rightarrow>
    concat outs = concat (map src [0..<unat (st_recv_sequence s')]) \<and> recv_inv s'"
proof -
  obtain outs s' where r: "run recv_step (stream_new i) arr = (outs, s')" by (rule prod.exhaust)
  show ?thesis
    using recv_run_facts[OF _ _ assms r] by (simp add: r upto_payloads_def)
qed

definition demo_src :: "nat \<Rightarrow> bytes list" where
  "demo_src n = [[word_of_nat n, 7]]"

theorem in_order_delivery_witness:
  "list_all (from_source demo_src) [(5, 1, demo_src 1), (6, 0, demo_src 0), (7, 1, demo_src 1)]
   \<and> (case run recv_step (stream_new 3) [(5, 1, demo_src 1), (6, 0, demo_src 0), (7, 1, demo_src 1)] of (outs, s') \<Rightarrow>
        concat outs = concat (map demo_src [0..<unat (st_recv_sequence s')]) \<and> recv_inv s')"
proof -
  have "list_all (from_source demo_src) [(5, 1, demo_src 1), (6, 0, demo_src 0), (7, 1, demo_src 1)]"
    by (simp add: from_source_def)
  from in_order_delivery[OF this, of 3] this show ?thesis by blast
qed

text \<open>
  Complete delivery within the reorder budget: if at most 2048 segments of
  together at most 128 KiB arrive, in any order, and every offset below \<open>n\<close> is
  among them, then all of the first \<open>n\<close> segments have been delivered.
\<close>

theorem complete_delivery:
  assumes "list_all (from_source src) arr" and "length arr \<le> MAX_RECV_REORDER"
    and "sum_list (map (\<lambda>(_, _, pl). seg_bytes pl) arr) \<le> 2 * unat INITIAL_STREAM_WINDOW"
    and "\<forall>k<n. \<exists>a\<in>set arr. unat (fst (snd a)) = k"
  shows "case run recv_step (stream_new i) arr of (outs, s') \<Rightarrow>
    \<exists>rest. concat outs = concat (map src [0..<n]) @ rest"
proof -
  obtain outs s' where r: "run recv_step (stream_new i) arr = (outs, s')" by (rule prod.exhaust)
  have f: "recv_inv s'" "concat outs = upto_payloads src 0 (unat (st_recv_sequence s'))"
    using recv_run_facts[OF _ _ assms(1) r] by simp_all
  have keep: "received s' = (\<lambda>(_, q, _). q) ` set arr"
    using recv_run_keeps[OF _ _ assms(1) r] assms(2,3)
    by simp
  have "n \<le> unat (st_recv_sequence s')"
  proof (rule ccontr)
    assume "\<not> n \<le> unat (st_recv_sequence s')"
    then obtain a where "a \<in> set arr" "unat (fst (snd a)) = unat (st_recv_sequence s')"
      using assms(4) not_le_imp_less by blast
    then have "st_recv_sequence s' \<in> received s'" unfolding keep by (intro image_eqI[of _ _ a]) (simp_all add: split_beta)
    then show False using seq_not_received[OF f(1)] by blast
  qed
  then show ?thesis
    using upto_payloads_append[of 0 n "unat (st_recv_sequence s')" src] f(2)
    by (auto simp: r upto_payloads_def intro!: exI[of _ "upto_payloads src n (unat (st_recv_sequence s'))"])
qed

theorem complete_delivery_witness:
  "\<exists>rest. concat (fst (run recv_step (stream_new 3) [(5, 1, demo_src 1), (6, 0, demo_src 0)]))
     = concat (map demo_src [0..<2]) @ rest"
proof -
  let ?arr = "[(5, 1, demo_src 1), (6, 0, demo_src 0)]"
  have "list_all (from_source demo_src) ?arr" by (simp add: from_source_def)
  moreover have "\<forall>k<2. \<exists>a\<in>set ?arr. unat (fst (snd a)) = k" by (simp add: less_Suc_eq numeral_2_eq_2)
  ultimately show ?thesis
    using complete_delivery[of demo_src ?arr 2 3]
    by (simp add: MAX_RECV_REORDER_def seg_bytes_def demo_src_def split_beta)
qed

text \<open>
  C29. Reorder-memory bound against an arbitrary peer: for every sequence of
  arrivals, with any offsets and any payloads, at most 2048 segments are buffered,
  the byte counter equals the bytes really held, and they never exceed the
  advertised window plus the initial window.
\<close>

theorem reorder_memory_bound:
  "let s = snd (run recv_step (stream_new i) arr)
   in length (st_recv_buffer s) \<le> MAX_RECV_REORDER
      \<and> st_recv_buffer_bytes s = buf_bytes (st_recv_buffer s)
      \<and> st_recv_buffer_bytes s \<le> unat (st_advertised_recv_window s) + unat INITIAL_STREAM_WINDOW"
  unfolding Let_def recv_reorder_byte_limit_def[symmetric] mem_inv_def[symmetric]
proof (rule run_invariant[where I = mem_inv])
  show "mem_inv (snd (recv_step s a))" if "mem_inv s" for s a
    using accept_mem_inv[OF that] by (cases a) (simp add: recv_step_def)
  show "mem_inv (stream_new i)"
    by (simp add: mem_inv_def stream_new_def buf_bytes_def)
qed

text \<open>
  The receiver acknowledges only what it has: the selective acknowledgement
  built from any receiver state covers only offsets that were delivered or are
  held in the reorder buffer, always covers everything already delivered, and
  covers everything held when it has fewer than 32 ranges; none is built only
  when nothing was received.
\<close>

theorem received_sack_sound:
  assumes "recv_inv s"
  shows "case received_sack now d s of
      None \<Rightarrow> received s = {}
    | Some k \<Rightarrow> wf_sack k \<and> {q. acks k q} \<subseteq> received s \<and> {q. q < st_recv_sequence s} \<subseteq> {q. acks k q}
        \<and> (length (sack_ranges k) < MAX_SACK_RANGES \<longrightarrow> {q. acks k q} = received s)"
proof (cases "received s = {}")
  case True
  then show ?thesis using received_sack_facts(1)[OF assms True] by simp
next
  case False
  then show ?thesis using received_sack_facts(2)[OF assms False, of now d] by auto
qed

theorem received_sack_sound_witness:
  "let s = snd (recv_step (stream_new 3) (5, 0, [[1]]))
   in recv_inv s \<and> (\<exists>k. received_sack 9 0 s = Some k \<and> wf_sack k \<and> acks k 0)"
proof -
  let ?s = "snd (recv_step (stream_new 3) (5, 0, [[1]]))"
  have s: "?s = (stream_new 3)\<lparr>st_last_data_recv_at := Some 5, st_recv_sequence := 1\<rparr>"
    by (simp add: recv_step_def accept_in_order_def drain.simps stream_new_def)
  have inv: "recv_inv ?s"
    by (simp add: s) (simp add: recv_inv_def stream_new_def buf_bytes_def recv_reorder_byte_limit_def)
  have "received ?s \<noteq> {}" by (auto simp: s received_def)
  then obtain k where k: "received_sack 9 0 ?s = Some k" using received_sack_facts(2)[OF inv] by blast
  have "(0 :: u32) < st_recv_sequence ?s" by (simp add: s)
  then have "wf_sack k \<and> acks k 0" using received_sack_sound[OF inv, of 9 0] k by auto
  then show ?thesis using inv k by (simp add: Let_def)
qed

text \<open>
  FIN is delivered after the data and once: the end-of-stream signal is given
  only when every offset up to and including the FIN's has been consumed in order,
  and once given it is never given again.
\<close>

theorem fin_in_order_once:
  "let (b, s') = take_in_order_fin s
   in (b = (st_remote_fin_offset s \<noteq> U32_MAX \<and> st_remote_fin_offset s < st_recv_sequence s
            \<and> st_remote_finished s = False))
      \<and> st_remote_finished s' = (st_remote_finished s \<or> b)
      \<and> (b = (b \<and> fst (take_in_order_fin s') = False))"
  by (auto simp: take_in_order_fin_def Let_def)

end
