(* ===== verification/Reliable_Delivery.thy ===== *)
theory Reliable_Delivery
  imports Stream_Send Stream_Recv
begin

text \<open>
  One direction of a reliable stream end to end: the sender of \<open>Stream_Send\<close>, the
  receiver of \<open>Stream_Recv\<close>, and a network that may lose, duplicate, delay and
  reorder the frames between them (\<open>core/src/api/session.rs\<close>: the reliable-data
  part of \<open>handle_packet\<close>, the plaintext built by \<open>send_app_data\<close>). Frames are the
  plaintexts inside the authenticated encryption, so the network cannot alter or
  invent them.
\<close>

subsection \<open>Frames\<close>

definition app_plaintext :: "u32 option \<Rightarrow> bytes \<Rightarrow> bytes" where
  "app_plaintext reliable_offset payload =
     (case reliable_offset of Some off \<Rightarrow> to_be_bytes off @ payload | None \<Rightarrow> payload)"

definition deliver_in_order_run :: "bytes list \<Rightarrow> bytes list" where
  "deliver_in_order_run chunks = filter (\<lambda>c. c \<noteq> []) chunks"

record reliable_effect =
  re_delivered :: "bytes list"
  re_sack :: "sack option"
  re_eof :: bool

text \<open>
  The reliable branch of the packet handler for a stream that is held. The two
  clock readings are the data-arrival stamp and the one the acknowledgement delay
  is computed from; \<open>sack_ok\<close> is the answer of \<open>send_stream_sack\<close>.
\<close>

definition recv_reliable :: "nanos \<Rightarrow> nanos \<Rightarrow> bool \<Rightarrow> bool \<Rightarrow> bytes \<Rightarrow> stream \<Rightarrow> reliable_effect \<times> stream" where
  "recv_reliable now now_sack sack_ok fin pt s =
     (let nothing = \<lparr>re_delivered = [], re_sack = None, re_eof = False\<rparr>
      in if length pt < 4 then (nothing, s)
         else
           let stream_offset = from_be_bytes (take 4 pt);
               data = drop 4 pt;
               is_persist_probe = (data = [] \<and> \<not> fin);
               (delivered, s1) = accept_in_order now stream_offset [data] s
           in case received_sack now_sack 0 s1 of
                None \<Rightarrow> (nothing, s1)
              | Some k \<Rightarrow>
                  if \<not> sack_ok then (nothing, s1)
                  else
                    let s2 = (if is_persist_probe then stage_window_update_limit (recv_limit s1) s1 else s1);
                        s3 = (if fin then note_remote_fin stream_offset s2 else s2);
                        (eof, s4) = take_in_order_fin s3
                    in (\<lparr>re_delivered = deliver_in_order_run delivered, re_sack = Some k, re_eof = eof\<rparr>, s4))"

lemma parse_app_plaintext [simp]:
  "length (app_plaintext (Some off) d) = 4 + length d"
  "from_be_bytes (take 4 (app_plaintext (Some off) d)) = off"
  "drop 4 (app_plaintext (Some off) d) = d"
  by (simp_all add: app_plaintext_def)

subsection \<open>The system\<close>

text \<open>
  \<open>ds_log\<close> records, per offset, the payload and whether it is the FIN; it is not
  part of the program's state. The network keeps every frame ever sent, so that
  any frame may arrive any number of times, in any order, or never. \<open>ds_out\<close> is the
  data handed to the application and \<open>ds_eofs\<close> the number of end-of-stream signals it
  was given. Two branches are outside the system: an acknowledgement that cannot be
  sealed (last theorem of this theory), and the FIN without an offset that a
  sender falls back to once the 2^32 - 1 offsets of a stream are used up.
\<close>

record delivery_system =
  ds_sender :: stream
  ds_receiver :: stream
  ds_log :: "(bytes \<times> bool) list"
  ds_frames :: "(bool \<times> bytes) set"
  ds_acks :: "bytes set"
  ds_out :: "bytes list"
  ds_eofs :: nat

definition ds_init :: "stream_id \<Rightarrow> delivery_system" where
  "ds_init i = \<lparr>ds_sender = stream_new i, ds_receiver = stream_new i, ds_log = [], ds_frames = {},
     ds_acks = {}, ds_out = [], ds_eofs = 0\<rparr>"

text \<open>What an operation of the sender adds to the log.\<close>

fun queued :: "send_op \<Rightarrow> stream \<Rightarrow> (bytes \<times> bool) list" where
  "queued (OpSend d) a = (case fst (send_reliable d a) of Some (Inr _) \<Rightarrow> [(d, False)] | _ \<Rightarrow> [])"
| "queued (OpTrySend d) a = (if fst (try_send_reliable d a) = Ok True then [(d, False)] else [])"
| "queued OpFin a = (case fst (queue_fin a) of Some (Inr _) \<Rightarrow> [([], True)] | _ \<Rightarrow> [])"
| "queued OpTryFin a = (if fst (try_queue_fin a) = Ok True then [([], True)] else [])"
| "queued _ a = []"

text \<open>Acknowledgements reach the sender through the network only.\<close>

fun local_op :: "send_op \<Rightarrow> bool" where
  "local_op (OpSack now k) = False"
| "local_op (OpAck now off) = False"
| "local_op op = op_ok op"

inductive ds_step :: "delivery_system \<Rightarrow> delivery_system \<Rightarrow> bool" where
  ds_local: "local_op op \<Longrightarrow> ds_step s (s\<lparr>ds_sender := send_apply (ds_sender s) op,
      ds_log := ds_log s @ queued op (ds_sender s)\<rparr>)"
| ds_transmit: "poll_send now cwnd dn dt al (ds_sender s) = (Ok g, a) \<Longrightarrow> ob_reliable g \<Longrightarrow>
    ds_step s (s\<lparr>ds_sender := a,
      ds_frames := insert (ob_fin g, app_plaintext (Some (ob_stream_offset g)) (ob_data g)) (ds_frames s)\<rparr>)"
| ds_deliver: "(fin, pt) \<in> ds_frames s \<Longrightarrow> recv_reliable now now' True fin pt (ds_receiver s) = (e, b) \<Longrightarrow>
    ds_step s (s\<lparr>ds_receiver := b, ds_out := ds_out s @ re_delivered e, ds_eofs := ds_eofs s + of_bool (re_eof e),
      ds_acks := ds_acks s \<union> set_option (map_option sack_to_wire (re_sack e))\<rparr>)"
| ds_acked: "w \<in> ds_acks s \<Longrightarrow> sack_from_wire w = Ok k \<Longrightarrow>
    ds_step s (s\<lparr>ds_sender := snd (on_sack now k (ds_sender s))\<rparr>)"
| ds_consume: "record_app_consumed now raced n reliable budget (ds_receiver s) = (u, budget', b) \<Longrightarrow>
    unat budget + growth_of (ds_receiver s) \<le> unat SESSION_RECV_WINDOW_GROWTH_BUDGET \<Longrightarrow>
    ds_step s (s\<lparr>ds_receiver := b\<rparr>)"

definition ds_reachable :: "stream_id \<Rightarrow> delivery_system \<Rightarrow> bool" where
  "ds_reachable i s \<longleftrightarrow> ds_step\<^sup>*\<^sup>* (ds_init i) s"

subsection \<open>The sender's operations and the log\<close>

lemma next_offset_Ok:
  assumes "next_reliable_offset a = Ok (off, a1)"
  shows "off = st_reliable_offset a" "a1 = a\<lparr>st_reliable_offset := st_reliable_offset a + 1\<rparr>"
    "unat (st_reliable_offset a + 1) = unat (st_reliable_offset a) + 1"
  using assms by (auto simp: next_reliable_offset_def checked_add_def unat_word_ariths(1) split: option.splits if_splits)

lemma new_pending_key [simp]: "seg_key (new_pending off d f) = (off, d, f)"
  by (simp add: seg_key_def new_pending_def)

definition grows_by :: "stream \<Rightarrow> (bytes \<times> bool) list \<Rightarrow> stream \<Rightarrow> bool" where
  "grows_by a q a' \<longleftrightarrow> st_highest_acked_plus_one a' = st_highest_acked_plus_one a \<and>
     (q = [] \<and> st_reliable_offset a' = st_reliable_offset a \<and> buf_keys a' = buf_keys a
      \<or> (\<exists>d f. q = [(d, f)] \<and> unat (st_reliable_offset a') = unat (st_reliable_offset a) + 1
            \<and> buf_keys a' = buf_keys a @ [(st_reliable_offset a, d, f)]))"

lemma grows_by_nothing:
  "st_highest_acked_plus_one a' = st_highest_acked_plus_one a \<Longrightarrow> st_reliable_offset a' = st_reliable_offset a
   \<Longrightarrow> buf_keys a' = buf_keys a \<Longrightarrow> grows_by a [] a'"
  by (simp add: grows_by_def)

lemma enqueue_cases:
  obtains (full) "st_send_permits a = 0" | (exhausted) e where "st_send_permits a \<noteq> 0" "next_reliable_offset a = Err e"
    | (offset) "st_send_permits a \<noteq> 0"
        "next_reliable_offset a = Ok (st_reliable_offset a, a\<lparr>st_reliable_offset := st_reliable_offset a + 1\<rparr>)"
        "unat (st_reliable_offset a + 1) = unat (st_reliable_offset a) + 1"
proof (cases "next_reliable_offset a")
  case (Inl e)
  then show ?thesis using full exhausted by blast
next
  case (Inr x)
  obtain off a1 where "next_reliable_offset a = Ok (off, a1)" using Inr by (cases x) simp
  then show ?thesis using full offset next_offset_Ok[of a off a1] by metis
qed

lemma queueing_grows:
  "grows_by a (queued (OpSend d) a) (snd (send_reliable d a))"
  "grows_by a (queued (OpTrySend d) a) (snd (try_send_reliable d a))"
  "grows_by a (queued OpFin a) (snd (queue_fin a))"
  "grows_by a (queued OpTryFin a) (snd (try_queue_fin a))"
proof -
  note defs = send_reliable_def try_send_reliable_def queue_fin_def try_queue_fin_def grows_by_def
  have "grows_by a (queued (OpSend d) a) (snd (send_reliable d a))
    \<and> grows_by a (queued (OpTrySend d) a) (snd (try_send_reliable d a))
    \<and> grows_by a (queued OpFin a) (snd (queue_fin a))
    \<and> grows_by a (queued OpTryFin a) (snd (try_queue_fin a))"
  proof (cases rule: enqueue_cases[of a])
    case full
    then show ?thesis by (simp add: defs)
  next
    case exhausted
    then show ?thesis by (simp add: defs)
  next
    case offset
    show ?thesis by (simp add: defs offset(1,2)) (auto simp: offset(3))
  qed
  then show "grows_by a (queued (OpSend d) a) (snd (send_reliable d a))"
    "grows_by a (queued (OpTrySend d) a) (snd (try_send_reliable d a))"
    "grows_by a (queued OpFin a) (snd (queue_fin a))"
    "grows_by a (queued OpTryFin a) (snd (try_queue_fin a))" by blast+
qed

lemma poll_new_frame:
  "st_reliable_offset (snd (poll_new now cwnd dn dt al a)) = st_reliable_offset a"
  "st_highest_acked_plus_one (snd (poll_new now cwnd dn dt al a)) = st_highest_acked_plus_one a"
  by (cases rule: poll_new_cases[of now cwnd dn dt al a]; simp)+

lemma poll_send_frame:
  "st_reliable_offset (snd (poll_send now cwnd dn dt al a)) = st_reliable_offset a"
  "st_highest_acked_plus_one (snd (poll_send now cwnd dn dt al a)) = st_highest_acked_plus_one a"
  by (cases rule: poll_send_cases[of a now cwnd dn dt al]; simp add: note_rto_timeout_def poll_new_frame)+

lemma mark_unsent_grows: "grows_by a [] (mark_unsent off a)"
proof (cases "update_first (\<lambda>p. pd_stream_offset p = off)
             (\<lambda>p. p\<lparr>pd_sent_at := None,
                   pd_charged := (if pd_charged p \<and> pd_retries p = 0 then False else pd_charged p)\<rparr>)
             (st_send_buffer a)" rule: option_pair_cases)
  case None
  then show ?thesis by (simp add: mark_unsent_def grows_by_def)
next
  case (Some p buf)
  have "map seg_key buf = buf_keys a" by (rule update_first_keys(1)[OF Some]) (simp add: seg_key_def)
  then show ?thesis using Some by (simp add: mark_unsent_def grows_by_def)
qed

lemma frame_op_grows:
  "grows_by a [] (send_unreliable d a)" "grows_by a [] (apply_peer_window_limit l a)"
  "grows_by a [] (reset_rto a)" "grows_by a [] (release_app_handle a)"
  "grows_by a [] (snd (poll_send now cwnd dn dt al a))"
  by (simp_all add: grows_by_def send_unreliable_def apply_peer_window_limit_def Let_def reset_rto_def
       release_app_handle_def poll_send_keys poll_send_frame)

lemma local_op_grows: "local_op op \<Longrightarrow> grows_by a (queued op a) (send_apply a op)"
  using queueing_grows[of a] by (cases op) (simp_all only: send_apply.simps queued.simps local_op.simps
      mark_unsent_grows frame_op_grows)

subsection \<open>Arrivals of offsets already received\<close>

lemma accept_received:
  assumes inv: "recv_inv b" and q: "q \<in> received b"
  shows "accept_in_order now q pl b = ([], b\<lparr>st_last_data_recv_at := Some now\<rparr>)"
proof (cases "q < st_recv_sequence b")
  case True
  then show ?thesis by (simp add: accept_in_order_def)
next
  case False
  then have "list_ex (\<lambda>e. fst e = q) (st_recv_buffer b)" using q by (auto simp: received_def list_ex_iff)
  moreover have "q \<noteq> st_recv_sequence b" using seq_not_received[OF inv] q by blast
  ultimately show ?thesis using False by (simp add: accept_in_order_def Let_def)
qed

subsection \<open>The invariant\<close>

abbreviation log_src :: "(bytes \<times> bool) list \<Rightarrow> nat \<Rightarrow> bytes list" where
  "log_src l k \<equiv> [fst (l ! k)]"

text \<open>Every frame carries what the log has at its offset, or is a probe of a received offset.\<close>

definition frame_ok :: "(bytes \<times> bool) list \<Rightarrow> u32 set \<Rightarrow> bool \<times> bytes \<Rightarrow> bool" where
  "frame_ok l rcv f \<longleftrightarrow> (\<exists>off d. snd f = app_plaintext (Some off) d \<and>
     (unat off < length l \<and> l ! unat off = (d, fst f) \<or> off \<in> rcv \<and> d = [] \<and> \<not> fst f))"

definition ack_ok :: "u32 set \<Rightarrow> bytes \<Rightarrow> bool" where
  "ack_ok rcv w \<longleftrightarrow> (\<exists>k. w = sack_to_wire k \<and> wf_sack k \<and> {q. acks k q} \<subseteq> rcv)"

definition sender_ok :: "(bytes \<times> bool) list \<Rightarrow> u32 set \<Rightarrow> stream \<Rightarrow> bool" where
  "sender_ok l rcv a \<longleftrightarrow> send_inv a \<and> length l = unat (st_reliable_offset a)
     \<and> (\<forall>(off, d, f)\<in>set (buf_keys a). l ! unat off = (d, f))
     \<and> (\<forall>q. q < st_reliable_offset a \<and> q \<notin> fst ` set (buf_keys a) \<longrightarrow> q \<in> rcv)
     \<and> (\<forall>q. last_acked_offset a = Some q \<longrightarrow> q \<in> rcv)"

definition receiver_ok :: "(bytes \<times> bool) list \<Rightarrow> stream \<Rightarrow> bytes list \<Rightarrow> bool" where
  "receiver_ok l b out \<longleftrightarrow> recv_inv b \<and> window_ok b \<and> faithful (log_src l) b
     \<and> (\<forall>q\<in>received b. unat q < length l)
     \<and> out = deliver_in_order_run (map fst (take (unat (st_recv_sequence b)) l))
     \<and> (st_remote_fin_offset b \<noteq> U32_MAX \<longrightarrow>
          unat (st_remote_fin_offset b) < length l \<and> snd (l ! unat (st_remote_fin_offset b)))
     \<and> (st_remote_finished b \<longrightarrow> st_remote_fin_offset b \<noteq> U32_MAX \<and> st_remote_fin_offset b < st_recv_sequence b)"

definition ds_inv :: "delivery_system \<Rightarrow> bool" where
  "ds_inv s \<longleftrightarrow> (let rcv = received (ds_receiver s); l = ds_log s in
     sender_ok l rcv (ds_sender s) \<and> receiver_ok l (ds_receiver s) (ds_out s)
     \<and> (\<forall>f\<in>ds_frames s. frame_ok l rcv f) \<and> (\<forall>w\<in>ds_acks s. ack_ok rcv w)
     \<and> ds_eofs s = of_bool (st_remote_finished (ds_receiver s)))"

text \<open>Monotonicity: the log only grows and so does what was received.\<close>

lemma frame_ok_mono: "frame_ok l rcv f \<Longrightarrow> rcv \<subseteq> rcv' \<Longrightarrow> frame_ok (l @ q) rcv' f"
  unfolding frame_ok_def by (auto simp: nth_append intro: exI)

lemma ack_ok_mono: "ack_ok rcv w \<Longrightarrow> rcv \<subseteq> rcv' \<Longrightarrow> ack_ok rcv' w"
  unfolding ack_ok_def by blast

lemma sender_ok_mono: "sender_ok l rcv a \<Longrightarrow> rcv \<subseteq> rcv' \<Longrightarrow> sender_ok l rcv' a"
  unfolding sender_ok_def by blast

lemma recv_seq_bound: "recv_inv b \<Longrightarrow> \<forall>q\<in>received b. unat q < n \<Longrightarrow> unat (st_recv_sequence b) \<le> n"
proof (cases "st_recv_sequence b = 0")
  case False
  assume "\<forall>q\<in>received b. unat q < n"
  moreover have "st_recv_sequence b - 1 \<in> received b"
    using False by (simp add: received_def measure_unat word_less_nat_alt)
  ultimately show ?thesis using False by (auto simp: unat_minus_one)
qed simp

lemma receiver_ok_log:
  assumes "receiver_ok l b out"
  shows "receiver_ok (l @ q) b out"
proof -
  have le: "unat (st_recv_sequence b) \<le> length l"
    by (rule recv_seq_bound) (use assms in \<open>simp_all add: receiver_ok_def\<close>)
  have "faithful (log_src (l @ q)) b"
    using assms by (auto simp: receiver_ok_def faithful_def received_def nth_append)
  then show ?thesis using assms le by (auto simp: receiver_ok_def nth_append)
qed

subsection \<open>The sender's steps\<close>

lemma sender_ok_grow:
  assumes ok: "sender_ok l rcv a" and g: "grows_by a q a'" and inv: "send_inv a'"
  shows "sender_ok (l @ q) rcv a'"
proof -
  have last: "last_acked_offset a' = last_acked_offset a" using g by (simp add: grows_by_def last_acked_offset_def)
  have low: "unat (fst e) < length l" if "e \<in> set (buf_keys a)" for e
    using that ok by (auto simp: sender_ok_def send_inv_def seg_key_def word_less_nat_alt)
  have old: "\<forall>(off, d, f)\<in>set (buf_keys a). (l @ q) ! unat off = (d, f)"
    using ok low by (fastforce simp: sender_ok_def nth_append)
  have cases: "q = [] \<and> st_reliable_offset a' = st_reliable_offset a \<and> buf_keys a' = buf_keys a
      \<or> (\<exists>d f. q = [(d, f)] \<and> unat (st_reliable_offset a') = unat (st_reliable_offset a) + 1
            \<and> buf_keys a' = buf_keys a @ [(st_reliable_offset a, d, f)])"
    using g by (simp add: grows_by_def)
  then show ?thesis
  proof (elim disjE exE conjE)
    assume "q = []" "st_reliable_offset a' = st_reliable_offset a" "buf_keys a' = buf_keys a"
    then show ?thesis using ok inv last by (simp add: sender_ok_def)
  next
    fix d f assume q: "q = [(d, f)]" and r: "unat (st_reliable_offset a') = unat (st_reliable_offset a) + 1"
      and k: "buf_keys a' = buf_keys a @ [(st_reliable_offset a, d, f)]"
    have len: "length l = unat (st_reliable_offset a)" using ok by (simp add: sender_ok_def)
    have "x \<in> rcv" if "x < st_reliable_offset a'" "x \<notin> fst ` set (buf_keys a')" for x
    proof -
      have "x \<noteq> st_reliable_offset a" using that(2) k by auto
      then have "x < st_reliable_offset a" using that(1) r
        by (metis Suc_eq_plus1 less_SucE unat_inject word_less_nat_alt)
      then show ?thesis using ok that(2) k by (auto simp: sender_ok_def)
    qed
    moreover have "\<forall>(off, d, f)\<in>set (buf_keys a'). (l @ q) ! unat off = (d, f)"
      using old q len by (auto simp: k nth_append)
    ultimately show ?thesis using ok inv last r q by (simp add: sender_ok_def)
  qed
qed

lemma local_op_ok: "local_op op \<Longrightarrow> op_ok op"
  by (cases op) simp_all

lemma retire_loop_highest:
  assumes "retire_loop k now ps s = (kept, ret, n, s')"
  shows "st_highest_acked_plus_one s' = st_highest_acked_plus_one s
    \<or> (\<exists>p\<in>set ps. covered k p \<and> st_highest_acked_plus_one s' = sat_add (pd_stream_offset p) 1)"
  using assms
proof (induction ps arbitrary: s kept ret n)
  case (Cons p ps)
  show ?case
  proof (cases "covered k p")
    case True
    obtain kept' ret' n' where r: "retire_loop k now ps (note_retired now p s) = (kept', ret', n', s')"
      using Cons.prems True by (auto split: prod.splits)
    have "st_highest_acked_plus_one (note_retired now p s)
        = max (st_highest_acked_plus_one s) (sat_add (pd_stream_offset p) 1)"
      by (simp add: note_retired_def Let_def note_acked_offset_def record_rtt_sample_def split: option.split)
    then have "st_highest_acked_plus_one (note_retired now p s) = st_highest_acked_plus_one s
        \<or> st_highest_acked_plus_one (note_retired now p s) = sat_add (pd_stream_offset p) 1"
      by (simp add: max_def)
    then show ?thesis using Cons.IH[OF r] True by auto
  next
    case False
    obtain kept' ret' n' where r: "retire_loop k now ps s = (kept', ret', n', s')"
      using Cons.prems False by (auto split: prod.splits)
    then show ?thesis using Cons.IH[OF r] by auto
  qed
qed simp

lemma on_sack_highest:
  "st_highest_acked_plus_one (snd (on_sack now k a)) = st_highest_acked_plus_one a
    \<or> (\<exists>p\<in>set (st_send_buffer a). covered k p
          \<and> st_highest_acked_plus_one (snd (on_sack now k a)) = sat_add (pd_stream_offset p) 1)"
proof -
  obtain kept ret n s1 where r: "retire_loop k now (st_send_buffer a) a = (kept, ret, n, s1)"
    by (rule prod_cases4)
  then have "st_highest_acked_plus_one (snd (on_sack now k a)) = st_highest_acked_plus_one s1"
    by (simp add: on_sack_def split: prod.split)
  then show ?thesis using retire_loop_highest[OF r] by simp
qed

lemma on_sack_frame:
  "buf_keys (snd (on_sack now k a)) = map seg_key (filter (\<lambda>p. \<not> covered k p) (st_send_buffer a))"
  "st_reliable_offset (snd (on_sack now k a)) = st_reliable_offset a"
proof -
  have keys: "seg_key \<circ> mark_lost now l t = seg_key" for l t by (simp add: seg_key_def fun_eq_iff)
  show "buf_keys (snd (on_sack now k a)) = map seg_key (filter (\<lambda>p. \<not> covered k p) (st_send_buffer a))"
    "st_reliable_offset (snd (on_sack now k a)) = st_reliable_offset a"
    by (rule on_sack_eq[of now k a], simp add: keys)+
qed

lemma sender_ok_sack:
  assumes ok: "sender_ok l rcv a" and k: "{q. acks k q} \<subseteq> rcv"
  shows "sender_ok l rcv (snd (on_sack now k a))"
proof -
  let ?a = "snd (on_sack now k a)"
  have inv: "send_inv a" using ok by (simp add: sender_ok_def)
  have "q \<in> rcv" if q: "last_acked_offset ?a = Some q" for q
    using on_sack_highest[of now k a]
  proof (elim disjE bexE conjE)
    assume h: "st_highest_acked_plus_one ?a = st_highest_acked_plus_one a"
    have "last_acked_offset ?a = last_acked_offset a" unfolding last_acked_offset_def h by (rule refl)
    then have "last_acked_offset a = Some q" using q by simp
    then show ?thesis using ok by (simp add: sender_ok_def)
  next
    fix p assume p: "p \<in> set (st_send_buffer a)" "covered k p"
      and h: "st_highest_acked_plus_one ?a = sat_add (pd_stream_offset p) 1"
    have lt: "pd_stream_offset p < st_reliable_offset a" using p(1) inv by (simp add: send_inv_def)
    have "unat (sat_add (pd_stream_offset p) 1) = unat (pd_stream_offset p + 1)"
      using lt unat_u32_bound[of "st_reliable_offset a"] next_offset[OF lt]
      by (simp add: unat_sat_add word_less_nat_alt)
    then have "sat_add (pd_stream_offset p) 1 = pd_stream_offset p + 1" by (simp only: unat_inject)
    then have h': "st_highest_acked_plus_one ?a = pd_stream_offset p + 1" using h by simp
    have "q = pd_stream_offset p" using q unfolding last_acked_offset_def h' by (simp split: if_splits)
    then show ?thesis using p(2) k by blast
  qed
  moreover have "q \<in> rcv" if q: "q < st_reliable_offset a" "q \<notin> fst ` set (buf_keys ?a)" for q
  proof (cases "q \<in> fst ` set (buf_keys a)")
    case True
    then obtain p where p: "p \<in> set (st_send_buffer a)" "q = pd_stream_offset p" by (auto simp: seg_key_def)
    then have "covered k p" using q(2) unfolding on_sack_frame by (force simp: seg_key_def)
    then show ?thesis using p(2) k by blast
  next
    case False
    then show ?thesis using ok q(1) by (auto simp: sender_ok_def)
  qed
  moreover have "\<forall>(off, d, f)\<in>set (buf_keys ?a). l ! unat off = (d, f)"
    using ok unfolding on_sack_frame by (auto simp: sender_ok_def)
  ultimately show ?thesis using ok on_sack_inv[OF inv, of now k] on_sack_frame(2)[of now k a]
    unfolding sender_ok_def by presburger
qed

lemma poll_frame_ok:
  assumes ok: "sender_ok l rcv a" and g: "poll_send now cwnd dn dt al a = (Ok g, a')" "ob_reliable g"
  shows "frame_ok l rcv (ob_fin g, app_plaintext (Some (ob_stream_offset g)) (ob_data g))"
proof -
  have "out_key g \<in> set (buf_keys a) \<or> last_acked_offset a = Some (ob_stream_offset g) \<and> ob_data g = [] \<and> \<not> ob_fin g"
    by (rule poll_send_out[of now cwnd dn dt al a g]) (use g in simp_all)
  then show ?thesis
  proof
    assume "out_key g \<in> set (buf_keys a)"
    then have "l ! unat (ob_stream_offset g) = (ob_data g, ob_fin g)" "unat (ob_stream_offset g) < length l"
      using ok by (auto simp: sender_ok_def out_key_def send_inv_def seg_key_def word_less_nat_alt)
    then show ?thesis by (auto simp: frame_ok_def)
  next
    assume "last_acked_offset a = Some (ob_stream_offset g) \<and> ob_data g = [] \<and> \<not> ob_fin g"
    then show ?thesis using ok by (auto simp: frame_ok_def sender_ok_def)
  qed
qed

subsection \<open>The receiver's steps\<close>

lemma map_fst_take: "n \<le> length l \<Longrightarrow> map fst (take n l) = upto_payloads (log_src l) 0 n"
  by (rule nth_equalityI) (simp_all add: upto_payloads_def)

lemma upto_log:
  assumes "m \<le> n" "n \<le> length l"
  shows "map fst (take n l) = map fst (take m l) @ upto_payloads (log_src l) m n"
  using upto_payloads_append[of 0 m n "log_src l"] assms by (simp only: map_fst_take)

lemma accept_frame:
  assumes "accept_in_order now q pl b = (out, b')"
  shows "st_remote_fin_offset b' = st_remote_fin_offset b" "st_remote_finished b' = st_remote_finished b"
    "st_advertised_recv_window b' = st_advertised_recv_window b"
  using assms by (auto simp: accept_in_order_def Let_def split: if_splits prod.splits)

lemma receiver_ok_accept:
  assumes ok: "receiver_ok l b out" and len: "length l \<le> unat U32_MAX"
    and src: "unat q < length l \<and> d = fst (l ! unat q) \<or> q \<in> received b"
    and acc: "accept_in_order now q [d] b = (del, b')"
  shows "receiver_ok l b' (out @ deliver_in_order_run del) \<and> received b \<subseteq> received b'"
proof (cases "q \<in> received b")
  case True
  then have "del = [] \<and> b' = b\<lparr>st_last_data_recv_at := Some now\<rparr>"
    using accept_received[of b q now "[d]"] ok acc by (simp add: receiver_ok_def)
  then show ?thesis using ok
    by (simp add: receiver_ok_def deliver_in_order_run_def recv_inv_def received_def faithful_def window_ok_def
        recv_reorder_byte_limit_def)
next
  case False
  then have q: "unat q < length l" "[d] = log_src l (unat q)" using src by auto
  have lt: "q < U32_MAX" using q(1) len by (simp add: word_less_nat_alt)
  have inv: "recv_inv b" "faithful (log_src l) b" using ok by (simp_all add: receiver_ok_def)
  note f = accept_facts[OF inv lt q(2) acc]
  have rcv: "\<forall>x\<in>received b'. unat x < length l" using f q(1) ok by (auto simp: receiver_ok_def)
  have "unat (st_recv_sequence b') \<le> length l" by (rule recv_seq_bound[OF _ rcv]) (use f in simp)
  then have "map fst (take (unat (st_recv_sequence b')) l)
      = map fst (take (unat (st_recv_sequence b)) l) @ del"
    using upto_log[of "unat (st_recv_sequence b)" "unat (st_recv_sequence b')" l] f by simp
  moreover have "st_remote_fin_offset b < st_recv_sequence b'" if "st_remote_fin_offset b < st_recv_sequence b"
    using that f by (simp add: word_less_nat_alt)
  ultimately show ?thesis using f ok rcv accept_frame[OF acc]
    by (simp add: receiver_ok_def deliver_in_order_run_def window_ok_def)
qed

lemma receiver_ok_fin:
  assumes ok: "receiver_ok l b out" and q: "unat q < length l" "snd (l ! unat q)"
  shows "receiver_ok l (note_remote_fin q b) out \<and> received (note_remote_fin q b) = received b"
  using assms by (auto simp: receiver_ok_def note_remote_fin_def recv_inv_def received_def faithful_def window_ok_def
      recv_reorder_byte_limit_def)

lemma receiver_ok_take_fin:
  assumes ok: "receiver_ok l b out"
  shows "receiver_ok l (snd (take_in_order_fin b)) out \<and> received (snd (take_in_order_fin b)) = received b"
  using assms by (auto simp: receiver_ok_def take_in_order_fin_def Let_def recv_inv_def received_def faithful_def
      window_ok_def recv_reorder_byte_limit_def)

lemma receiver_ok_stage:
  assumes ok: "receiver_ok l b out"
  shows "receiver_ok l (stage_window_update_limit w b) out \<and> received (stage_window_update_limit w b) = received b"
  using assms by (auto simp: receiver_ok_def stage_window_update_limit_def recv_inv_def received_def faithful_def
      window_ok_def recv_reorder_byte_limit_def)

lemma receiver_ok_sack:
  assumes ok: "receiver_ok l b out" and k: "received_sack now d b = Some k"
  shows "ack_ok (received b) (sack_to_wire k)"
proof -
  have inv: "recv_inv b" using ok by (simp add: receiver_ok_def)
  have "received b \<noteq> {}" using received_sack_facts(1)[OF inv] k by force
  then show ?thesis using received_sack_facts(2)[OF inv, of now d] k by (auto simp: ack_ok_def)
qed

lemma receiver_ok_deliver:
  assumes ok: "receiver_ok l b out" and len: "length l \<le> unat U32_MAX"
    and fr: "frame_ok l (received b) (fin, pt)"
    and res: "recv_reliable now now' True fin pt b = (e, b')"
  shows "receiver_ok l b' (out @ re_delivered e) \<and> received b \<subseteq> received b'
    \<and> (\<forall>w\<in>set_option (map_option sack_to_wire (re_sack e)). ack_ok (received b') w)"
proof -
  obtain q d where pt: "pt = app_plaintext (Some q) d"
    and qd: "unat q < length l \<and> l ! unat q = (d, fin) \<or> q \<in> received b \<and> d = [] \<and> \<not> fin"
    using fr by (auto simp: frame_ok_def)
  obtain del b1 where acc: "accept_in_order now q [d] b = (del, b1)" by (rule prod.exhaust)
  have a: "receiver_ok l b1 (out @ deliver_in_order_run del)" "received b \<subseteq> received b1"
    using receiver_ok_accept[OF ok len _ acc] qd by auto
  show ?thesis
  proof (cases "received_sack now' 0 b1")
    case None
    then have "received b1 = {}"
      using received_sack_facts(2)[of b1 now' 0] a(1) by (auto simp: receiver_ok_def)
    then have "\<not> 0 < st_recv_sequence b1" by (auto simp: received_def)
    then have z: "st_recv_sequence b1 = 0" by (simp add: word_gt_0)
    then have "out @ deliver_in_order_run del = []" using a(1) by (simp add: receiver_ok_def deliver_in_order_run_def)
    moreover have "e = \<lparr>re_delivered = [], re_sack = None, re_eof = False\<rparr>" "b' = b1"
      using res None acc by (simp_all add: recv_reliable_def pt)
    ultimately show ?thesis using a by simp
  next
    case (Some k)
    define b2 where "b2 = (if d = [] \<and> \<not> fin then stage_window_update_limit (recv_limit b1) b1 else b1)"
    define b3 where "b3 = (if fin then note_remote_fin q b2 else b2)"
    obtain eof b4 where tf: "take_in_order_fin b3 = (eof, b4)" by (rule prod.exhaust)
    have "recv_reliable now now' True fin pt b
        = (\<lparr>re_delivered = deliver_in_order_run del, re_sack = Some k, re_eof = eof\<rparr>, b4)"
      using Some acc tf[unfolded b3_def b2_def] by (simp add: recv_reliable_def pt Let_def)
    then have e: "re_delivered e = deliver_in_order_run del" "re_sack e = Some k" "b' = b4"
      using res by simp_all
    have b2: "receiver_ok l b2 (out @ deliver_in_order_run del) \<and> received b2 = received b1"
      using receiver_ok_stage[OF a(1)] a(1) by (simp add: b2_def)
    have b3: "receiver_ok l b3 (out @ deliver_in_order_run del) \<and> received b3 = received b1"
    proof (cases fin)
      case True
      then have "unat q < length l" "snd (l ! unat q)" using qd by auto
      then show ?thesis using receiver_ok_fin[of l b2 "out @ deliver_in_order_run del" q] b2 True
        by (simp add: b3_def)
    qed (use b2 in \<open>simp add: b3_def\<close>)
    have b4: "receiver_ok l b4 (out @ deliver_in_order_run del) \<and> received b4 = received b1"
      using receiver_ok_take_fin[of l b3 "out @ deliver_in_order_run del"] b3 by (simp add: tf)
    show ?thesis using b4 a(2) receiver_ok_sack[OF a(1) Some] unfolding e by simp
  qed
qed

text \<open>The end-of-stream signal is given exactly when the peer's half becomes finished.\<close>

lemma recv_reliable_eof:
  assumes "recv_reliable now now' sack_ok fin pt b = (e, b')"
  shows "of_bool (st_remote_finished b') = (of_bool (st_remote_finished b) + of_bool (re_eof e) :: nat)"
proof (cases "length pt < 4")
  case False
  obtain del b1 where acc: "accept_in_order now (from_be_bytes (take 4 pt)) [drop 4 pt] b = (del, b1)" by (rule prod.exhaust)
  have "st_remote_finished b1 = st_remote_finished b" by (rule accept_frame(2)[OF acc])
  then show ?thesis using assms False acc
    by (auto simp: recv_reliable_def Let_def take_in_order_fin_def note_remote_fin_def stage_window_update_limit_def
        split: option.splits if_splits)
qed (use assms in \<open>auto simp: recv_reliable_def\<close>)

lemma consumed_window_mono:
  assumes ok: "window_ok s" and fits: "unat budget + growth_of s \<le> 8388608"
    and c: "record_app_consumed now raced n rel budget s = (u, b, s')"
  shows "st_advertised_recv_window s \<le> st_advertised_recv_window s'"
proof (cases rel)
  case True
  let ?s1 = "s\<lparr>st_bytes_consumed := st_bytes_consumed s + ucast n\<rparr>"
  obtain grew b' s2 where t: "tune_recv_window now raced n budget ?s1 = (grew, b', s2)" by (rule prod_cases3)
  have "window_ok ?s1" "unat budget + growth_of ?s1 \<le> 8388608"
    using ok fits by (simp_all add: window_ok_def growth_of_def)
  note f = tune_recv_window_facts[OF this t]
  have "st_advertised_recv_window s' = st_advertised_recv_window s2"
    using c True t by (auto simp: record_app_consumed_def Let_def split: if_splits)
  then show ?thesis using f by simp
qed (use c in \<open>simp add: record_app_consumed_def\<close>)

lemma tune_frame:
  "case tune_recv_window now raced n budget s of (g, b, s') \<Rightarrow>
     \<exists>pr w. s' = s\<lparr>st_probe := pr, st_advertised_recv_window := w\<rparr>"
proof (cases "st_advertised_recv_window s \<ge> MAX_RECV_WINDOW")
  case True
  then show ?thesis by (simp add: tune_recv_window_def)
      (rule exI[of _ "st_probe s"], rule exI[of _ "st_advertised_recv_window s"], simp)
next
  case False
  obtain k pr where pt: "probe_tick now n (st_advertised_recv_window s) (min_rtt (st_rto s)) (st_probe s) = (k, pr)"
    by (rule prod.exhaust)
  obtain gr bb ww where cg: "claim_growth raced budget (st_advertised_recv_window s) = (gr, bb, ww)" by (rule prod_cases3)
  show ?thesis
  proof (cases k)
    case True
    then show ?thesis using False pt cg by (simp add: tune_recv_window_def) blast
  next
    case False': False
    then show ?thesis using False pt by (simp add: tune_recv_window_def)
        (rule exI[of _ pr], rule exI[of _ "st_advertised_recv_window s"], simp)
  qed
qed

lemma consumed_frame:
  assumes c: "record_app_consumed now raced n rel budget s = (u, b, s')"
  shows "st_recv_sequence s' = st_recv_sequence s" "st_recv_buffer s' = st_recv_buffer s"
    "st_recv_buffer_bytes s' = st_recv_buffer_bytes s" "st_remote_fin_offset s' = st_remote_fin_offset s"
    "st_remote_finished s' = st_remote_finished s"
proof -
  let ?s1 = "s\<lparr>st_bytes_consumed := st_bytes_consumed s + ucast n\<rparr>"
  obtain grew b' s2 where t: "tune_recv_window now raced n budget ?s1 = (grew, b', s2)" by (rule prod_cases3)
  obtain pr w where s2: "s2 = ?s1\<lparr>st_probe := pr, st_advertised_recv_window := w\<rparr>"
    using tune_frame[where now = now and raced = raced and n = n and budget = budget and s = ?s1] unfolding t by blast
  have "s' = s \<or> (\<exists>k. s' = s2\<lparr>st_bytes_since_last_update := k\<rparr>)"
    using c t by (cases rel) (auto simp: record_app_consumed_def Let_def split: if_splits)
  then show "st_recv_sequence s' = st_recv_sequence s" "st_recv_buffer s' = st_recv_buffer s"
    "st_recv_buffer_bytes s' = st_recv_buffer_bytes s" "st_remote_fin_offset s' = st_remote_fin_offset s"
    "st_remote_finished s' = st_remote_finished s"
    unfolding s2 by (elim disjE exE; simp)+
qed

lemma receiver_ok_consume:
  assumes ok: "receiver_ok l b out" and c: "record_app_consumed now raced n rel budget b = (u, budget', b')"
    and fits: "unat budget + growth_of b \<le> unat SESSION_RECV_WINDOW_GROWTH_BUDGET"
  shows "receiver_ok l b' out \<and> received b' = received b"
proof -
  have w: "window_ok b" using ok by (simp add: receiver_ok_def)
  have "window_ok b'" by (rule consumed_facts(1)[OF w _ c]) (use fits in simp)
  moreover have "st_advertised_recv_window b \<le> st_advertised_recv_window b'"
    by (rule consumed_window_mono[OF w _ c]) (use fits in simp)
  ultimately show ?thesis using ok consumed_frame[OF c]
    by (simp add: receiver_ok_def recv_inv_def received_def faithful_def recv_reorder_byte_limit_def word_le_nat_alt)
qed

subsection \<open>Invariance\<close>

lemma ds_inv_init: "ds_inv (ds_init i)"
proof -
  have "window_ok (stream_new i)" by (simp add: window_ok_unat) (simp add: stream_new_def)
  moreover have "st_highest_acked_plus_one (stream_new i) = 0" "st_send_buffer (stream_new i) = []"
    "st_reliable_offset (stream_new i) = 0" "st_remote_fin_offset (stream_new i) = U32_MAX"
    "\<not> st_remote_finished (stream_new i)"
    by (simp_all add: stream_new_def)
  ultimately show ?thesis
    by (simp add: ds_inv_def ds_init_def sender_ok_def receiver_ok_def stream_new_send_inv last_acked_offset_def
        deliver_in_order_run_def)
qed

lemma sender_ok_len: "sender_ok l rcv a \<Longrightarrow> length l \<le> unat U32_MAX"
  using unat_u32_bound[of "st_reliable_offset a"] by (simp add: sender_ok_def)

lemma ds_step_inv: "ds_step s s' \<Longrightarrow> ds_inv s \<Longrightarrow> ds_inv s'"
proof (induction rule: ds_step.induct)
  case (ds_local op s)
  let ?q = "queued op (ds_sender s)"
  have "sender_ok (ds_log s @ ?q) (received (ds_receiver s)) (send_apply (ds_sender s) op)"
    using ds_local
    by (intro sender_ok_grow[OF _ local_op_grows] send_apply_inv local_op_ok)
      (simp_all add: ds_inv_def Let_def sender_ok_def)
  then show ?case using ds_local(2) receiver_ok_log frame_ok_mono[OF _ subset_refl]
    by (simp add: ds_inv_def Let_def)
next
  case (ds_transmit now cwnd dn dt al s g a)
  have ok: "sender_ok (ds_log s) (received (ds_receiver s)) (ds_sender s)" using ds_transmit(3) by (simp add: ds_inv_def Let_def)
  have "sender_ok (ds_log s @ []) (received (ds_receiver s)) (send_apply (ds_sender s) (OpPoll now cwnd dn dt al))"
    by (rule sender_ok_grow[OF ok]) (use ok in \<open>simp_all add: frame_op_grows sender_ok_def send_apply_inv
          send_apply_inv[of _ "OpPoll now cwnd dn dt al", simplified]\<close>)
  then have "sender_ok (ds_log s) (received (ds_receiver s)) a" using ds_transmit(1) by simp
  then show ?case using ds_transmit(3) poll_frame_ok[OF ok ds_transmit(1,2)] by (simp add: ds_inv_def Let_def)
next
  case (ds_deliver fin pt s now now' e b)
  let ?r = "received (ds_receiver s)"
  have i: "sender_ok (ds_log s) ?r (ds_sender s)" "receiver_ok (ds_log s) (ds_receiver s) (ds_out s)"
    "\<forall>f\<in>ds_frames s. frame_ok (ds_log s) ?r f" "\<forall>w\<in>ds_acks s. ack_ok ?r w"
    using ds_deliver(3) by (simp_all add: ds_inv_def Let_def)
  have fr: "frame_ok (ds_log s) ?r (fin, pt)" using i(3) ds_deliver(1) by blast
  note d = receiver_ok_deliver[OF i(2) sender_ok_len[OF i(1)] fr ds_deliver(2)]
  then have "\<forall>f\<in>ds_frames s. frame_ok (ds_log s @ []) (received b) f" using i(3) frame_ok_mono by blast
  moreover have "\<forall>w\<in>ds_acks s. ack_ok (received b) w" using i(4) ack_ok_mono d by blast
  moreover have "ds_eofs s + of_bool (re_eof e) = of_bool (st_remote_finished b)"
    using recv_reliable_eof[OF ds_deliver(2)] ds_deliver(3) by (simp add: ds_inv_def Let_def)
  ultimately show ?case using d sender_ok_mono[OF i(1)] by (auto simp: ds_inv_def Let_def)
next
  case (ds_acked w s k now)
  obtain k' where k': "w = sack_to_wire k'" "wf_sack k'" "{q. acks k' q} \<subseteq> received (ds_receiver s)"
    using ds_acked(1,3) by (auto simp: ds_inv_def Let_def ack_ok_def)
  then have "k = k'" using sack_from_to_wire[OF k'(2)] ds_acked(2) by simp
  then show ?case using ds_acked(3) sender_ok_sack k'(3) by (simp add: ds_inv_def Let_def)
next
  case (ds_consume now raced n rel budget s u budget' b)
  have "receiver_ok (ds_log s) (ds_receiver s) (ds_out s)" using ds_consume(3) by (simp add: ds_inv_def Let_def)
  then have "receiver_ok (ds_log s) b (ds_out s)" "received b = received (ds_receiver s)"
    using receiver_ok_consume[OF _ ds_consume(1,2)] by blast+
  then show ?case using ds_consume(3) consumed_frame(5)[OF ds_consume(1)] by (simp add: ds_inv_def Let_def)
qed

lemma reachable_inv: "ds_reachable i s \<Longrightarrow> ds_inv s"
  unfolding ds_reachable_def by (induction rule: rtranclp_induct) (auto intro: ds_inv_init ds_step_inv)

lemma concat_deliver_run [simp]: "concat (deliver_in_order_run xs) = concat xs"
  by (induction xs) (simp_all add: deliver_in_order_run_def)

lemma inv_unacked_received:
  assumes "ds_inv s" "q < st_reliable_offset (ds_sender s)"
  shows "q \<in> fst ` set (buf_keys (ds_sender s)) \<or> q \<in> received (ds_receiver s)"
  using assms by (auto simp: ds_inv_def Let_def sender_ok_def)

lemma inv_all_acked:
  assumes inv: "ds_inv s" and empty: "st_send_buffer (ds_sender s) = []"
  shows "unat (st_recv_sequence (ds_receiver s)) = length (ds_log s)"
proof -
  let ?b = "ds_receiver s" and ?a = "ds_sender s"
  have b: "recv_inv ?b" "\<forall>q\<in>received ?b. unat q < length (ds_log s)" "length (ds_log s) = unat (st_reliable_offset ?a)"
    using inv by (auto simp: ds_inv_def Let_def receiver_ok_def sender_ok_def)
  have "st_recv_sequence ?b \<notin> received ?b" by (rule seq_not_received[OF b(1)])
  then have "\<not> st_recv_sequence ?b < st_reliable_offset ?a"
    using inv_unacked_received[OF inv] empty by auto
  then show ?thesis using recv_seq_bound[OF b(1,2)] b(3) by (simp add: word_less_nat_alt)
qed

lemma drain_out: "\<exists>x. snd (snd (snd (drain nxt buf n out))) = out @ x"
proof (induction nxt buf n out rule: drain.induct)
  case (1 nxt buf n out)
  show ?case
  proof (cases "remove_first (\<lambda>e. fst e = nxt) buf" rule: option_pair_cases)
    case None
    then show ?thesis by (subst drain.simps) simp
  next
    case (Some e buf')
    then show ?thesis using 1[OF Some refl] by (subst drain.simps) auto
  qed
qed

subsection \<open>Retransmission\<close>

text \<open>Polling a number of times at one instant, with the outcomes in order.\<close>

fun polls :: "nat \<Rightarrow> nanos \<Rightarrow> u64 \<Rightarrow> u64 \<Rightarrow> nanos \<Rightarrow> bool \<Rightarrow> stream \<Rightarrow> (send_blocked, outbound_segment) result list" where
  "polls 0 now cwnd dn dt al a = []"
| "polls (Suc n) now cwnd dn dt al a =
     (case poll_send now cwnd dn dt al a of (r, a') \<Rightarrow> r # polls n now cwnd dn dt al a')"

text \<open>In flight and not (re)sent at this very instant.\<close>

definition stale :: "nanos \<Rightarrow> pending_data \<Rightarrow> bool" where
  "stale now p \<longleftrightarrow> pd_sent_at p \<noteq> None \<and> (pd_lost p \<noteq> None \<or> pd_sent_at p \<noteq> Some now)"

text \<open>The retransmission timeout after a number of further timeouts, each of which backs it off.\<close>

definition rto_after :: "nat \<Rightarrow> rto_estimator \<Rightarrow> nanos" where
  "rto_after n e = rto ((on_timeout ^^ n) e)"

text \<open>Declared lost, or in flight for longer than the timeout that holds once everything ahead has timed out.\<close>

definition overdue :: "nanos \<Rightarrow> rto_estimator \<Rightarrow> pending_data list \<Rightarrow> pending_data \<Rightarrow> bool" where
  "overdue now e pre p \<longleftrightarrow> lost_in_flight p \<or> timed_out now (rto_after (length (filter (stale now) pre)) e) p"

definition repaired :: "u32 \<Rightarrow> (send_blocked, outbound_segment) result \<Rightarrow> bool" where
  "repaired off r \<longleftrightarrow> (case r of Inr g \<Rightarrow> ob_stream_offset g = off \<and> ob_retransmit g \<and> ob_reliable g | Inl e \<Rightarrow> False)"

lemma timed_out_stale: "timed_out now (current_rto a) q \<Longrightarrow> stale now q"
  using rto_clamped[of "st_rto a"]
  by (auto simp: timed_out_def stale_def current_rto_def rto_consts split: option.splits)

lemma timed_out_sooner: "timed_out now t p \<Longrightarrow> t' \<le> t \<Longrightarrow> timed_out now t' p"
  by (auto simp: timed_out_def split: option.splits)

lemma rto_after_inv: "rto_inv e \<Longrightarrow> rto_inv ((on_timeout ^^ n) e)"
proof (induction n)
  case (Suc n)
  then show ?case using rto_apply_inv[of _ Timeout] by simp
qed simp

lemma rto_after_mono: "rto_inv e \<Longrightarrow> m \<le> n \<Longrightarrow> rto_after m e \<le> rto_after n e"
proof (induction n)
  case (Suc n)
  have "rto_after n e \<le> rto_after (Suc n) e"
    using rto_on_timeout_mono[OF rto_after_inv[OF Suc.prems(1)]] by (simp add: rto_after_def)
  then show ?case using Suc by (cases "m = Suc n") auto
qed simp

lemma rto_after_on_timeout: "rto_after n (on_timeout e) = rto_after (Suc n) e"
  by (simp add: rto_after_def funpow_swap1)

lemma max_rto_overdue: "timed_out now MAX_RTO p \<Longrightarrow> overdue now e pre p"
  using rto_clamped timed_out_sooner by (auto simp: overdue_def rto_after_def)

lemma overdue_fewer:
  assumes "overdue now e pre p" "rto_inv e" "length (filter (stale now) pre') \<le> length (filter (stale now) pre)"
  shows "overdue now e pre' p"
  using assms timed_out_sooner[OF _ rto_after_mono[OF assms(2,3)]] by (auto simp: overdue_def)

lemma overdue_due:
  assumes "overdue now (st_rto a) pre p" "rto_inv (st_rto a)"
  shows "lost_in_flight p \<or> timed_out now (current_rto a) p"
  using assms timed_out_sooner[OF _ rto_after_mono[OF assms(2), of 0]]
  by (auto simp: overdue_def rto_after_def current_rto_def)

lemma split_around:
  assumes "xs @ x # ys = us @ y # vs"
  obtains (same) "us = xs" "y = x" "vs = ys" | (behind) m where "us = xs @ x # m" "ys = m @ y # vs"
    | (ahead) m where "xs = us @ y # m" "vs = m @ x # ys"
  using assms by (auto simp: append_eq_append_conv2 Cons_eq_append_conv append_eq_Cons_conv)

text \<open>One poll with an overdue segment sends an unreliable datagram or repairs a stale segment, which is stale no more.\<close>

definition backlog_before :: "nanos \<Rightarrow> stream \<Rightarrow> nat" where
  "backlog_before now a = length (st_unreliable_buffer a) + length (filter (stale now) (st_send_buffer a))"

lemma poll_repairs:
  assumes inv: "rto_inv (st_rto a)" and p: "st_send_buffer a = pre @ p # post" "overdue now (st_rto a) pre p"
    and poll: "poll_send now cwnd dn dt al a = (r, a')"
  shows "repaired (pd_stream_offset p) r \<or> rto_inv (st_rto a') \<and> backlog_before now a' < backlog_before now a
    \<and> (\<exists>pre' post'. st_send_buffer a' = pre' @ p # post' \<and> overdue now (st_rto a') pre' p)"
proof (cases rule: poll_send_cases[of a now cwnd dn dt al])
  case (unreliable d rest)
  then show ?thesis using inv p poll by (auto simp: backlog_before_def)
next
  case (lost q buf)
  let ?q = "q\<lparr>pd_lost := None, pd_sent_at := Some now, pd_retries := pd_retries q + 1\<rparr>"
  obtain us vs where b: "st_send_buffer a = us @ q # vs" "buf = us @ ?q # vs" "lost_in_flight q"
    using lost(2) by (rule update_first_SomeE)
  have st: "stale now q" "\<not> stale now ?q" using b(3) by (auto simp: stale_def lost_in_flight_def)
  have a': "r = Ok (retransmit_segment q (pd_lost q))" "a' = a\<lparr>st_send_buffer := buf\<rparr>" using lost(3) poll by simp_all
  have less: "backlog_before now a' < backlog_before now a" using a'(2) b(1,2) st by (simp add: backlog_before_def)
  have "pre @ p # post = us @ q # vs" using p(1) b(1) by simp
  then show ?thesis
  proof (cases rule: split_around)
    case same
    then show ?thesis using a'(1) by (simp add: repaired_def retransmit_segment_def)
  next
    case (behind m)
    then show ?thesis using a'(2) b(2) inv p(2) less by auto
  next
    case (ahead m)
    have "overdue now (st_rto a) (us @ ?q # m) p" by (rule overdue_fewer[OF p(2) inv]) (simp add: ahead(1) st)
    moreover have "st_send_buffer a' = (us @ ?q # m) @ p # post" "st_rto a' = st_rto a" using a'(2) b(2) ahead(2) by simp_all
    ultimately show ?thesis using inv less by metis
  qed
next
  case (rto q buf)
  let ?q = "q\<lparr>pd_sent_at := Some now, pd_retries := pd_retries q + 1\<rparr>"
  obtain us vs where b: "st_send_buffer a = us @ q # vs" "buf = us @ ?q # vs" "timed_out now (current_rto a) q"
    "\<forall>y\<in>set us. \<not> timed_out now (current_rto a) y"
    using rto(3) by (rule update_first_SomeE)
  have st: "stale now q" by (rule timed_out_stale[OF b(3)])
  then have "pd_lost q = None" using rto(2) b(1) by (auto simp: lost_in_flight_def stale_def)
  then have st': "\<not> stale now ?q" by (simp add: stale_def)
  have a': "r = Ok (retransmit_segment q (Some RtoExpired))" "st_send_buffer a' = buf"
    "st_rto a' = on_timeout (st_rto a)" "st_unreliable_buffer a' = st_unreliable_buffer a"
    using rto(4) poll by (auto simp: note_rto_timeout_def)
  have less: "backlog_before now a' < backlog_before now a" using a'(2,4) b(1,2) st st' by (simp add: backlog_before_def)
  have inv': "rto_inv (st_rto a')" using rto_apply_inv[OF inv, of Timeout] a'(3) by simp
  have nl: "\<not> lost_in_flight p" using rto(2) p(1) by simp
  have "pre @ p # post = us @ q # vs" using p(1) b(1) by simp
  then show ?thesis
  proof (cases rule: split_around)
    case same
    then show ?thesis using a'(1) by (simp add: repaired_def retransmit_segment_def)
  next
    case (behind m)
    then show ?thesis using overdue_due[OF p(2) inv] nl b(4) by simp
  next
    case (ahead m)
    have "overdue now (st_rto a') (us @ ?q # m) p"
      using p(2) nl by (simp add: overdue_def ahead(1) st st' a'(3) rto_after_on_timeout)
    moreover have "st_send_buffer a' = (us @ ?q # m) @ p # post" using a'(2) b(2) ahead(2) by simp
    ultimately show ?thesis using inv' less by metis
  qed
next
  case fresh
  then show ?thesis using overdue_due[OF p(2) inv] p(1) by auto
qed

lemma polls_repair:
  "rto_inv (st_rto a) \<Longrightarrow> st_send_buffer a = pre @ p # post \<Longrightarrow> overdue now (st_rto a) pre p \<Longrightarrow>
   backlog_before now a \<le> n \<Longrightarrow> list_ex (repaired (pd_stream_offset p)) (polls n now cwnd dn dt al a)"
proof (induction n arbitrary: a pre post)
  case 0
  have "stale now p" using overdue_due[OF 0(3,1)] timed_out_stale[of now a p]
    by (auto simp: stale_def lost_in_flight_def)
  then show ?case using 0 by (simp add: backlog_before_def)
next
  case (Suc n)
  obtain r a' where poll: "poll_send now cwnd dn dt al a = (r, a')" by (rule prod.exhaust)
  show ?case using poll_repairs[OF Suc.prems(1-3) poll]
  proof (elim disjE conjE exE)
    fix pre' post' assume "rto_inv (st_rto a')" "backlog_before now a' < backlog_before now a"
      "st_send_buffer a' = pre' @ p # post'" "overdue now (st_rto a') pre' p"
    then show ?case using Suc.IH[of a' pre' post'] Suc.prems(4) poll by simp
  qed (simp add: poll)
qed

subsection \<open>A complete exchange\<close>

text \<open>One byte and a FIN are sent, delivered and acknowledged.\<close>

definition demo_s1 :: stream where
  "demo_s1 = (stream_new 3)\<lparr>st_reliable_offset := 1, st_send_permits := 1023,
     st_send_buffer := [new_pending 0 [7] False]\<rparr>"

definition demo_s2 :: stream where
  "demo_s2 = (stream_new 3)\<lparr>st_reliable_offset := 2, st_send_permits := 1022,
     st_send_buffer := [new_pending 0 [7] False, new_pending 1 [] True], st_local_finished := True\<rparr>"

definition demo_s3 :: stream where
  "demo_s3 = demo_s2\<lparr>st_bytes_sent := 1,
     st_send_buffer := [mark_sent 5 0 0 False (new_pending 0 [7] False), new_pending 1 [] True]\<rparr>"

definition demo_s4 :: stream where
  "demo_s4 = demo_s3\<lparr>st_send_buffer := [mark_sent 5 0 0 False (new_pending 0 [7] False),
     mark_sent 6 0 0 False (new_pending 1 [] True)]\<rparr>"

definition demo_r1 :: stream where
  "demo_r1 = (stream_new 3)\<lparr>st_last_data_recv_at := Some 8, st_recv_sequence := 1\<rparr>"

definition demo_r2 :: stream where
  "demo_r2 = (stream_new 3)\<lparr>st_last_data_recv_at := Some 9, st_recv_sequence := 2,
     st_remote_fin_offset := 1, st_remote_finished := True\<rparr>"

lemma demo_local:
  "send_reliable [7] (stream_new 3) = (Some (Ok 0), demo_s1)" "queue_fin demo_s1 = (Some (Ok ()), demo_s2)"
  by (simp_all add: demo_s1_def demo_s2_def send_reliable_def queue_fin_def next_reliable_offset_def stream_new_def
      checked_add_def MAX_PENDING_PACKETS_def)

lemma demo_polls:
  "poll_send 5 1000 0 0 False demo_s2 = (Ok (fresh_segment (new_pending 0 [7] False)), demo_s3)"
  by (simp add: poll_send_def demo_s2_def demo_s3_def stream_new_def lost_in_flight_def timed_out_def
      new_pending_def poll_new_def try_consume_send_window_def checked_add_def INITIAL_STREAM_WINDOW_def mark_sent_def)

lemma demo_polls2:
  "poll_send 6 1000 0 0 False demo_s3 = (Ok (fresh_segment (new_pending 1 [] True)), demo_s4)"
  by (simp add: poll_send_def demo_s2_def demo_s3_def demo_s4_def stream_new_def lost_in_flight_def timed_out_def
      new_pending_def poll_new_def mark_sent_def current_rto_def rto_def rto_base_def rto_new_def rto_consts)

lemma demo_sacks:
  "received_sack 8 0 demo_r1 = Some \<lparr>largest_acked = 0, ack_delay_us = 0, sack_ranges = [(0, 0)]\<rparr>"
  "received_sack 9 0 ((stream_new 3)\<lparr>st_last_data_recv_at := Some 9, st_recv_sequence := 2\<rparr>)
     = Some \<lparr>largest_acked = 1, ack_delay_us = 0, sack_ranges = [(0, 1)]\<rparr>"
  by (simp_all add: received_sack_def demo_r1_def stream_new_def sack_delay_def from_inclusive_ranges_def
      from_ascending_coalesced_def coalesce_step_def MAX_SACK_RANGES_def)

lemma demo_recv:
  "recv_reliable 8 8 True False (app_plaintext (Some 0) [7]) (stream_new 3)
     = (\<lparr>re_delivered = [[7]], re_sack = Some \<lparr>largest_acked = 0, ack_delay_us = 0, sack_ranges = [(0, 0)]\<rparr>,
         re_eof = False\<rparr>, demo_r1)"
  "recv_reliable 9 9 True True (app_plaintext (Some 1) []) demo_r1
     = (\<lparr>re_delivered = [], re_sack = Some \<lparr>largest_acked = 1, ack_delay_us = 0, sack_ranges = [(0, 1)]\<rparr>,
         re_eof = True\<rparr>, demo_r2)"
proof -
  have "accept_in_order 8 0 [[7]] (stream_new 3) = ([[7]], demo_r1)"
    by (simp add: accept_in_order_def drain.simps stream_new_def demo_r1_def)
  then show "recv_reliable 8 8 True False (app_plaintext (Some 0) [7]) (stream_new 3)
     = (\<lparr>re_delivered = [[7]], re_sack = Some \<lparr>largest_acked = 0, ack_delay_us = 0, sack_ranges = [(0, 0)]\<rparr>,
         re_eof = False\<rparr>, demo_r1)"
    by (simp add: recv_reliable_def demo_sacks deliver_in_order_run_def)
      (simp add: take_in_order_fin_def demo_r1_def stream_new_def)
  have "accept_in_order 9 1 [[]] demo_r1 = ([[]], (stream_new 3)\<lparr>st_last_data_recv_at := Some 9, st_recv_sequence := 2\<rparr>)"
    by (simp add: accept_in_order_def drain.simps stream_new_def demo_r1_def)
  then show "recv_reliable 9 9 True True (app_plaintext (Some 1) []) demo_r1
     = (\<lparr>re_delivered = [], re_sack = Some \<lparr>largest_acked = 1, ack_delay_us = 0, sack_ranges = [(0, 1)]\<rparr>,
         re_eof = True\<rparr>, demo_r2)"
    by (simp add: recv_reliable_def demo_sacks deliver_in_order_run_def app_plaintext_def)
      (simp add: take_in_order_fin_def note_remote_fin_def demo_r2_def stream_new_def U32_MAX_def)
qed

text \<open>The states of the exchange: sender, receiver, frames, acknowledgements, data delivered.\<close>

abbreviation demo_f1 :: "bool \<times> bytes" where "demo_f1 \<equiv> (False, app_plaintext (Some 0) [7])"
abbreviation demo_f2 :: "bool \<times> bytes" where "demo_f2 \<equiv> (True, app_plaintext (Some 1) [])"
abbreviation demo_k1 :: sack where "demo_k1 \<equiv> \<lparr>largest_acked = 0, ack_delay_us = 0, sack_ranges = [(0, 0)]\<rparr>"
abbreviation demo_k2 :: sack where "demo_k2 \<equiv> \<lparr>largest_acked = 1, ack_delay_us = 0, sack_ranges = [(0, 1)]\<rparr>"
abbreviation demo_k3 :: sack where "demo_k3 \<equiv> \<lparr>largest_acked = 1, ack_delay_us = 0, sack_ranges = [(1, 1)]\<rparr>"
abbreviation demo_log :: "(bytes \<times> bool) list" where "demo_log \<equiv> [([7], False), ([], True)]"

definition demo_state :: "stream \<Rightarrow> stream \<Rightarrow> (bytes \<times> bool) list \<Rightarrow> (bool \<times> bytes) set \<Rightarrow> bytes set \<Rightarrow> bytes list \<Rightarrow> delivery_system" where
  "demo_state a b l f k out = \<lparr>ds_sender = a, ds_receiver = b, ds_log = l, ds_frames = f, ds_acks = k, ds_out = out,
     ds_eofs = of_bool (st_remote_finished b)\<rparr>"

definition demo_end :: delivery_system where
  "demo_end = demo_state (snd (on_sack 10 demo_k2 demo_s4)) demo_r2 demo_log {demo_f1, demo_f2}
     {sack_to_wire demo_k1, sack_to_wire demo_k2} [[7]]"

text \<open>The same exchange with the first frame lost so far: the FIN is held and acknowledged.\<close>

definition demo_r3 :: stream where
  "demo_r3 = (stream_new 3)\<lparr>st_last_data_recv_at := Some 8, st_recv_buffer := [(1, [[]])], st_remote_fin_offset := 1\<rparr>"

definition demo_gap :: delivery_system where
  "demo_gap = demo_state (snd (on_sack 10 demo_k3 demo_s4)) demo_r3 demo_log {demo_f1, demo_f2} {sack_to_wire demo_k3} []"

lemma demo_recv_gap:
  "recv_reliable 8 8 True True (app_plaintext (Some 1) []) (stream_new 3)
     = (\<lparr>re_delivered = [], re_sack = Some demo_k3, re_eof = False\<rparr>, demo_r3)"
proof -
  let ?b = "(stream_new 3)\<lparr>st_last_data_recv_at := Some 8, st_recv_buffer := [(1, [[]])]\<rparr> :: stream"
  have "accept_in_order 8 1 [[]] (stream_new 3) = ([], ?b)"
    by (simp add: accept_in_order_def stream_new_def seg_bytes_def MAX_RECV_REORDER_def)
  moreover have "received_sack 8 0 ?b = Some demo_k3"
    by (simp add: received_sack_def stream_new_def sack_delay_def from_inclusive_ranges_def coalesce_seq_def
        from_ascending_coalesced_def coalesce_step_def MAX_SACK_RANGES_def)
  ultimately show ?thesis
    by (simp add: recv_reliable_def deliver_in_order_run_def app_plaintext_def)
      (simp add: take_in_order_fin_def note_remote_fin_def demo_r3_def stream_new_def U32_MAX_def)
qed

lemma ds_step_eq: "ds_step s t \<Longrightarrow> t = t' \<Longrightarrow> ds_step s t'"
  by simp

lemma ds_reachable_step: "ds_reachable i s \<Longrightarrow> ds_step s t \<Longrightarrow> ds_reachable i t"
  unfolding ds_reachable_def by (rule rtranclp.rtrancl_into_rtrancl)

lemma demo_fin_flags: "\<not> st_remote_finished (stream_new 3)" "\<not> st_remote_finished demo_r1" "st_remote_finished demo_r2"
  "\<not> st_remote_finished demo_r3"
  by (simp_all add: demo_r1_def demo_r2_def demo_r3_def stream_new_def)

lemmas demo_step = demo_state_def demo_fin_flags

lemma demo_sent: "ds_reachable 3 (demo_state demo_s4 (stream_new 3) demo_log {demo_f1, demo_f2} {} [])"
proof -
  let ?n = "stream_new 3 :: stream"
  have s1: "ds_step (ds_init 3) (demo_state demo_s1 ?n [([7], False)] {} {} [])"
    by (rule ds_step_eq[OF ds_local[of "OpSend [7]"]]) (simp_all add: ds_init_def demo_local demo_step)
  have s2: "ds_step (demo_state demo_s1 ?n [([7], False)] {} {} []) (demo_state demo_s2 ?n demo_log {} {} [])"
    by (rule ds_step_eq[OF ds_local[of OpFin]]) (simp_all add: demo_local demo_step)
  have s3: "ds_step (demo_state demo_s2 ?n demo_log {} {} []) (demo_state demo_s3 ?n demo_log {demo_f1} {} [])"
    by (rule ds_step_eq[OF ds_transmit[of 5 1000 0 0 False]], simp add: demo_step demo_polls)
      (simp_all add: demo_step fresh_segment_def new_pending_def)
  have s4: "ds_step (demo_state demo_s3 ?n demo_log {demo_f1} {} []) (demo_state demo_s4 ?n demo_log {demo_f1, demo_f2} {} [])"
    by (rule ds_step_eq[OF ds_transmit[of 6 1000 0 0 False]], simp add: demo_step demo_polls2)
      (auto simp: demo_step fresh_segment_def new_pending_def)
  show ?thesis unfolding ds_reachable_def
    by (meson s1 s2 s3 s4 converse_rtranclp_into_rtranclp rtranclp.rtrancl_refl)
qed

lemma demo_reachable: "ds_reachable 3 demo_end"
proof -
  have s5: "ds_step (demo_state demo_s4 (stream_new 3) demo_log {demo_f1, demo_f2} {} [])
      (demo_state demo_s4 demo_r1 demo_log {demo_f1, demo_f2} {sack_to_wire demo_k1} [[7]])"
    by (rule ds_step_eq[OF ds_deliver[of False "app_plaintext (Some 0) [7]" _ 8 8]], simp add: demo_step,
        simp add: demo_step demo_recv) (simp add: demo_step)
  have s6: "ds_step (demo_state demo_s4 demo_r1 demo_log {demo_f1, demo_f2} {sack_to_wire demo_k1} [[7]])
      (demo_state demo_s4 demo_r2 demo_log {demo_f1, demo_f2} {sack_to_wire demo_k1, sack_to_wire demo_k2} [[7]])"
    by (rule ds_step_eq[OF ds_deliver[of True "app_plaintext (Some 1) []" _ 9 9]], simp add: demo_step,
        simp add: demo_step demo_recv) (auto simp: demo_step)
  have k2: "sack_from_wire (sack_to_wire demo_k2) = Ok demo_k2"
    by (rule sack_from_to_wire) (simp add: wf_sack_def MAX_SACK_RANGES_def)
  have "ds_step (demo_state demo_s4 demo_r2 demo_log {demo_f1, demo_f2} {sack_to_wire demo_k1, sack_to_wire demo_k2} [[7]]) demo_end"
    by (rule ds_step_eq[OF ds_acked[OF _ k2, of _ 10]]) (simp_all add: demo_step demo_end_def)
  then show ?thesis by (rule ds_reachable_step[OF ds_reachable_step[OF ds_reachable_step[OF demo_sent s5] s6]])
qed

lemma demo_gap_reachable: "ds_reachable 3 demo_gap"
proof -
  have s5: "ds_step (demo_state demo_s4 (stream_new 3) demo_log {demo_f1, demo_f2} {} [])
      (demo_state demo_s4 demo_r3 demo_log {demo_f1, demo_f2} {sack_to_wire demo_k3} [])"
    by (rule ds_step_eq[OF ds_deliver[of True "app_plaintext (Some 1) []" _ 8 8]], simp add: demo_step,
        simp add: demo_step demo_recv_gap) (simp add: demo_step)
  have k3: "sack_from_wire (sack_to_wire demo_k3) = Ok demo_k3"
    by (rule sack_from_to_wire) (simp add: wf_sack_def MAX_SACK_RANGES_def)
  have "ds_step (demo_state demo_s4 demo_r3 demo_log {demo_f1, demo_f2} {sack_to_wire demo_k3} []) demo_gap"
    by (rule ds_step_eq[OF ds_acked[OF _ k3, of _ 10]]) (simp_all add: demo_step demo_gap_def)
  then show ?thesis by (rule ds_reachable_step[OF ds_reachable_step[OF demo_sent s5]])
qed

lemma demo_end_facts: "st_send_buffer (ds_sender demo_end) = []" "ds_eofs demo_end = 1"
  by (simp_all add: demo_end_def demo_step on_sack_def demo_s4_def demo_s3_def demo_s2_def mark_sent_def new_pending_def
      acks_def split_beta)

lemma demo_gap_offsets: "pd_stream_offset ` set (st_send_buffer (ds_sender demo_gap)) = {0}"
  by (rule on_sack_eq[of 10 demo_k3 demo_s4])
    (simp add: demo_gap_def demo_state_def demo_s4_def demo_s3_def demo_s2_def mark_sent_def new_pending_def acks_def)

subsection \<open>Properties\<close>

text \<open>
  C1. End-to-end reliable delivery. In every state reachable by any interleaving
  of writes, transmissions, retransmissions, arrivals (lost, duplicated,
  reordered), acknowledgements and application reads, what the receiver has
  handed to the application is exactly the payloads of the first offsets of what
  the sender queued, in order, with empty ones left out; and nothing the sender
  has stopped retransmitting is missing at the receiver.
\<close>

theorem reliable_delivery:
  assumes "ds_reachable i s"
  shows "let n = unat (st_recv_sequence (ds_receiver s))
    in n \<le> length (ds_log s) \<and> ds_out s = deliver_in_order_run (map fst (take n (ds_log s)))
       \<and> {q. q < st_reliable_offset (ds_sender s)}
           \<subseteq> pd_stream_offset ` set (st_send_buffer (ds_sender s)) \<union> received (ds_receiver s)"
proof -
  have inv: "ds_inv s" by (rule reachable_inv[OF assms])
  have b: "receiver_ok (ds_log s) (ds_receiver s) (ds_out s)" using inv by (simp add: ds_inv_def Let_def)
  then have "unat (st_recv_sequence (ds_receiver s)) \<le> length (ds_log s)"
    by (intro recv_seq_bound) (simp_all add: receiver_ok_def)
  moreover have "fst ` set (buf_keys (ds_sender s)) = pd_stream_offset ` set (st_send_buffer (ds_sender s))"
    by (force simp: seg_key_def)
  then have "{q. q < st_reliable_offset (ds_sender s)}
      \<subseteq> pd_stream_offset ` set (st_send_buffer (ds_sender s)) \<union> received (ds_receiver s)"
    using inv_unacked_received[OF inv] by blast
  ultimately show ?thesis using b by (simp add: Let_def receiver_ok_def)
qed

theorem reliable_delivery_witness:
  "ds_reachable 3 demo_end \<and> ds_out demo_end = deliver_in_order_run (map fst (take 2 (ds_log demo_end)))"
  using reliable_delivery[OF demo_reachable] demo_reachable
  by (simp add: Let_def) (simp add: demo_end_def demo_state_def demo_r2_def deliver_in_order_run_def)



text \<open>
  C11. End of stream comes after all the data: the receiving application is told
  that the peer finished at most once, and only when some offset was queued as the
  FIN and everything queued before it has been handed over.
\<close>

theorem eof_after_all_data:
  assumes "ds_reachable i s" and "0 < ds_eofs s"
  shows "ds_eofs s = 1 \<and> (\<exists>k<length (ds_log s). snd (ds_log s ! k) \<and>
    (\<exists>rest. concat (ds_out s) = concat (map fst (take k (ds_log s))) @ rest))"
proof -
  let ?b = "ds_receiver s" and ?l = "ds_log s"
  let ?k = "unat (st_remote_fin_offset ?b)" and ?n = "unat (st_recv_sequence ?b)"
  have ok: "receiver_ok ?l ?b (ds_out s)" and eof: "ds_eofs s = of_bool (st_remote_finished ?b)"
    using reachable_inv[OF assms(1)] by (simp_all add: ds_inv_def Let_def)
  have fin: "st_remote_finished ?b" using eof assms(2) by simp
  then have k: "?k < length ?l" "snd (?l ! ?k)" "?k \<le> ?n"
    and out: "concat (ds_out s) = concat (map fst (take ?n ?l))"
    using ok by (auto simp: receiver_ok_def word_less_nat_alt)
  have "?n \<le> length ?l" by (rule recv_seq_bound) (use ok in \<open>simp_all add: receiver_ok_def\<close>)
  then have "concat (ds_out s) = concat (map fst (take ?k ?l)) @ concat (upto_payloads (log_src ?l) ?k ?n)"
    using upto_log[OF k(3), of ?l] out by simp
  then show ?thesis using k(1,2) eof fin by auto
qed

theorem eof_after_all_data_witness:
  "ds_reachable 3 demo_end \<and> ds_eofs demo_end = 1 \<and> ds_eofs demo_gap = 0 \<and> (\<exists>k<length (ds_log demo_end). snd (ds_log demo_end ! k) \<and>
    (\<exists>rest. concat (ds_out demo_end) = concat (map fst (take k (ds_log demo_end))) @ rest))"
  using eof_after_all_data[OF demo_reachable] demo_end_facts(2) demo_reachable
  by (simp add: demo_gap_def demo_step)

text \<open>
  C12. Guaranteed retransmission. A segment that was declared lost, or whose
  retransmission timer has expired, is sent again within as many polls as there are
  unreliable datagrams and segments buffered, whatever the congestion budget and
  the peer's window. The timer meant is the one in force when the segment's turn
  comes: for the oldest segment the current timeout, and for a later one that
  timeout backed off once for each segment ahead of it that is in flight and was
  not sent at this instant.
\<close>

theorem guaranteed_retransmission:
  assumes "rto_inv (st_rto a)" and "st_send_buffer a = pre @ p # post"
    and "lost_in_flight p \<or> timed_out now (rto_after (length (filter (stale now) pre)) (st_rto a)) p"
  shows "list_ex (repaired (pd_stream_offset p))
    (polls (length (st_unreliable_buffer a) + length (st_send_buffer a)) now cwnd dn dt al a)"
  by (rule polls_repair[OF assms(1,2)]) (use assms(3) in \<open>simp_all add: overdue_def backlog_before_def\<close>)

theorem guaranteed_retransmission_witness:
  "current_rto demo_s3 = secs 1
   \<and> list_ex (repaired 0) (polls (length (st_send_buffer demo_s3)) (secs 1 + 5) 0 0 0 False demo_s3)"
proof -
  let ?p = "mark_sent 5 0 0 False (new_pending 0 [7] False)" and ?r = "rto_new"
  have a: "st_unreliable_buffer demo_s3 = []" "st_send_buffer demo_s3 = [] @ ?p # [new_pending 1 [] True]"
    "st_rto demo_s3 = rto_new" "pd_stream_offset ?p = 0"
    by (simp_all add: demo_s3_def demo_s2_def stream_new_def mark_sent_def new_pending_def)
  have r: "rto rto_new = secs 1" by (simp add: rto_def rto_base_def rto_new_def rto_consts DURATION_MAX_def)
  then have "timed_out (secs 1 + 5) (rto_after (length (filter (stale (secs 1 + 5)) [])) (st_rto demo_s3)) ?p"
    by (simp add: timed_out_def mark_sent_def rto_after_def a(3))
  then show ?thesis
    using guaranteed_retransmission[OF _ a(2), of "secs 1 + 5" 0 0 0 False] a rto_new_inv r
    by (simp add: current_rto_def)
qed

text \<open>
  When the acknowledgement cannot be sealed (\<open>send_stream_sack\<close> answers false),
  the in-order data this very packet released is discarded although the receiver
  has moved past it: nothing is handed on and nothing acknowledged, while the
  stream is left as after the reassembly that released the data.
\<close>

theorem unsealed_ack_discards_data:
  assumes "length pt \<ge> 4" and "from_be_bytes (take 4 pt) = st_recv_sequence s"
  shows "let (e, s') = recv_reliable now now' False fin pt s;
             (delivered, s1) = accept_in_order now (st_recv_sequence s) [drop 4 pt] s
    in delivered \<noteq> [] \<and> re_delivered e = [] \<and> re_sack e = None \<and> re_eof e = False \<and> s' = s1"
proof -
  obtain del s1 where acc: "accept_in_order now (st_recv_sequence s) [drop 4 pt] s = (del, s1)" by (rule prod.exhaust)
  have "del \<noteq> []" using acc drain_out[of "st_recv_sequence s + 1" "st_recv_buffer s" "st_recv_buffer_bytes s" "[drop 4 pt]"]
    by (auto simp: accept_in_order_def split: prod.splits)
  then show ?thesis using assms acc by (simp add: recv_reliable_def Let_def split: option.split)
qed

theorem unsealed_ack_discards_data_witness:
  "let (e, s') = recv_reliable 8 8 False False (app_plaintext (Some 0) [7]) (stream_new 3)
   in re_delivered e = [] \<and> s' = demo_r1"
proof -
  have "accept_in_order 8 0 [[7]] (stream_new 3) = ([[7]], demo_r1)"
    by (simp add: accept_in_order_def drain.simps stream_new_def demo_r1_def)
  then show ?thesis
    using unsealed_ack_discards_data[of "app_plaintext (Some 0) [7]" "stream_new 3" 8 8 False]
    by (simp add: Let_def split_beta)
qed

end
