(* ===== verification/Shaping.thy ===== *)
theory Shaping
  imports Wire_Types Reliable_Delivery
begin

text \<open>
  Size shaping and the packet-size budget (\<open>core/src/transport/shaping.rs\<close>,
  \<open>core/src/transport/mtu.rs\<close>): the bucket function, the padding trailer inside
  the encrypted plaintext, and the constants that keep every packet within one
  unfragmented datagram. Lengths are natural numbers (a 64-bit \<open>usize\<close> does not
  overflow for the sizes of packets).
\<close>

subsection \<open>The size budget\<close>

definition AEAD_OVERHEAD :: nat where "AEAD_OVERHEAD = 16"
definition PATH_MTU :: nat where "PATH_MTU = 1200"
definition DATAGRAM_HDR_LEN :: nat where "DATAGRAM_HDR_LEN = 1 + 8"
definition MAX_INNER_UNFRAGMENTED :: nat where "MAX_INNER_UNFRAGMENTED = PATH_MTU - DATAGRAM_HDR_LEN"
definition RELIABLE_OFFSET_LEN :: nat where "RELIABLE_OFFSET_LEN = 4"
definition PER_PACKET_OVERHEAD :: nat where
  "PER_PACKET_OVERHEAD = HEADER_SIZE + RELIABLE_OFFSET_LEN + AEAD_OVERHEAD"
definition MAX_APP_CHUNK :: nat where "MAX_APP_CHUNK = MAX_INNER_UNFRAGMENTED - PER_PACKET_OVERHEAD"
definition LEGACY_APP_CHUNK :: nat where "LEGACY_APP_CHUNK = 1300"
definition MAX_RECV_FRAME :: nat where "MAX_RECV_FRAME = LEGACY_APP_CHUNK + PER_PACKET_OVERHEAD"
definition MAX_RECV_PAYLOAD :: nat where "MAX_RECV_PAYLOAD = MAX_RECV_FRAME - HEADER_SIZE - AEAD_OVERHEAD"
definition MAX_SHAPED_WIRE :: nat where "MAX_SHAPED_WIRE = 1184"
definition PAD_LEN_FIELD :: nat where "PAD_LEN_FIELD = 2"

lemmas size_budget_defs = AEAD_OVERHEAD_def PATH_MTU_def DATAGRAM_HDR_LEN_def MAX_INNER_UNFRAGMENTED_def
  RELIABLE_OFFSET_LEN_def PER_PACKET_OVERHEAD_def MAX_APP_CHUNK_def LEGACY_APP_CHUNK_def MAX_RECV_FRAME_def
  MAX_RECV_PAYLOAD_def MAX_SHAPED_WIRE_def PAD_LEN_FIELD_def HEADER_SIZE_def

subsection \<open>Buckets\<close>

text \<open>\<open>usize::ilog2\<close>: the position of the highest set bit.\<close>

fun ilog2 :: "nat \<Rightarrow> nat" where
  "ilog2 n = (if n \<le> 1 then 0 else Suc (ilog2 (n div 2)))"

declare ilog2.simps [simp del]

datatype padding_policy = NoPadding | Padme

text \<open>\<open>& !mask\<close> with \<open>mask = 2 ^ b - 1\<close> clears the low \<open>b\<close> bits.\<close>

definition padme :: "nat \<Rightarrow> nat" where
  "padme l =
     (if l \<le> 2 then l
      else
        let e = ilog2 l;
            s = (if e = 0 then 1 else ilog2 e + 1);
            mask_bits = e - s;
            msk = 2 ^ mask_bits - 1
        in (l + msk) div 2 ^ mask_bits * 2 ^ mask_bits)"

definition padding_trailer_len :: "nat \<Rightarrow> padding_policy \<Rightarrow> nat" where
  "padding_trailer_len plaintext_len policy =
     (case policy of
        NoPadding \<Rightarrow> 0
      | Padme \<Rightarrow>
          let wire = HEADER_SIZE + plaintext_len + AEAD_OVERHEAD;
              target = min (padme (wire + PAD_LEN_FIELD)) MAX_SHAPED_WIRE
          in if target \<ge> wire + PAD_LEN_FIELD then target - wire else 0)"

definition append_padding :: "bytes \<Rightarrow> nat \<Rightarrow> bytes" where
  "append_padding plaintext trailer =
     (if trailer < PAD_LEN_FIELD then plaintext
      else
        let pad_n = (word_of_nat (trailer - PAD_LEN_FIELD) :: u16)
        in plaintext @ replicate (unat pad_n) 0 @ to_be_bytes pad_n)"

definition strip_padding :: "bytes \<Rightarrow> (wire_error, bytes) result" where
  "strip_padding plaintext =
     (if length plaintext < PAD_LEN_FIELD then Err wire_error.Truncated
      else
        let split = length plaintext - PAD_LEN_FIELD;
            pad_n = unat (from_be_bytes (drop split plaintext) :: u16)
        in if pad_n \<le> split then Ok (take (split - pad_n) plaintext) else Err wire_error.Truncated)"

text \<open>\<open>random_jitter\<close>: the random draw is an argument.\<close>

definition random_jitter :: "u64 \<Rightarrow> u32 \<Rightarrow> nanos" where
  "random_jitter r max_ms =
     (if max_ms = 0 then 0 else millis (unat r mod (unat max_ms + 1)))"

text \<open>The inner plaintext a data packet is sealed from, and whether it carries the padding flag.\<close>

definition shaped_plaintext :: "padding_policy \<Rightarrow> bytes \<Rightarrow> bytes \<times> bool" where
  "shaped_plaintext policy plaintext =
     (let trailer = padding_trailer_len (length plaintext) policy
      in if trailer > 0 then (append_padding plaintext trailer, True) else (plaintext, False))"

text \<open>What the receiver does with the plaintext it opened.\<close>

definition unshape_plaintext :: "bool \<Rightarrow> bytes \<Rightarrow> (wire_error, bytes) result" where
  "unshape_plaintext padded plaintext = (if padded then strip_padding plaintext else Ok plaintext)"

subsection \<open>Lemmas\<close>

lemma ilog2_bounds: "0 < n \<Longrightarrow> 2 ^ ilog2 n \<le> n \<and> n < 2 * 2 ^ ilog2 n"
proof (induction n rule: ilog2.induct)
  case (1 n)
  show ?case
  proof (cases "n \<le> 1")
    case True
    then show ?thesis using 1(2) by (simp add: ilog2.simps)
  next
    case False
    then have "2 ^ ilog2 (n div 2) \<le> n div 2 \<and> n div 2 < 2 * 2 ^ ilog2 (n div 2)" using 1(1) by simp
    moreover have "2 * x \<le> n \<and> n < 2 * (2 * x)" if "x \<le> n div 2 \<and> n div 2 < 2 * x" for x
      using that by presburger
    ultimately show ?thesis using False by (subst (1 2) ilog2.simps) simp
  qed
qed

lemma ilog2_unique: "2 ^ k \<le> n \<Longrightarrow> n < 2 * 2 ^ k \<Longrightarrow> ilog2 n = k"
proof -
  assume k: "2 ^ k \<le> n" "n < 2 * 2 ^ k"
  have n: "0 < n" using k(1) by (metis less_le_trans zero_less_numeral zero_less_power)
  note b = ilog2_bounds[OF n]
  have "(2::nat) ^ k < 2 ^ Suc (ilog2 n)" unfolding power_Suc using b k by linarith
  moreover have "(2::nat) ^ ilog2 n < 2 ^ Suc k" unfolding power_Suc using b k by linarith
  ultimately show ?thesis using power_less_imp_less_exp[of "2 :: nat" k "Suc (ilog2 n)"] power_less_imp_less_exp[of "2 :: nat" "ilog2 n" "Suc k"]
    by simp
qed

text \<open>The number of low bits that are rounded away at \<open>l\<close>.\<close>

definition round_bits :: "nat \<Rightarrow> nat" where
  "round_bits l = ilog2 l - (ilog2 (ilog2 l) + 1)"

lemma padme_eq: "2 < l \<Longrightarrow> padme l = (l + (2 ^ round_bits l - 1)) div 2 ^ round_bits l * 2 ^ round_bits l"
proof -
  assume "2 < l"
  then have "ilog2 l \<noteq> 0" by (simp add: ilog2.simps[of l])
  then show ?thesis using \<open>2 < l\<close> by (simp add: padme_def round_bits_def Let_def)
qed

lemma round_up_facts:
  fixes b l :: nat
  defines "r \<equiv> (l + (2 ^ b - 1)) div 2 ^ b * 2 ^ b"
  shows "l \<le> r" "r < l + 2 ^ b" "2 ^ b dvd r" "2 ^ b dvd m \<Longrightarrow> l \<le> m \<Longrightarrow> r \<le> m"
proof -
  let ?p = "2 ^ b :: nat"
  have p: "0 < ?p" by simp
  have d: "r + (l + (?p - 1)) mod ?p = l + (?p - 1)" unfolding r_def by (rule div_mult_mod_eq)
  have "(l + (?p - 1)) mod ?p < ?p" using p by simp
  then show "l \<le> r" "r < l + ?p" using d p by linarith+
  show dv: "?p dvd r" by (simp add: r_def)
  assume "?p dvd m" "l \<le> m"
  then obtain k where k: "m = k * ?p" by (metis dvdE mult.commute)
  have "(k + 1) * ?p = k * ?p + ?p" by simp
  then have "l + (?p - 1) < (k + 1) * ?p" using \<open>l \<le> m\<close> p unfolding k by linarith
  then have "(l + (?p - 1)) div ?p < k + 1" by (rule less_mult_imp_div_less)
  then show "r \<le> m" unfolding k r_def by simp
qed

lemma round_bits_le: "2 < l \<Longrightarrow> 2 ^ round_bits l dvd (2::nat) ^ ilog2 l \<and> round_bits l \<le> ilog2 l"
  by (simp add: round_bits_def le_imp_power_dvd)

lemma padme_facts:
  assumes l: "2 < l"
  shows "l \<le> padme l" "padme l < l + 2 ^ round_bits l" "2 ^ round_bits l dvd padme l"
    "2 ^ ilog2 l \<le> padme l" "padme l \<le> 2 * 2 ^ ilog2 l"
proof -
  note r = round_up_facts[where l = l and b = "round_bits l", folded padme_eq[OF l]]
  show "l \<le> padme l" "padme l < l + 2 ^ round_bits l" using r(1,2) by simp_all
  show "2 ^ round_bits l dvd padme l" by (simp add: padme_eq[OF l])
  show "2 ^ ilog2 l \<le> padme l" using ilog2_bounds[of l] l r(1) by linarith
  show "padme l \<le> 2 * 2 ^ ilog2 l"
    using r(4)[where m = "2 * 2 ^ ilog2 l"] round_bits_le[OF l] ilog2_bounds[of l] l by (simp add: dvd_mult less_imp_le)
qed

lemma ilog2_pow2 [simp]: "ilog2 (2 * 2 ^ k) = Suc k"
  by (rule ilog2_unique) simp_all

lemma padme_fix: "2 < l \<Longrightarrow> 2 ^ round_bits l dvd l \<Longrightarrow> padme l = l"
  using round_up_facts(4)[where b = "round_bits l" and l = l and m = l] padme_facts(1)[of l] by (simp add: padme_eq)

lemma padme_idem: "padme (padme l) = padme l"
proof (cases "2 < l")
  case True
  note f = padme_facts[OF True]
  have p2: "2 < padme l" using f(1) True by simp
  show ?thesis
  proof (cases "padme l = 2 * 2 ^ ilog2 l")
    case eq: True
    have "round_bits (padme l) \<le> Suc (ilog2 l)" by (simp add: round_bits_def eq)
    then have "2 ^ round_bits (padme l) dvd padme l"
      unfolding eq power_Suc[symmetric] by (rule le_imp_power_dvd)
    then show ?thesis by (rule padme_fix[OF p2])
  next
    case False
    then have "ilog2 (padme l) = ilog2 l" using f by (intro ilog2_unique) simp_all
    then have "round_bits (padme l) = round_bits l" by (simp add: round_bits_def)
    then show ?thesis using f(3) by (intro padme_fix[OF p2]) simp
  qed
qed (simp add: padme_def)

lemma padme_ge: "l \<le> padme l"
  using padme_facts(1)[of l] by (cases "2 < l") (simp_all add: padme_def)

lemma padme_mono: "l \<le> m \<Longrightarrow> padme l \<le> padme m"
proof (cases "2 < l")
  case True
  assume lm: "l \<le> m"
  then have m: "2 < m" using True by simp
  have le: "ilog2 l \<le> ilog2 m"
  proof (rule ccontr)
    assume "\<not> ilog2 l \<le> ilog2 m"
    then have "(2::nat) ^ Suc (ilog2 m) \<le> 2 ^ ilog2 l" by (intro power_increasing) simp_all
    then show False using ilog2_bounds[of l] ilog2_bounds[of m] True m lm by simp
  qed
  show ?thesis
  proof (cases "ilog2 l = ilog2 m")
    case eq: True
    have "padme l \<le> padme m"
      unfolding padme_eq[OF True]
      by (rule round_up_facts(4)) (use padme_facts[OF m] eq lm in \<open>simp_all add: round_bits_def\<close>)
    then show ?thesis .
  next
    case False
    then have "(2::nat) ^ Suc (ilog2 l) \<le> 2 ^ ilog2 m" using le by (intro power_increasing) simp_all
    then show ?thesis using padme_facts(5)[OF True] padme_facts(4)[OF m] by simp
  qed
next
  case False
  assume "l \<le> m"
  then show ?thesis using padme_ge[of m] False by (simp add: padme_def)
qed

lemma padme_overhead:
  assumes l: "2 < l"
  shows "(padme l - l) * 2 ^ (ilog2 (ilog2 l) + 1) < l"
proof (cases "ilog2 (ilog2 l) + 1 \<le> ilog2 l")
  case True
  have "padme l - l < 2 ^ round_bits l" using padme_facts(1,2)[OF l] by linarith
  then have "(padme l - l) * 2 ^ (ilog2 (ilog2 l) + 1) < 2 ^ round_bits l * 2 ^ (ilog2 (ilog2 l) + 1)" by simp
  also have "\<dots> = 2 ^ ilog2 l" unfolding power_add[symmetric] using True by (simp add: round_bits_def)
  also have "\<dots> \<le> l" using ilog2_bounds[of l] l by simp
  finally show ?thesis .
next
  case False
  then have "padme l = l" using padme_facts(1,2)[OF l] by (simp add: round_bits_def)
  then show ?thesis using l by simp
qed

lemma strip_append:
  assumes "2 \<le> t" "t < 65538"
  shows "strip_padding (append_padding pt t) = Ok pt" "length (append_padding pt t) = length pt + t"
proof -
  let ?n = "word_of_nat (t - 2) :: u16"
  have "unat (word_of_nat k :: u16) = k" if "k < 65536" for k
    using that by (simp add: unat_of_nat take_bit_nat_eq_self_iff)
  from this[of "t - 2"] have n: "unat ?n = t - 2" using assms by linarith
  have a: "append_padding pt t = pt @ replicate (t - 2) 0 @ to_be_bytes ?n"
    using assms(1) n by (simp add: append_padding_def PAD_LEN_FIELD_def Let_def)
  then show "length (append_padding pt t) = length pt + t" using assms(1) by simp
  have d: "drop (length pt + (t - 2)) (append_padding pt t) = to_be_bytes ?n" by (simp add: a)
  have "length (append_padding pt t) - 2 = length pt + (t - 2)" using assms(1) by (simp add: a)
  then show "strip_padding (append_padding pt t) = Ok pt"
    using assms(1) n by (simp add: strip_padding_def PAD_LEN_FIELD_def Let_def d) (simp add: a)
qed

lemma trailer_facts:
  assumes "0 < padding_trailer_len n pol"
  shows "2 \<le> padding_trailer_len n pol"
    "HEADER_SIZE + n + padding_trailer_len n pol + AEAD_OVERHEAD \<le> MAX_SHAPED_WIRE"
  using assms by (auto simp: padding_trailer_len_def Let_def PAD_LEN_FIELD_def split: padding_policy.splits if_splits)

lemma shape_round_trip: "shaped_plaintext pol pt = (sealed, padded) \<Longrightarrow> unshape_plaintext padded sealed = Ok pt"
proof (cases "0 < padding_trailer_len (length pt) pol")
  case True
  assume sh: "shaped_plaintext pol pt = (sealed, padded)"
  note f = trailer_facts[OF True]
  have "padding_trailer_len (length pt) pol < 65538" using f(2) by (simp add: MAX_SHAPED_WIRE_def)
  then show ?thesis using sh True strip_append(1)[OF f(1), of pt]
    by (auto simp: shaped_plaintext_def unshape_plaintext_def Let_def)
qed (simp add: shaped_plaintext_def unshape_plaintext_def)

lemma shaped_wire_bound:
  assumes "length chunk \<le> MAX_APP_CHUNK"
  shows "HEADER_SIZE + length (fst (shaped_plaintext pol (app_plaintext off chunk))) + AEAD_OVERHEAD \<le> 1191"
proof -
  let ?pt = "app_plaintext off chunk"
  have len: "length ?pt \<le> 1160" using assms by (cases off) (simp_all add: app_plaintext_def size_budget_defs)
  show ?thesis
  proof (cases "0 < padding_trailer_len (length ?pt) pol")
    case True
    note f = trailer_facts[OF True]
    have "padding_trailer_len (length ?pt) pol < 65538" using f(2) by (simp add: MAX_SHAPED_WIRE_def)
    then show ?thesis using True f(2) strip_append(2)[OF f(1), of ?pt]
      by (simp add: shaped_plaintext_def Let_def size_budget_defs)
  qed (use len in \<open>simp add: shaped_plaintext_def size_budget_defs\<close>)
qed

subsection \<open>Properties\<close>

text \<open>
  The bucket function: it never shrinks a size, is monotone and idempotent (so
  buckets are its fixed points), and adds less than the fraction
  \<open>2 ^ - (log (log l) + 1)\<close> of the size.
\<close>

theorem padme_buckets:
  "l \<le> padme l \<and> padme (padme l) = padme l \<and> padme l \<le> padme (l + k)
   \<and> (if 2 < l then (padme l - l) * 2 ^ (ilog2 (ilog2 l) + 1) < l else padme l = l)"
  using padme_ge padme_idem padme_mono[of l "l + k"] padme_overhead[of l] by (simp add: padme_def)

text \<open>
  Shaping is transparent and stays within the datagram: the receiver gets back
  exactly the plaintext the sender shaped, whatever the policy; a padded packet is
  on the wire exactly at a bucket boundary or at the cap, and never above the cap.
\<close>

theorem shaping_transparent:
  "let (sealed, padded) = shaped_plaintext pol pt;
       wire = HEADER_SIZE + length sealed + AEAD_OVERHEAD
   in unshape_plaintext padded sealed = Ok pt
      \<and> (if padded then (padme wire = wire \<or> wire = MAX_SHAPED_WIRE) \<and> wire \<le> MAX_SHAPED_WIRE
         else sealed = pt)"
proof (cases "0 < padding_trailer_len (length pt) pol")
  case True
  let ?t = "padding_trailer_len (length pt) pol"
  note f = trailer_facts[OF True]
  have "?t < 65538" using f(2) by (simp add: MAX_SHAPED_WIRE_def)
  note s = strip_append[OF f(1) this, of pt]
  have "HEADER_SIZE + (length pt + ?t) + AEAD_OVERHEAD
      = min (padme (HEADER_SIZE + length pt + AEAD_OVERHEAD + PAD_LEN_FIELD)) MAX_SHAPED_WIRE"
    using True by (auto simp: padding_trailer_len_def Let_def split: padding_policy.splits if_splits)
  then have "padme (HEADER_SIZE + (length pt + ?t) + AEAD_OVERHEAD) = HEADER_SIZE + (length pt + ?t) + AEAD_OVERHEAD
      \<or> HEADER_SIZE + (length pt + ?t) + AEAD_OVERHEAD = MAX_SHAPED_WIRE"
    by (auto simp: min_def padme_idem)
  then show ?thesis using True s f(2) by (simp add: shaped_plaintext_def unshape_plaintext_def Let_def)
qed (simp add: shaped_plaintext_def unshape_plaintext_def)

text \<open>
  Size budget: the packet built from any application chunk the pump hands to a
  stream, reliable or not, padded or not, fits one unfragmented datagram on the
  assumed path, and is one the peer's receive gate admits.
\<close>

theorem app_packet_fits_datagram:
  assumes "length chunk \<le> MAX_APP_CHUNK"
  shows "let wire = HEADER_SIZE + length (fst (shaped_plaintext pol (app_plaintext off chunk))) + AEAD_OVERHEAD
    in DATAGRAM_HDR_LEN + wire \<le> PATH_MTU \<and> wire \<le> MAX_INNER_UNFRAGMENTED \<and> wire \<le> MAX_RECV_FRAME"
  using shaped_wire_bound[OF assms, of pol off] by (simp add: Let_def size_budget_defs)

theorem app_packet_fits_datagram_witness:
  "let wire = HEADER_SIZE + length (fst (shaped_plaintext Padme (app_plaintext (Some 3) (replicate 1156 0)))) + AEAD_OVERHEAD
    in DATAGRAM_HDR_LEN + wire \<le> PATH_MTU \<and> wire \<le> MAX_INNER_UNFRAGMENTED \<and> wire \<le> MAX_RECV_FRAME"
  by (rule app_packet_fits_datagram) (simp add: size_budget_defs)

end
