(* ===== verification/Path_Registry.thy ===== *)
theory Path_Registry
  imports Wire_Types
begin

text \<open>
  Path validation (\<open>core/src/transport/path.rs\<close>) and its packet format
  (\<open>core/src/transport/path_validation_codec.rs\<close>). The registry maps path ids to
  their state; each method is one step (the per-path mutex). The random challenge
  drawn by \<open>issue_challenge\<close> is an argument. The comparison of a response in
  constant time is equality.
\<close>

subsection \<open>State\<close>

abbreviation PATH_CHALLENGE_LEN :: nat where "PATH_CHALLENGE_LEN \<equiv> 32"

datatype path_state_kind = Unvalidated | Validating | Validated | Failed

record path_state =
  ps_path_id :: u8
  ps_state :: path_state_kind
  ps_rtt_ms :: u32
  ps_loss_pct :: u8
  ps_last_packet_seen :: "nanos option"
  ps_pending_challenge :: "bytes option"

definition path_state_new :: "u8 \<Rightarrow> path_state" where
  "path_state_new path_id =
     \<lparr>ps_path_id = path_id, ps_state = Unvalidated, ps_rtt_ms = 0, ps_loss_pct = 0,
      ps_last_packet_seen = None, ps_pending_challenge = None\<rparr>"

type_synonym path_registry = "u8 \<rightharpoonup> path_state"

datatype registration_result = Created | AlreadyKnown

subsection \<open>Operations\<close>

definition registry_new :: path_registry where
  "registry_new = Map.empty"

definition register_path :: "u8 \<Rightarrow> path_registry \<Rightarrow> registration_result \<times> path_registry" where
  "register_path path_id reg =
     (case reg path_id of
        Some _ \<Rightarrow> (AlreadyKnown, reg)
      | None \<Rightarrow> (Created, reg(path_id \<mapsto> path_state_new path_id)))"

definition register_validated :: "u8 \<Rightarrow> path_registry \<Rightarrow> registration_result \<times> path_registry" where
  "register_validated path_id reg =
     (case reg path_id of
        Some _ \<Rightarrow> (AlreadyKnown, reg)
      | None \<Rightarrow> (Created, reg(path_id \<mapsto> (path_state_new path_id)\<lparr>ps_state := Validated\<rparr>)))"

definition retire_path :: "u8 \<Rightarrow> path_registry \<Rightarrow> path_registry" where
  "retire_path path_id reg = reg(path_id := None)"

definition path_mark_seen :: "nanos \<Rightarrow> u8 \<Rightarrow> path_registry \<Rightarrow> path_registry" where
  "path_mark_seen now path_id reg =
     (case reg path_id of
        Some p \<Rightarrow> reg(path_id \<mapsto> p\<lparr>ps_last_packet_seen := Some now\<rparr>)
      | None \<Rightarrow> reg)"

definition issue_challenge :: "bytes \<Rightarrow> u8 \<Rightarrow> path_registry \<Rightarrow> bytes option \<times> path_registry" where
  "issue_challenge fresh path_id reg =
     (case reg path_id of
        None \<Rightarrow> (None, reg)
      | Some p \<Rightarrow>
          (if ps_state p = Validated \<or> ps_state p = Failed then (None, reg)
           else case ps_pending_challenge p of
                  Some existing \<Rightarrow> (Some existing, reg)
                | None \<Rightarrow> (Some fresh,
                     reg(path_id \<mapsto> p\<lparr>ps_pending_challenge := Some fresh, ps_state := Validating\<rparr>))))"

definition verify_response :: "u8 \<Rightarrow> bytes \<Rightarrow> path_registry \<Rightarrow> bool \<times> path_registry" where
  "verify_response path_id response reg =
     (case reg path_id of
        None \<Rightarrow> (False, reg)
      | Some p \<Rightarrow>
          (if length response \<noteq> PATH_CHALLENGE_LEN then (False, reg)
           else if ps_state p \<noteq> Validating then (False, reg)
           else case ps_pending_challenge p of
                  None \<Rightarrow> (False, reg(path_id \<mapsto> p\<lparr>ps_state := Failed\<rparr>))
                | Some expected \<Rightarrow>
                    let p1 = p\<lparr>ps_pending_challenge := None\<rparr>
                    in if expected = response
                       then (True, reg(path_id \<mapsto> p1\<lparr>ps_state := Validated\<rparr>))
                       else (False, reg(path_id \<mapsto> p1\<lparr>ps_state := Failed\<rparr>))))"

definition registry_state :: "u8 \<Rightarrow> path_registry \<Rightarrow> path_state_kind option" where
  "registry_state path_id reg = map_option ps_state (reg path_id)"

text \<open>The 256 possible ids in order; the iteration order of the source's map is not specified.\<close>

definition validated_paths :: "path_registry \<Rightarrow> u8 list" where
  "validated_paths reg = filter (\<lambda>p. registry_state p reg = Some Validated) (map word_of_nat [0..<256])"

definition registry_len :: "path_registry \<Rightarrow> nat" where
  "registry_len reg = length (filter (\<lambda>p. reg p \<noteq> None) (map word_of_nat [0..<256]))"

definition registry_is_empty :: "path_registry \<Rightarrow> bool" where
  "registry_is_empty reg \<longleftrightarrow> registry_len reg = 0"

text \<open>What the session does with the registry (\<open>core/src/transport/session.rs\<close>).\<close>

definition begin_path_validation :: "bytes \<Rightarrow> u8 \<Rightarrow> path_registry \<Rightarrow> bytes option \<times> path_registry" where
  "begin_path_validation fresh path_id reg = issue_challenge fresh path_id (snd (register_path path_id reg))"

definition register_unvalidated_path :: "u8 \<Rightarrow> path_registry \<Rightarrow> path_registry" where
  "register_unvalidated_path path_id reg =
     (if registry_state path_id reg = None then snd (register_path path_id reg) else reg)"

definition complete_path_validation :: "u8 \<Rightarrow> bytes \<Rightarrow> path_registry \<Rightarrow> bool \<times> path_registry" where
  "complete_path_validation = verify_response"

subsection \<open>The packet format\<close>

record parsed_path_validation =
  ppv_path_id :: u8
  ppv_payload :: bytes

datatype path_validation_error = WrongPayloadLength nat

definition build_path_validation_packet :: "session_id \<Rightarrow> u8 \<Rightarrow> u64 \<Rightarrow> bytes \<Rightarrow> phantom_packet" where
  "build_path_validation_packet session_id path_id packet_number payload =
     packet_new (with_path_id (header_new session_id 0 packet_number F_PATH_VALIDATION) path_id) payload"

definition parse_path_validation ::
  "phantom_packet \<Rightarrow> (path_validation_error, parsed_path_validation option) result" where
  "parse_path_validation packet =
     (if \<not> flags_contains (hdr_flags (pkt_header packet)) F_PATH_VALIDATION then Ok None
      else if length (pkt_payload packet) \<noteq> PATH_CHALLENGE_LEN
      then Err (WrongPayloadLength (length (pkt_payload packet)))
      else Ok (Some \<lparr>ppv_path_id = hdr_path_id (pkt_header packet), ppv_payload = pkt_payload packet\<rparr>))"

subsection \<open>Histories\<close>

datatype path_op =
    PathRegister u8 | PathRegisterValidated u8 | PathRetire u8 | PathSeen nanos u8
  | PathIssue bytes u8 | PathVerify u8 bytes

fun path_apply :: "path_registry \<Rightarrow> path_op \<Rightarrow> path_registry" where
  "path_apply reg (PathRegister i) = snd (register_path i reg)"
| "path_apply reg (PathRegisterValidated i) = snd (register_validated i reg)"
| "path_apply reg (PathRetire i) = retire_path i reg"
| "path_apply reg (PathSeen now i) = path_mark_seen now i reg"
| "path_apply reg (PathIssue c i) = snd (issue_challenge c i reg)"
| "path_apply reg (PathVerify i r) = snd (verify_response i r reg)"

text \<open>The operations since a path was last retired, and how it came to be trusted in them.\<close>

definition life :: "u8 \<Rightarrow> path_op list \<Rightarrow> path_op list" where
  "life i ops = rev (takeWhile (\<lambda>op. op \<noteq> PathRetire i) (rev ops))"

definition proven :: "u8 \<Rightarrow> path_op list \<Rightarrow> bool" where
  "proven i ops \<longleftrightarrow> PathRegisterValidated i \<in> set ops \<or>
     (\<exists>c pre post. ops = pre @ PathVerify i c # post \<and> PathIssue c i \<in> set pre \<and> length c = PATH_CHALLENGE_LEN)"

definition path_ok :: "path_op list \<Rightarrow> u8 \<Rightarrow> path_state \<Rightarrow> bool" where
  "path_ok ops i p \<longleftrightarrow> (\<forall>c. ps_pending_challenge p = Some c \<longrightarrow> PathIssue c i \<in> set ops)
     \<and> (ps_pending_challenge p \<noteq> None \<longleftrightarrow> ps_state p = Validating)
     \<and> (ps_state p = Validated \<longrightarrow> proven i ops)"

lemma life_snoc: "life i (ops @ [op]) = (if op = PathRetire i then [] else life i ops @ [op])"
  by (simp add: life_def)

lemma proven_snoc: "proven i ops \<Longrightarrow> proven i (ops @ [op])"
  unfolding proven_def by (auto simp del: append_assoc) (metis append_Cons append_assoc)

lemma path_ok_snoc: "path_ok ops i p \<Longrightarrow> path_ok (ops @ [op]) i p"
  by (auto simp: path_ok_def proven_snoc)

lemma path_apply_ok:
  assumes inv: "\<And>p. reg i = Some p \<Longrightarrow> path_ok ops i p" and p: "path_apply reg op i = Some p"
  shows "path_ok (ops @ [op]) i p"
proof -
  have old: "path_ok (ops @ [op]) i q" if "reg i = Some q" for q using inv that by (simp add: path_ok_snoc)
  have seen: "path_ok (ops @ [op]) i (q\<lparr>ps_last_packet_seen := t\<rparr>)" if "reg i = Some q" for q t
    using old[OF that] by (simp add: path_ok_def)
  show ?thesis
  proof (cases op)
    case (PathRegister j)
    then have "reg i = Some p \<or> p = path_state_new i"
      using p by (auto simp: register_path_def split: option.splits if_splits)
    then show ?thesis using old by (auto simp: path_ok_def path_state_new_def)
  next
    case (PathRegisterValidated j)
    then have "reg i = Some p \<or> (i = j \<and> p = (path_state_new i)\<lparr>ps_state := Validated\<rparr>)"
      using p by (auto simp: register_validated_def split: option.splits if_splits)
    then show ?thesis using old PathRegisterValidated by (auto simp: path_ok_def path_state_new_def proven_def)
  next
    case (PathRetire j)
    then show ?thesis using p old by (auto simp: retire_path_def split: if_splits)
  next
    case (PathSeen now j)
    then have "reg i = Some p \<or> (\<exists>q t. reg i = Some q \<and> p = q\<lparr>ps_last_packet_seen := t\<rparr>)"
      using p by (auto simp: path_mark_seen_def split: option.splits if_splits)
    then show ?thesis using old seen by blast
  next
    case (PathIssue c j)
    then have "reg i = Some p \<or> (i = j \<and> ps_pending_challenge p = Some c \<and> ps_state p = Validating)"
      using p by (auto simp: issue_challenge_def split: option.splits if_splits)
    then show ?thesis using old PathIssue by (auto simp: path_ok_def)
  next
    case (PathVerify j r)
    then consider "reg i = Some p" | "ps_pending_challenge p = None" "ps_state p = Failed"
      | q where "i = j" "reg i = Some q" "ps_pending_challenge q = Some r" "length r = PATH_CHALLENGE_LEN"
          "ps_pending_challenge p = None" "ps_state p = Validated"
      using p by (auto simp: verify_response_def Let_def split: option.splits if_splits)
    then show ?thesis
    proof cases
      case 3
      then have "PathIssue r i \<in> set ops" using inv by (auto simp: path_ok_def)
      then have "proven i (ops @ [op])" using 3(1,4) PathVerify by (auto simp: proven_def)
      then show ?thesis using 3 by (simp add: path_ok_def)
    qed (use old in \<open>auto simp: path_ok_def\<close>)
  qed
qed

lemma retire_path_same [simp]: "retire_path i reg i = None"
  by (simp add: retire_path_def)

lemma path_run_ok: "foldl path_apply registry_new ops i = Some p \<Longrightarrow> path_ok (life i ops) i p"
proof (induction ops arbitrary: p rule: rev_induct)
  case (snoc op ops)
  have ne: "op \<noteq> PathRetire i" using snoc.prems by auto
  have "path_ok (life i ops @ [op]) i p"
    by (rule path_apply_ok[OF snoc.IH]) (use snoc.prems in auto)
  then show ?case using ne by (simp add: life_snoc)
qed (simp add: registry_new_def)

lemma failed_stays:
  assumes "registry_state i reg = Some Failed" "op \<noteq> PathRetire i"
  shows "registry_state i (path_apply reg op) = Some Failed"
  using assms by (cases op)
    (auto simp: registry_state_def register_path_def register_validated_def retire_path_def path_mark_seen_def
      issue_challenge_def verify_response_def Let_def split: option.splits)

lemma issue_challenge_pending:
  assumes "issue_challenge fresh i reg = (Some c, reg')"
    and "\<And>p. reg i = Some p \<Longrightarrow> ps_pending_challenge p \<noteq> None \<longrightarrow> ps_state p = Validating"
  obtains p where "reg' i = Some p" "ps_pending_challenge p = Some c" "ps_state p = Validating"
  using assms by (auto simp: issue_challenge_def split: option.splits if_splits)

lemma verify_response_pending:
  assumes "reg i = Some p" "ps_pending_challenge p = Some c" "ps_state p = Validating"
    "length r = PATH_CHALLENGE_LEN"
  shows "fst (verify_response i r reg) \<longleftrightarrow> r = c"
    and "registry_state i (snd (verify_response i r reg)) = Some (if r = c then Validated else Failed)"
  using assms by (auto simp: verify_response_def registry_state_def Let_def)

text \<open>The packet survives the wire; the session id is not carried.\<close>

lemma path_validation_packet_round_trip:
  assumes "length payload = PATH_CHALLENGE_LEN"
  shows "packet_from_wire (packet_to_wire (build_path_validation_packet sid i pn payload)) =
       Ok (build_path_validation_packet zero_session_id i pn payload)"
    and "parse_path_validation (build_path_validation_packet sid i pn payload) =
       Ok (Some \<lparr>ppv_path_id = i, ppv_payload = payload\<rparr>)"
  using assms
  by (simp_all add: packet_from_wire_def packet_to_wire_def header_from_to_wire build_path_validation_packet_def
    parse_path_validation_def packet_new_def with_path_id_def header_new_def HEADER_SIZE_def flags_contains_def)

subsection \<open>Properties\<close>

text \<open>
  C36. A path is Validated only on proof. After any sequence of registry operations from
  the empty registry, a path that reads Validated has, since it was last retired, either
  been registered as the handshake's own path, or had a challenge issued to it that a
  later response echoed byte for byte at the full 32 bytes. A response to another path's
  challenge, to a superseded or already consumed challenge, or to a challenge issued
  before the path was retired, never validates it; a path waits for a challenge exactly
  while it is Validating.
\<close>

theorem validated_only_by_proof:
  assumes "foldl path_apply registry_new ops i = Some p"
  shows "(ps_state p = Validated \<longrightarrow> proven i (life i ops))
    \<and> (ps_pending_challenge p \<noteq> None \<longleftrightarrow> ps_state p = Validating)"
  using path_run_ok[OF assms] by (auto simp: path_ok_def)

definition demo_path_ops :: "path_op list" where
  "demo_path_ops = [PathRegister 1, PathIssue (replicate 32 7) 1, PathVerify 1 (replicate 32 7)]"

theorem validated_only_by_proof_witness:
  "\<exists>p. foldl path_apply registry_new demo_path_ops 1 = Some p \<and> ps_state p = Validated
     \<and> proven 1 (life 1 demo_path_ops)"
proof -
  let ?p = "(path_state_new 1)\<lparr>ps_state := Validated\<rparr>"
  have r: "foldl path_apply registry_new demo_path_ops 1 = Some ?p"
    by (simp add: demo_path_ops_def registry_new_def register_path_def issue_challenge_def verify_response_def
      path_state_new_def)
  show ?thesis using r validated_only_by_proof[OF r] by simp
qed

text \<open>
  Path validation succeeds exactly for the echo of the challenge. In every
  reachable registry, when \<open>begin_path_validation\<close> hands out a challenge for path \<open>i\<close>,
  the PATH_VALIDATION packet built from it survives encoding and decoding and parses
  back to that path and payload; completing the validation with a 32-byte response
  then reports success exactly when the response is the challenge, and leaves the path
  Validated in that case and Failed in the other; and asking again before the response
  returns the same challenge, whatever fresh randomness is offered.
\<close>

theorem path_validation_exact:
  assumes reach: "reg = foldl path_apply registry_new ops"
    and beg: "begin_path_validation fresh i reg = (Some c, reg1)"
    and len: "length c = PATH_CHALLENGE_LEN" "length r = PATH_CHALLENGE_LEN"
  shows "(\<exists>pkt. packet_from_wire (packet_to_wire (build_path_validation_packet sid i pn c)) = Ok pkt
       \<and> parse_path_validation pkt = Ok (Some \<lparr>ppv_path_id = i, ppv_payload = c\<rparr>))
    \<and> (fst (complete_path_validation i r reg1) \<longleftrightarrow> r = c)
    \<and> registry_state i (snd (complete_path_validation i r reg1)) = Some (if r = c then Validated else Failed)
    \<and> begin_path_validation fresh2 i reg1 = (Some c, reg1)"
proof -
  have reach1: "path_apply reg (PathRegister i) = foldl path_apply registry_new (ops @ [PathRegister i])"
    by (simp add: reach)
  have ok: "ps_pending_challenge p \<noteq> None \<longrightarrow> ps_state p = Validating"
    if "path_apply reg (PathRegister i) i = Some p" for p
    using path_run_ok[of "ops @ [PathRegister i]" i p] that unfolding reach1[symmetric] by (simp add: path_ok_def)
  have iss: "issue_challenge fresh i (path_apply reg (PathRegister i)) = (Some c, reg1)"
    using beg by (simp add: begin_path_validation_def)
  obtain p where p: "reg1 i = Some p" "ps_pending_challenge p = Some c" "ps_state p = Validating"
    by (rule issue_challenge_pending[OF iss ok])
  have again: "begin_path_validation fresh2 i reg1 = (Some c, reg1)"
    using p by (simp add: begin_path_validation_def register_path_def issue_challenge_def)
  show ?thesis
    using path_validation_packet_round_trip(1)[OF len(1), of sid i pn]
      path_validation_packet_round_trip(2)[OF len(1), of zero_session_id i pn]
      verify_response_pending[where r = r and reg = reg1 and i = i, OF p len(2)] again
    by (simp add: complete_path_validation_def)
qed

theorem path_validation_exact_witness:
  "let (c, reg1) = begin_path_validation (replicate 32 7) 1 registry_new
   in c = Some (replicate 32 7) \<and> fst (complete_path_validation 1 (replicate 32 7) reg1)
     \<and> \<not> fst (complete_path_validation 1 (replicate 32 8) reg1)
     \<and> begin_path_validation (replicate 32 9) 1 reg1 = (c, reg1)"
proof -
  let ?c = "replicate 32 7 :: bytes"
  obtain reg1 where b: "begin_path_validation ?c 1 registry_new = (Some ?c, reg1)"
    by (simp add: begin_path_validation_def registry_new_def register_path_def issue_challenge_def path_state_new_def)
  have len: "length (replicate 32 x) = PATH_CHALLENGE_LEN" for x :: u8 by (simp)
  have ne: "(replicate 32 8 :: bytes) \<noteq> ?c" by simp
  have t: "(fst (complete_path_validation 1 (replicate 32 x) reg1) \<longleftrightarrow> replicate 32 x = ?c)
      \<and> begin_path_validation (replicate 32 9) 1 reg1 = (Some ?c, reg1)" for x
    using path_validation_exact[where ops = "[]" and r = "replicate 32 x", OF _ b len len] by simp
  show ?thesis using t[of 7] t[of 8] ne b by (simp add: Let_def)
qed

end
