(* ===== verification/Pacer.thy ===== *)
theory Pacer
  imports Phantom_Prelude
begin

text \<open>
  The token-bucket pacer (\<open>core/src/transport/pacer.rs\<close>). The bucket is signed: a
  send that overshoots the credit it was authorised against is carried as debt. The
  clock reading (nanoseconds since the pacer was created) is an argument of every
  operation that takes one. The compare-and-swap loops are single steps: the data pump
  is the only user of a pacer.
\<close>

subsection \<open>State and arithmetic\<close>

abbreviation MIN_PACING_RATE :: u64 where "MIN_PACING_RATE \<equiv> 1024"
abbreviation BURST_INTERVAL :: nanos where "BURST_INTERVAL \<equiv> 4000000"
abbreviation MIN_BURST_BYTES :: int where "MIN_BURST_BYTES \<equiv> 16 * 1024"
abbreviation MAX_BURST_BYTES :: int where "MAX_BURST_BYTES \<equiv> 512 * 1024"

record pacer =
  pc_tokens :: int
  pc_rate_bps :: u64
  pc_last_refill_ns :: nat
  pc_enabled :: bool

text \<open>\<open>i64\<close> saturation, \<open>i64::try_from(x).unwrap_or(i64::MAX)\<close> and the clock as a \<open>u64\<close>.\<close>

definition i64_max :: int where "i64_max = 2 ^ 63 - 1"
definition sat_i64 :: "int \<Rightarrow> int" where "sat_i64 x = max (- (2 ^ 63)) (min i64_max x)"
definition try_i64 :: "nat \<Rightarrow> int" where "try_i64 n = (if int n \<le> i64_max then int n else i64_max)"
definition clock_u64 :: "nanos \<Rightarrow> nat" where "clock_u64 now = min now (2 ^ 64 - 1)"

lemmas i64_defs = i64_max_def sat_i64_def try_i64_def

subsection \<open>Operations\<close>

definition burst_for :: "u64 \<Rightarrow> int" where
  "burst_for rate =
     max MIN_BURST_BYTES (min MAX_BURST_BYTES (try_i64 (sat128 (unat rate * BURST_INTERVAL) div 1000000000)))"

definition pacer_new :: "u64 \<Rightarrow> pacer" where
  "pacer_new initial_rate_bps =
     (let rate = max initial_rate_bps MIN_PACING_RATE
      in \<lparr>pc_tokens = burst_for rate, pc_rate_bps = rate, pc_last_refill_ns = 0, pc_enabled = True\<rparr>)"

definition unlimited :: pacer where
  "unlimited = (pacer_new (- 1))\<lparr>pc_enabled := False\<rparr>"

definition burst_bytes :: "pacer \<Rightarrow> u64" where
  "burst_bytes p = word_of_int (burst_for (pc_rate_bps p))"

definition refill_tokens :: "nanos \<Rightarrow> pacer \<Rightarrow> pacer" where
  "refill_tokens now p =
     (let now_ns = clock_u64 now;
          elapsed_ns = now_ns - pc_last_refill_ns p
      in if elapsed_ns = 0 then p
         else
           let rate = pc_rate_bps p;
               credit = sat128 (unat rate * elapsed_ns) div 1000000000
           in if credit = 0 then p
              else p\<lparr>pc_tokens := min (sat_i64 (pc_tokens p + try_i64 credit)) (burst_for rate),
                     pc_last_refill_ns := now_ns\<rparr>)"

definition can_send :: "nanos \<Rightarrow> pacer \<Rightarrow> bool \<times> pacer" where
  "can_send now p =
     (if \<not> pc_enabled p then (True, p)
      else let p1 = refill_tokens now p in (pc_tokens p1 > 0, p1))"

definition pacer_consume :: "u64 \<Rightarrow> pacer \<Rightarrow> pacer" where
  "pacer_consume n p =
     (if \<not> pc_enabled p then p
      else p\<lparr>pc_tokens := sat_i64 (pc_tokens p - try_i64 (unat n))\<rparr>)"

definition wait_for :: "nat \<Rightarrow> pacer \<Rightarrow> nanos" where
  "wait_for deficit p =
     min (sat128 (deficit * 1000000000) div unat (max (pc_rate_bps p) 1)) (2 ^ 64 - 1)"

definition time_until_credit :: "nanos \<Rightarrow> pacer \<Rightarrow> nanos \<times> pacer" where
  "time_until_credit now p =
     (if \<not> pc_enabled p then (0, p)
      else
        let p1 = refill_tokens now p
        in if pc_tokens p1 > 0 then (0, p1)
           else (wait_for (nat (sat_i64 (1 - pc_tokens p1))) p1, p1))"

definition try_consume :: "nanos \<Rightarrow> u64 \<Rightarrow> pacer \<Rightarrow> bool \<times> pacer" where
  "try_consume now n p =
     (if \<not> pc_enabled p then (True, p)
      else
        let p1 = refill_tokens now p; want = try_i64 (unat n)
        in if pc_tokens p1 < want then (False, p1)
           else (True, p1\<lparr>pc_tokens := pc_tokens p1 - want\<rparr>))"

definition time_until_available :: "nanos \<Rightarrow> u64 \<Rightarrow> pacer \<Rightarrow> nanos \<times> pacer" where
  "time_until_available now n p =
     (if \<not> pc_enabled p then (0, p)
      else
        let p1 = refill_tokens now p; want = try_i64 (unat n)
        in if pc_tokens p1 \<ge> want then (0, p1)
           else (wait_for (nat (sat_i64 (want - pc_tokens p1))) p1, p1))"

definition set_rate :: "u64 \<Rightarrow> pacer \<Rightarrow> pacer" where
  "set_rate rate_bps p =
     (let rate = max rate_bps MIN_PACING_RATE; cap = burst_for rate
      in p\<lparr>pc_rate_bps := rate, pc_tokens := (if pc_tokens p > cap then cap else pc_tokens p)\<rparr>)"

definition set_enabled :: "nanos \<Rightarrow> bool \<Rightarrow> pacer \<Rightarrow> pacer" where
  "set_enabled now enabled p =
     (if enabled
      then p\<lparr>pc_last_refill_ns := clock_u64 now,
             pc_tokens := max 0 (min (burst_for (pc_rate_bps p)) (pc_tokens p)),
             pc_enabled := True\<rparr>
      else p\<lparr>pc_enabled := False\<rparr>)"

definition available_tokens :: "nanos \<Rightarrow> pacer \<Rightarrow> u64 \<times> pacer" where
  "available_tokens now p =
     (let p1 = refill_tokens now p in (word_of_int (max 0 (pc_tokens p1)), p1))"

text \<open>How the drain loop uses it: ask first, then settle the size of what was sent
  (\<open>core/src/api/session.rs\<close>).\<close>

definition paced_send :: "nanos \<Rightarrow> u64 \<Rightarrow> pacer \<Rightarrow> bool \<times> pacer" where
  "paced_send now n p =
     (let (ok, p1) = can_send now p in if ok then (True, pacer_consume n p1) else (False, p1))"

subsection \<open>Lemmas\<close>

definition pacer_ok :: "pacer \<Rightarrow> bool" where
  "pacer_ok p \<longleftrightarrow> MIN_PACING_RATE \<le> pc_rate_bps p \<and> pc_tokens p \<le> burst_for (pc_rate_bps p)
     \<and> - (2 ^ 63) \<le> pc_tokens p"

lemma burst_for_bounds: "MIN_BURST_BYTES \<le> burst_for r" "burst_for r \<le> MAX_BURST_BYTES"
  by (auto simp: burst_for_def)

lemma burst_for_range: "16384 \<le> burst_for r" "burst_for r \<le> 524288"
  using burst_for_bounds[of r] by (simp_all)

text \<open>The 128-bit product never saturates.\<close>

lemma rate_product: "sat128 (unat (r :: u64) * (clock_u64 now - m)) = unat r * (clock_u64 now - m)"
proof -
  have "unat r \<le> 2 ^ 64 - 1" "clock_u64 now - m \<le> 2 ^ 64 - 1"
    using unat_bound[of r] by (simp_all add: clock_u64_def)
  then have "unat r * (clock_u64 now - m) \<le> (2 ^ 64 - 1) * (2 ^ 64 - 1)" by (rule mult_le_mono)
  also have "\<dots> \<le> (2 ^ 128 - 1 :: nat)" by simp
  finally show ?thesis by (simp add: sat128_def)
qed

lemma burst_for_spec:
  "burst_for r = max (16 * 1024) (min (512 * 1024) (int (unat r * 4000000 div 1000000000)))"
proof -
  have "unat r < 2 ^ 64" using unat_bound[of r] by simp
  then have "unat r * 4000000 < 2 ^ 64 * 4000000" by simp
  also have "\<dots> \<le> (2 ^ 128 - 1 :: nat)" by simp
  finally have "sat128 (unat r * BURST_INTERVAL) = unat r * 4000000"
    by (simp add: sat128_def)
  moreover have "min (512 * 1024) (try_i64 k) = min (512 * 1024) (int k)" for k
    by (simp add: try_i64_def i64_max_def min_def)
  ultimately show ?thesis by (simp add: burst_for_def)
qed

lemma refill_fields [simp]:
  "pc_rate_bps (refill_tokens now p) = pc_rate_bps p" "pc_enabled (refill_tokens now p) = pc_enabled p"
  by (simp_all add: refill_tokens_def Let_def)

lemma try_i64_nonneg: "0 \<le> try_i64 n" "try_i64 n \<le> int n"
  by (simp_all add: i64_defs)

lemma refill_cases:
  obtains (same) "refill_tokens now p = p" "unat (pc_rate_bps p) * (clock_u64 now - pc_last_refill_ns p) < 1000000000"
  | (credit) c where "c = unat (pc_rate_bps p) * (clock_u64 now - pc_last_refill_ns p) div 1000000000" "0 < c"
      "pc_last_refill_ns p < clock_u64 now"
      "pc_tokens (refill_tokens now p) = min (sat_i64 (pc_tokens p + try_i64 c)) (burst_for (pc_rate_bps p))"
      "pc_last_refill_ns (refill_tokens now p) = clock_u64 now"
proof (cases "unat (pc_rate_bps p) * (clock_u64 now - pc_last_refill_ns p) < 1000000000")
  case True
  then have "refill_tokens now p = p" by (simp add: refill_tokens_def Let_def rate_product)
  then show ?thesis using True same by blast
next
  case False
  let ?c = "unat (pc_rate_bps p) * (clock_u64 now - pc_last_refill_ns p) div 1000000000"
  have c: "0 < ?c" using False by (simp add: div_greater_zero_iff)
  then have e: "clock_u64 now - pc_last_refill_ns p \<noteq> 0" by (rule contrapos_pn) simp
  have c0: "?c \<noteq> 0" using c by (rule gr_implies_not0)
  have "refill_tokens now p = p\<lparr>pc_tokens := min (sat_i64 (pc_tokens p + try_i64 ?c)) (burst_for (pc_rate_bps p)),
      pc_last_refill_ns := clock_u64 now\<rparr>"
    unfolding refill_tokens_def Let_def rate_product if_not_P[OF e] if_not_P[OF c0] by (rule refl)
  then show ?thesis using credit[of ?c] c e by simp
qed

lemma sat_i64_id: "- (2 ^ 63) \<le> x \<Longrightarrow> x \<le> i64_max \<Longrightarrow> sat_i64 x = x"
  by (simp add: sat_i64_def)

lemma sat_i64_sub: "0 < t \<Longrightarrow> t \<le> 524288 \<Longrightarrow> int k < 2 ^ 62 \<Longrightarrow> sat_i64 (t - int k) = t - int k"
  by (rule sat_i64_id) (simp_all add: i64_max_def)

lemma pacer_ok_refill:
  assumes "pacer_ok p" shows "pacer_ok (refill_tokens now p)"
proof (cases rule: refill_cases[of now p])
  case same
  then show ?thesis using assms by simp
next
  case (credit c)
  have "- (2 ^ 63) \<le> sat_i64 (pc_tokens p + try_i64 c)" by (simp add: sat_i64_def)
  then show ?thesis using assms credit(4) burst_for_range(1)[of "pc_rate_bps p"] by (simp add: pacer_ok_def)
qed

lemma refill_conserve:
  assumes "pacer_ok p"
  shows "1000000000 * pc_tokens (refill_tokens now p) \<le> 1000000000 * pc_tokens p
      + int (unat (pc_rate_bps p)) * (int (pc_last_refill_ns (refill_tokens now p)) - int (pc_last_refill_ns p))"
    and "pc_last_refill_ns p \<le> pc_last_refill_ns (refill_tokens now p)"
    and "pc_last_refill_ns (refill_tokens now p) \<le> max (pc_last_refill_ns p) now"
    and "pc_tokens p \<le> pc_tokens (refill_tokens now p)"
proof -
  let ?g = "1000000000 * pc_tokens (refill_tokens now p) \<le> 1000000000 * pc_tokens p
      + int (unat (pc_rate_bps p)) * (int (pc_last_refill_ns (refill_tokens now p)) - int (pc_last_refill_ns p))
    \<and> pc_last_refill_ns p \<le> pc_last_refill_ns (refill_tokens now p)
    \<and> pc_last_refill_ns (refill_tokens now p) \<le> max (pc_last_refill_ns p) now
    \<and> pc_tokens p \<le> pc_tokens (refill_tokens now p)"
  have ?g
  proof (cases rule: refill_cases[of now p])
    case same
    then show ?thesis by simp
  next
    case (credit c)
    let ?t = "pc_tokens p" let ?r = "unat (pc_rate_bps p)" let ?e = "clock_u64 now - pc_last_refill_ns p"
    have lo: "- (2 ^ 63) \<le> ?t" "?t \<le> burst_for (pc_rate_bps p)" using assms by (simp_all add: pacer_ok_def)
    have "sat_i64 (?t + try_i64 c) \<le> ?t + int c" "?t \<le> sat_i64 (?t + try_i64 c)"
      using lo try_i64_nonneg[of c] burst_for_range(2)[of "pc_rate_bps p"] by (auto simp: sat_i64_def i64_max_def)
    then have up: "pc_tokens (refill_tokens now p) \<le> ?t + int c" "?t \<le> pc_tokens (refill_tokens now p)"
      using credit(4) lo(2) by simp_all
    have "1000000000 * c \<le> ?r * ?e" unfolding credit(1) by (rule times_div_less_eq_dividend)
    then have "1000000000 * int c \<le> int (?r * ?e)" by linarith
    then have "1000000000 * int c \<le> int ?r * (int (clock_u64 now) - int (pc_last_refill_ns p))"
      using credit(3) by (simp add: of_nat_diff)
    then show ?thesis using up credit(3,5) by (simp add: clock_u64_def)
  qed
  then show "1000000000 * pc_tokens (refill_tokens now p) \<le> 1000000000 * pc_tokens p
      + int (unat (pc_rate_bps p)) * (int (pc_last_refill_ns (refill_tokens now p)) - int (pc_last_refill_ns p))"
    and "pc_last_refill_ns p \<le> pc_last_refill_ns (refill_tokens now p)"
    and "pc_last_refill_ns (refill_tokens now p) \<le> max (pc_last_refill_ns p) now"
    and "pc_tokens p \<le> pc_tokens (refill_tokens now p)" by simp_all
qed

text \<open>Every operation keeps the bucket within its allowance.\<close>

lemma pacer_ok_new: "pacer_ok (pacer_new r)" "pacer_ok unlimited"
  using burst_for_range by (simp_all add: pacer_ok_def pacer_new_def unlimited_def Let_def order.trans[OF _ burst_for_range(1)])

lemma pacer_ok_set_rate: "pacer_ok p \<Longrightarrow> pacer_ok (set_rate r p)"
  using burst_for_range(1)[of "max r MIN_PACING_RATE"] by (auto simp: pacer_ok_def set_rate_def Let_def)

lemma pacer_ok_set_enabled: "pacer_ok p \<Longrightarrow> pacer_ok (set_enabled now b p)"
  using burst_for_range(1)[of "pc_rate_bps p"] by (auto simp: pacer_ok_def set_enabled_def)

lemma pacer_ok_consume: "pacer_ok p \<Longrightarrow> pacer_ok (pacer_consume n p)"
  using burst_for_range(1)[of "pc_rate_bps p"] try_i64_nonneg[of "unat n"]
  by (auto simp: pacer_ok_def pacer_consume_def sat_i64_def)

lemma pacer_ok_try_consume: "pacer_ok p \<Longrightarrow> pacer_ok (snd (try_consume now n p))"
  using pacer_ok_refill[of p now] try_i64_nonneg[of "unat n"]
  by (auto simp: pacer_ok_def try_consume_def Let_def)

subsection \<open>Runs\<close>

text \<open>The bytes sent by a sequence of paced sends, and the pacer after them.\<close>

fun paced_run :: "(nanos \<times> u64) list \<Rightarrow> pacer \<Rightarrow> nat \<times> pacer" where
  "paced_run [] p = (0, p)"
| "paced_run ((now, n) # sends) p =
     (let (ok, p1) = paced_send now n p; (total, p2) = paced_run sends p1
      in ((if ok then unat n else 0) + total, p2))"

definition charged :: "pacer \<Rightarrow> nat \<Rightarrow> pacer \<Rightarrow> bool" where
  "charged p sent p' \<longleftrightarrow> 1000000000 * (pc_tokens p' + int sent) \<le> 1000000000 * pc_tokens p
     + int (unat (pc_rate_bps p)) * (int (pc_last_refill_ns p') - int (pc_last_refill_ns p))
   \<and> pc_last_refill_ns p \<le> pc_last_refill_ns p' \<and> pc_rate_bps p' = pc_rate_bps p \<and> pc_enabled p' = pc_enabled p"

lemma charged_trans:
  assumes "charged p a q" "charged q b r" shows "charged p (a + b) r"
  using assms unfolding charged_def by (simp add: algebra_simps)

lemma paced_send_charged:
  assumes ok: "pacer_ok p" "pc_enabled p" and lo: "- int M < pc_tokens p" and M: "unat n \<le> M" "M < 2 ^ 62"
  shows "charged p (if fst (paced_send now n p) then unat n else 0) (snd (paced_send now n p))"
    and "pacer_ok (snd (paced_send now n p))" and "- int M < pc_tokens (snd (paced_send now n p))"
    and "pc_last_refill_ns (snd (paced_send now n p)) \<le> max (pc_last_refill_ns p) now"
proof -
  let ?q = "refill_tokens now p"
  note q = refill_conserve[OF ok(1), of now]
  have qok: "pacer_ok ?q" by (rule pacer_ok_refill[OF ok(1)])
  have n62: "int (unat n) < int (2 ^ 62)" using M by (simp only: of_nat_less_iff)
  then have "int (unat n) \<le> i64_max" by (simp add: i64_max_def)
  then have n: "try_i64 (unat n) = int (unat n)" unfolding try_i64_def by (rule if_P)
  have sent: "paced_send now n p = (if pc_tokens ?q > 0 then (True, pacer_consume n ?q) else (False, ?q))"
    using ok(2) by (simp add: paced_send_def can_send_def Let_def)
  have t: "pc_tokens (pacer_consume n ?q) = pc_tokens ?q - int (unat n)" if "pc_tokens ?q > 0"
  proof -
    have "pc_tokens ?q \<le> 524288" using qok burst_for_range(2)[of "pc_rate_bps p"] by (simp add: pacer_ok_def)
    then have "sat_i64 (pc_tokens ?q - int (unat n)) = pc_tokens ?q - int (unat n)"
      using that n62 by (intro sat_i64_sub) simp_all
    then show ?thesis using ok(2) n by (simp add: pacer_consume_def)
  qed
  have f: "pc_rate_bps (pacer_consume n ?q) = pc_rate_bps p" "pc_enabled (pacer_consume n ?q) = pc_enabled p"
    "pc_last_refill_ns (pacer_consume n ?q) = pc_last_refill_ns ?q"
    by (simp_all add: pacer_consume_def)
  show "charged p (if fst (paced_send now n p) then unat n else 0) (snd (paced_send now n p))"
    using q t f unfolding sent charged_def by simp
  show "pacer_ok (snd (paced_send now n p))" unfolding sent using qok pacer_ok_consume by simp
  have "int (unat n) \<le> int M" using M(1) by (rule of_nat_mono)
  then show "- int M < pc_tokens (snd (paced_send now n p))"
    using t lo q(4) unfolding sent by (cases "pc_tokens ?q > 0") simp_all
  show "pc_last_refill_ns (snd (paced_send now n p)) \<le> max (pc_last_refill_ns p) now"
    using q(3) f unfolding sent by simp
qed

lemma paced_run_charged:
  assumes "pacer_ok p" "pc_enabled p" "- int M < pc_tokens p" "M < 2 ^ 62"
    and "list_all (\<lambda>(now, n). now \<le> T \<and> unat n \<le> M) sends" "pc_last_refill_ns p \<le> T"
    and "paced_run sends p = (sent, p')"
  shows "charged p sent p' \<and> - int M < pc_tokens p' \<and> pc_last_refill_ns p' \<le> T"
  using assms
proof (induction sends arbitrary: p sent)
  case (Cons x sends)
  obtain now n where x: "x = (now, n)" by (rule prod.exhaust)
  let ?r = "paced_send now n p"
  obtain total where r: "paced_run sends (snd ?r) = (total, p')" and res: "sent = (if fst ?r then unat n else 0) + total"
    using Cons.prems(7) by (simp add: x split_beta Let_def) (metis prod.collapse)
  have n: "unat n \<le> M" "now \<le> T" using Cons.prems(5) by (simp_all add: x)
  note s = paced_send_charged[OF Cons.prems(1-3) n(1) Cons.prems(4), of now]
  have "charged (snd ?r) total p' \<and> - int M < pc_tokens p' \<and> pc_last_refill_ns p' \<le> T"
  proof (rule Cons.IH[OF s(2) _ s(3) Cons.prems(4) _ _ r])
    show "pc_enabled (snd ?r)" using s(1) Cons.prems(2) by (simp add: charged_def)
    show "list_all (\<lambda>(now, n). now \<le> T \<and> unat n \<le> M) sends" using Cons.prems(5) by simp
    show "pc_last_refill_ns (snd ?r) \<le> T" using s(4) n(2) Cons.prems(6) by simp
  qed
  then show ?case using charged_trans[OF s(1)] res by simp
qed (simp add: charged_def)

lemma refill_after_wait:
  assumes ok: "pacer_ok p" and lo: "- (2 ^ 62) < pc_tokens p" and mark: "pc_last_refill_ns p \<le> now"
    and t: "now + wait_for (nat (sat_i64 (1 - pc_tokens p))) p + 1 \<le> t" "t < 2 ^ 64" and neg: "pc_tokens p \<le> 0"
  shows "0 < pc_tokens (refill_tokens t p)"
proof -
  let ?r = "unat (pc_rate_bps p)" and ?d = "nat (1 - pc_tokens p)"
  have r: "0 < ?r" using ok unfolding pacer_ok_def word_le_nat_alt by simp
  have "1 \<le> pc_rate_bps p" using r by (simp add: word_le_nat_alt)
  then have mx: "max (pc_rate_bps p) 1 = pc_rate_bps p" by (rule max_absorb1)
  have d: "sat_i64 (1 - pc_tokens p) = 1 - pc_tokens p" using lo neg by (simp add: sat_i64_id i64_max_def)
  have d2: "int ?d = 1 - pc_tokens p" "int ?d \<le> 2 ^ 62" "0 < ?d" using lo neg by simp_all
  have "?d \<le> 2 ^ 62" using lo by simp
  then have "?d * 1000000000 \<le> 2 ^ 62 * 1000000000" by simp
  then have s: "sat128 (?d * 1000000000) = ?d * 1000000000" by (simp add: sat128_def)
  have w: "wait_for (nat (sat_i64 (1 - pc_tokens p))) p = ?d * 1000000000 div ?r"
    using t unfolding wait_for_def d s mx by simp
  have "clock_u64 t = t" using t(2) by (simp add: clock_u64_def)
  then have e: "?d * 1000000000 div ?r + 1 \<le> clock_u64 t - pc_last_refill_ns p" using t(1) mark w by simp
  have "?d * 1000000000 \<le> ?r * (?d * 1000000000 div ?r + 1)"
    using dividend_less_times_div[OF r, of "?d * 1000000000"] by simp
  also have "\<dots> \<le> ?r * (clock_u64 t - pc_last_refill_ns p)" using e by (rule mult_le_mono2)
  finally have enough: "?d * 1000000000 \<le> ?r * (clock_u64 t - pc_last_refill_ns p)" .
  show ?thesis
  proof (cases rule: refill_cases[of t p])
    case same
    then show ?thesis using enough d2(3) by linarith
  next
    case (credit c)
    have "?d \<le> c" using div_le_mono[OF enough, of 1000000000] credit(1) by simp
    then have "1 - pc_tokens p \<le> int c" using d2(1) by linarith
    then have "1 - pc_tokens p \<le> try_i64 c" using lo by (simp add: try_i64_def i64_max_def)
    then show ?thesis using credit(4) burst_for_range(1)[of "pc_rate_bps p"] by (simp add: sat_i64_def i64_max_def)
  qed
qed

subsection \<open>Properties\<close>

text \<open>
  C39. The pacer enforces its rate. Start from any well-formed enabled pacer and let the
  sender ask before each of any number of sends, none larger than \<open>M\<close> bytes, at clock
  readings up to \<open>T\<close>. The bytes that go out are at most one burst allowance, one
  segment of overshoot, and what the rate credits between the last refill and \<open>T\<close>:
  the overshoot is carried as debt and never forgiven.
\<close>

theorem pacer_conformance:
  assumes "pacer_ok p" "pc_enabled p" "- int M < pc_tokens p" "M < 2 ^ 62"
    and "list_all (\<lambda>(now, n). now \<le> T \<and> unat n \<le> M) sends" "pc_last_refill_ns p \<le> T"
    and "paced_run sends p = (sent, p')"
  shows "1000000000 * int sent \<le> 1000000000 * (burst_for (pc_rate_bps p) + int M)
      + int (unat (pc_rate_bps p)) * int (T - pc_last_refill_ns p)"
proof -
  note c = paced_run_charged[OF assms]
  let ?r = "int (unat (pc_rate_bps p))"
  have "int (pc_last_refill_ns p') - int (pc_last_refill_ns p) \<le> int (T - pc_last_refill_ns p)"
    using c assms(6) by (simp add: of_nat_diff)
  then have "?r * (int (pc_last_refill_ns p') - int (pc_last_refill_ns p)) \<le> ?r * int (T - pc_last_refill_ns p)"
    by (intro mult_left_mono) simp_all
  moreover have "pc_tokens p \<le> burst_for (pc_rate_bps p)" using assms(1) by (simp add: pacer_ok_def)
  moreover have "1000000000 * (pc_tokens p' + int sent) \<le> 1000000000 * pc_tokens p
      + ?r * (int (pc_last_refill_ns p') - int (pc_last_refill_ns p))" "- int M < pc_tokens p'"
    using c by (simp_all add: charged_def)
  ultimately show ?thesis by (simp add: distrib_left)
qed

definition demo_sends :: "(nanos \<times> u64) list" where
  "demo_sends = [(0, 16000), (0, 1200), (0, 1200), (1000000000, 1200)]"

theorem pacer_conformance_witness:
  "1000000000 * int (fst (paced_run demo_sends (pacer_new 2000)))
     \<le> 1000000000 * (burst_for 2000 + 16000) + 2000 * 1000000000
   \<and> fst (paced_run demo_sends (pacer_new 2000)) = 18400"
proof -
  have r: "max 2000 MIN_PACING_RATE = (2000 :: u64)" by (simp)
  have b: "burst_for 2000 = 16384" by (simp add: burst_for_spec)
  have run: "fst (paced_run demo_sends (pacer_new 2000)) = 18400"
    by (simp add: demo_sends_def pacer_new_def r paced_send_def can_send_def
      refill_tokens_def clock_u64_def pacer_consume_def Let_def b try_i64_def sat_i64_def i64_max_def sat128_def)
  have "pc_enabled (pacer_new 2000)" "pc_tokens (pacer_new 2000) = 16384" "pc_last_refill_ns (pacer_new 2000) = 0"
    "pc_rate_bps (pacer_new 2000) = 2000"
    by (simp_all add: pacer_new_def r b)
  then show ?thesis
    using pacer_conformance[OF pacer_ok_new(1)[of 2000] _ _ _ _ _ prod.collapse[symmetric],
      of 16000 1000000000 demo_sends] run
    by (simp add: demo_sends_def[THEN arg_cong[where f = "list_all P" for P]])
qed

text \<open>
  A paused sender gets credit. Whatever debt the bucket carries, a sender that is
  told to wait by \<open>time_until_credit\<close> and asks again one nanosecond after that delay, or
  at any later time, is allowed to send. (The delay itself is rounded down; the extra
  nanosecond is needed, see \<open>wait_one_short\<close>.)
\<close>

theorem credit_returns:
  assumes ok: "pacer_ok p" "pc_enabled p" "- (2 ^ 62) < pc_tokens p" "pc_last_refill_ns p \<le> now"
    and ask: "time_until_credit now p = (d, p1)" and t: "now + d + 1 \<le> t" "t < 2 ^ 64"
  shows "fst (can_send t p1)"
proof -
  have p1: "p1 = refill_tokens now p" and
    d: "pc_tokens p1 \<le> 0 \<Longrightarrow> d = wait_for (nat (sat_i64 (1 - pc_tokens p1))) p1"
    using ask ok(2) by (auto simp: time_until_credit_def Let_def split: if_splits)
  note q = refill_conserve[OF ok(1), of now, folded p1]
  have ok1: "pacer_ok p1" "pc_enabled p1" unfolding p1 using ok pacer_ok_refill by simp_all
  have lo: "- (2 ^ 62) < pc_tokens p1" "pc_last_refill_ns p1 \<le> now" using q(3,4) ok(3,4) by simp_all
  have "0 < pc_tokens (refill_tokens t p1)"
  proof (cases "pc_tokens p1 \<le> 0")
    case True
    show ?thesis by (rule refill_after_wait[OF ok1(1) lo _ t(2) True]) (use d[OF True] t(1) in simp)
  next
    case False
    then show ?thesis using refill_conserve(4)[OF ok1(1), of t] by simp
  qed
  then show ?thesis using ok1(2) by (simp add: can_send_def Let_def)
qed

definition demo_indebted :: pacer where
  "demo_indebted = \<lparr>pc_tokens = - 899, pc_rate_bps = 1500, pc_last_refill_ns = 0, pc_enabled = True\<rparr>"

lemma demo_indebted_ask: "time_until_credit 0 demo_indebted = (600000000, demo_indebted)"
  by (simp add: demo_indebted_def time_until_credit_def refill_tokens_def clock_u64_def Let_def wait_for_def
    sat_i64_def i64_max_def sat128_def)

theorem credit_returns_witness: "fst (can_send 600000001 demo_indebted)"
proof (rule credit_returns[OF _ _ _ _ demo_indebted_ask])
  show "pacer_ok demo_indebted" using burst_for_range(1)[of 1500]
    by (simp add: demo_indebted_def pacer_ok_def)
qed (simp_all add: demo_indebted_def)

text \<open>Asking again after exactly the advised delay can find the bucket still empty.\<close>

lemma wait_one_short:
  "let p = \<lparr>pc_tokens = 0, pc_rate_bps = 1500, pc_last_refill_ns = 0, pc_enabled = True\<rparr>;
       (d, p1) = time_until_credit 0 p
   in d = 666666 \<and> \<not> fst (can_send d p1) \<and> time_until_credit d p1 = (666666, p1)"
  by (simp add: time_until_credit_def can_send_def refill_tokens_def clock_u64_def wait_for_def Let_def
    sat_i64_def i64_max_def sat128_def)

end
