(* ===== verification/Liveness.thy ===== *)
theory Liveness
  imports Phantom_Prelude
begin

text \<open>
  Path-down detection, keep-alives and the connection state an application reads
  (\<open>core/src/transport/liveness.rs\<close> and the state-publishing functions of
  \<open>core/src/api/session.rs\<close>). The clock, the round-trip estimate and the bytes in
  flight are arguments of a sweep.
\<close>

subsection \<open>Durations\<close>

definition DURATION_MAX :: nanos where "DURATION_MAX = 2 ^ 64 * 1000000000 - 1"

definition duration_mul :: "nanos \<Rightarrow> nat \<Rightarrow> nanos" where
  "duration_mul d k = min (d * k) DURATION_MAX"

subsection \<open>Configuration\<close>

record liveness_config =
  lc_min_pto :: nanos
  lc_path_down_ptos :: u32
  lc_idle_timeout :: nanos
  lc_keepalive_interval :: "nanos option"

definition liveness_default :: liveness_config where
  "liveness_default = \<lparr>lc_min_pto = 200000000, lc_path_down_ptos = 5, lc_idle_timeout = 30000000000,
     lc_keepalive_interval = Some 15000000000\<rparr>"

definition liveness_for_test :: liveness_config where
  "liveness_for_test = \<lparr>lc_min_pto = 10000000, lc_path_down_ptos = 3, lc_idle_timeout = 300000000,
     lc_keepalive_interval = Some 40000000\<rparr>"

definition pto :: "liveness_config \<Rightarrow> nanos \<Rightarrow> nanos" where
  "pto cfg min_rtt =
     (let scaled = duration_mul min_rtt 3 in if scaled > lc_min_pto cfg then scaled else lc_min_pto cfg)"

definition path_down_after :: "liveness_config \<Rightarrow> nanos \<Rightarrow> nanos" where
  "path_down_after cfg min_rtt = duration_mul (pto cfg min_rtt) (unat (lc_path_down_ptos cfg))"

subsection \<open>Verdicts\<close>

datatype liveness_verdict_kind = Unchanged | PathDown | Recovered | VerdictDead

definition liveness_verdict ::
  "nanos \<Rightarrow> u64 \<Rightarrow> nanos \<Rightarrow> bool \<Rightarrow> nanos \<Rightarrow> liveness_config \<Rightarrow> liveness_verdict_kind" where
  "liveness_verdict silence inflight min_rtt in_migrating migrating_for cfg =
     (if in_migrating then
        if silence \<le> pto cfg min_rtt then Recovered
        else if migrating_for > lc_idle_timeout cfg then VerdictDead
        else Unchanged
      else if inflight > 0 \<and> silence > path_down_after cfg min_rtt then PathDown
      else Unchanged)"

definition should_send_keepalive :: "bool \<Rightarrow> u64 \<Rightarrow> nanos \<Rightarrow> nanos \<Rightarrow> liveness_config \<Rightarrow> bool" where
  "should_send_keepalive connected inflight inbound_silence since_last_keepalive cfg =
     (case lc_keepalive_interval cfg of
        None \<Rightarrow> False
      | Some iv \<Rightarrow> connected \<and> inflight = 0 \<and> inbound_silence \<ge> iv \<and> since_last_keepalive \<ge> iv)"

subsection \<open>The states a session publishes\<close>

datatype session_state = SHandshaking | SConnected | SMigrating | SClosing | SClosed

datatype connection_state = Connecting | Connected | CFailed | Closed | Migrating | Dead | Draining

fun connection_state_byte :: "connection_state \<Rightarrow> u8" where
  "connection_state_byte Connecting = 0"
| "connection_state_byte Connected = 4"
| "connection_state_byte CFailed = 5"
| "connection_state_byte Closed = 6"
| "connection_state_byte Migrating = 7"
| "connection_state_byte Dead = 8"
| "connection_state_byte Draining = 9"

definition connection_state_from_u8 :: "u8 \<Rightarrow> connection_state" where
  "connection_state_from_u8 v =
     (if v = 0 then Connecting else if v = 4 then Connected else if v = 5 then CFailed
      else if v = 6 then Closed else if v = 7 then Migrating else if v = 8 then Dead
      else if v = 9 then Draining else CFailed)"

text \<open>The published state (a byte), and the slot that records why a session ended.\<close>

record 'e published =
  pub_state :: u8
  pub_terminal_error :: "'e option"

definition record_terminal_cause :: "'e \<Rightarrow> 'e published \<Rightarrow> 'e published" where
  "record_terminal_cause cause p =
     (if pub_terminal_error p = None then p\<lparr>pub_terminal_error := Some cause\<rparr> else p)"

definition publish_end :: "connection_state \<Rightarrow> 'e published \<Rightarrow> 'e published" where
  "publish_end nxt p =
     (case connection_state_from_u8 (pub_state p) of
        Closed \<Rightarrow> p | CFailed \<Rightarrow> p | Dead \<Rightarrow> p
      | _ \<Rightarrow> p\<lparr>pub_state := connection_state_byte nxt\<rparr>)"

definition publish_unless_ended :: "connection_state \<Rightarrow> 'e published \<Rightarrow> 'e published" where
  "publish_unless_ended nxt p =
     (case connection_state_from_u8 (pub_state p) of
        Closed \<Rightarrow> p | CFailed \<Rightarrow> p | Dead \<Rightarrow> p | Draining \<Rightarrow> p
      | _ \<Rightarrow> p\<lparr>pub_state := connection_state_byte nxt\<rparr>)"

definition publish_failure :: "'e \<Rightarrow> 'e published \<Rightarrow> 'e published" where
  "publish_failure cause p =
     (let recorded_here = (pub_terminal_error p = None);
          p1 = (if recorded_here then p\<lparr>pub_terminal_error := Some cause\<rparr> else p)
      in case connection_state_from_u8 (pub_state p1) of
           Closed \<Rightarrow> (if recorded_here then p1\<lparr>pub_terminal_error := None\<rparr> else p1)
         | CFailed \<Rightarrow> (if recorded_here then p1\<lparr>pub_terminal_error := None\<rparr> else p1)
         | Dead \<Rightarrow> (if recorded_here then p1\<lparr>pub_terminal_error := None\<rparr> else p1)
         | _ \<Rightarrow> p1\<lparr>pub_state := connection_state_byte CFailed\<rparr>)"

text \<open>The two deaths that replace any state: the liveness sweep and a transport that gave up.\<close>

definition publish_death :: "'e \<Rightarrow> 'e published \<Rightarrow> 'e published" where
  "publish_death timeout p = (record_terminal_cause timeout p)\<lparr>pub_state := connection_state_byte Dead\<rparr>"

subsection \<open>The sweep\<close>

record sweep_input =
  sw_now :: nanos
  sw_last_activity :: nanos
  sw_keepalive_outstanding :: bool
  sw_inflight_bytes :: u64
  sw_min_rtt :: nanos

record 'e sweep_state =
  ss_published :: "'e published"
  ss_session_state :: session_state
  ss_migrating_since :: "nanos option"

definition effective_inflight :: "sweep_input \<Rightarrow> u64" where
  "effective_inflight inp =
     (if sw_keepalive_outstanding inp then max (sw_inflight_bytes inp) 1 else sw_inflight_bytes inp)"

definition apply_liveness ::
  "'e \<Rightarrow> liveness_config \<Rightarrow> sweep_input \<Rightarrow> 'e sweep_state \<Rightarrow> bool \<times> 'e sweep_state" where
  "apply_liveness timeout cfg inp s =
     (let silence = sw_now inp - sw_last_activity inp;
          in_migrating = (ss_migrating_since s \<noteq> None);
          migrating_for = (case ss_migrating_since s of Some t \<Rightarrow> sw_now inp - t | None \<Rightarrow> 0)
      in case liveness_verdict silence (effective_inflight inp) (sw_min_rtt inp) in_migrating migrating_for cfg of
           PathDown \<Rightarrow>
             (False, s\<lparr>ss_migrating_since := Some (sw_now inp), ss_session_state := SMigrating,
                       ss_published := publish_unless_ended Migrating (ss_published s)\<rparr>)
         | Recovered \<Rightarrow>
             (False, s\<lparr>ss_migrating_since := None, ss_session_state := SConnected,
                       ss_published := publish_unless_ended Connected (ss_published s)\<rparr>)
         | VerdictDead \<Rightarrow>
             (True, s\<lparr>ss_session_state := SClosed, ss_published := publish_death timeout (ss_published s)\<rparr>)
         | Unchanged \<Rightarrow> (False, s))"

text \<open>The heartbeat: sweep until one reports the session dead, which ends the pump.\<close>

fun sweep_run ::
  "'e \<Rightarrow> liveness_config \<Rightarrow> sweep_input list \<Rightarrow> 'e sweep_state \<Rightarrow> bool \<times> 'e sweep_state" where
  "sweep_run timeout cfg [] s = (False, s)"
| "sweep_run timeout cfg (inp # inps) s =
     (let (died, s1) = apply_liveness timeout cfg inp s
      in if died then (True, s1) else sweep_run timeout cfg inps s1)"

subsection \<open>Lemmas\<close>

definition ended :: "'e published \<Rightarrow> bool" where
  "ended p \<longleftrightarrow> connection_state_from_u8 (pub_state p) \<in> {Closed, CFailed, Dead}"

lemma connection_state_round_trip [simp]: "connection_state_from_u8 (connection_state_byte c) = c"
  by (cases c) (simp_all add: connection_state_from_u8_def)

declare connection_state_byte.simps [simp del]

lemma publish_ended [simp]:
  assumes "ended p"
  shows "publish_end c p = p" "publish_unless_ended c p = p" "publish_failure e p = p"
  using assms by (auto simp: ended_def publish_end_def publish_unless_ended_def publish_failure_def Let_def)

lemma publish_death_state [simp]:
  "connection_state_from_u8 (pub_state (publish_death e p)) = Dead"
  "pub_terminal_error (publish_death e p) \<noteq> None"
  by (auto simp: publish_death_def record_terminal_cause_def)

lemma pto_le_path_down:
  assumes "0 < lc_path_down_ptos cfg" "pto cfg r \<le> DURATION_MAX"
  shows "pto cfg r \<le> path_down_after cfg r"
proof -
  have "1 \<le> unat (lc_path_down_ptos cfg)" using assms(1) by (simp add: word_less_nat_alt)
  then have "pto cfg r * 1 \<le> pto cfg r * unat (lc_path_down_ptos cfg)" by (rule mult_le_mono2)
  then show ?thesis using assms(2) by (simp add: path_down_after_def duration_mul_def)
qed

text \<open>Sweeps that see the same last arrival, with something outstanding.\<close>

definition silent_sweep :: "nanos \<Rightarrow> nanos \<Rightarrow> sweep_input \<Rightarrow> bool" where
  "silent_sweep a r inp \<longleftrightarrow> sw_last_activity inp = a \<and> sw_min_rtt inp = r \<and> effective_inflight inp > 0"

lemma sweep_migrating_dies:
  assumes "ss_migrating_since s = Some m" "list_all (silent_sweep a r) inps"
    and "\<forall>inp \<in> set inps. pto cfg r < sw_now inp - a" "inp \<in> set inps" "m + lc_idle_timeout cfg < sw_now inp"
  shows "fst (sweep_run e cfg inps s)
    \<and> connection_state_from_u8 (pub_state (ss_published (snd (sweep_run e cfg inps s)))) = Dead
    \<and> pub_terminal_error (ss_published (snd (sweep_run e cfg inps s))) \<noteq> None"
  using assms
proof (induction inps arbitrary: s)
  case (Cons x inps)
  have x: "sw_last_activity x = a" "sw_min_rtt x = r" "pto cfg r < sw_now x - a"
    using Cons.prems(2,3) by (simp_all add: silent_sweep_def)
  show ?case
  proof (cases "sw_now x - m > lc_idle_timeout cfg")
    case True
    then show ?thesis using x Cons.prems(1) by (simp add: apply_liveness_def liveness_verdict_def Let_def)
  next
    case False
    then have "apply_liveness e cfg x s = (False, s)"
      using x Cons.prems(1) by (simp add: apply_liveness_def liveness_verdict_def Let_def)
    moreover have "inp \<in> set inps" using False Cons.prems(4,5) by auto
    ultimately show ?thesis using Cons.IH[OF Cons.prems(1)] Cons.prems(2,3,5) by (simp add: Let_def)
  qed
qed simp

lemma sweep_silent_dies:
  assumes cfg: "0 < lc_path_down_ptos cfg" "pto cfg r \<le> DURATION_MAX"
    and "ss_migrating_since s = None" "list_all (silent_sweep a r) inps" "sorted (map sw_now inps)"
    and "i1 \<in> set inps" "a + path_down_after cfg r < sw_now i1"
    and "i2 \<in> set inps" "sw_now i1 + lc_idle_timeout cfg < sw_now i2"
  shows "fst (sweep_run e cfg inps s)
    \<and> connection_state_from_u8 (pub_state (ss_published (snd (sweep_run e cfg inps s)))) = Dead
    \<and> pub_terminal_error (ss_published (snd (sweep_run e cfg inps s))) \<noteq> None"
  using assms(3-)
proof (induction inps arbitrary: s)
  case (Cons x inps)
  have x: "sw_last_activity x = a" "sw_min_rtt x = r" "0 < effective_inflight x"
    using Cons.prems(2) by (simp_all add: silent_sweep_def)
  have later: "\<forall>inp \<in> set inps. sw_now x \<le> sw_now inp" using Cons.prems(3) by simp
  have i1: "sw_now x \<le> sw_now i1" using Cons.prems(4) later by auto
  have i2: "i2 \<in> set inps" using Cons.prems(6,7) i1 by auto
  show ?case
  proof (cases "sw_now x - a > path_down_after cfg r")
    case True
    let ?s = "snd (apply_liveness e cfg x s)"
    have ap: "\<not> fst (apply_liveness e cfg x s)" "ss_migrating_since ?s = Some (sw_now x)"
      using True x Cons.prems(1) by (simp_all add: apply_liveness_def liveness_verdict_def Let_def)
    have "\<forall>inp \<in> set inps. pto cfg r < sw_now inp - a"
      using later True pto_le_path_down[OF cfg] by fastforce
    then show ?thesis
      using sweep_migrating_dies[OF ap(2) _ _ i2, of a r] Cons.prems(2,7) i1 ap(1)
      by (simp add: Let_def split_beta)
  next
    case False
    then have "apply_liveness e cfg x s = (False, s)"
      using x Cons.prems(1) by (simp add: apply_liveness_def liveness_verdict_def Let_def)
    moreover have "i1 \<in> set inps" using False Cons.prems(4,5) by auto
    ultimately show ?thesis using Cons.IH[OF Cons.prems(1) _ _ _ Cons.prems(5) i2 Cons.prems(7)] Cons.prems(2,3)
      by (simp add: Let_def)
  qed
qed simp

subsection \<open>Properties\<close>

text \<open>
  C40. A peer that has gone silent is detected. Let the heartbeat sweep at any
  non-decreasing times while nothing arrives after time \<open>a\<close> and something is
  outstanding, reliable bytes in flight or an unanswered keep-alive. If some sweep
  runs after the path-down threshold and a later one runs more than the idle timeout
  after it, the session ends: the pump is told to stop, the published state is Dead
  and a terminal cause is recorded.
\<close>

theorem dead_peer_detected:
  assumes "0 < lc_path_down_ptos cfg" "pto cfg r \<le> DURATION_MAX" "ss_migrating_since s = None"
    and "list_all (silent_sweep a r) inps" "sorted (map sw_now inps)"
    and "i1 \<in> set inps" "a + path_down_after cfg r < sw_now i1"
    and "i2 \<in> set inps" "sw_now i1 + lc_idle_timeout cfg < sw_now i2"
  shows "fst (sweep_run timeout cfg inps s)
    \<and> connection_state_from_u8 (pub_state (ss_published (snd (sweep_run timeout cfg inps s)))) = Dead
    \<and> pub_terminal_error (ss_published (snd (sweep_run timeout cfg inps s))) \<noteq> None"
  by (rule sweep_silent_dies[OF assms])

definition demo_sweep :: "nanos \<Rightarrow> sweep_input" where
  "demo_sweep now = \<lparr>sw_now = now, sw_last_activity = 0, sw_keepalive_outstanding = True,
     sw_inflight_bytes = 0, sw_min_rtt = 50000000\<rparr>"

definition demo_session :: "string sweep_state" where
  "demo_session = \<lparr>ss_published = \<lparr>pub_state = connection_state_byte Connected, pub_terminal_error = None\<rparr>,
     ss_session_state = SConnected, ss_migrating_since = None\<rparr>"

theorem dead_peer_detected_witness:
  "fst (sweep_run ''timeout'' liveness_default
     [demo_sweep 500000000, demo_sweep 1500000000, demo_sweep 32000000000] demo_session)"
  by (rule dead_peer_detected[where r = 50000000 and a = 0 and ?i1.0 = "demo_sweep 1500000000"
        and ?i2.0 = "demo_sweep 32000000000", THEN conjunct1])
    (simp_all add: liveness_default_def demo_session_def pto_def path_down_after_def duration_mul_def
      DURATION_MAX_def silent_sweep_def demo_sweep_def effective_inflight_def)

text \<open>The writers of the published state.\<close>

datatype 'e publication =
    PubEnd connection_state | PubUnlessEnded connection_state | PubFailure 'e | PubDeath 'e

fun publish :: "'e publication \<Rightarrow> 'e published \<Rightarrow> 'e published" where
  "publish (PubEnd c) p = publish_end c p"
| "publish (PubUnlessEnded c) p = publish_unless_ended c p"
| "publish (PubFailure e) p = publish_failure e p"
| "publish (PubDeath e) p = publish_death e p"

lemma publish_ended_step:
  assumes "ended p"
  shows "ended (publish x p)" "publish x p = p \<or> connection_state_from_u8 (pub_state (publish x p)) = Dead"
    "pub_terminal_error p \<noteq> None \<Longrightarrow> pub_terminal_error (publish x p) = pub_terminal_error p"
  using assms by (cases x; simp; simp add: ended_def publish_death_def record_terminal_cause_def)+

lemma publish_ended_run:
  "ended p \<Longrightarrow> ended (fold publish xs p) \<and>
    (fold publish xs p = p \<or> connection_state_from_u8 (pub_state (fold publish xs p)) = Dead) \<and>
    (pub_terminal_error p \<noteq> None \<longrightarrow> pub_terminal_error (fold publish xs p) = pub_terminal_error p)"
proof (induction xs arbitrary: p)
  case (Cons x xs)
  note s = publish_ended_step[OF Cons.prems, of x]
  have "fold publish xs (publish x p) = p \<or> connection_state_from_u8 (pub_state (fold publish xs (publish x p))) = Dead"
  proof (cases "publish x p = p")
    case True
    then show ?thesis using Cons.IH[OF s(1)] by simp
  next
    case False
    then show ?thesis using Cons.IH[OF s(1)] s(2) by auto
  qed
  then show ?case using Cons.IH[OF s(1)] s(3) by simp
qed simp

text \<open>
  The first end is the end a caller reads. Once a session has published Closed,
  Failed or Dead, no later sequence of publications, from the liveness verdict, the
  receive task, the handshake or the teardown, brings it back to a live state or
  exchanges one end for another, except that the two deaths may replace it by Dead;
  and the recorded cause, once there, never changes.
\<close>

theorem first_end_kept:
  assumes "ended p"
  shows "ended (fold publish xs p)
    \<and> (fold publish xs p = p \<or> connection_state_from_u8 (pub_state (fold publish xs p)) = Dead)
    \<and> (pub_terminal_error p \<noteq> None \<longrightarrow> pub_terminal_error (fold publish xs p) = pub_terminal_error p)"
  by (rule publish_ended_run[OF assms])

theorem first_end_kept_witness:
  "let p = publish_failure ''refused'' (ss_published demo_session)
   in ended p \<and> fold publish [PubUnlessEnded Connected, PubEnd Closed, PubFailure ''late''] p = p"
proof -
  let ?p = "publish_failure ''refused'' (ss_published demo_session)"
  have e: "ended ?p" by (simp add: ended_def publish_failure_def demo_session_def Let_def)
  have "connection_state_from_u8 (pub_state ?p) \<noteq> Dead" by (simp add: publish_failure_def demo_session_def Let_def)
  then show ?thesis
    using e first_end_kept[OF e, of "[PubUnlessEnded Connected, PubEnd Closed, PubFailure ''late'']"] by (simp add: Let_def)
qed

end
