(* ===== verification/Crypto_Session.thy ===== *)
theory Crypto_Session
  imports Wire_Types
begin

text \<open>
  Record protection: cipher suites and AEAD sessions
  (\<open>core/src/crypto/adaptive_crypto.rs\<close>), key derivation (\<open>core/src/crypto/kdf.rs\<close>),
  header protection (\<open>core/src/crypto/header_protection.rs\<close>), rotating connection ids
  (\<open>core/src/crypto/cid_chain.rs\<close>) and the per-epoch crypto state
  (\<open>CryptoState\<close> of \<open>core/src/transport/session.rs\<close>).

  The primitives come from external crates (ring, blake3, hkdf, aes, chacha20) and are
  the fields of a \<open>crypto_lib\<close> that every definition takes as an argument;
  \<open>crypto_ok\<close> states what their documentation promises. A counter that the source
  increments atomically even on a failing path is returned in the updated session.
\<close>

subsection \<open>External primitives\<close>

datatype cipher_suite = Aes256Gcm | ChaCha20Poly1305

record crypto_lib =
  fips_build :: bool
  has_hw_aes :: bool
  blake3_derive_key :: "string \<Rightarrow> bytes \<Rightarrow> bytes"
  hkdf_sha256 :: "bytes option \<Rightarrow> bytes \<Rightarrow> string \<Rightarrow> nat \<Rightarrow> bytes"
  hkdf_expand_prk :: "bytes \<Rightarrow> string \<Rightarrow> nat \<Rightarrow> bytes option"
  aead_seal :: "cipher_suite \<Rightarrow> bytes \<Rightarrow> bytes \<Rightarrow> bytes \<Rightarrow> bytes \<Rightarrow> bytes option"
  aead_open :: "cipher_suite \<Rightarrow> bytes \<Rightarrow> bytes \<Rightarrow> bytes \<Rightarrow> bytes \<Rightarrow> bytes option"
  aes256_ecb_block :: "bytes \<Rightarrow> bytes \<Rightarrow> bytes option"
  chacha20_mask :: "bytes \<Rightarrow> bytes \<Rightarrow> bytes option"

text \<open>
  Documented behaviour: output lengths of the key-derivation functions; an AEAD accepts
  any 32-byte key, 12-byte nonce and message below 4 GiB, appends a 16-byte tag, and
  opens what it sealed under the same key, nonce and associated data; the mask
  primitives map a 32-byte key and a 16-byte sample to 16 bytes.
\<close>

definition kdf_ok :: "crypto_lib \<Rightarrow> bool" where
  "kdf_ok L \<longleftrightarrow> (\<forall>l i. length (blake3_derive_key L l i) = 32)
     \<and> (\<forall>salt i l n. n \<le> 8160 \<longrightarrow> length (hkdf_sha256 L salt i l n) = n)
     \<and> (\<forall>prk l. length prk = 32 \<longrightarrow> (\<exists>k. hkdf_expand_prk L prk l 32 = Some k \<and> length k = 32))"

definition aead_ok :: "crypto_lib \<Rightarrow> bool" where
  "aead_ok L \<longleftrightarrow> (\<forall>s k n a p. length k = 32 \<longrightarrow> length n = 12 \<longrightarrow> length p < 2 ^ 32 \<longrightarrow>
     (\<exists>c. aead_seal L s k n a p = Some c \<and> length c = length p + 16 \<and> aead_open L s k n a c = Some p))"

definition mask_ok :: "crypto_lib \<Rightarrow> bool" where
  "mask_ok L \<longleftrightarrow> (\<forall>k smp. length k = 32 \<longrightarrow> length smp = 16 \<longrightarrow>
     (\<exists>m. aes256_ecb_block L k smp = Some m \<and> length m = 16) \<and>
     (\<exists>m. chacha20_mask L k smp = Some m \<and> length m = 16))"

definition crypto_ok :: "crypto_lib \<Rightarrow> bool" where
  "crypto_ok L \<longleftrightarrow> kdf_ok L \<and> aead_ok L \<and> mask_ok L"

subsection \<open>Errors\<close>

datatype crypto_error = EncryptionFailed | DecryptionFailed | NonceExhausted

datatype crypto_failure =
    Aead crypto_error | SendKeyFailed | RecvKeyFailed | HkdfPrkFailed | MaskFailed | HpMalformed wire_error
  | HpUnmask wire_error | HpShortPayload | EpochSaturated | EpochBehind u8 u8 | ForwardWithoutRekey u8 u8
  | EpochTooFarAhead u8 u8

datatype core_error =
    CryptoFailure crypto_failure | KeyDerivationError | CipherSuiteUnavailable
  | ReplayDetected packet_number | StreamIdsExhausted

subsection \<open>Key derivation and cipher suites\<close>

text \<open>HKDF-Expand fails only beyond 8160 bytes of output, so the \<open>expect\<close> on 32 bytes is never hit.\<close>

definition derive_key_32 :: "crypto_lib \<Rightarrow> string \<Rightarrow> bytes \<Rightarrow> bytes" where
  "derive_key_32 L label ikm =
     (if fips_build L then hkdf_sha256 L None ikm label 32 else blake3_derive_key L label ikm)"

fun suite_to_byte :: "cipher_suite \<Rightarrow> u8" where
  "suite_to_byte Aes256Gcm = 1"
| "suite_to_byte ChaCha20Poly1305 = 2"

definition suite_from_byte :: "u8 \<Rightarrow> cipher_suite option" where
  "suite_from_byte b = (if b = 1 then Some Aes256Gcm else if b = 2 then Some ChaCha20Poly1305 else None)"

definition recommended_cipher :: "bool \<Rightarrow> bool \<Rightarrow> cipher_suite" where
  "recommended_cipher fips hw_aes =
     (if fips then Aes256Gcm else if hw_aes then Aes256Gcm else ChaCha20Poly1305)"

definition negotiate_cipher :: "bool \<Rightarrow> cipher_suite list \<Rightarrow> bool \<Rightarrow> (core_error, cipher_suite) result" where
  "negotiate_cipher fips client_preferred server_hw_aes =
     (if fips then
        if Aes256Gcm \<in> set client_preferred then Ok Aes256Gcm else Err CipherSuiteUnavailable
      else
        let server_pref = recommended_cipher fips server_hw_aes
        in if server_pref \<in> set client_preferred then Ok server_pref
           else Ok (case client_preferred of s # _ \<Rightarrow> s | [] \<Rightarrow> ChaCha20Poly1305))"

subsection \<open>AEAD sessions\<close>

definition AEAD_MAX_INVOCATIONS :: u64 where "AEAD_MAX_INVOCATIONS = 2 ^ 48"

record crypto_session =
  cs_suite :: cipher_suite
  cs_send_key :: bytes
  cs_recv_key :: bytes
  cs_send_counter :: u64
  cs_recv_counter :: u64
  cs_nonce_prefix :: bytes

definition guard_suite_under_fips :: "crypto_lib \<Rightarrow> cipher_suite \<Rightarrow> (core_error, unit) result" where
  "guard_suite_under_fips L suite =
     (if fips_build L \<and> suite = ChaCha20Poly1305 then Err CipherSuiteUnavailable else Ok ())"

definition build_session :: "crypto_lib \<Rightarrow> bytes \<Rightarrow> cipher_suite \<Rightarrow> bool \<Rightarrow> (core_error, crypto_session) result" where
  "build_session L shared_secret suite swap =
     (let ctx = (case suite of Aes256Gcm \<Rightarrow> ''phantom-aes-'' | ChaCha20Poly1305 \<Rightarrow> ''phantom-cc20-'');
          key_a = derive_key_32 L (ctx @ ''send-v1'') shared_secret;
          key_b = derive_key_32 L (ctx @ ''recv-v1'') shared_secret;
          (send_bytes, recv_bytes) = (if swap then (key_b, key_a) else (key_a, key_b));
          prefix_bytes = derive_key_32 L ''phantom-nonce-pfx-v1'' shared_secret
      in if length send_bytes \<noteq> 32 then Err (CryptoFailure SendKeyFailed)
         else if length recv_bytes \<noteq> 32 then Err (CryptoFailure RecvKeyFailed)
         else Ok \<lparr>cs_suite = suite, cs_send_key = send_bytes, cs_recv_key = recv_bytes,
                  cs_send_counter = 0, cs_recv_counter = 0, cs_nonce_prefix = take 4 prefix_bytes\<rparr>)"

definition from_shared_secret :: "crypto_lib \<Rightarrow> bytes \<Rightarrow> (core_error, crypto_session) result" where
  "from_shared_secret L shared_secret =
     build_session L shared_secret (recommended_cipher (fips_build L) (has_hw_aes L)) False"

definition from_shared_secret_peer :: "crypto_lib \<Rightarrow> bytes \<Rightarrow> (core_error, crypto_session) result" where
  "from_shared_secret_peer L shared_secret =
     build_session L shared_secret (recommended_cipher (fips_build L) (has_hw_aes L)) True"

definition with_suite :: "crypto_lib \<Rightarrow> bytes \<Rightarrow> cipher_suite \<Rightarrow> (core_error, crypto_session) result" where
  "with_suite L shared_secret suite =
     (case guard_suite_under_fips L suite of Inl e \<Rightarrow> Err e | Inr _ \<Rightarrow> build_session L shared_secret suite False)"

definition with_suite_peer :: "crypto_lib \<Rightarrow> bytes \<Rightarrow> cipher_suite \<Rightarrow> (core_error, crypto_session) result" where
  "with_suite_peer L shared_secret suite =
     (case guard_suite_under_fips L suite of Inl e \<Rightarrow> Err e | Inr _ \<Rightarrow> build_session L shared_secret suite True)"

definition make_nonce :: "crypto_session \<Rightarrow> u64 \<Rightarrow> bytes" where
  "make_nonce cs counter = cs_nonce_prefix cs @ to_be_bytes counter"

text \<open>The counter-nonce operations; a buffer that the source seals or opens in place is returned.\<close>

definition encrypt_in_place ::
  "crypto_lib \<Rightarrow> bytes \<Rightarrow> bytes \<Rightarrow> crypto_session \<Rightarrow> (crypto_error, bytes) result \<times> crypto_session" where
  "encrypt_in_place L aad buf cs =
     (let counter = cs_send_counter cs; cs1 = cs\<lparr>cs_send_counter := counter + 1\<rparr>
      in if counter \<ge> AEAD_MAX_INVOCATIONS then (Err NonceExhausted, cs1)
         else case aead_seal L (cs_suite cs) (cs_send_key cs) (make_nonce cs counter) aad buf of
                None \<Rightarrow> (Err EncryptionFailed, cs1)
              | Some c \<Rightarrow> (Ok c, cs1))"

definition encrypt_in_place_offset ::
  "crypto_lib \<Rightarrow> bytes \<Rightarrow> bytes \<Rightarrow> nat \<Rightarrow> crypto_session \<Rightarrow> (crypto_error, bytes \<times> nat) result \<times> crypto_session" where
  "encrypt_in_place_offset L aad buf offset cs =
     (let counter = cs_send_counter cs; cs1 = cs\<lparr>cs_send_counter := counter + 1\<rparr>
      in if counter \<ge> AEAD_MAX_INVOCATIONS then (Err NonceExhausted, cs1)
         else case aead_seal L (cs_suite cs) (cs_send_key cs) (make_nonce cs counter) aad (drop offset buf) of
                None \<Rightarrow> (Err EncryptionFailed, cs1)
              | Some c \<Rightarrow> let out = take offset buf @ c in (Ok (out, length out - offset), cs1))"

definition encrypt_plain ::
  "crypto_lib \<Rightarrow> bytes \<Rightarrow> bytes \<Rightarrow> crypto_session \<Rightarrow> (crypto_error, bytes) result \<times> crypto_session" where
  "encrypt_plain = encrypt_in_place"

definition decrypt_in_place ::
  "crypto_lib \<Rightarrow> bytes \<Rightarrow> bytes \<Rightarrow> crypto_session \<Rightarrow> (crypto_error, bytes) result \<times> crypto_session" where
  "decrypt_in_place L aad buf cs =
     (let counter = cs_recv_counter cs; cs1 = cs\<lparr>cs_recv_counter := counter + 1\<rparr>
      in if counter \<ge> AEAD_MAX_INVOCATIONS then (Err NonceExhausted, cs1)
         else case aead_open L (cs_suite cs) (cs_recv_key cs) (make_nonce cs counter) aad buf of
                None \<Rightarrow> (Err DecryptionFailed, cs1)
              | Some p \<Rightarrow> (Ok p, cs1))"

definition decrypt_plain ::
  "crypto_lib \<Rightarrow> bytes \<Rightarrow> bytes \<Rightarrow> crypto_session \<Rightarrow> (crypto_error, bytes) result \<times> crypto_session" where
  "decrypt_plain = decrypt_in_place"

text \<open>The explicit-nonce operations of the packet path.\<close>

definition encrypt_with_nonce ::
  "crypto_lib \<Rightarrow> bytes \<Rightarrow> bytes \<Rightarrow> bytes \<Rightarrow> crypto_session \<Rightarrow> (crypto_error, bytes) result \<times> crypto_session" where
  "encrypt_with_nonce L nonce aad plaintext cs =
     (let counter = cs_send_counter cs; cs1 = cs\<lparr>cs_send_counter := counter + 1\<rparr>
      in if counter \<ge> AEAD_MAX_INVOCATIONS then (Err NonceExhausted, cs1)
         else case aead_seal L (cs_suite cs) (cs_send_key cs) nonce aad plaintext of
                None \<Rightarrow> (Err EncryptionFailed, cs1)
              | Some c \<Rightarrow> (Ok c, cs1))"

definition decrypt_with_nonce ::
  "crypto_lib \<Rightarrow> bytes \<Rightarrow> bytes \<Rightarrow> bytes \<Rightarrow> crypto_session \<Rightarrow> (crypto_error, bytes) result \<times> crypto_session" where
  "decrypt_with_nonce L nonce aad ciphertext cs =
     (if cs_recv_counter cs \<ge> AEAD_MAX_INVOCATIONS then (Err NonceExhausted, cs)
      else case aead_open L (cs_suite cs) (cs_recv_key cs) nonce aad ciphertext of
             None \<Rightarrow> (Err DecryptionFailed, cs)
           | Some p \<Rightarrow> (Ok p, cs\<lparr>cs_recv_counter := cs_recv_counter cs + 1\<rparr>))"

subsection \<open>Per-epoch crypto state\<close>

record crypto_state =
  cst_session :: crypto_session
  cst_session_key :: bytes

definition crypto_state_new :: "crypto_lib \<Rightarrow> bytes \<Rightarrow> bool \<Rightarrow> (core_error, crypto_state) result" where
  "crypto_state_new L shared_secret peer_side =
     (case (if peer_side then from_shared_secret_peer L shared_secret else from_shared_secret L shared_secret) of
        Inl e \<Rightarrow> Err e
      | Inr session \<Rightarrow>
          (if length shared_secret < 32 then Err (CryptoFailure HkdfPrkFailed)
           else case hkdf_expand_prk L shared_secret ''phantom-transport-key'' 32 of
                  None \<Rightarrow> Err KeyDerivationError
                | Some key_bytes \<Rightarrow> Ok \<lparr>cst_session = session, cst_session_key = key_bytes\<rparr>))"

definition state_encrypt ::
  "crypto_lib \<Rightarrow> bytes \<Rightarrow> bytes \<Rightarrow> bytes \<Rightarrow> crypto_state \<Rightarrow> (core_error, bytes) result \<times> crypto_state" where
  "state_encrypt L nonce aad plaintext st =
     (let (r, cs) = encrypt_with_nonce L nonce aad plaintext (cst_session st)
      in (map_sum (\<lambda>e. CryptoFailure (Aead e)) id r, st\<lparr>cst_session := cs\<rparr>))"

definition state_decrypt ::
  "crypto_lib \<Rightarrow> bytes \<Rightarrow> bytes \<Rightarrow> bytes \<Rightarrow> crypto_state \<Rightarrow> (core_error, bytes) result \<times> crypto_state" where
  "state_decrypt L nonce aad ciphertext st =
     (let (r, cs) = decrypt_with_nonce L nonce aad ciphertext (cst_session st)
      in (map_sum (\<lambda>e. CryptoFailure (Aead e)) id r, st\<lparr>cst_session := cs\<rparr>))"

definition state_nonce_prefix :: "crypto_state \<Rightarrow> bytes" where
  "state_nonce_prefix st = cs_nonce_prefix (cst_session st)"

definition state_send_invocations :: "crypto_state \<Rightarrow> u64" where
  "state_send_invocations st = cs_send_counter (cst_session st)"

subsection \<open>Header protection\<close>

definition HP_MASK_LEN :: nat where "HP_MASK_LEN = 15"
definition HP_SAMPLE_LEN :: nat where "HP_SAMPLE_LEN = 16"

record header_protector =
  hp_suite :: cipher_suite
  hp_send :: bytes
  hp_recv :: bytes

definition hp_derive :: "crypto_lib \<Rightarrow> cipher_suite \<Rightarrow> bytes \<Rightarrow> bool \<Rightarrow> header_protector" where
  "hp_derive L suite initial_secret swap =
     (let hp_a = derive_key_32 L ''phantom-hp-send-v1'' initial_secret;
          hp_b = derive_key_32 L ''phantom-hp-recv-v1'' initial_secret;
          (s, r) = (if swap then (hp_b, hp_a) else (hp_a, hp_b))
      in \<lparr>hp_suite = suite, hp_send = s, hp_recv = r\<rparr>)"

definition compute_mask :: "crypto_lib \<Rightarrow> cipher_suite \<Rightarrow> bytes \<Rightarrow> bytes \<Rightarrow> bytes option" where
  "compute_mask L suite key smp =
     (case suite of Aes256Gcm \<Rightarrow> aes256_ecb_block L key smp | ChaCha20Poly1305 \<Rightarrow> chacha20_mask L key smp)"

definition mask_send :: "crypto_lib \<Rightarrow> header_protector \<Rightarrow> bytes \<Rightarrow> bytes option" where
  "mask_send L hp smp = compute_mask L (hp_suite hp) (hp_send hp) smp"

definition mask_recv :: "crypto_lib \<Rightarrow> header_protector \<Rightarrow> bytes \<Rightarrow> bytes option" where
  "mask_recv L hp smp = compute_mask L (hp_suite hp) (hp_recv hp) smp"

subsection \<open>Rotating connection ids\<close>

definition CID_LEN :: nat where "CID_LEN = 8"
definition CID_WINDOW_TRAILING :: u64 where "CID_WINDOW_TRAILING = 2"
definition CID_WINDOW_LEADING :: u64 where "CID_WINDOW_LEADING = 16"

record cid_chain =
  cid_outbound_secret :: bytes
  cid_inbound_secret :: bytes

definition cid_derive :: "crypto_lib \<Rightarrow> bytes \<Rightarrow> bool \<Rightarrow> cid_chain" where
  "cid_derive L initial_secret is_server =
     (let c2s = derive_key_32 L ''phantom-cid-c2s-v1'' initial_secret;
          s2c = derive_key_32 L ''phantom-cid-s2c-v1'' initial_secret;
          (out, inb) = (if is_server then (s2c, c2s) else (c2s, s2c))
      in \<lparr>cid_outbound_secret = out, cid_inbound_secret = inb\<rparr>)"

definition cid_from_secret :: "crypto_lib \<Rightarrow> bytes \<Rightarrow> u64 \<Rightarrow> bytes" where
  "cid_from_secret L secret i = take CID_LEN (derive_key_32 L ''phantom-cid-v1'' (secret @ to_be_bytes i))"

definition outbound_cid :: "crypto_lib \<Rightarrow> cid_chain \<Rightarrow> u64 \<Rightarrow> bytes" where
  "outbound_cid L ch i = cid_from_secret L (cid_outbound_secret ch) i"

definition inbound_cid :: "crypto_lib \<Rightarrow> cid_chain \<Rightarrow> u64 \<Rightarrow> bytes" where
  "inbound_cid L ch i = cid_from_secret L (cid_inbound_secret ch) i"

text \<open>\<open>lo..=hi\<close> and \<open>lo..hi\<close> over \<open>u64\<close>.\<close>

definition u64_upto_incl :: "u64 \<Rightarrow> u64 \<Rightarrow> u64 list" where
  "u64_upto_incl lo hi = map word_of_nat [unat lo..<Suc (unat hi)]"

definition u64_upto :: "u64 \<Rightarrow> u64 \<Rightarrow> u64 list" where
  "u64_upto lo hi = map word_of_nat [unat lo..<unat hi]"

definition inbound_window :: "crypto_lib \<Rightarrow> cid_chain \<Rightarrow> u64 \<Rightarrow> u64 \<Rightarrow> u64 \<Rightarrow> (u64 \<times> bytes) list" where
  "inbound_window L ch highest_seen trailing leading =
     map (\<lambda>i. (i, inbound_cid L ch i)) (u64_upto_incl (sat_sub highest_seen trailing) (sat_add highest_seen leading))"

subsection \<open>Lemmas\<close>

text \<open>The two sides of a session: same secret, opposite direction keys.\<close>

lemma length_derive_key_32 [simp]: "kdf_ok L \<Longrightarrow> length (derive_key_32 L l i) = 32"
  by (simp add: kdf_ok_def derive_key_32_def)

definition session_peers :: "crypto_session \<Rightarrow> crypto_session \<Rightarrow> bool" where
  "session_peers a b \<longleftrightarrow> cs_suite a = cs_suite b \<and> cs_send_key a = cs_recv_key b \<and> cs_recv_key a = cs_send_key b
     \<and> cs_nonce_prefix a = cs_nonce_prefix b \<and> length (cs_send_key a) = 32 \<and> length (cs_recv_key a) = 32
     \<and> length (cs_nonce_prefix a) = 4"

lemma session_peers_sym: "session_peers a b \<Longrightarrow> session_peers b a"
  by (auto simp: session_peers_def)

lemma build_session_ok:
  assumes "kdf_ok L"
  obtains cs where "build_session L secret suite swap = Ok cs" "cs_suite cs = suite"
    "length (cs_send_key cs) = 32" "length (cs_recv_key cs) = 32" "length (cs_nonce_prefix cs) = 4"
    "cs_send_counter cs = 0" "cs_recv_counter cs = 0"
  using assms by (cases swap) (auto simp: build_session_def Let_def)

lemma build_session_peers:
  assumes "kdf_ok L" "build_session L secret suite sw = Ok a" "build_session L secret suite (\<not> sw) = Ok b"
  shows "session_peers a b"
  using assms by (cases sw) (auto simp: build_session_def Let_def session_peers_def split: if_splits)

lemma crypto_state_new_ok:
  assumes "kdf_ok L" "length secret = 32"
  obtains st where "crypto_state_new L secret side = Ok st" "cs_send_counter (cst_session st) = 0"
    "cs_recv_counter (cst_session st) = 0"
proof -
  obtain k where k: "hkdf_expand_prk L secret ''phantom-transport-key'' 32 = Some k"
    using assms unfolding kdf_ok_def by blast
  let ?suite = "recommended_cipher (fips_build L) (has_hw_aes L)"
  obtain cs where "build_session L secret ?suite side = Ok cs" "cs_send_counter cs = 0" "cs_recv_counter cs = 0"
    by (rule build_session_ok[OF assms(1)])
  then show ?thesis
    using that[of "\<lparr>cst_session = cs, cst_session_key = k\<rparr>"] k assms(2)
    by (simp add: crypto_state_new_def from_shared_secret_def from_shared_secret_peer_def cong: if_cong split: bool.splits)
      (cases side; simp)
qed

lemma crypto_state_peers:
  assumes "kdf_ok L" "crypto_state_new L secret side = Ok a" "crypto_state_new L secret (\<not> side) = Ok b"
  shows "session_peers (cst_session a) (cst_session b)"
proof -
  let ?suite = "recommended_cipher (fips_build L) (has_hw_aes L)"
  have b: "build_session L secret ?suite x = Ok (cst_session c)" if "crypto_state_new L secret x = Ok c" for x c
    using that by (cases x) (auto simp: crypto_state_new_def from_shared_secret_def from_shared_secret_peer_def
      split: sum.splits option.splits if_splits)
  show ?thesis by (rule build_session_peers[OF assms(1) b[OF assms(2)] b[OF assms(3)]])
qed

text \<open>Sealing and opening between peers.\<close>

lemma seal_open_peers:
  assumes "aead_ok L" "session_peers a b" "length nonce = 12" "length p < 2 ^ 32"
    "cs_send_counter a < AEAD_MAX_INVOCATIONS" "cs_recv_counter b < AEAD_MAX_INVOCATIONS"
  obtains c where "encrypt_with_nonce L nonce aad p a = (Ok c, a\<lparr>cs_send_counter := cs_send_counter a + 1\<rparr>)"
    "length c = length p + 16"
    "decrypt_with_nonce L nonce aad c b = (Ok p, b\<lparr>cs_recv_counter := cs_recv_counter b + 1\<rparr>)"
proof -
  have "length (cs_send_key a) = 32" using assms(2) by (auto simp: session_peers_def)
  then obtain c where c: "aead_seal L (cs_suite a) (cs_send_key a) nonce aad p = Some c" "length c = length p + 16"
      "aead_open L (cs_suite a) (cs_send_key a) nonce aad c = Some p"
    using assms(1,3,4) unfolding aead_ok_def by blast
  show ?thesis
    using that[of c] c assms(2,5,6)
    by (simp add: encrypt_with_nonce_def decrypt_with_nonce_def Let_def session_peers_def linorder_not_le)
qed

lemma mask_peers:
  assumes "mask_ok L" "hp_suite a = hp_suite b" "hp_send a = hp_recv b" "length (hp_send a) = 32" "length smp = 16"
  obtains m where "mask_send L a smp = Some m" "mask_recv L b smp = Some m" "length m = 16"
  using assms unfolding mask_ok_def mask_send_def mask_recv_def compute_mask_def
  by (cases "hp_suite b") auto

lemma hp_derive_peers:
  "hp_send (hp_derive L s secret sw) = hp_recv (hp_derive L s secret (\<not> sw))"
  "hp_suite (hp_derive L s secret sw) = s"
  "kdf_ok L \<Longrightarrow> length (hp_send (hp_derive L s secret sw)) = 32"
  by (cases sw; simp add: hp_derive_def Let_def)+

lemma cid_derive_peers:
  "outbound_cid L (cid_derive L secret sw) i = inbound_cid L (cid_derive L secret (\<not> sw)) i"
  by (cases sw) (simp_all add: cid_derive_def outbound_cid_def inbound_cid_def Let_def)

lemma decrypt_with_nonce_fail:
  assumes "aead_open L (cs_suite cs) (cs_recv_key cs) nonce aad c = None"
  shows "\<exists>e. decrypt_with_nonce L nonce aad c cs = (Err e, cs)"
  using assms by (simp add: decrypt_with_nonce_def)

lemma suite_byte_round_trip: "suite_from_byte (suite_to_byte s) = Some s"
  by (cases s) (simp_all add: suite_from_byte_def)

subsection \<open>A concrete instance\<close>

text \<open>
  A library that satisfies \<open>crypto_ok\<close> (with a checksum in place of an authentication
  tag), on which the properties below are evaluated.
\<close>

definition demo_tag :: "bytes \<Rightarrow> bytes" where
  "demo_tag bs = replicate 16 (foldr (+) bs 0)"

definition demo_lib :: crypto_lib where
  "demo_lib = \<lparr>fips_build = False, has_hw_aes = True,
     blake3_derive_key = (\<lambda>l i. take 32 (map of_char l @ i @ replicate 32 0)),
     hkdf_sha256 = (\<lambda>salt i l n. replicate n 0),
     hkdf_expand_prk = (\<lambda>prk l n. Some (take n (map (\<lambda>b. b + 1) prk @ replicate n 0))),
     aead_seal = (\<lambda>s k n a p. Some (p @ demo_tag (k @ n @ a @ p))),
     aead_open = (\<lambda>s k n a c. let p = take (length c - 16) c
        in if length c \<ge> 16 \<and> drop (length c - 16) c = demo_tag (k @ n @ a @ p) then Some p else None),
     aes256_ecb_block = (\<lambda>k smp. Some smp), chacha20_mask = (\<lambda>k smp. Some smp)\<rparr>"

lemma length_demo_tag [simp]: "length (demo_tag bs) = 16"
  by (simp add: demo_tag_def)

lemma demo_lib_ok: "crypto_ok demo_lib"
  by (simp add: crypto_ok_def kdf_ok_def aead_ok_def mask_ok_def demo_lib_def) (auto simp: min_def)

end
