(* ===== verification/Session.thy ===== *)
theory Session
  imports Crypto_Session Replay_Window Path_Registry Pacer Liveness Shaping Stream_Base
begin

text \<open>
  The transport session (\<open>core/src/transport/session.rs\<close>) and the sealing step of the
  data pump (\<open>send_app_data\<close>, \<open>rekey_before_stamp\<close> of \<open>core/src/api/session.rs\<close>).
  Every method is one step on the session record: the locks and atomics of the source
  make it so, and the second epoch check that \<open>decrypt_packet_accepting_rekey\<close> makes
  under its lock coincides with the first. Not part of the record: the congestion
  estimator, the vestigial scheduler and fallback machine, the demux channel and the
  wake-up handle. Wiping of key material has no effect on the values.
\<close>

subsection \<open>State\<close>

abbreviation REKEY_SOFT_LIMIT :: u64 where "REKEY_SOFT_LIMIT \<equiv> 2 ^ 32"
abbreviation MAX_REKEY_CATCHUP :: u8 where "MAX_REKEY_CATCHUP \<equiv> 16"
abbreviation REBIND_VALIDATION_PATH_ID :: u8 where "REBIND_VALIDATION_PATH_ID \<equiv> 255"

record cid_slide =
  slide_add :: "bytes list"
  slide_remove :: "bytes list"
  slide_anchor :: bytes

record session =
  s_id :: session_id
  s_state :: session_state
  s_crypto :: crypto_state
  s_header_protection :: header_protector
  s_cid_chain :: cid_chain
  s_outbound_cid_index :: u64
  s_inbound_cid_highest_seen :: u64
  s_last_seen_path_id :: u8
  s_traffic_secret :: bytes
  s_epoch :: u8
  s_rekey_after :: u64
  s_rekey_unconfirmed :: bool
  s_padding_policy :: u8
  s_jitter_max_ms :: u32
  s_cover_min_interval_ms :: u32
  s_is_server :: bool
  s_streams :: "stream_id \<rightharpoonup> stream"
  s_next_stream_id :: u32
  s_resumption_secret :: "bytes option"
  s_last_activity :: nanos
  s_liveness_config :: liveness_config
  s_send_packet_number :: u64
  s_send_path_id :: u8
  s_recv_replay :: replay_window
  s_replay_rejected_total :: u64
  s_path_registry :: path_registry
  s_pacer :: pacer
  s_peer_closed :: bool
  s_keepalive_outstanding :: bool

text \<open>The fields the three constructors share.\<close>

definition session_init ::
  "crypto_lib \<Rightarrow> nanos \<Rightarrow> session_id \<Rightarrow> session_state \<Rightarrow> crypto_state \<Rightarrow> bytes \<Rightarrow> bool \<Rightarrow> bytes option \<Rightarrow> session" where
  "session_init L now sid st crypto secret is_server resumption =
     \<lparr>s_id = sid, s_state = st, s_crypto = crypto,
      s_header_protection = hp_derive L (cs_suite (cst_session crypto)) secret is_server,
      s_cid_chain = cid_derive L secret is_server, s_outbound_cid_index = 0, s_inbound_cid_highest_seen = 0,
      s_last_seen_path_id = 0, s_traffic_secret = secret, s_epoch = 0, s_rekey_after = REKEY_SOFT_LIMIT,
      s_rekey_unconfirmed = False, s_padding_policy = 0, s_jitter_max_ms = 0, s_cover_min_interval_ms = 0,
      s_is_server = is_server, s_streams = Map.empty, s_next_stream_id = 1, s_resumption_secret = resumption,
      s_last_activity = now, s_liveness_config = liveness_default, s_send_packet_number = 0, s_send_path_id = 0,
      s_recv_replay = replay_new, s_replay_rejected_total = 0,
      s_path_registry = snd (register_validated 0 registry_new), s_pacer = unlimited,
      s_peer_closed = False, s_keepalive_outstanding = False\<rparr>"

definition session_new ::
  "crypto_lib \<Rightarrow> nanos \<Rightarrow> session_id \<Rightarrow> bytes \<Rightarrow> bool \<Rightarrow> (core_error, session) result" where
  "session_new L now sid shared_secret peer_side =
     (case crypto_state_new L shared_secret peer_side of
        Inl e \<Rightarrow> Err e
      | Inr crypto \<Rightarrow> Ok (session_init L now sid SHandshaking crypto shared_secret peer_side None))"

definition session_from_derived ::
  "crypto_lib \<Rightarrow> nanos \<Rightarrow> session_id \<Rightarrow> crypto_state \<Rightarrow> bytes \<Rightarrow> bool \<Rightarrow> session" where
  "session_from_derived L now sid crypto traffic_secret is_server =
     session_init L now sid SConnected crypto traffic_secret is_server None"

definition session_resume ::
  "crypto_lib \<Rightarrow> nanos \<Rightarrow> session_id \<Rightarrow> bytes \<Rightarrow> bool \<Rightarrow> (core_error, session) result" where
  "session_resume L now sid resumption_secret peer_side =
     (case crypto_state_new L resumption_secret peer_side of
        Inl e \<Rightarrow> Err e
      | Inr crypto \<Rightarrow>
          Ok (session_init L now sid SConnected crypto resumption_secret peer_side (Some resumption_secret)))"

subsection \<open>Connection ids and migration\<close>

definition current_outbound_cid :: "crypto_lib \<Rightarrow> session \<Rightarrow> bytes" where
  "current_outbound_cid L s = outbound_cid L (s_cid_chain s) (s_outbound_cid_index s)"

definition advance_outbound_cid :: "crypto_lib \<Rightarrow> session \<Rightarrow> bytes \<times> session" where
  "advance_outbound_cid L s =
     (let i = s_outbound_cid_index s + 1
      in (outbound_cid L (s_cid_chain s) i, s\<lparr>s_outbound_cid_index := i\<rparr>))"

definition note_migration_path :: "crypto_lib \<Rightarrow> u8 \<Rightarrow> session \<Rightarrow> cid_slide option \<times> session" where
  "note_migration_path L path_id s =
     (let fwd = path_id - s_last_seen_path_id s
      in if fwd = 0 \<or> fwd > 128 then (None, s)
         else
           let d = (ucast fwd :: u64);
               old_high = s_inbound_cid_highest_seen s;
               new_high = old_high + d;
               cid = inbound_cid L (s_cid_chain s)
           in (Some \<lparr>slide_add = map cid (u64_upto_incl (old_high + CID_WINDOW_LEADING + 1) (new_high + CID_WINDOW_LEADING)),
                     slide_remove = map cid (u64_upto (sat_sub old_high CID_WINDOW_TRAILING) (sat_sub new_high CID_WINDOW_TRAILING)),
                     slide_anchor = cid new_high\<rparr>,
               s\<lparr>s_last_seen_path_id := path_id, s_inbound_cid_highest_seen := new_high\<rparr>))"

definition note_peer_closed :: "session \<Rightarrow> session" where
  "note_peer_closed s = s\<lparr>s_peer_closed := True\<rparr>"

definition inbound_window_cids :: "crypto_lib \<Rightarrow> session \<Rightarrow> bytes list" where
  "inbound_window_cids L s =
     map snd (inbound_window L (s_cid_chain s) (s_inbound_cid_highest_seen s) CID_WINDOW_TRAILING CID_WINDOW_LEADING)"

definition current_send_path_id :: "session \<Rightarrow> u8" where
  "current_send_path_id s = s_send_path_id s"

definition next_migration_path_id :: "session \<Rightarrow> u8 \<times> session" where
  "next_migration_path_id s =
     (let n = s_send_path_id s + 1;
          nxt = (if n = 0 \<or> n = REBIND_VALIDATION_PATH_ID then 1 else n)
      in (nxt, s\<lparr>s_send_path_id := nxt\<rparr>))"

subsection \<open>State, streams and settings\<close>

definition set_state :: "session_state \<Rightarrow> session \<Rightarrow> session" where
  "set_state st s = s\<lparr>s_state := st\<rparr>"

definition open_stream :: "session \<Rightarrow> (core_error, stream_id) result \<times> session" where
  "open_stream s =
     (let i = s_next_stream_id s
      in if unat i < 65536
         then let sid = (ucast i :: stream_id)
              in (Ok sid, s\<lparr>s_next_stream_id := i + 1, s_streams := (s_streams s)(sid \<mapsto> stream_new sid)\<rparr>)
         else (Err StreamIdsExhausted, s))"

definition get_stream :: "stream_id \<Rightarrow> session \<Rightarrow> stream option" where
  "get_stream i s = s_streams s i"

definition close_stream :: "stream_id \<Rightarrow> session \<Rightarrow> bool \<times> session" where
  "close_stream i s = (s_streams s i \<noteq> None, s\<lparr>s_streams := (s_streams s)(i := None)\<rparr>)"

definition set_rekey_threshold :: "u64 \<Rightarrow> session \<Rightarrow> session" where
  "set_rekey_threshold n s = s\<lparr>s_rekey_after := max n 1\<rparr>"

definition session_padding_policy :: "session \<Rightarrow> padding_policy" where
  "session_padding_policy s = (if s_padding_policy s = 1 then Padme else NoPadding)"

definition set_padding_policy :: "padding_policy \<Rightarrow> session \<Rightarrow> session" where
  "set_padding_policy policy s = s\<lparr>s_padding_policy := (case policy of NoPadding \<Rightarrow> 0 | Padme \<Rightarrow> 1)\<rparr>"

definition send_jitter :: "session \<Rightarrow> nanos" where
  "send_jitter s = millis (unat (s_jitter_max_ms s))"

definition set_jitter_ms :: "u32 \<Rightarrow> session \<Rightarrow> session" where
  "set_jitter_ms ms s = s\<lparr>s_jitter_max_ms := ms\<rparr>"

definition cover_interval :: "session \<Rightarrow> nanos" where
  "cover_interval s = millis (unat (s_cover_min_interval_ms s))"

definition set_cover_interval_ms :: "u32 \<Rightarrow> session \<Rightarrow> session" where
  "set_cover_interval_ms ms s = s\<lparr>s_cover_min_interval_ms := ms\<rparr>"

definition set_resumption_secret :: "bytes \<Rightarrow> session \<Rightarrow> session" where
  "set_resumption_secret secret s = s\<lparr>s_resumption_secret := Some secret\<rparr>"

definition can_resume :: "session \<Rightarrow> bool" where
  "can_resume s \<longleftrightarrow> s_resumption_secret s \<noteq> None"

definition resumption_hint :: "session \<Rightarrow> (bytes \<times> bytes) option" where
  "resumption_hint s = map_option (\<lambda>secret. (s_id s, secret)) (s_resumption_secret s)"

definition update_activity :: "nanos \<Rightarrow> session \<Rightarrow> session" where
  "update_activity now s = s\<lparr>s_last_activity := now, s_keepalive_outstanding := False\<rparr>"

definition mark_keepalive_outstanding :: "session \<Rightarrow> session" where
  "mark_keepalive_outstanding s = s\<lparr>s_keepalive_outstanding := True\<rparr>"

definition is_expired :: "nanos \<Rightarrow> nanos \<Rightarrow> session \<Rightarrow> bool" where
  "is_expired now timeout s \<longleftrightarrow> now - s_last_activity s > timeout"

definition mark_path_seen :: "nanos \<Rightarrow> u8 \<Rightarrow> session \<Rightarrow> session" where
  "mark_path_seen now path_id s = s\<lparr>s_path_registry := path_mark_seen now path_id (s_path_registry s)\<rparr>"

subsection \<open>Rekeying\<close>

text \<open>The HKDF chain of the traffic secret.\<close>

fun ratchet_secret :: "crypto_lib \<Rightarrow> nat \<Rightarrow> bytes \<Rightarrow> (core_error, bytes) result" where
  "ratchet_secret L 0 secret = Ok secret"
| "ratchet_secret L (Suc n) secret =
     (if length secret < 32 then Err KeyDerivationError
      else case hkdf_expand_prk L secret ''phantom-rekey-v1'' 32 of
             None \<Rightarrow> Err KeyDerivationError
           | Some nxt \<Rightarrow> ratchet_secret L n nxt)"

definition derive_forward_crypto ::
  "crypto_lib \<Rightarrow> u8 \<Rightarrow> session \<Rightarrow> (core_error, bytes \<times> crypto_state) result" where
  "derive_forward_crypto L steps s =
     (case ratchet_secret L (unat steps) (s_traffic_secret s) of
        Inl e \<Rightarrow> Err e
      | Inr secret \<Rightarrow>
          (case crypto_state_new L secret (s_is_server s) of
             Inl e \<Rightarrow> Err e
           | Inr crypto \<Rightarrow> Ok (secret, crypto)))"

definition commit_forward_crypto :: "u8 \<Rightarrow> bytes \<Rightarrow> crypto_state \<Rightarrow> session \<Rightarrow> session" where
  "commit_forward_crypto steps secret crypto s =
     s\<lparr>s_crypto := crypto, s_traffic_secret := secret, s_epoch := sat_add (s_epoch s) steps\<rparr>"

definition rekey :: "crypto_lib \<Rightarrow> session \<Rightarrow> (core_error, u8) result \<times> session" where
  "rekey L s =
     (if s_epoch s = 255 then (Err (CryptoFailure EpochSaturated), s)
      else case derive_forward_crypto L 1 s of
             Inl e \<Rightarrow> (Err e, s)
           | Inr (secret, crypto) \<Rightarrow>
               (Ok (s_epoch s + 1), (commit_forward_crypto 1 secret crypto s)\<lparr>s_rekey_unconfirmed := True\<rparr>))"

definition send_invocations :: "session \<Rightarrow> u64" where
  "send_invocations s = state_send_invocations (s_crypto s)"

definition send_needs_rekey :: "session \<Rightarrow> bool" where
  "send_needs_rekey s \<longleftrightarrow> s_epoch s < 255 \<and> send_invocations s \<ge> s_rekey_after s"

definition confirm_rekey_caught_up :: "session \<Rightarrow> session" where
  "confirm_rekey_caught_up s = s\<lparr>s_rekey_unconfirmed := False\<rparr>"

subsection \<open>Sealing and opening packets\<close>

definition next_send_pn :: "session \<Rightarrow> packet_number \<times> session" where
  "next_send_pn s = (s_send_packet_number s, s\<lparr>s_send_packet_number := s_send_packet_number s + 1\<rparr>)"

definition build_packet_nonce :: "bytes \<Rightarrow> packet_header \<Rightarrow> bytes" where
  "build_packet_nonce prefix header = prefix @ to_be_bytes (hdr_packet_number header)"

definition packet_aad :: "packet_header \<Rightarrow> bytes \<Rightarrow> bytes" where
  "packet_aad header extensions =
     (if extensions = [] then to_aad_image header else to_aad_image header @ extensions)"

definition encrypt_packet ::
  "crypto_lib \<Rightarrow> packet_header \<Rightarrow> bytes \<Rightarrow> bytes \<Rightarrow> session \<Rightarrow> (core_error, bytes) result \<times> session" where
  "encrypt_packet L header plaintext extensions s =
     (let nonce = build_packet_nonce (state_nonce_prefix (s_crypto s)) header;
          (r, st) = state_encrypt L nonce (packet_aad header extensions) plaintext (s_crypto s)
      in (r, s\<lparr>s_crypto := st\<rparr>))"

definition replay_check :: "packet_number \<Rightarrow> bytes \<Rightarrow> session \<Rightarrow> (core_error, bytes) result \<times> session" where
  "replay_check pn plaintext s =
     (let (accepted, w) = accept (s_recv_replay s) pn
      in if accepted then (Ok plaintext, s\<lparr>s_recv_replay := w\<rparr>)
         else (Err (ReplayDetected pn),
               s\<lparr>s_recv_replay := w, s_replay_rejected_total := s_replay_rejected_total s + 1\<rparr>))"

definition decrypt_packet ::
  "crypto_lib \<Rightarrow> packet_header \<Rightarrow> bytes \<Rightarrow> bytes \<Rightarrow> session \<Rightarrow> (core_error, bytes) result \<times> session" where
  "decrypt_packet L header ciphertext extensions s =
     (let nonce = build_packet_nonce (state_nonce_prefix (s_crypto s)) header;
          (r, st) = state_decrypt L nonce (packet_aad header extensions) ciphertext (s_crypto s);
          s1 = s\<lparr>s_crypto := st\<rparr>
      in case r of
           Inl e \<Rightarrow> (Err e, s1)
         | Inr plaintext \<Rightarrow> replay_check (hdr_packet_number header) plaintext s1)"

definition decrypt_packet_accepting_rekey ::
  "crypto_lib \<Rightarrow> packet_header \<Rightarrow> bytes \<Rightarrow> bytes \<Rightarrow> session \<Rightarrow> (core_error, bytes) result \<times> session" where
  "decrypt_packet_accepting_rekey L header ciphertext extensions s =
     (let cur = s_epoch s in
      if hdr_epoch header = cur then
        (case decrypt_packet L header ciphertext extensions s of
           (Inl e, s1) \<Rightarrow> (Err e, s1)
         | (Inr pt, s1) \<Rightarrow> (Ok pt, confirm_rekey_caught_up s1))
      else if hdr_epoch header < cur then (Err (CryptoFailure (EpochBehind (hdr_epoch header) cur)), s)
      else if \<not> flags_contains (hdr_flags header) F_REKEY
      then (Err (CryptoFailure (ForwardWithoutRekey (hdr_epoch header) cur)), s)
      else
        let steps = hdr_epoch header - cur in
        if steps > MAX_REKEY_CATCHUP then (Err (CryptoFailure (EpochTooFarAhead (hdr_epoch header) cur)), s)
        else case derive_forward_crypto L steps s of
               Inl e \<Rightarrow> (Err e, s)
             | Inr (secret, crypto) \<Rightarrow>
                 let nonce = build_packet_nonce (state_nonce_prefix crypto) header;
                     (r, crypto1) = state_decrypt L nonce (packet_aad header extensions) ciphertext crypto
                 in case r of
                      Inl e \<Rightarrow> (Err e, s)
                    | Inr plaintext \<Rightarrow>
                        let s1 = commit_forward_crypto steps secret crypto1 s
                        in case replay_check (hdr_packet_number header) plaintext s1 of
                             (Inl e, s2) \<Rightarrow> (Err e, s2)
                           | (Inr pt, s2) \<Rightarrow> (Ok pt, confirm_rekey_caught_up s2))"

subsection \<open>Header protection\<close>

definition hp_sample :: "bytes \<Rightarrow> (core_error, bytes) result" where
  "hp_sample payload =
     (if length payload \<ge> HP_SAMPLE_LEN then Ok (take HP_SAMPLE_LEN payload) else Err (CryptoFailure HpShortPayload))"

definition protect_packet :: "crypto_lib \<Rightarrow> phantom_packet \<Rightarrow> session \<Rightarrow> (core_error, bytes) result" where
  "protect_packet L packet s =
     (case hp_sample (pkt_payload packet) of
        Inl e \<Rightarrow> Err e
      | Inr smp \<Rightarrow>
          (case mask_send L (s_header_protection s) smp of
             None \<Rightarrow> Err (CryptoFailure MaskFailed)
           | Some m \<Rightarrow> Ok (to_wire_masked packet m)))"

definition parse_protected :: "crypto_lib \<Rightarrow> bytes \<Rightarrow> session \<Rightarrow> (core_error, phantom_packet) result" where
  "parse_protected L bs s =
     (case raw_from_wire bs of
        Inl e \<Rightarrow> Err (CryptoFailure (HpMalformed e))
      | Inr raw \<Rightarrow>
          (case hp_sample (raw_payload raw) of
             Inl e \<Rightarrow> Err e
           | Inr smp \<Rightarrow>
               (case mask_recv L (s_header_protection s) smp of
                  None \<Rightarrow> Err (CryptoFailure MaskFailed)
                | Some m \<Rightarrow>
                    (case unmask_header raw m of
                       Inl e \<Rightarrow> Err (CryptoFailure (HpUnmask e))
                     | Inr header \<Rightarrow> Ok (into_packet raw (header\<lparr>hdr_session_id := s_id s\<rparr>))))))"

subsection \<open>Sending application data\<close>

definition rekey_before_stamp :: "crypto_lib \<Rightarrow> session \<Rightarrow> packet_flags option \<times> session" where
  "rekey_before_stamp L s =
     (let (r, s1) = (if send_needs_rekey s then rekey L s else (Ok 0, s))
      in case r of
           Inl e \<Rightarrow> (None, s1)
         | Inr _ \<Rightarrow> (Some (if s_rekey_unconfirmed s1 then F_REKEY else 0), s1))"

text \<open>
  \<open>send_app_data\<close>; the result is the datagram handed to the transport, with
  \<open>transport_ok\<close> saying whether the transport took it (the source returns \<open>false\<close>
  where this returns \<open>None\<close>).
\<close>

definition send_app_data ::
  "crypto_lib \<Rightarrow> bool \<Rightarrow> stream_id \<Rightarrow> bytes \<Rightarrow> packet_flags \<Rightarrow> u32 option \<Rightarrow> session \<Rightarrow> bytes option \<times> session" where
  "send_app_data L transport_ok stream payload base_flags reliable_offset s =
     (let flag_bits = base_flags OR F_ENCRYPTED in
      case rekey_before_stamp L s of
        (None, s1) \<Rightarrow> (None, s1)
      | (Some extra, s1) \<Rightarrow>
          let (pn, s2) = next_send_pn s1;
              (plaintext, padded) = shaped_plaintext (session_padding_policy s2) (app_plaintext reliable_offset payload);
              flag_bits = flag_bits OR extra;
              flag_bits = (if padded then flag_bits OR F_PADDED else flag_bits);
              header = with_path_id (with_epoch (header_new (s_id s) stream pn flag_bits) (s_epoch s2))
                         (current_send_path_id s2)
          in case encrypt_packet L header plaintext [] s2 of
               (Inl e, s3) \<Rightarrow> (None, s3)
             | (Inr ciphertext, s3) \<Rightarrow>
                 (case protect_packet L (packet_new header ciphertext) s3 of
                    Inl e \<Rightarrow> (None, s3)
                  | Inr buf \<Rightarrow>
                      if transport_ok
                      then (Some buf, s3\<lparr>s_pacer := pacer_consume (word_of_nat (length buf)) (s_pacer s3)\<rparr>)
                      else (None, s3)))"

subsection \<open>The key chain\<close>

lemma ratchet_secret_ok:
  assumes "kdf_ok L" "length secret = 32"
  obtains k where "ratchet_secret L n secret = Ok k" "length k = 32"
proof -
  have "\<exists>k. ratchet_secret L n secret = Ok k \<and> length k = 32"
    using assms(2)
  proof (induction n arbitrary: secret)
    case (Suc n)
    obtain nx where "hkdf_expand_prk L secret ''phantom-rekey-v1'' 32 = Some nx" "length nx = 32"
      using assms(1) Suc.prems unfolding kdf_ok_def by blast
    then show ?case using Suc.IH[of nx] Suc.prems by simp
  qed simp
  then show ?thesis using that by blast
qed

lemma ratchet_secret_add:
  "ratchet_secret L m secret = Ok k \<Longrightarrow> ratchet_secret L (m + n) secret = ratchet_secret L n k"
  by (induction m arbitrary: secret) (auto split: if_splits option.splits)

definition lib_suite :: "crypto_lib \<Rightarrow> cipher_suite" where
  "lib_suite L = recommended_cipher (fips_build L) (has_hw_aes L)"

definition same_keys :: "crypto_session \<Rightarrow> crypto_session \<Rightarrow> bool" where
  "same_keys a b \<longleftrightarrow> cs_suite a = cs_suite b \<and> cs_send_key a = cs_send_key b \<and> cs_recv_key a = cs_recv_key b
     \<and> cs_nonce_prefix a = cs_nonce_prefix b"

text \<open>A session whose keys are those of its epoch in the chain that starts at \<open>secret\<close>.\<close>

definition on_chain :: "crypto_lib \<Rightarrow> bytes \<Rightarrow> session \<Rightarrow> bool" where
  "on_chain L secret s \<longleftrightarrow> length secret = 32
     \<and> ratchet_secret L (unat (s_epoch s)) secret = Ok (s_traffic_secret s)
     \<and> (\<exists>c. crypto_state_new L (s_traffic_secret s) (s_is_server s) = Ok c
            \<and> same_keys (cst_session (s_crypto s)) (cst_session c))
     \<and> s_header_protection s = hp_derive L (lib_suite L) secret (s_is_server s)"

lemma on_chain_secret_length:
  assumes "kdf_ok L" "on_chain L secret s" shows "length (s_traffic_secret s) = 32"
  using ratchet_secret_ok[OF assms(1), of secret "unat (s_epoch s)"] assms(2) by (auto simp: on_chain_def)

lemma crypto_state_new_suite:
  "crypto_state_new L secret side = Ok c \<Longrightarrow> cs_suite (cst_session c) = lib_suite L"
  by (auto simp: crypto_state_new_def from_shared_secret_def from_shared_secret_peer_def build_session_def
      lib_suite_def Let_def split: sum.splits option.splits if_splits)

lemma on_chain_new:
  assumes "kdf_ok L" "length secret = 32"
  obtains s where "session_new L now sid secret side = Ok s" "on_chain L secret s" "s_is_server s = side"
    "s_id s = sid" "s_epoch s = 0" "\<not> s_rekey_unconfirmed s"
proof -
  obtain c where c: "crypto_state_new L secret side = Ok c" by (rule crypto_state_new_ok[OF assms])
  then show ?thesis
    using that[of "session_init L now sid SHandshaking c secret side None"] assms crypto_state_new_suite[OF c]
    by (simp add: session_new_def session_init_def on_chain_def same_keys_def)
qed

lemma on_chain_peers:
  assumes "kdf_ok L" "on_chain L secret a" "on_chain L secret b" "s_epoch a = s_epoch b"
    "s_is_server a \<noteq> s_is_server b"
  shows "session_peers (cst_session (s_crypto a)) (cst_session (s_crypto b))"
proof -
  have t: "s_traffic_secret a = s_traffic_secret b" using assms(2-4) by (simp add: on_chain_def)
  have sv: "s_is_server b = (\<not> s_is_server a)" using assms(5) by simp
  obtain ca where ca: "crypto_state_new L (s_traffic_secret a) (s_is_server a) = Ok ca"
      "same_keys (cst_session (s_crypto a)) (cst_session ca)" using assms(2) by (auto simp: on_chain_def)
  obtain cb where cb: "crypto_state_new L (s_traffic_secret a) (\<not> s_is_server a) = Ok cb"
      "same_keys (cst_session (s_crypto b)) (cst_session cb)" using assms(3) t sv by (auto simp: on_chain_def)
  show ?thesis using crypto_state_peers[OF assms(1) ca(1) cb(1)] ca(2) cb(2)
    by (auto simp: session_peers_def same_keys_def)
qed

text \<open>Stepping along the chain.\<close>

lemma derive_forward_ok:
  assumes "kdf_ok L" "on_chain L secret s"
  obtains k c where "derive_forward_crypto L n s = Ok (k, c)" "length k = 32"
    "ratchet_secret L (unat (s_epoch s) + unat n) secret = Ok k"
    "crypto_state_new L k (s_is_server s) = Ok c"
    "cs_send_counter (cst_session c) = 0" "cs_recv_counter (cst_session c) = 0"
proof -
  obtain k where k: "ratchet_secret L (unat n) (s_traffic_secret s) = Ok k" "length k = 32"
    using ratchet_secret_ok[OF assms(1) on_chain_secret_length[OF assms]] by blast
  obtain c where c: "crypto_state_new L k (s_is_server s) = Ok c" "cs_send_counter (cst_session c) = 0"
      "cs_recv_counter (cst_session c) = 0" by (rule crypto_state_new_ok[OF assms(1) k(2)])
  have "ratchet_secret L (unat (s_epoch s) + unat n) secret = Ok k"
    using ratchet_secret_add[of L "unat (s_epoch s)" secret "s_traffic_secret s" "unat n"] assms(2) k(1)
    by (simp add: on_chain_def)
  then show ?thesis using that[of k c] k c by (simp add: derive_forward_crypto_def)
qed

lemma commit_on_chain:
  assumes "on_chain L secret s" "ratchet_secret L (unat (s_epoch s) + unat n) secret = Ok k"
    "unat (s_epoch s) + unat n \<le> 255"
    "crypto_state_new L k (s_is_server s) = Ok c" "same_keys (cst_session c') (cst_session c)"
  shows "on_chain L secret (commit_forward_crypto n k c' s)"
proof -
  have "unat (sat_add (s_epoch s) n) = unat (s_epoch s) + unat n" using assms(3) by (simp add: unat_sat_add)
  then show ?thesis using assms by (simp add: on_chain_def commit_forward_crypto_def)
qed

text \<open>What changes to a session leave its place on the chain.\<close>

lemma on_chain_cong:
  assumes "on_chain L secret s" "s_epoch t = s_epoch s" "s_traffic_secret t = s_traffic_secret s"
    "s_is_server t = s_is_server s" "same_keys (cst_session (s_crypto t)) (cst_session (s_crypto s))"
    "s_header_protection t = s_header_protection s"
  shows "on_chain L secret t"
  using assms by (auto simp: on_chain_def same_keys_def)

lemma same_keys_refl [simp]: "same_keys a a"
  by (simp add: same_keys_def)

lemma state_decrypt_keys: "same_keys (cst_session (snd (state_decrypt L n a c st))) (cst_session st)"
  by (simp add: state_decrypt_def decrypt_with_nonce_def same_keys_def split_beta Let_def split: option.splits)

lemma state_encrypt_keys: "same_keys (cst_session (snd (state_encrypt L n a c st))) (cst_session st)"
  by (simp add: state_encrypt_def encrypt_with_nonce_def same_keys_def split_beta Let_def split: option.splits)

lemma rekey_ok:
  assumes "kdf_ok L" "on_chain L secret s" "s_epoch s \<noteq> 255"
  obtains t where "rekey L s = (Ok (s_epoch s + 1), t)" "on_chain L secret t" "unat (s_epoch t) = unat (s_epoch s) + 1"
    "s_rekey_unconfirmed t" "s_is_server t = s_is_server s" "s_id t = s_id s"
    "s_send_packet_number t = s_send_packet_number s" "s_recv_replay t = s_recv_replay s"
    "cs_send_counter (cst_session (s_crypto t)) = 0" "cs_recv_counter (cst_session (s_crypto t)) = 0"
    "s_rekey_after t = s_rekey_after s" "s_padding_policy t = s_padding_policy s"
proof -
  obtain k c where kc: "derive_forward_crypto L 1 s = Ok (k, c)"
    "ratchet_secret L (unat (s_epoch s) + unat (1 :: u8)) secret = Ok k"
    "crypto_state_new L k (s_is_server s) = Ok c"
    "cs_send_counter (cst_session c) = 0" "cs_recv_counter (cst_session c) = 0"
    by (rule derive_forward_ok[OF assms(1,2)])
  have "unat (s_epoch s) \<noteq> unat (255 :: u8)" using assms(3) by (simp only: unat_inject not_False_eq_True)
  then have e: "unat (s_epoch s) + unat (1 :: u8) \<le> 255" using unat_u8_bound[of "s_epoch s"] by simp
  have "on_chain L secret (commit_forward_crypto 1 k c s)"
    by (rule commit_on_chain[OF assms(2) kc(2) e kc(3)]) simp
  then have "on_chain L secret ((commit_forward_crypto 1 k c s)\<lparr>s_rekey_unconfirmed := True\<rparr>)"
    by (rule on_chain_cong) simp_all
  moreover have "unat (sat_add (s_epoch s) 1) = unat (s_epoch s) + 1" using e by (simp add: unat_sat_add)
  ultimately show ?thesis
    using that[of "(commit_forward_crypto 1 k c s)\<lparr>s_rekey_unconfirmed := True\<rparr>"] kc assms(3)
    by (simp add: rekey_def commit_forward_crypto_def)
qed

subsection \<open>Opening packets\<close>

text \<open>What no receive or send step changes.\<close>

definition same_identity :: "session \<Rightarrow> session \<Rightarrow> bool" where
  "same_identity a b \<longleftrightarrow> s_id a = s_id b \<and> s_is_server a = s_is_server b
     \<and> s_header_protection a = s_header_protection b \<and> s_send_packet_number a = s_send_packet_number b
     \<and> s_rekey_after a = s_rekey_after b \<and> s_padding_policy a = s_padding_policy b \<and> s_send_path_id a = s_send_path_id b"

lemma replay_check_cases:
  obtains (fresh) w where "accept (s_recv_replay s) pn = (True, w)" "replay_check pn pt s = (Ok pt, s\<lparr>s_recv_replay := w\<rparr>)"
  | (seen) w where "accept (s_recv_replay s) pn = (False, w)" "replay_check pn pt s = (Err (ReplayDetected pn),
      s\<lparr>s_recv_replay := w, s_replay_rejected_total := s_replay_rejected_total s + 1\<rparr>)"
proof -
  obtain b w where "accept (s_recv_replay s) pn = (b, w)" by (rule prod.exhaust)
  then show ?thesis using fresh seen by (cases b) (simp_all add: replay_check_def)
qed

lemma decrypt_packet_cases:
  obtains (refused) a where "decrypt_packet L h c x s = (Err (CryptoFailure (Aead a)), s)"
  | (opened) pt n where
      "aead_open L (cs_suite (cst_session (s_crypto s))) (cs_recv_key (cst_session (s_crypto s)))
         (build_packet_nonce (state_nonce_prefix (s_crypto s)) h) (packet_aad h x) c = Some pt"
      "decrypt_packet L h c x s = replay_check (hdr_packet_number h) pt
         (s\<lparr>s_crypto := (s_crypto s)\<lparr>cst_session := (cst_session (s_crypto s))\<lparr>cs_recv_counter := n\<rparr>\<rparr>\<rparr>)"
proof -
  let ?cs = "cst_session (s_crypto s)"
  let ?o = "aead_open L (cs_suite ?cs) (cs_recv_key ?cs) (build_packet_nonce (state_nonce_prefix (s_crypto s)) h) (packet_aad h x) c"
  consider (full) "AEAD_MAX_INVOCATIONS \<le> cs_recv_counter ?cs"
    | (bad) "\<not> AEAD_MAX_INVOCATIONS \<le> cs_recv_counter ?cs" "?o = None"
    | (good) pt where "\<not> AEAD_MAX_INVOCATIONS \<le> cs_recv_counter ?cs" "?o = Some pt" by (cases ?o) blast+
  then show ?thesis
  proof cases
    case full
    then have "decrypt_packet L h c x s = (Err (CryptoFailure (Aead NonceExhausted)), s)"
      by (simp add: decrypt_packet_def state_decrypt_def decrypt_with_nonce_def Let_def)
    then show ?thesis by (rule refused)
  next
    case bad
    then have "decrypt_packet L h c x s = (Err (CryptoFailure (Aead DecryptionFailed)), s)"
      by (simp add: decrypt_packet_def state_decrypt_def decrypt_with_nonce_def Let_def)
    then show ?thesis by (rule refused)
  next
    case (good pt)
    then show ?thesis
      using opened[of pt "cs_recv_counter ?cs + 1"]
      by (simp add: decrypt_packet_def state_decrypt_def decrypt_with_nonce_def Let_def)
  qed
qed

text \<open>The crypto states a packet may be opened under.\<close>

definition candidate_keys :: "crypto_lib \<Rightarrow> packet_header \<Rightarrow> session \<Rightarrow> crypto_state set" where
  "candidate_keys L h s = insert (s_crypto s) {c. \<exists>k. derive_forward_crypto L (hdr_epoch h - s_epoch s) s = Ok (k, c)}"

definition opens_under :: "crypto_lib \<Rightarrow> packet_header \<Rightarrow> bytes \<Rightarrow> bytes \<Rightarrow> crypto_state \<Rightarrow> bool" where
  "opens_under L h c x st \<longleftrightarrow> aead_open L (cs_suite (cst_session st)) (cs_recv_key (cst_session st))
     (build_packet_nonce (state_nonce_prefix st) h) (packet_aad h x) c \<noteq> None"

text \<open>
  The outcomes of \<open>decrypt_packet_accepting_rekey\<close>: refused with the session
  unchanged; opened at the current epoch; opened \<open>n\<close> epochs ahead.
\<close>

lemma accepting_rekey_cases:
  obtains (refused) e where "decrypt_packet_accepting_rekey L h c x s = (Err e, s)"
      "\<And>a b. e = CryptoFailure (ForwardWithoutRekey a b) \<Longrightarrow> s_epoch s < hdr_epoch h \<and> \<not> flags_contains (hdr_flags h) F_REKEY"
  | (current) pt n s1 r s2 where "hdr_epoch h = s_epoch s" "opens_under L h c x (s_crypto s)"
      "s1 = s\<lparr>s_crypto := (s_crypto s)\<lparr>cst_session := (cst_session (s_crypto s))\<lparr>cs_recv_counter := n\<rparr>\<rparr>\<rparr>"
      "replay_check (hdr_packet_number h) pt s1 = (r, s2)"
      "decrypt_packet_accepting_rekey L h c x s = (r, if isl r then s2 else confirm_rekey_caught_up s2)"
  | (forward) k crypto crypto1 pt s1 r s2 where "s_epoch s < hdr_epoch h" "flags_contains (hdr_flags h) F_REKEY"
      "hdr_epoch h - s_epoch s \<le> MAX_REKEY_CATCHUP"
      "derive_forward_crypto L (hdr_epoch h - s_epoch s) s = Ok (k, crypto)" "opens_under L h c x crypto"
      "same_keys (cst_session crypto1) (cst_session crypto)"
      "s1 = commit_forward_crypto (hdr_epoch h - s_epoch s) k crypto1 s"
      "replay_check (hdr_packet_number h) pt s1 = (r, s2)"
      "decrypt_packet_accepting_rekey L h c x s = (r, if isl r then s2 else confirm_rekey_caught_up s2)"
proof -
  let ?d = "decrypt_packet_accepting_rekey L h c x s"
  consider (eq) "hdr_epoch h = s_epoch s" | (lt) "hdr_epoch h < s_epoch s" | (gt) "s_epoch s < hdr_epoch h"
    by (rule linorder_cases)
  then show ?thesis
  proof cases
    case eq
    show ?thesis
    proof (cases rule: decrypt_packet_cases[of L h c x s])
      case (refused a)
      then show ?thesis using that(1)[of "CryptoFailure (Aead a)"] eq
        by (simp add: decrypt_packet_accepting_rekey_def Let_def)
    next
      case (opened pt n)
      obtain r s2 where r: "replay_check (hdr_packet_number h) pt
         (s\<lparr>s_crypto := (s_crypto s)\<lparr>cst_session := (cst_session (s_crypto s))\<lparr>cs_recv_counter := n\<rparr>\<rparr>\<rparr>) = (r, s2)"
        by (rule prod.exhaust)
      have "?d = (r, if isl r then s2 else confirm_rekey_caught_up s2)"
        using eq opened(2) r by (cases r) (simp_all add: decrypt_packet_accepting_rekey_def Let_def)
      then show ?thesis using that(2)[OF eq _ refl r] opened(1) by (simp add: opens_under_def)
    qed
  next
    case lt
    then have "hdr_epoch h \<noteq> s_epoch s" by simp
    then have "?d = (Err (CryptoFailure (EpochBehind (hdr_epoch h) (s_epoch s))), s)"
      using lt by (simp add: decrypt_packet_accepting_rekey_def Let_def)
    then show ?thesis by (rule that(1)) simp
  next
    case gt
    then have ne: "hdr_epoch h \<noteq> s_epoch s" "\<not> hdr_epoch h < s_epoch s" by simp_all
    show ?thesis
    proof (cases "flags_contains (hdr_flags h) F_REKEY \<and> hdr_epoch h - s_epoch s \<le> MAX_REKEY_CATCHUP")
      case False
      then have "?d = (Err (CryptoFailure (if flags_contains (hdr_flags h) F_REKEY
          then EpochTooFarAhead (hdr_epoch h) (s_epoch s) else ForwardWithoutRekey (hdr_epoch h) (s_epoch s))), s)"
        using ne by (simp add: decrypt_packet_accepting_rekey_def Let_def linorder_not_le)
      then show ?thesis by (rule that(1)) (use gt in \<open>auto split: if_splits\<close>)
    next
      case True
      then have t: "flags_contains (hdr_flags h) F_REKEY" "hdr_epoch h - s_epoch s \<le> MAX_REKEY_CATCHUP"
        "\<not> MAX_REKEY_CATCHUP < hdr_epoch h - s_epoch s" by (simp_all add: linorder_not_less)
      show ?thesis
      proof (cases "derive_forward_crypto L (hdr_epoch h - s_epoch s) s")
        case (Inl e)
        have e: "e \<noteq> CryptoFailure (ForwardWithoutRekey a b)" for a b
        proof -
          have "ratchet_secret L n y \<noteq> Inl (CryptoFailure (ForwardWithoutRekey a b))" for n y
            by (induction n arbitrary: y) (auto split: option.splits)
          moreover have "crypto_state_new L y z \<noteq> Inl (CryptoFailure (ForwardWithoutRekey a b))" for y z
            by (auto simp: crypto_state_new_def from_shared_secret_def from_shared_secret_peer_def build_session_def
              Let_def split: sum.splits option.splits if_splits)
          ultimately show ?thesis using Inl by (auto simp: derive_forward_crypto_def split: sum.splits)
        qed
        then show ?thesis using that(1)[of e] ne t Inl by (simp add: decrypt_packet_accepting_rekey_def Let_def)
      next
        case (Inr kc)
        obtain k crypto where kc: "kc = (k, crypto)" by (rule prod.exhaust)
        let ?sd = "state_decrypt L (build_packet_nonce (state_nonce_prefix crypto) h) (packet_aad h x) c crypto"
        obtain r crypto1 where sd: "?sd = (r, crypto1)" by (rule prod.exhaust)
        show ?thesis
        proof (cases r)
          case (Inl e)
          then have "e \<noteq> CryptoFailure (ForwardWithoutRekey a b)" for a b using sd
            by (auto simp: state_decrypt_def decrypt_with_nonce_def Let_def split: if_splits option.splits)
          then show ?thesis using that(1)[of e] ne t Inr kc sd Inl
            by (simp add: decrypt_packet_accepting_rekey_def Let_def)
        next
          case (Inr pt)
          let ?s1 = "commit_forward_crypto (hdr_epoch h - s_epoch s) k crypto1 s"
          obtain r2 s2 where r2: "replay_check (hdr_packet_number h) pt ?s1 = (r2, s2)" by (rule prod.exhaust)
          have "?d = (r2, if isl r2 then s2 else confirm_rekey_caught_up s2)"
            using ne t \<open>derive_forward_crypto L _ s = Inr kc\<close> kc sd Inr r2
            by (cases r2) (simp_all add: decrypt_packet_accepting_rekey_def Let_def)
          moreover have "opens_under L h c x crypto" using sd Inr
            by (auto simp: opens_under_def state_decrypt_def decrypt_with_nonce_def Let_def split: if_splits option.splits)
          moreover have "same_keys (cst_session crypto1) (cst_session crypto)"
            using state_decrypt_keys[of L _ _ c crypto] sd by (metis snd_conv)
          ultimately show ?thesis
            using that(3)[OF gt t(1,2) _ _ _ refl r2] \<open>derive_forward_crypto L _ s = Inr kc\<close> kc by simp
        qed
      qed
    qed
  qed
qed

subsection \<open>Catching up to an epoch\<close>

lemma rekey_epoch:
  assumes "rekey L s = (Inr e, t)"
  shows "unat (s_epoch t) = unat (s_epoch s) + 1"
proof -
  have "s_epoch s \<noteq> 255" "s_epoch t = sat_add (s_epoch s) 1"
    using assms by (auto simp: rekey_def commit_forward_crypto_def split: if_splits sum.splits)
  moreover have "unat (s_epoch s) \<noteq> unat (255 :: u8)" using calculation(1) by (simp only: unat_inject not_False_eq_True)
  ultimately show ?thesis using unat_u8_bound[of "s_epoch s"] by (simp add: unat_sat_add)
qed

function ratchet_to_epoch :: "crypto_lib \<Rightarrow> u8 \<Rightarrow> session \<Rightarrow> (core_error, unit) result \<times> session" where
  "ratchet_to_epoch L target s =
     (if s_epoch s < target
      then case rekey L s of
             (Inl e, s1) \<Rightarrow> (Err e, s1)
           | (Inr _, s1) \<Rightarrow> ratchet_to_epoch L target s1
      else (Ok (), s))"
  by pat_completeness auto
termination
  by (relation "measure (\<lambda>(L, target, s). unat target - unat (s_epoch s))")
    (auto simp: word_less_nat_alt dest!: rekey_epoch[OF sym])

declare ratchet_to_epoch.simps [simp del]

subsection \<open>Migration\<close>

text \<open>A migration of the sender (\<open>migrate\<close>) whose first packet the receiver authenticates.\<close>

definition migrate_once :: "crypto_lib \<Rightarrow> session \<times> session \<Rightarrow> session \<times> session" where
  "migrate_once L = (\<lambda>(a, b).
     let (p, a1) = next_migration_path_id a; (cid, a2) = advance_outbound_cid L a1
     in (a2, snd (note_migration_path L p b)))"

definition migrated :: "nat \<Rightarrow> session \<times> session \<Rightarrow> bool" where
  "migrated n = (\<lambda>(a, b). unat (s_send_path_id a) = (if n = 0 then 0 else (n - 1) mod 254 + 1)
     \<and> s_last_seen_path_id b = s_send_path_id a \<and> unat (s_outbound_cid_index a) = n
     \<and> unat (s_inbound_cid_highest_seen b) = n + 2 * ((n - 1) div 254))"

lemma note_migration_path_forward:
  assumes "path_id - s_last_seen_path_id b = d" "0 < d" "d \<le> 128"
  shows "s_last_seen_path_id (snd (note_migration_path L path_id b)) = path_id"
    "s_inbound_cid_highest_seen (snd (note_migration_path L path_id b)) = s_inbound_cid_highest_seen b + ucast d"
  using assms by (auto simp: note_migration_path_def Let_def)

lemma migrate_once_step:
  assumes m: "migrated n (a, b)" and n: "n < 2 ^ 32"
  shows "migrated (Suc n) (migrate_once L (a, b))"
proof -
  let ?p = "s_send_path_id a"
  define q where "q = fst (next_migration_path_id a)"
  have u: "unat ?p = (if n = 0 then 0 else (n - 1) mod 254 + 1)" using m by (simp add: migrated_def)
  have p254: "unat ?p \<le> 254" using u by (auto simp: Suc_le_eq)
  have p1: "unat (?p + 1) = unat ?p + 1" using p254 by (simp add: unat_word_ariths)
  have wrap: "?p + 1 = 0 \<or> ?p + 1 = REBIND_VALIDATION_PATH_ID \<longleftrightarrow> unat ?p = 254"
  proof -
    have "?p + 1 \<noteq> 0" using p1 by (metis Suc_eq_plus1 nat.distinct(1) unat_0)
    moreover have "?p + 1 = 255 \<longleftrightarrow> unat (?p + 1) = unat (255 :: u8)" by (simp only: unat_inject)
    ultimately show ?thesis using p1 by (simp)
  qed
  have q: "q = (if unat ?p = 254 then 1 else ?p + 1)" using wrap by (simp add: q_def next_migration_path_id_def Let_def)
  define d :: u8 where "d = (if unat ?p = 254 then 3 else 1)"
  have fwd: "q - ?p = d"
  proof (cases "unat ?p = 254")
    case True
    then have "?p = 254" using unat_inject[of ?p "254 :: u8"] by simp
    then show ?thesis by (simp add: q d_def)
  next
    case False
    then show ?thesis by (simp add: q d_def)
  qed
  have d: "0 < d" "d \<le> 128" "unat d = (if unat ?p = 254 then 3 else 1)" by (simp_all add: d_def)
  have last: "s_last_seen_path_id b = ?p" using m by (simp add: migrated_def)
  note r = note_migration_path_forward[OF fwd[folded last] d(1,2), of L]
  have hi: "unat (s_inbound_cid_highest_seen b) = n + 2 * ((n - 1) div 254)" using m by (simp add: migrated_def)
  have "(n - 1) div 254 \<le> n" by simp
  then have small: "n + 2 * ((n - 1) div 254) \<le> 3 * 2 ^ 32" using n by simp
  have hi': "unat (s_inbound_cid_highest_seen b + ucast d) = n + 2 * ((n - 1) div 254) + unat d"
  proof -
    have "(ucast d :: u64) = (if unat ?p = 254 then 3 else 1)" by (simp add: d_def)
    then show ?thesis using small d(3) hi by (simp add: unat_word_ariths)
  qed
  have idx: "unat (s_outbound_cid_index a) = n" using m by (simp add: migrated_def)
  then have idx': "unat (s_outbound_cid_index a + 1) = Suc n" using n by (simp add: unat_word_ariths)
  have arith: "unat q = n mod 254 + 1 \<and> n + 2 * ((n - 1) div 254) + unat d = Suc n + 2 * (n div 254)"
  proof (cases n)
    case 0
    then show ?thesis using u p1 q d(3) by simp
  next
    case (Suc k)
    have pk: "unat ?p = k mod 254 + 1" using u Suc by simp
    show ?thesis
    proof (cases "k mod 254 = 253")
      case True
      then have "Suc k mod 254 = 0" "Suc k div 254 = k div 254 + 1" by (simp_all add: mod_Suc div_Suc)
      then show ?thesis using pk True q d(3) Suc by simp
    next
      case False
      then have "Suc k mod 254 = k mod 254 + 1" "Suc k div 254 = k div 254" by (simp_all add: mod_Suc div_Suc)
      then show ?thesis using pk False q p1 d(3) Suc by simp
    qed
  qed
  have "migrate_once L (a, b) = (snd (advance_outbound_cid L (snd (next_migration_path_id a))), snd (note_migration_path L q b))"
    by (simp add: migrate_once_def q_def split_beta Let_def)
  then show ?thesis using r hi' idx' arith
    by (simp add: migrated_def advance_outbound_cid_def next_migration_path_id_def q_def Let_def)
qed

lemma migrate_run: "migrated 0 ab \<Longrightarrow> n \<le> 2 ^ 32 \<Longrightarrow> migrated n ((migrate_once L ^^ n) ab)"
proof (induction n)
  case (Suc n)
  obtain a b where ab: "(migrate_once L ^^ n) ab = (a, b)" by (rule prod.exhaust)
  show ?case using migrate_once_step[of n a b L] Suc ab by simp
qed simp

lemma u64_upto_incl_iff: "i \<in> set (u64_upto_incl lo hi) \<longleftrightarrow> lo \<le> i \<and> i \<le> hi"
proof
  assume "i \<in> set (u64_upto_incl lo hi)"
  then obtain n where n: "i = word_of_nat n" "unat lo \<le> n" "n \<le> unat hi"
    by (auto simp: u64_upto_incl_def less_Suc_eq_le)
  then have "unat i = n" using unat_bound[of hi] by (simp add: unat_of_nat)
  then show "lo \<le> i \<and> i \<le> hi" using n by (simp add: word_le_nat_alt)
next
  assume "lo \<le> i \<and> i \<le> hi"
  then have "unat lo \<le> unat i \<and> unat i < Suc (unat hi)" by (simp only: word_le_nat_alt less_Suc_eq_le)
  then have "unat i \<in> set [unat lo..<Suc (unat hi)]" by (simp only: set_upt atLeastLessThan_iff)
  then have "(word_of_nat (unat i) :: u64) \<in> set (u64_upto_incl lo hi)" unfolding u64_upto_incl_def set_map by (rule imageI)
  then show "i \<in> set (u64_upto_incl lo hi)" by simp
qed

lemma window_holds_iff:
  assumes "unat i = n" "unat hi = n + k" "n + k < 2 ^ 63"
  shows "i \<in> set (map fst (inbound_window L ch hi CID_WINDOW_TRAILING CID_WINDOW_LEADING)) \<longleftrightarrow> k \<le> 2"
proof -
  have "map fst (inbound_window L ch hi CID_WINDOW_TRAILING CID_WINDOW_LEADING)
      = u64_upto_incl (sat_sub hi CID_WINDOW_TRAILING) (sat_add hi CID_WINDOW_LEADING)"
    by (simp add: inbound_window_def comp_def)
  moreover have "i \<le> sat_add hi CID_WINDOW_LEADING" using assms
    by (simp add: word_le_nat_alt unat_sat_add CID_WINDOW_LEADING_def)
  moreover have "sat_sub hi CID_WINDOW_TRAILING \<le> i \<longleftrightarrow> k \<le> 2" using assms
    by (auto simp: word_le_nat_alt unat_sat_sub CID_WINDOW_TRAILING_def)
  ultimately show ?thesis by (simp only: u64_upto_incl_iff simp_thms)
qed

subsection \<open>Receiving\<close>

lemma receive_replay:
  assumes inv: "replay_inv (s_recv_replay s)" and d: "decrypt_packet_accepting_rekey L h c x s = (r, t)"
  shows "replay_inv (s_recv_replay t) \<and> dead (s_recv_replay s) \<subseteq> dead (s_recv_replay t)
    \<and> (\<not> isl r \<longrightarrow> hdr_packet_number h \<notin> dead (s_recv_replay s) \<and> hdr_packet_number h \<in> dead (s_recv_replay t))"
proof -
  let ?n = "hdr_packet_number h"
  note w = window.ask_iff[OF inv, of ?n] window.ask_refuses[OF inv, of ?n] window.ask_inv[OF inv, of ?n]
  have main: ?thesis if "replay_check ?n pt s1 = (r', s2)" "s_recv_replay s1 = s_recv_replay s"
    "(r, t) = (r', if isl r' then s2 else confirm_rekey_caught_up s2)" for pt s1 r' s2
  proof (cases rule: replay_check_cases[of s1 ?n pt])
    case (fresh w')
    then have "r = Ok pt" "s_recv_replay t = w'" using that by (simp_all add: confirm_rekey_caught_up_def)
    then show ?thesis using w fresh(1) that(2) by auto
  next
    case (seen w')
    then have "isl r" "s_recv_replay t = w'" using that by auto
    then show ?thesis using w seen(1) that(2) by auto
  qed
  show ?thesis
  proof (cases rule: accepting_rekey_cases[of L h c x s])
    case (refused e)
    then show ?thesis using d inv by auto
  next
    case (current pt n s1 r' s2)
    then show ?thesis using main[of pt s1 r' s2] d by simp
  next
    case (forward k crypto crypto1 pt s1 r' s2)
    then show ?thesis using main[of pt s1 r' s2] d by (simp add: commit_forward_crypto_def)
  qed
qed

text \<open>The packet numbers of what a session delivers, over any mix of arrivals and own key rotations.\<close>

datatype channel_event = Arrival packet_header bytes bytes | OwnRekey

fun deliveries :: "crypto_lib \<Rightarrow> channel_event list \<Rightarrow> session \<Rightarrow> packet_number list" where
  "deliveries L [] s = []"
| "deliveries L (OwnRekey # es) s = deliveries L es (snd (rekey L s))"
| "deliveries L (Arrival h c x # es) s =
     (let (r, t) = decrypt_packet_accepting_rekey L h c x s
      in if isl r then deliveries L es t else hdr_packet_number h # deliveries L es t)"

lemma rekey_replay [simp]: "s_recv_replay (snd (rekey L s)) = s_recv_replay s"
  by (simp add: rekey_def commit_forward_crypto_def split: sum.splits)

lemma deliveries_fresh:
  "replay_inv (s_recv_replay s) \<Longrightarrow> distinct (deliveries L es s) \<and> set (deliveries L es s) \<inter> dead (s_recv_replay s) = {}"
proof (induction es arbitrary: s)
  case (Cons e es)
  show ?case
  proof (cases e)
    case OwnRekey
    then show ?thesis using Cons.IH[of "snd (rekey L s)"] Cons.prems by simp
  next
    case (Arrival h c x)
    obtain r t where d: "decrypt_packet_accepting_rekey L h c x s = (r, t)" by (rule prod.exhaust)
    note f = receive_replay[OF Cons.prems d]
    show ?thesis using Cons.IH[of t] f Arrival d by (cases r) (auto simp: Let_def)
  qed
qed simp

lemma session_new_replay: "session_new L now sid secret side = Ok s \<Longrightarrow> s_recv_replay s = replay_new"
  by (auto simp: session_new_def session_init_def split: sum.splits)

lemma session_new_migrated:
  "session_new L now sid secret side = Ok a \<Longrightarrow> session_new L now' sid' secret' side' = Ok b \<Longrightarrow> migrated 0 (a, b)"
  by (auto simp: session_new_def session_init_def migrated_def split: sum.splits)

lemma unopened_refused:
  assumes "\<forall>st \<in> candidate_keys L h s. \<not> opens_under L h c x st"
  shows "\<exists>e. decrypt_packet_accepting_rekey L h c x s = (Err e, s)"
proof (cases rule: accepting_rekey_cases[of L h c x s])
  case (refused e)
  then show ?thesis by blast
next
  case current
  then show ?thesis using assms by (simp add: candidate_keys_def)
next
  case forward
  then show ?thesis using assms by (auto simp: candidate_keys_def)
qed

subsection \<open>Properties\<close>

text \<open>
  An unauthenticated packet changes nothing. Whatever header, epoch, flags, packet
  number and bytes arrive, if the AEAD opens them neither under the current keys nor
  under the forward keys the header's epoch asks for, the packet is refused with an
  error and the session is exactly what it was: no epoch is advanced, no key replaced,
  no replay-window entry or invocation count used up.
\<close>

theorem unauthenticated_packet_ignored:
  assumes "\<forall>st \<in> candidate_keys L h s. \<not> opens_under L h c x st"
  shows "\<exists>e. decrypt_packet_accepting_rekey L h c x s = (Err e, s)"
  by (rule unopened_refused[OF assms])

definition demo_secret :: bytes where "demo_secret = replicate 32 9"

definition demo_peer :: "bool \<Rightarrow> session" where
  "demo_peer side = session_init demo_lib 0 (replicate 32 1) SHandshaking
     (projr (crypto_state_new demo_lib demo_secret side)) demo_secret side None"

lemma demo_peer_new: "session_new demo_lib 0 (replicate 32 1) demo_secret side = Ok (demo_peer side)"
proof -
  obtain c where "crypto_state_new demo_lib demo_secret side = Ok c"
    by (rule crypto_state_new_ok[of demo_lib demo_secret side])
      (use demo_lib_ok in \<open>simp_all add: crypto_ok_def demo_secret_def\<close>)
  then show ?thesis by (simp add: session_new_def demo_peer_def)
qed

lemma demo_peer_on_chain: "on_chain demo_lib demo_secret (demo_peer side)"
    "s_is_server (demo_peer side) = side" "s_id (demo_peer side) = replicate 32 1" "s_epoch (demo_peer side) = 0"
proof -
  have k: "kdf_ok demo_lib" "length demo_secret = 32" using demo_lib_ok by (simp_all add: crypto_ok_def demo_secret_def)
  obtain s where "session_new demo_lib 0 (replicate 32 1) demo_secret side = Ok s" "on_chain demo_lib demo_secret s"
    "s_is_server s = side" "s_id s = replicate 32 1" "s_epoch s = 0"
    by (rule on_chain_new[OF k])
  then show "on_chain demo_lib demo_secret (demo_peer side)"
    "s_is_server (demo_peer side) = side" "s_id (demo_peer side) = replicate 32 1" "s_epoch (demo_peer side) = 0"
    using demo_peer_new[of side] by simp_all
qed

definition demo_forgery :: packet_header where
  "demo_forgery = with_epoch (header_new (replicate 32 1) 1 7 F_REKEY) 3"

theorem unauthenticated_packet_ignored_witness:
  "\<exists>e. decrypt_packet_accepting_rekey demo_lib demo_forgery (1 # replicate 15 0) [] (demo_peer True) = (Err e, demo_peer True)"
proof (rule unauthenticated_packet_ignored, rule ballI)
  fix st
  have "1 # replicate 15 0 \<noteq> demo_tag bs" for bs by (simp add: demo_tag_def numeral_eq_Suc)
  then show "\<not> opens_under demo_lib demo_forgery (1 # replicate 15 0) [] st"
    by (simp add: opens_under_def demo_lib_def)
qed

text \<open>
  C17. No packet is delivered twice. For a session as it comes out of the handshake,
  over any sequence of arriving packets, replayed, reordered or forged, of any epoch,
  and of the session's own key rotations in between, the packet numbers of the packets
  whose plaintext is handed on are pairwise distinct.
\<close>

theorem no_packet_delivered_twice:
  assumes "session_new L now sid secret side = Ok s"
  shows "distinct (deliveries L es s)"
  using deliveries_fresh[of s L es] session_new_replay[OF assms] by simp

theorem no_packet_delivered_twice_witness:
  "distinct (deliveries demo_lib [Arrival demo_forgery [] [], OwnRekey, Arrival demo_forgery [] []] (demo_peer True))"
  by (rule no_packet_delivered_twice[OF demo_peer_new])

text \<open>
  C38. Catching up to an epoch ends and lands on it. Whatever the target, the loop of
  \<open>ratchet_to_epoch\<close> terminates without error on a session whose keys follow the
  chain, at the larger of its epoch and the target, with the keys of that epoch.
\<close>

theorem ratchet_to_epoch_reaches:
  assumes "kdf_ok L" "on_chain L secret s"
  shows "\<exists>t. ratchet_to_epoch L target s = (Ok (), t) \<and> s_epoch t = max (s_epoch s) target \<and> on_chain L secret t"
  using assms
proof (induction L target s rule: ratchet_to_epoch.induct)
  case (1 L target s)
  show ?case
  proof (cases "s_epoch s < target")
    case True
    then have "s_epoch s \<noteq> 255"
      using unat_u8_bound[of target] by (auto simp: word_less_nat_alt)
    from rekey_ok[OF "1.prems" this] obtain t where t: "rekey L s = (Ok (s_epoch s + 1), t)" "on_chain L secret t"
      "unat (s_epoch t) = unat (s_epoch s) + 1" by blast
    have "s_epoch t \<le> target" using t(3) True by (simp add: word_le_nat_alt word_less_nat_alt)
    then have "max (s_epoch t) target = max (s_epoch s) target" using True by (simp add: max_absorb2 less_imp_le)
    then show ?thesis
      using "1.IH"[OF True t(1)[symmetric] refl "1.prems"(1) t(2)] True t(1)
      by (simp add: ratchet_to_epoch.simps[of L target s])
  next
    case False
    then show ?thesis using "1.prems"(2) by (auto simp: ratchet_to_epoch.simps[of L target s] max_def)
  qed
qed

theorem ratchet_to_epoch_reaches_witness:
  "\<exists>t. ratchet_to_epoch demo_lib 200 (demo_peer False) = (Ok (), t) \<and> s_epoch t = 200"
  using ratchet_to_epoch_reaches[OF _ demo_peer_on_chain(1)[of False], of 200] demo_lib_ok demo_peer_on_chain(4)[of False]
  by (auto simp: crypto_ok_def)

text \<open>
  C37. The connection-id window drifts when path ids wrap. Let both ends start fresh and
  let the peer migrate \<open>n\<close> times with every migration's first packet received. The
  receiver advances its window by the path-id distance, and path ids skip 255 and 0, so
  each wrap moves the window two places too far: the connection id the peer is then
  using is inside the receiver's window up to the 508th migration and outside it from
  the 509th on.
\<close>

theorem migration_window_drift:
  assumes "session_new L now sid secret side = Ok a" "session_new L now' sid secret (\<not> side) = Ok b"
    and "n \<le> 2 ^ 32" "(migrate_once L ^^ n) (a, b) = (a', b')"
  shows "s_outbound_cid_index a' \<in> set (map fst (inbound_window L (s_cid_chain b') (s_inbound_cid_highest_seen b')
      CID_WINDOW_TRAILING CID_WINDOW_LEADING)) \<longleftrightarrow> n \<le> 508"
proof -
  have m: "migrated n (a', b')" using migrate_run[OF session_new_migrated[OF assms(1,2)] assms(3), of L] assms(4) by simp
  have i: "unat (s_outbound_cid_index a') = n"
    "unat (s_inbound_cid_highest_seen b') = n + 2 * ((n - 1) div 254)"
    using m by (simp_all add: migrated_def)
  have "(n - 1) div 254 \<le> n" by simp
  then have small: "n + 2 * ((n - 1) div 254) < 2 ^ 63" using assms(3) by simp
  have "2 * ((n - 1) div 254) \<le> 2 \<longleftrightarrow> n \<le> 508"
    using div_less_iff_less_mult[of 254 "n - 1" 2] by auto
  then show ?thesis using window_holds_iff[OF i small, of L "s_cid_chain b'"] by simp
qed

theorem migration_window_drift_witness:
  "\<exists>a b. (migrate_once demo_lib ^^ 509) (demo_peer False, demo_peer True) = (a, b) \<and>
     s_outbound_cid_index a \<notin> set (map fst (inbound_window demo_lib (s_cid_chain b) (s_inbound_cid_highest_seen b)
       CID_WINDOW_TRAILING CID_WINDOW_LEADING))"
proof -
  define n :: nat where "n = 509"
  have n: "n \<le> 2 ^ 32" "\<not> n \<le> 508" by (simp_all add: n_def)
  obtain a b where ab: "(migrate_once demo_lib ^^ n) (demo_peer False, demo_peer True) = (a, b)" by (rule prod.exhaust)
  have new: "session_new demo_lib 0 (replicate 32 1) demo_secret (\<not> False) = Ok (demo_peer True)"
    using demo_peer_new[of True] by simp
  show ?thesis
    using migration_window_drift[OF demo_peer_new new n(1) ab] n(2) ab unfolding n_def by blast
qed

end
