(* ===== verification/Secure_Channel.thy ===== *)
theory Secure_Channel
  imports Session
begin

text \<open>
  Two transport sessions from one handshake secret: what sealing, receiving and rotating
  do to the keys of a session, and that data sealed by one end is opened by the other.
\<close>

subsection \<open>Receiving a datagram\<close>

definition receive_wire ::
  "crypto_lib \<Rightarrow> bytes \<Rightarrow> session \<Rightarrow> (core_error, phantom_packet \<times> bytes) result \<times> session" where
  "receive_wire L w s =
     (case parse_protected L w s of
        Inl e \<Rightarrow> (Err e, s)
      | Inr p \<Rightarrow>
          (case decrypt_packet_accepting_rekey L (pkt_header p) (pkt_payload p) (pkt_extensions p) s of
             (Inl e, t) \<Rightarrow> (Err e, t)
           | (Inr pt, t) \<Rightarrow> (Ok (p, pt), t)))"

lemma parse_protected_cong:
  "s_header_protection s = s_header_protection t \<Longrightarrow> s_id s = s_id t \<Longrightarrow> parse_protected L w s = parse_protected L w t"
  unfolding parse_protected_def by (simp only:)

lemma parse_protect:
  assumes "mask_ok L" "kdf_ok L" and a: "s_header_protection a = hp_derive L suite secret side"
    and b: "s_header_protection b = hp_derive L suite secret (\<not> side)"
    and c: "16 \<le> length c" and h: "hdr_session_id h = s_id b"
  obtains w where "protect_packet L (packet_new h c) a = Ok w" "parse_protected L w b = Ok (packet_new h c)"
proof -
  let ?smp = "take HP_SAMPLE_LEN c"
  obtain m where m: "mask_send L (s_header_protection a) ?smp = Some m" "mask_recv L (s_header_protection b) ?smp = Some m"
      "length m = 16"
    by (rule mask_peers[OF assms(1), of "s_header_protection a" "s_header_protection b" ?smp])
      (use a b c hp_derive_peers[of L suite secret side] hp_derive_peers(2)[of L suite secret "\<not> side"] assms(2)
        in \<open>simp_all add: HP_SAMPLE_LEN_def\<close>)
  have "protect_packet L (packet_new h c) a = Ok (to_wire_masked (packet_new h c) m)"
    using m(1) c by (simp add: protect_packet_def packet_new_def hp_sample_def HP_SAMPLE_LEN_def)
  moreover have "parse_protected L (to_wire_masked (packet_new h c) m) b = Ok (packet_new h c)"
    using m(2,3) c h
    by (simp add: parse_protected_def raw_masked_from_wire packet_new_def hp_sample_def HP_SAMPLE_LEN_def
      unmask_masked wire_consts into_packet_def)
  ultimately show ?thesis by (rule that)
qed

subsection \<open>Sending\<close>

text \<open>What sending and receiving leave of a session.\<close>

definition moved :: "session \<Rightarrow> session \<Rightarrow> bool" where
  "moved s t \<longleftrightarrow> s_id t = s_id s \<and> s_is_server t = s_is_server s \<and> s_header_protection t = s_header_protection s
     \<and> s_rekey_after t = s_rekey_after s \<and> s_epoch s \<le> s_epoch t"

lemma moved_refl [simp]: "moved s s" by (simp add: moved_def)

lemma moved_trans: "moved s t \<Longrightarrow> moved t u \<Longrightarrow> moved s u"
  by (auto simp: moved_def)

text \<open>A rotation of a session's own keys: none, or one epoch ahead and unconfirmed.\<close>

definition rotated :: "session \<Rightarrow> session \<Rightarrow> bool" where
  "rotated s t \<longleftrightarrow> (s_epoch t = s_epoch s \<and> s_rekey_unconfirmed t = s_rekey_unconfirmed s)
     \<or> (s_epoch s < s_epoch t \<and> s_rekey_unconfirmed t)"

lemma rekey_moves:
  assumes "kdf_ok L" "on_chain L secret s"
  shows "moved s (snd (rekey L s)) \<and> rotated s (snd (rekey L s)) \<and> on_chain L secret (snd (rekey L s))
    \<and> s_send_packet_number (snd (rekey L s)) = s_send_packet_number s \<and> s_padding_policy (snd (rekey L s)) = s_padding_policy s
    \<and> s_recv_replay (snd (rekey L s)) = s_recv_replay s"
proof (cases "s_epoch s = 255")
  case True
  then show ?thesis using assms by (simp add: rekey_def rotated_def)
next
  case False
  obtain k c where "derive_forward_crypto L 1 s = Ok (k, c)" by (rule derive_forward_ok[OF assms])
  then have hp: "s_header_protection (snd (rekey L s)) = s_header_protection s"
    using False by (simp add: rekey_def commit_forward_crypto_def)
  obtain t where t: "rekey L s = (Ok (s_epoch s + 1), t)" "on_chain L secret t" "unat (s_epoch t) = unat (s_epoch s) + 1"
    "s_rekey_unconfirmed t" "s_is_server t = s_is_server s" "s_id t = s_id s"
    "s_send_packet_number t = s_send_packet_number s" "s_recv_replay t = s_recv_replay s"
    "s_rekey_after t = s_rekey_after s" "s_padding_policy t = s_padding_policy s"
    by (rule rekey_ok[OF assms False])
  then show ?thesis using hp by (simp add: moved_def rotated_def word_le_nat_alt word_less_nat_alt)
qed

lemma stamp_ok:
  assumes "kdf_ok L" "on_chain L secret s"
  obtains t where "rekey_before_stamp L s = (Some (if s_rekey_unconfirmed t then F_REKEY else 0), t)"
    "on_chain L secret t" "moved s t" "rotated s t" "s_send_packet_number t = s_send_packet_number s"
    "s_padding_policy t = s_padding_policy s" "s_recv_replay t = s_recv_replay s"
    "t = s \<or> send_invocations t = 0" "s_epoch s < 255 \<longrightarrow> send_invocations t < max (s_rekey_after s) 1"
proof (cases "send_needs_rekey s")
  case True
  then have "s_epoch s \<noteq> 255" by (auto simp: send_needs_rekey_def)
  from rekey_ok[OF assms this] obtain t where t: "rekey L s = (Ok (s_epoch s + 1), t)"
    "cs_send_counter (cst_session (s_crypto t)) = 0" by blast
  have z: "send_invocations t = 0" using t(2) by (simp add: send_invocations_def state_send_invocations_def)
  show ?thesis
    using that[of t] t(1) z True rekey_moves[OF assms] by (simp add: rekey_before_stamp_def less_max_iff_disj)
next
  case False
  then have "s_epoch s < 255 \<Longrightarrow> send_invocations s < s_rekey_after s" by (auto simp: send_needs_rekey_def)
  then show ?thesis
    using that[of s] False assms(2) by (auto simp: rekey_before_stamp_def rotated_def less_max_iff_disj)
qed

lemma encrypt_packet_moves:
  assumes "on_chain L secret s" "encrypt_packet L h p x s = (r, t)"
  shows "on_chain L secret t" "moved s t" "rotated s t" "s_send_packet_number t = s_send_packet_number s"
    "s_recv_replay t = s_recv_replay s"
proof -
  obtain st where t: "t = s\<lparr>s_crypto := st\<rparr>" "same_keys (cst_session st) (cst_session (s_crypto s))"
    using assms(2) state_encrypt_keys[of L _ _ p "s_crypto s"] by (auto simp: encrypt_packet_def Let_def split_beta)
  show "on_chain L secret t" by (rule on_chain_cong[OF assms(1)]) (simp_all add: t)
  show "moved s t" "rotated s t" "s_send_packet_number t = s_send_packet_number s" "s_recv_replay t = s_recv_replay s"
    by (simp_all add: t moved_def rotated_def)
qed

text \<open>The header \<open>send_app_data\<close> stamps, from the session after the rekey decision.\<close>

definition app_header :: "stream_id \<Rightarrow> packet_flags \<Rightarrow> bool \<Rightarrow> session \<Rightarrow> packet_header" where
  "app_header stream fl padded s =
     (let f = (fl OR F_ENCRYPTED) OR (if s_rekey_unconfirmed s then F_REKEY else 0)
      in with_path_id (with_epoch (header_new (s_id s) stream (s_send_packet_number s)
           (if padded then f OR F_PADDED else f)) (s_epoch s)) (s_send_path_id s))"

lemma app_header_fields [simp]:
  "hdr_session_id (app_header stream fl padded s) = s_id s" "hdr_epoch (app_header stream fl padded s) = s_epoch s"
  "hdr_stream_id (app_header stream fl padded s) = stream"
  "hdr_packet_number (app_header stream fl padded s) = s_send_packet_number s"
  by (simp_all add: app_header_def with_path_id_def with_epoch_def header_new_def Let_def)

lemma app_header_rekey: "s_rekey_unconfirmed s \<Longrightarrow> flags_contains (hdr_flags (app_header stream fl padded s)) F_REKEY"
  by (auto simp: app_header_def with_path_id_def with_epoch_def header_new_def flags_contains_bits bit_simps Let_def)

lemma app_header_padded:
  assumes "fl AND F_PADDED = 0"
  shows "flags_contains (hdr_flags (app_header stream fl padded s)) F_PADDED = padded"
proof -
  have pw: "bit ((2 :: u16) ^ m) n \<longleftrightarrow> n = m \<and> m < 16" for m n by (auto simp: bit_exp_iff)
  have f: "bit F_PADDED n \<longleftrightarrow> n = 13" "bit F_ENCRYPTED n \<longleftrightarrow> n = 5" "bit F_REKEY n \<longleftrightarrow> n = 8" for n
    using pw[of 13 n] pw[of 5 n] pw[of 8 n] by (simp_all add: flag_defs)
  have c: "flags_contains x F_PADDED = bit x 13" for x
    unfolding flags_contains_bits f by auto
  have "\<not> bit (fl AND F_PADDED) 13" unfolding assms by simp
  then have "\<not> bit fl 13" by (simp add: bit_and_iff f)
  then show ?thesis unfolding c
    by (simp add: app_header_def with_path_id_def with_epoch_def header_new_def Let_def bit_or_iff f)
qed

lemma send_app_data_eq:
  assumes "rekey_before_stamp L s = (Some (if s_rekey_unconfirmed u then F_REKEY else 0), u)" "s_id u = s_id s"
    "shaped_plaintext (session_padding_policy u) (app_plaintext off pl) = (pt, padded)"
  shows "send_app_data L ok stream pl fl off s =
    (case encrypt_packet L (app_header stream fl padded u) pt [] (u\<lparr>s_send_packet_number := s_send_packet_number u + 1\<rparr>) of
       (Inl e, v) \<Rightarrow> (None, v)
     | (Inr c, v) \<Rightarrow>
         (case protect_packet L (packet_new (app_header stream fl padded u) c) v of
            Inl e \<Rightarrow> (None, v)
          | Inr buf \<Rightarrow>
              if ok then (Some buf, v\<lparr>s_pacer := pacer_consume (word_of_nat (length buf)) (s_pacer v)\<rparr>)
              else (None, v)))"
proof -
  let ?u = "u\<lparr>s_send_packet_number := s_send_packet_number u + 1\<rparr>"
  let ?f = "(fl OR F_ENCRYPTED) OR (if s_rekey_unconfirmed u then F_REKEY else 0)"
  have h: "with_path_id (with_epoch (header_new (s_id s) stream (s_send_packet_number u)
      (if padded then ?f OR F_PADDED else ?f)) (s_epoch ?u)) (current_send_path_id ?u) = app_header stream fl padded u"
    using assms(2) by (simp add: app_header_def current_send_path_id_def Let_def)
  have pol: "session_padding_policy ?u = session_padding_policy u" by (simp add: session_padding_policy_def)
  show ?thesis
    unfolding send_app_data_def assms(1) next_send_pn_def Let_def prod.case option.case assms(3) pol h ..
qed

lemma send_epoch:
  assumes "rekey_before_stamp L s = (Some extra, u)"
  shows "s_epoch (snd (send_app_data L ok stream pl fl off s)) = s_epoch u"
  using assms
  by (auto simp: send_app_data_def next_send_pn_def encrypt_packet_def Let_def split_beta split: sum.splits)

lemma send_moves:
  assumes "kdf_ok L" "mask_ok L" "on_chain L secret s" "send_app_data L ok stream pl fl off s = (r, t)"
  shows "on_chain L secret t \<and> moved s t \<and> rotated s t \<and> s_send_packet_number t = s_send_packet_number s + 1
    \<and> (\<forall>w b. r = Some w \<longrightarrow> s_header_protection b = hp_derive L (lib_suite L) secret (\<not> s_is_server s) \<longrightarrow> s_id b = s_id s
        \<longrightarrow> (\<exists>p. parse_protected L w b = Ok p \<and> hdr_epoch (pkt_header p) = s_epoch t
              \<and> (s_rekey_unconfirmed t \<longrightarrow> flags_contains (hdr_flags (pkt_header p)) F_REKEY)))"
proof -
  obtain u where u: "rekey_before_stamp L s = (Some (if s_rekey_unconfirmed u then F_REKEY else 0), u)"
    "on_chain L secret u" "moved s u" "rotated s u" "s_send_packet_number u = s_send_packet_number s"
    by (rule stamp_ok[OF assms(1,3)])
  obtain pt padded where sh: "shaped_plaintext (session_padding_policy u) (app_plaintext off pl) = (pt, padded)"
    by (rule prod.exhaust)
  have id: "s_id u = s_id s" using u(3) by (simp add: moved_def)
  let ?h = "app_header stream fl padded u" and ?u = "u\<lparr>s_send_packet_number := s_send_packet_number u + 1\<rparr>"
  obtain e v where ev: "encrypt_packet L ?h pt [] ?u = (e, v)" by (rule prod.exhaust)
  have u1: "on_chain L secret ?u" by (rule on_chain_cong[OF u(2)]) simp_all
  note v = encrypt_packet_moves[OF u1 ev]
  have mv: "moved s v" "rotated s v" "s_epoch v = s_epoch u" "s_rekey_unconfirmed v = s_rekey_unconfirmed u"
    "s_send_packet_number v = s_send_packet_number s + 1"
    using u(3-5) v(2-4) ev by (auto simp: moved_def rotated_def encrypt_packet_def Let_def split_beta)
  let ?sent = "\<exists>w c. r = Some w \<and> e = Inr c \<and> protect_packet L (packet_new ?h c) v = Ok w
      \<and> t = v\<lparr>s_pacer := pacer_consume (word_of_nat (length w)) (s_pacer v)\<rparr>"
  have t: "t = v \<or> ?sent" and r: "r = None \<or> ?sent"
    using assms(4) unfolding send_app_data_eq[OF u(1) id sh] ev by (auto split: sum.splits if_splits)
  have frame: "on_chain L secret t" "moved s t" "rotated s t" "s_epoch t = s_epoch u"
    "s_rekey_unconfirmed t = s_rekey_unconfirmed u" "s_send_packet_number t = s_send_packet_number s + 1"
    using t mv v(1) by (auto simp: moved_def rotated_def intro: on_chain_cong)
  have "\<exists>p. parse_protected L w b = Ok p \<and> hdr_epoch (pkt_header p) = s_epoch t
      \<and> (s_rekey_unconfirmed t \<longrightarrow> flags_contains (hdr_flags (pkt_header p)) F_REKEY)"
    if w: "r = Some w" and b: "s_header_protection b = hp_derive L (lib_suite L) secret (\<not> s_is_server s)" "s_id b = s_id s"
    for w b
  proof -
    obtain c where c: "protect_packet L (packet_new ?h c) v = Ok w" using r w by auto
    then have len: "16 \<le> length c" by (auto simp: protect_packet_def hp_sample_def packet_new_def HP_SAMPLE_LEN_def split: if_splits)
    have hv: "s_header_protection v = hp_derive L (lib_suite L) secret (s_is_server s)"
      using v(1) mv(1) by (simp add: on_chain_def moved_def)
    have hid: "hdr_session_id ?h = s_id b" using id b(2) by simp
    obtain w' where "protect_packet L (packet_new ?h c) v = Ok w'" "parse_protected L w' b = Ok (packet_new ?h c)"
      by (rule parse_protect[OF assms(2,1) hv b(1) len hid])
    then show ?thesis using c frame(4,5) app_header_rekey[of u stream fl padded] by (auto simp: packet_new_def)
  qed
  then show ?thesis using frame by blast
qed

subsection \<open>Receiving keeps sessions on the chain\<close>

lemma replay_check_frame:
  assumes "replay_check pn pt s = (r, t)"
  obtains w n where "t = s\<lparr>s_recv_replay := w, s_replay_rejected_total := n\<rparr>"
proof (cases rule: replay_check_cases[of s pn pt])
  case (fresh w)
  then show ?thesis using assms that[where w = w and n = "s_replay_rejected_total s"] by simp
next
  case (seen w)
  then show ?thesis using assms that[where w = w and n = "s_replay_rejected_total s + 1"] by simp
qed

lemma forward_epoch:
  assumes "s_epoch s < e" shows "unat (s_epoch s) + unat (e - s_epoch s) = unat e" "sat_add (s_epoch s) (e - s_epoch s) = e"
proof -
  show u: "unat (s_epoch s) + unat (e - s_epoch s) = unat e"
    using assms by (simp add: unat_sub word_less_nat_alt word_le_nat_alt)
  show "sat_add (s_epoch s) (e - s_epoch s) = e" using u unat_u8_bound[of e] by (simp add: sat_add_def)
qed

lemma accepting_rekey_moves:
  assumes "kdf_ok L" "on_chain L secret s" "decrypt_packet_accepting_rekey L h c x s = (r, t)"
  shows "on_chain L secret t \<and> moved s t \<and> s_send_packet_number t = s_send_packet_number s
    \<and> (t = s \<or> s_epoch t = hdr_epoch h)"
proof (cases rule: accepting_rekey_cases[of L h c x s])
  case (refused e)
  then show ?thesis using assms by simp
next
  case (current pt n s1 r' s2)
  obtain w m where s2: "s2 = s1\<lparr>s_recv_replay := w, s_replay_rejected_total := m\<rparr>" by (rule replay_check_frame[OF current(4)])
  have "on_chain L secret t"
    by (rule on_chain_cong[OF assms(2)])
      (use current(5) assms(3) s2 current(3) in \<open>auto simp: confirm_rekey_caught_up_def same_keys_def\<close>)
  then show ?thesis using current assms(3) s2 by (auto simp: moved_def confirm_rekey_caught_up_def)
next
  case (forward k crypto crypto1 pt s1 r' s2)
  let ?n = "hdr_epoch h - s_epoch s"
  note fe = forward_epoch[OF forward(1)]
  obtain k' c' where d: "derive_forward_crypto L ?n s = Ok (k', c')"
    "ratchet_secret L (unat (s_epoch s) + unat ?n) secret = Ok k'" "crypto_state_new L k' (s_is_server s) = Ok c'"
    by (rule derive_forward_ok[OF assms(1,2)])
  have kc: "k' = k" "c' = crypto" using d(1) forward(4) by simp_all
  have s1: "on_chain L secret s1" unfolding forward(7)
    by (rule commit_on_chain[OF assms(2)]) (use d kc forward(6) fe(1) unat_u8_bound[of "hdr_epoch h"] in simp_all)
  obtain w m where s2: "s2 = s1\<lparr>s_recv_replay := w, s_replay_rejected_total := m\<rparr>" by (rule replay_check_frame[OF forward(8)])
  have t: "t = s2 \<or> t = confirm_rekey_caught_up s2" using forward(9) assms(3) by auto
  have "on_chain L secret t" by (rule on_chain_cong[OF s1]) (use t s2 in \<open>auto simp: confirm_rekey_caught_up_def\<close>)
  moreover have "s_epoch s1 = hdr_epoch h" using fe(2) by (simp add: forward(7) commit_forward_crypto_def)
  ultimately show ?thesis using t s2 forward(1,7)
    by (auto simp: moved_def confirm_rekey_caught_up_def commit_forward_crypto_def)
qed

lemma receive_moves:
  assumes "kdf_ok L" "on_chain L secret s" "receive_wire L w s = (r, t)"
  shows "on_chain L secret t \<and> moved s t \<and> s_send_packet_number t = s_send_packet_number s
    \<and> (t = s \<or> (\<exists>p. parse_protected L w s = Ok p \<and> s_epoch t = hdr_epoch (pkt_header p)))"
proof (cases "parse_protected L w s")
  case (Inl e)
  then show ?thesis using assms by (simp add: receive_wire_def)
next
  case (Inr p)
  obtain r' t' where d: "decrypt_packet_accepting_rekey L (pkt_header p) (pkt_payload p) (pkt_extensions p) s = (r', t')"
    by (rule prod.exhaust)
  then have "t = t'" using assms(3) Inr by (cases r') (simp_all add: receive_wire_def)
  then show ?thesis using accepting_rekey_moves[OF assms(1,2) d] Inr by blast
qed

subsection \<open>Opening what was sealed\<close>

text \<open>The keys a receiver derives for a later epoch are its peer's keys at that epoch.\<close>

lemma forward_peers:
  assumes L: "kdf_ok L" and u: "on_chain L secret u" and r: "on_chain L secret r"
    and side: "s_is_server u \<noteq> s_is_server r" and e: "s_epoch r < s_epoch u"
  obtains k c where "derive_forward_crypto L (s_epoch u - s_epoch r) r = Ok (k, c)"
    "session_peers (cst_session (s_crypto u)) (cst_session c)" "cs_recv_counter (cst_session c) = 0"
proof -
  let ?n = "s_epoch u - s_epoch r"
  obtain k c where kc: "derive_forward_crypto L ?n r = Ok (k, c)" "ratchet_secret L (unat (s_epoch r) + unat ?n) secret = Ok k"
    "crypto_state_new L k (s_is_server r) = Ok c" "cs_recv_counter (cst_session c) = 0"
    by (rule derive_forward_ok[OF L r])
  have k: "k = s_traffic_secret u" using kc(2) u forward_epoch(1)[OF e] by (simp add: on_chain_def)
  obtain cu where cu: "crypto_state_new L (s_traffic_secret u) (s_is_server u) = Ok cu"
      "same_keys (cst_session (s_crypto u)) (cst_session cu)" using u by (auto simp: on_chain_def)
  have sv: "s_is_server r = (\<not> s_is_server u)" using side by simp
  have "session_peers (cst_session cu) (cst_session c)"
    by (rule crypto_state_peers[OF L cu(1)]) (use kc(3) k sv in simp)
  then have "session_peers (cst_session (s_crypto u)) (cst_session c)" using cu(2)
    by (auto simp: session_peers_def same_keys_def)
  then show ?thesis using that kc by blast
qed

lemma peers_nonce:
  assumes "session_peers (cst_session a) (cst_session b)"
  shows "state_nonce_prefix b = state_nonce_prefix a" "length (build_packet_nonce (state_nonce_prefix a) h) = 12"
  using assms by (auto simp: session_peers_def state_nonce_prefix_def build_packet_nonce_def)

lemma sealed_opens:
  assumes L: "crypto_ok L" and u: "on_chain L secret u" and r: "on_chain L secret r"
    and side: "s_is_server u \<noteq> s_is_server r"
    and cnt: "send_invocations u < AEAD_MAX_INVOCATIONS" "cs_recv_counter (cst_session (s_crypto r)) < AEAD_MAX_INVOCATIONS"
    and len: "length pt < 2 ^ 32" and h: "hdr_epoch h = s_epoch u"
    and ep: "s_epoch r \<le> s_epoch u" "s_epoch u - s_epoch r \<le> MAX_REKEY_CATCHUP"
    and flag: "s_epoch r < s_epoch u \<Longrightarrow> flags_contains (hdr_flags h) F_REKEY"
    and fresh: "fst (accept (s_recv_replay r) (hdr_packet_number h))"
  obtains c v t where "encrypt_packet L h pt [] u = (Ok c, v)" "length c = length pt + 16"
    "decrypt_packet_accepting_rekey L h c [] r = (Ok pt, t)" "s_epoch t = s_epoch u"
proof -
  have ok: "kdf_ok L" "aead_ok L" using L by (simp_all add: crypto_ok_def)
  have acc: "replay_check (hdr_packet_number h) pt s = (Ok pt, s\<lparr>s_recv_replay := snd (accept (s_recv_replay r) (hdr_packet_number h))\<rparr>)"
    if "s_recv_replay s = s_recv_replay r" for s
    using fresh that by (simp add: replay_check_def split_beta)
  have cu: "cs_send_counter (cst_session (s_crypto u)) < AEAD_MAX_INVOCATIONS"
    using cnt(1) by (simp add: send_invocations_def state_send_invocations_def)
  have enc: "encrypt_packet L h pt [] u = (Ok c, u\<lparr>s_crypto := (s_crypto u)\<lparr>cst_session := cs\<rparr>\<rparr>)"
    if "encrypt_with_nonce L (build_packet_nonce (state_nonce_prefix (s_crypto u)) h) (packet_aad h []) pt (cst_session (s_crypto u)) = (Ok c, cs)" for c cs
    using that by (simp add: encrypt_packet_def state_encrypt_def)
  show ?thesis
  proof (cases "s_epoch r = s_epoch u")
    case True
    have peers: "session_peers (cst_session (s_crypto u)) (cst_session (s_crypto r))"
      by (rule on_chain_peers[OF ok(1) u r True[symmetric] side])
    note pre = peers_nonce[OF peers]
    obtain c where c: "encrypt_with_nonce L (build_packet_nonce (state_nonce_prefix (s_crypto u)) h) (packet_aad h []) pt (cst_session (s_crypto u))
          = (Ok c, (cst_session (s_crypto u))\<lparr>cs_send_counter := cs_send_counter (cst_session (s_crypto u)) + 1\<rparr>)"
        "length c = length pt + 16"
        "decrypt_with_nonce L (build_packet_nonce (state_nonce_prefix (s_crypto u)) h) (packet_aad h []) c (cst_session (s_crypto r))
          = (Ok pt, (cst_session (s_crypto r))\<lparr>cs_recv_counter := cs_recv_counter (cst_session (s_crypto r)) + 1\<rparr>)"
      by (rule seal_open_peers[OF ok(2) peers pre(2) len cu cnt(2)])
    have "decrypt_packet L h c [] r = replay_check (hdr_packet_number h) pt
        (r\<lparr>s_crypto := (s_crypto r)\<lparr>cst_session := (cst_session (s_crypto r))\<lparr>cs_recv_counter := cs_recv_counter (cst_session (s_crypto r)) + 1\<rparr>\<rparr>\<rparr>)"
      using c(3) by (simp add: decrypt_packet_def pre(1) state_decrypt_def Let_def)
    then have "\<exists>t. decrypt_packet_accepting_rekey L h c [] r = (Ok pt, t) \<and> s_epoch t = s_epoch u"
      using h True acc by (simp add: decrypt_packet_accepting_rekey_def Let_def confirm_rekey_caught_up_def)
    then show ?thesis using that[OF enc[OF c(1)] c(2)] by blast
  next
    case False
    then have lt: "s_epoch r < s_epoch u" using ep(1) by simp
    obtain k cr where f: "derive_forward_crypto L (s_epoch u - s_epoch r) r = Ok (k, cr)"
        "session_peers (cst_session (s_crypto u)) (cst_session cr)" "cs_recv_counter (cst_session cr) = 0"
      by (rule forward_peers[OF ok(1) u r side lt])
    note pre = peers_nonce[OF f(2)]
    have cz: "cs_recv_counter (cst_session cr) < AEAD_MAX_INVOCATIONS" using f(3) by (simp add: AEAD_MAX_INVOCATIONS_def)
    obtain c where c: "encrypt_with_nonce L (build_packet_nonce (state_nonce_prefix (s_crypto u)) h) (packet_aad h []) pt (cst_session (s_crypto u))
          = (Ok c, (cst_session (s_crypto u))\<lparr>cs_send_counter := cs_send_counter (cst_session (s_crypto u)) + 1\<rparr>)"
        "length c = length pt + 16"
        "decrypt_with_nonce L (build_packet_nonce (state_nonce_prefix (s_crypto u)) h) (packet_aad h []) c (cst_session cr)
          = (Ok pt, (cst_session cr)\<lparr>cs_recv_counter := cs_recv_counter (cst_session cr) + 1\<rparr>)"
      by (rule seal_open_peers[OF ok(2) f(2) pre(2) len cu cz])
    have sd: "state_decrypt L (build_packet_nonce (state_nonce_prefix cr) h) (packet_aad h []) c cr
        = (Ok pt, cr\<lparr>cst_session := (cst_session cr)\<lparr>cs_recv_counter := cs_recv_counter (cst_session cr) + 1\<rparr>\<rparr>)"
      using c(3) by (simp add: pre(1) state_decrypt_def)
    have ne: "s_epoch u \<noteq> s_epoch r" "\<not> s_epoch u < s_epoch r" "\<not> MAX_REKEY_CATCHUP < s_epoch u - s_epoch r"
      using lt ep(2) by (simp_all add: linorder_not_less)
    have "\<exists>t. decrypt_packet_accepting_rekey L h c [] r = (Ok pt, t) \<and> s_epoch t = s_epoch u"
      unfolding decrypt_packet_accepting_rekey_def h Let_def
      using ne flag[OF lt] forward_epoch(2)[OF lt]
      by (simp add: f(1) sd acc commit_forward_crypto_def confirm_rekey_caught_up_def)
    then show ?thesis using that[OF enc[OF c(1)] c(2)] by blast
  qed
qed

text \<open>Sealed, protected, carried over and received: the peer gets the packet and its plaintext.\<close>

lemma seal_open_wire:
  assumes L: "crypto_ok L" and u: "on_chain L secret u" and r: "on_chain L secret r"
    and side: "s_is_server u \<noteq> s_is_server r"
    and cnt: "send_invocations u < AEAD_MAX_INVOCATIONS" "cs_recv_counter (cst_session (s_crypto r)) < AEAD_MAX_INVOCATIONS"
    and len: "length pt < 2 ^ 32" and h: "hdr_epoch h = s_epoch u" "hdr_session_id h = s_id r"
    and ep: "s_epoch r \<le> s_epoch u" "s_epoch u - s_epoch r \<le> MAX_REKEY_CATCHUP"
    and flag: "s_epoch r < s_epoch u \<Longrightarrow> flags_contains (hdr_flags h) F_REKEY"
    and fresh: "fst (accept (s_recv_replay r) (hdr_packet_number h))"
  obtains c v w r' where "encrypt_packet L h pt [] u = (Ok c, v)" "protect_packet L (packet_new h c) v = Ok w"
    "receive_wire L w r = (Ok (packet_new h c, pt), r')" "s_epoch r' = s_epoch u"
    "parse_protected L w r = Ok (packet_new h c)" "decrypt_packet_accepting_rekey L h c [] r = (Ok pt, r')"
proof -
  have k: "kdf_ok L" "mask_ok L" using L by (simp_all add: crypto_ok_def)
  obtain c v r' where o: "encrypt_packet L h pt [] u = (Ok c, v)" "length c = length pt + 16"
    "decrypt_packet_accepting_rekey L h c [] r = (Ok pt, r')" "s_epoch r' = s_epoch u"
    by (rule sealed_opens[OF L u r side cnt len h(1) ep flag fresh])
  have hv: "s_header_protection v = hp_derive L (lib_suite L) secret (s_is_server u)"
    using encrypt_packet_moves(1,2)[OF u o(1)] by (simp add: on_chain_def moved_def)
  have hr: "s_header_protection r = hp_derive L (lib_suite L) secret (\<not> s_is_server u)"
    using r side by (simp add: on_chain_def)
  have l16: "16 \<le> length c" using o(2) by simp
  obtain w where w: "protect_packet L (packet_new h c) v = Ok w" "parse_protected L w r = Ok (packet_new h c)"
    by (rule parse_protect[OF k(2,1) hv hr l16 h(2)])
  have "receive_wire L w r = (Ok (packet_new h c, pt), r')"
    using w(2) o(3) by (simp add: receive_wire_def packet_new_def)
  then show ?thesis using that o(1,3,4) w by blast
qed

lemma sent_data_received:
  assumes L: "crypto_ok L" and s: "on_chain L secret s" and r: "on_chain L secret r"
    and ends: "s_is_server s \<noteq> s_is_server r" "s_id s = s_id r"
    and room: "s_epoch s < 255" "s_rekey_after s \<le> AEAD_MAX_INVOCATIONS" "0 < s_rekey_after s"
      "cs_recv_counter (cst_session (s_crypto r)) < AEAD_MAX_INVOCATIONS"
    and pl: "length payload \<le> MAX_APP_CHUNK" "fl AND F_PADDED = 0"
    and conf: "s_rekey_unconfirmed s \<or> s_epoch s \<le> s_epoch r"
    and sent: "send_app_data L True stream payload fl off s = (res, t)"
    and gap: "s_epoch r \<le> s_epoch t" "s_epoch t - s_epoch r \<le> MAX_REKEY_CATCHUP"
    and fresh: "fst (accept (s_recv_replay r) (s_send_packet_number s))"
  shows "\<exists>w p pt r'. res = Some w \<and> receive_wire L w r = (Ok (p, pt), r')
    \<and> unshape_plaintext (flags_contains (hdr_flags (pkt_header p)) F_PADDED) pt = Ok (app_plaintext off payload)
    \<and> hdr_stream_id (pkt_header p) = stream \<and> s_epoch r' = s_epoch t"
proof -
  have k: "kdf_ok L" "mask_ok L" using L by (simp_all add: crypto_ok_def)
  obtain u where u: "rekey_before_stamp L s = (Some (if s_rekey_unconfirmed u then F_REKEY else 0), u)"
    "on_chain L secret u" "moved s u" "rotated s u" "s_send_packet_number u = s_send_packet_number s"
    "s_epoch s < 255 \<longrightarrow> send_invocations u < max (s_rekey_after s) 1"
    by (rule stamp_ok[OF k(1) s])
  have id: "s_id u = s_id s" "s_is_server u = s_is_server s" using u(3) by (simp_all add: moved_def)
  obtain pt padded where sh: "shaped_plaintext (session_padding_policy u) (app_plaintext off payload) = (pt, padded)"
    by (rule prod.exhaust)
  let ?h = "app_header stream fl padded u" and ?u = "u\<lparr>s_send_packet_number := s_send_packet_number u + 1\<rparr>"
  have u1: "on_chain L secret ?u" by (rule on_chain_cong[OF u(2)]) simp_all
  have "1 \<le> s_rekey_after s" using room(3) unfolding word_le_nat_alt word_less_nat_alt by simp
  then have cnt: "send_invocations ?u < AEAD_MAX_INVOCATIONS"
    using u(6) room(1,2) by (simp add: max_absorb1 send_invocations_def)
  have len: "length pt < 2 ^ 32" using shaped_wire_bound[OF pl(1), of "session_padding_policy u" off] sh by simp
  have te: "s_epoch t = s_epoch u" using send_epoch[OF u(1), of True stream payload fl off] sent by simp
  have flag: "flags_contains (hdr_flags ?h) F_REKEY" if "s_epoch r < s_epoch ?u"
  proof (rule app_header_rekey, rule ccontr)
    assume "\<not> s_rekey_unconfirmed u"
    then show False using u(4) conf that by (auto simp: rotated_def)
  qed
  obtain c v w r' where o: "encrypt_packet L ?h pt [] ?u = (Ok c, v)" "protect_packet L (packet_new ?h c) v = Ok w"
    "receive_wire L w r = (Ok (packet_new ?h c, pt), r')" "s_epoch r' = s_epoch ?u"
    by (rule seal_open_wire[OF L u1 r _ cnt room(4) len _ _ _ _ flag])
      (use ends id gap te fresh u(5) in simp_all)
  have "res = Some w" using sent o(1,2) unfolding send_app_data_eq[OF u(1) id(1) sh] by simp
  moreover note o(3)
  moreover have "unshape_plaintext padded pt = Ok (app_plaintext off payload)" by (rule shape_round_trip[OF sh])
  ultimately show ?thesis using o(4) te app_header_padded[OF pl(2), of stream padded u] by (auto simp: packet_new_def)
qed

subsection \<open>Properties\<close>

lemma demo_kdf: "kdf_ok demo_lib" "mask_ok demo_lib" "length demo_secret = 32"
  using demo_lib_ok by (simp_all add: crypto_ok_def demo_secret_def)

lemma demo_rotated_epoch: "s_epoch (snd (rekey demo_lib (demo_peer d))) = 1"
proof -
  have "s_epoch (demo_peer d) \<noteq> 255" using demo_peer_on_chain(4)[of d] by simp
  from rekey_ok[OF demo_kdf(1) demo_peer_on_chain(1) this] obtain t where
    "rekey demo_lib (demo_peer d) = (Ok (s_epoch (demo_peer d) + 1), t)" "unat (s_epoch t) = unat (s_epoch (demo_peer d)) + 1"
    by blast
  then show ?thesis using demo_peer_on_chain(4)[of d] unat_inject[of "s_epoch t" 1] by simp
qed

text \<open>
  C4. Sealed data arrives. An application payload of at most one chunk that a session
  sends reaches the peer's application unchanged: the datagram parses, opens and, with
  any padding removed, yields the plaintext on its stream. This holds across key
  rotations: whether or not this very send rotates the keys, and whether the peer is at
  the same epoch or up to 16 epochs behind, the peer follows to the sender's epoch.
  (The peer must not be ahead, must still have receive invocations left, and must see
  the packet number for the first time.)
\<close>

theorem sealed_data_arrives:
  assumes L: "crypto_ok L" and s: "on_chain L secret s" and r: "on_chain L secret r"
    and ends: "s_is_server s \<noteq> s_is_server r" "s_id s = s_id r"
    and room: "s_epoch s < 255" "s_rekey_after s \<le> AEAD_MAX_INVOCATIONS" "0 < s_rekey_after s"
      "cs_recv_counter (cst_session (s_crypto r)) < AEAD_MAX_INVOCATIONS"
    and pl: "length payload \<le> MAX_APP_CHUNK" "fl AND F_PADDED = 0"
    and conf: "s_rekey_unconfirmed s \<or> s_epoch s \<le> s_epoch r"
    and sent: "send_app_data L True stream payload fl off s = (res, t)"
    and gap: "s_epoch r \<le> s_epoch t" "s_epoch t - s_epoch r \<le> MAX_REKEY_CATCHUP"
    and fresh: "fst (accept (s_recv_replay r) (s_send_packet_number s))"
  shows "\<exists>w p pt r'. res = Some w \<and> receive_wire L w r = (Ok (p, pt), r')
    \<and> unshape_plaintext (flags_contains (hdr_flags (pkt_header p)) F_PADDED) pt = Ok (app_plaintext off payload)
    \<and> hdr_stream_id (pkt_header p) = stream \<and> s_epoch r' = s_epoch t"
  by (rule sent_data_received[OF L s r ends room pl conf sent gap fresh])

theorem sealed_data_arrives_witness:
  "\<exists>w p pt r'. fst (send_app_data demo_lib True 1 [1, 2, 3] F_RELIABLE (Some 0) (demo_peer False)) = Some w
    \<and> receive_wire demo_lib w (demo_peer True) = (Ok (p, pt), r')
    \<and> unshape_plaintext (flags_contains (hdr_flags (pkt_header p)) F_PADDED) pt = Ok (app_plaintext (Some 0) [1, 2, 3])"
proof -
  let ?s = "demo_peer False" and ?r = "demo_peer True"
  have cs: "\<exists>c. crypto_state_new demo_lib demo_secret d = Ok c \<and> cs_send_counter (cst_session c) = 0
      \<and> cs_recv_counter (cst_session c) = 0" for d
    using crypto_state_new_ok[OF demo_kdf(1,3), of d] by blast
  have f: "cs_send_counter (cst_session (s_crypto (demo_peer d))) = 0" "cs_recv_counter (cst_session (s_crypto (demo_peer d))) = 0"
    "s_rekey_after (demo_peer d) = REKEY_SOFT_LIMIT"
    "s_rekey_unconfirmed (demo_peer d) = False" "s_recv_replay (demo_peer d) = replay_new"
    "s_send_packet_number (demo_peer d) = 0" for d
    using cs[of d] by (auto simp: demo_peer_def session_init_def)
  have "rekey_before_stamp demo_lib ?s = (Some 0, ?s)"
    using f by (simp add: rekey_before_stamp_def send_needs_rekey_def send_invocations_def state_send_invocations_def
     )
  then have e: "s_epoch (snd (send_app_data demo_lib True 1 [1, 2, 3] F_RELIABLE (Some 0) ?s)) = 0"
    using send_epoch demo_peer_on_chain(4)[of False] by metis
  have "\<exists>w p pt r'. fst (send_app_data demo_lib True 1 [1, 2, 3] F_RELIABLE (Some 0) ?s) = Some w
    \<and> receive_wire demo_lib w ?r = (Ok (p, pt), r')
    \<and> unshape_plaintext (flags_contains (hdr_flags (pkt_header p)) F_PADDED) pt = Ok (app_plaintext (Some 0) [1, 2, 3])
    \<and> hdr_stream_id (pkt_header p) = 1 \<and> s_epoch r' = s_epoch (snd (send_app_data demo_lib True 1 [1, 2, 3] F_RELIABLE (Some 0) ?s))"
    by (rule sealed_data_arrives[OF demo_lib_ok demo_peer_on_chain(1) demo_peer_on_chain(1) _ _ _ _ _ _ _ _ _ prod.collapse[symmetric]])
      (use demo_peer_on_chain f e in \<open>simp_all add: AEAD_MAX_INVOCATIONS_def size_budget_defs
        F_RELIABLE_def F_PADDED_def accept_def replay_new_def\<close>)
  then show ?thesis by blast
qed

end
