(* ===== verification/Control_Frames.thy ===== *)
theory Control_Frames
  imports Secure_Channel
begin

text \<open>
  The frames a session sends besides application data (\<open>api/session.rs\<close>): window
  updates, keep-alives, cover traffic, the close announcement, path validation and
  selective acknowledgements, and what they do to the session that seals them. A
  result \<open>None\<close> is the source's \<open>false\<close>; \<open>transport_ok\<close> is the transport's answer.
\<close>

subsection \<open>Sealing a stamped header\<close>

definition seal_frame :: "crypto_lib \<Rightarrow> packet_header \<Rightarrow> bytes \<Rightarrow> session \<Rightarrow> bytes option \<times> session" where
  "seal_frame L header plaintext s =
     (case encrypt_packet L header plaintext [] s of
        (Inl e, s1) \<Rightarrow> (None, s1)
      | (Inr ciphertext, s1) \<Rightarrow>
          (case protect_packet L (packet_new header ciphertext) s1 of Inl e \<Rightarrow> (None, s1) | Inr buf \<Rightarrow> (Some buf, s1)))"

definition send_bytes :: "bool \<Rightarrow> bytes option \<times> session \<Rightarrow> bytes option \<times> session" where
  "send_bytes transport_ok r = (if transport_ok then fst r else None, snd r)"

subsection \<open>The senders\<close>

definition send_window_update :: "crypto_lib \<Rightarrow> bool \<Rightarrow> stream_id \<Rightarrow> u64 \<Rightarrow> session \<Rightarrow> bytes option \<times> session" where
  "send_window_update L transport_ok stream limit s =
     (let flag_bits = F_ENCRYPTED OR F_WINDOW_UPDATE in
      case rekey_before_stamp L s of
        (None, s1) \<Rightarrow> (None, s1)
      | (Some extra, s1) \<Rightarrow>
          let (pn, s2) = next_send_pn s1;
              header = with_epoch (header_new (s_id s) stream pn (flag_bits OR extra)) (s_epoch s2)
          in send_bytes transport_ok (seal_frame L header (to_be_bytes limit) s2))"

definition send_keepalive :: "crypto_lib \<Rightarrow> bool \<Rightarrow> bool \<Rightarrow> session \<Rightarrow> bytes option \<times> session" where
  "send_keepalive L transport_ok is_pong s =
     (let flag_bits = F_ENCRYPTED OR F_KEEPALIVE;
          flag_bits = (if is_pong then flag_bits OR F_ACK else flag_bits) in
      case rekey_before_stamp L s of
        (None, s1) \<Rightarrow> (None, s1)
      | (Some extra, s1) \<Rightarrow>
          let (pn, s2) = next_send_pn s1;
              header = with_path_id (with_epoch (header_new (s_id s) 1 pn (flag_bits OR extra)) (s_epoch s2))
                         (current_send_path_id s2)
          in send_bytes transport_ok (seal_frame L header [] s2))"

definition send_cover :: "crypto_lib \<Rightarrow> bool \<Rightarrow> session \<Rightarrow> bytes option \<times> session" where
  "send_cover L transport_ok s =
     (let flag_bits = F_ENCRYPTED OR F_COVER in
      case rekey_before_stamp L s of
        (None, s1) \<Rightarrow> (None, s1)
      | (Some extra, s1) \<Rightarrow>
          let (plaintext, padded) = shaped_plaintext Padme [];
              flag_bits = flag_bits OR extra;
              flag_bits = (if padded then flag_bits OR F_PADDED else flag_bits);
              (pn, s2) = next_send_pn s1;
              header = with_path_id (with_epoch (header_new (s_id s) 1 pn flag_bits) (s_epoch s2)) (current_send_path_id s2)
          in send_bytes transport_ok (seal_frame L header plaintext s2))"

definition send_control_close :: "crypto_lib \<Rightarrow> bool \<Rightarrow> session \<Rightarrow> bytes option \<times> session" where
  "send_control_close L transport_ok s =
     (let flag_bits = F_ENCRYPTED OR F_CONTROL in
      case rekey_before_stamp L s of
        (None, s1) \<Rightarrow> (None, s1)
      | (Some extra, s1) \<Rightarrow>
          let (plaintext, padded) = shaped_plaintext Padme [CONTROL_CLOSE];
              flag_bits = flag_bits OR extra;
              flag_bits = (if padded then flag_bits OR F_PADDED else flag_bits);
              (pn, s2) = next_send_pn s1;
              header = with_path_id (with_epoch (header_new (s_id s) 1 pn flag_bits) (s_epoch s2)) (current_send_path_id s2)
          in send_bytes transport_ok (seal_frame L header plaintext s2))"

definition encrypt_path_validation :: "crypto_lib \<Rightarrow> u8 \<Rightarrow> bytes \<Rightarrow> session \<Rightarrow> bytes option \<times> session" where
  "encrypt_path_validation L path_id payload s =
     (let (pn, s1) = next_send_pn s;
          packet = build_path_validation_packet (s_id s) path_id pn payload;
          header = pkt_header packet;
          header = header\<lparr>hdr_flags := hdr_flags header OR F_ENCRYPTED, hdr_epoch := s_epoch s1\<rparr>
      in seal_frame L header (pkt_payload packet) s1)"

definition send_path_validation :: "crypto_lib \<Rightarrow> bool \<Rightarrow> u8 \<Rightarrow> bytes \<Rightarrow> session \<Rightarrow> bytes option \<times> session" where
  "send_path_validation L transport_ok path_id payload s = send_bytes transport_ok (encrypt_path_validation L path_id payload s)"

text \<open>The acknowledgement is reported as unsent only when no epoch could be stamped; the wire bytes are apart.\<close>

definition send_stream_sack ::
  "crypto_lib \<Rightarrow> bool \<Rightarrow> sack \<Rightarrow> stream_id \<Rightarrow> u8 \<Rightarrow> session \<Rightarrow> (bool \<times> bytes option) \<times> session" where
  "send_stream_sack L transport_ok k stream path_id s =
     (let flag_bits = F_ENCRYPTED OR F_ACK in
      case rekey_before_stamp L s of
        (None, s1) \<Rightarrow> ((False, None), s1)
      | (Some extra, s1) \<Rightarrow>
          let (pn, s2) = next_send_pn s1;
              header = with_path_id (with_epoch (header_new (s_id s) stream pn (flag_bits OR extra)) (s_epoch s2)) path_id;
              (r, s3) = send_bytes transport_ok (seal_frame L header (sack_to_wire k) s2)
          in ((True, r), s3))"

abbreviation CLOSE_FRAME_COPIES :: nat where "CLOSE_FRAME_COPIES \<equiv> 3"

fun close_copies :: "crypto_lib \<Rightarrow> bool list \<Rightarrow> nat \<Rightarrow> session \<Rightarrow> bytes list \<times> session" where
  "close_copies L oks 0 s = ([], s)"
| "close_copies L oks (Suc n) s =
     (case send_control_close L (oks \<noteq> [] \<and> hd oks) s of
        (None, s1) \<Rightarrow> ([], s1)
      | (Some w, s1) \<Rightarrow> let (ws, s2) = close_copies L (tl oks) n s1 in (w # ws, s2))"

definition announce_close :: "crypto_lib \<Rightarrow> bool list \<Rightarrow> session \<Rightarrow> bytes list \<times> session" where
  "announce_close L oks s =
     (if s_state s = SConnected \<or> s_state s = SMigrating then close_copies L oks CLOSE_FRAME_COPIES s else ([], s))"

definition maybe_send_cover ::
  "crypto_lib \<Rightarrow> nanos \<Rightarrow> bool \<Rightarrow> u64 \<times> nanos \<Rightarrow> session \<Rightarrow> bytes option \<times> (u64 \<times> nanos) \<times> session" where
  "maybe_send_cover L now transport_ok prev s =
     (let interval = cover_interval s; (last_pn, last_at) = prev; pn = s_send_packet_number s
      in if interval = 0 then (None, prev, s)
         else if s_state s \<noteq> SConnected then (None, prev, s)
         else if pn \<noteq> last_pn then (None, (pn, now), s)
         else if now - last_at \<ge> interval
         then (case send_cover L transport_ok s of
                 (Some w, s1) \<Rightarrow> (Some w, (s_send_packet_number s1, now), s1)
               | (None, s1) \<Rightarrow> (None, prev, s1))
         else (None, prev, s))"

abbreviation DRAIN_ROUND_TRIPS :: nat where "DRAIN_ROUND_TRIPS \<equiv> 3"
abbreviation DRAIN_WINDOW_MIN :: nanos where "DRAIN_WINDOW_MIN \<equiv> millis 200"
abbreviation DRAIN_WINDOW_MAX :: nanos where "DRAIN_WINDOW_MAX \<equiv> millis 600"

definition drain_window_for_rtt :: "nanos \<Rightarrow> nanos" where
  "drain_window_for_rtt rtt = min (max (rtt * DRAIN_ROUND_TRIPS) DRAIN_WINDOW_MIN) DRAIN_WINDOW_MAX"

subsection \<open>Frames in general\<close>

text \<open>Every sender but path validation is this, at its flags, stream, path and plaintext.\<close>

definition stamped :: "crypto_lib \<Rightarrow> packet_flags \<Rightarrow> stream_id \<Rightarrow> (session \<Rightarrow> u8) \<Rightarrow> bytes \<Rightarrow> session \<Rightarrow> bytes option \<times> session" where
  "stamped L fl stream path body s =
     (case rekey_before_stamp L s of
        (None, s1) \<Rightarrow> (None, s1)
      | (Some extra, s1) \<Rightarrow>
          let (pn, s2) = next_send_pn s1;
              header = with_path_id (with_epoch (header_new (s_id s) stream pn (fl OR extra)) (s_epoch s2)) (path s2)
          in seal_frame L header body s2)"

lemma with_path_0 [simp]: "with_path_id (with_epoch (header_new i st pn fl) e) 0 = with_epoch (header_new i st pn fl) e"
  by (simp add: with_path_id_def with_epoch_def header_new_def)

lemma send_bytes_None [simp]: "send_bytes ok (None, s) = (None, s)" by (simp add: send_bytes_def)

lemma snd_send_bytes [simp]: "snd (send_bytes ok r) = snd r" by (simp add: send_bytes_def)

lemma stamped_frames:
  "send_window_update L ok st limit s = send_bytes ok (stamped L (F_ENCRYPTED OR F_WINDOW_UPDATE) st (\<lambda>_. 0) (to_be_bytes limit) s)"
  "send_keepalive L ok pong s =
     send_bytes ok (stamped L (F_ENCRYPTED OR (if pong then F_KEEPALIVE OR F_ACK else F_KEEPALIVE)) 1 s_send_path_id [] s)"
  "send_cover L ok s = send_bytes ok (stamped L (if snd (shaped_plaintext Padme []) then F_ENCRYPTED OR F_COVER OR F_PADDED
     else F_ENCRYPTED OR F_COVER) 1 s_send_path_id (fst (shaped_plaintext Padme [])) s)"
  "send_control_close L ok s = send_bytes ok (stamped L (if snd (shaped_plaintext Padme [CONTROL_CLOSE])
     then F_ENCRYPTED OR F_CONTROL OR F_PADDED else F_ENCRYPTED OR F_CONTROL) 1 s_send_path_id (fst (shaped_plaintext Padme [CONTROL_CLOSE])) s)"
  by (simp_all add: send_window_update_def send_keepalive_def send_cover_def send_control_close_def stamped_def Let_def split_beta
      current_send_path_id_def or.assoc or.commute or.left_commute split: option.split)

lemma stamped_sack:
  "send_stream_sack L ok k st path s =
     (case rekey_before_stamp L s of (None, s1) \<Rightarrow> ((False, None), s1)
      | (Some _, _) \<Rightarrow> (let (r, t) = send_bytes ok (stamped L (F_ENCRYPTED OR F_ACK) st (\<lambda>_. path) (sack_to_wire k) s) in ((True, r), t)))"
  by (simp add: send_stream_sack_def stamped_def Let_def split_beta split: option.split)

text \<open>What sealing a frame leaves of the session: everything but keys, epoch, packet number and pacer.\<close>

definition kept :: "session \<Rightarrow> session \<Rightarrow> bool" where
  "kept s t \<longleftrightarrow> s_id t = s_id s \<and> s_state t = s_state s \<and> s_header_protection t = s_header_protection s
     \<and> s_cid_chain t = s_cid_chain s \<and> s_outbound_cid_index t = s_outbound_cid_index s
     \<and> s_inbound_cid_highest_seen t = s_inbound_cid_highest_seen s \<and> s_last_seen_path_id t = s_last_seen_path_id s
     \<and> s_rekey_after t = s_rekey_after s \<and> s_padding_policy t = s_padding_policy s
     \<and> s_is_server t = s_is_server s \<and> s_streams t = s_streams s \<and> s_last_activity t = s_last_activity s
     \<and> s_send_path_id t = s_send_path_id s \<and> s_recv_replay t = s_recv_replay s
     \<and> s_replay_rejected_total t = s_replay_rejected_total s \<and> s_path_registry t = s_path_registry s
     \<and> s_peer_closed t = s_peer_closed s \<and> s_keepalive_outstanding t = s_keepalive_outstanding s"

lemma kept_refl [simp]: "kept s s" by (simp add: kept_def)

lemma kept_trans: "kept s t \<Longrightarrow> kept t u \<Longrightarrow> kept s u" by (simp add: kept_def)

lemma kept_pn [simp]: "kept s (s\<lparr>s_send_packet_number := n\<rparr>)" "kept s (s\<lparr>s_crypto := c\<rparr>)" "kept s (s\<lparr>s_pacer := p\<rparr>)"
  by (simp_all add: kept_def)

lemma stamp_kept: "rekey_before_stamp L s = (r, t) \<Longrightarrow> kept s t"
  by (auto simp: rekey_before_stamp_def rekey_def commit_forward_crypto_def kept_def Let_def split_beta
      split: if_splits sum.splits)

lemma seal_frame_kept: "kept s (snd (seal_frame L h pt s))"
  by (auto simp: seal_frame_def encrypt_packet_def Let_def split_beta split: sum.split)

lemma stamped_kept: "kept s (snd (stamped L fl st path body s))"
proof -
  obtain r t where r: "rekey_before_stamp L s = (r, t)" by (rule prod.exhaust)
  have t: "kept s t" "kept t (t\<lparr>s_send_packet_number := s_send_packet_number t + 1\<rparr>)" using stamp_kept[OF r] by simp_all
  show ?thesis
  proof (cases r)
    case None
    then show ?thesis using r t by (simp add: stamped_def)
  next
    case (Some extra)
    then show ?thesis using r kept_trans[OF kept_trans[OF t] seal_frame_kept]
      by (simp add: stamped_def next_send_pn_def Let_def)
  qed
qed

datatype frame =
    FApp bool stream_id bytes packet_flags "u32 option" | FWindow bool stream_id u64 | FKeepalive bool bool | FCover bool
  | FClose bool | FPath bool u8 bytes | FSack bool sack stream_id u8

fun emit :: "crypto_lib \<Rightarrow> frame \<Rightarrow> session \<Rightarrow> bytes option \<times> session" where
  "emit L (FApp ok st pl fl off) s = send_app_data L ok st pl fl off s"
| "emit L (FWindow ok st limit) s = send_window_update L ok st limit s"
| "emit L (FKeepalive ok pong) s = send_keepalive L ok pong s"
| "emit L (FCover ok) s = send_cover L ok s"
| "emit L (FClose ok) s = send_control_close L ok s"
| "emit L (FPath ok path payload) s = send_path_validation L ok path payload s"
| "emit L (FSack ok k st path) s = (let ((_, r), t) = send_stream_sack L ok k st path s in (r, t))"

lemma send_app_data_kept: "kept s (snd (send_app_data L ok st pl fl off s))"
proof -
  obtain r t where r: "rekey_before_stamp L s = (r, t)" by (rule prod.exhaust)
  have t: "kept s t" "kept t (t\<lparr>s_send_packet_number := s_send_packet_number t + 1\<rparr>)" using stamp_kept[OF r] by simp_all
  have e: "kept v (snd (encrypt_packet L h p x v))" for h p x v
    by (simp add: encrypt_packet_def Let_def split_beta)
  show ?thesis
    using r t kept_trans[OF kept_trans[OF t] e] kept_trans[OF kept_trans[OF kept_trans[OF t] e] kept_pn(3)]
    by (simp add: send_app_data_def next_send_pn_def Let_def split_beta split: option.split sum.split prod.split)
qed

lemma send_stream_sack_kept: "kept s (snd (send_stream_sack L ok k st path s))"
  using stamped_kept[of s L "F_ENCRYPTED OR F_ACK" st "\<lambda>_. path" "sack_to_wire k"]
  stamp_kept[where L = L and s = s and r = "fst (rekey_before_stamp L s)" and t = "snd (rekey_before_stamp L s)"]
  by (auto simp: stamped_sack Let_def split_beta split: option.split prod.split)

lemma path_validation_kept: "kept s (snd (encrypt_path_validation L path payload s))"
  using kept_trans[OF kept_pn(1) seal_frame_kept]
  by (simp add: encrypt_path_validation_def next_send_pn_def Let_def)

lemma emit_kept: "kept s (snd (emit L f s))"
  by (cases f) (simp_all add: send_app_data_kept send_stream_sack_kept path_validation_kept stamped_frames stamped_kept
      send_path_validation_def Let_def split_beta)

subsection \<open>Frames and the key chain\<close>

lemma seal_frame_moves:
  assumes "on_chain L secret s"
  shows "on_chain L secret (snd (seal_frame L h pt s)) \<and> moved s (snd (seal_frame L h pt s)) \<and> rotated s (snd (seal_frame L h pt s))
    \<and> s_send_packet_number (snd (seal_frame L h pt s)) = s_send_packet_number s"
proof -
  obtain r t where e: "encrypt_packet L h pt [] s = (r, t)" by (rule prod.exhaust)
  have "snd (seal_frame L h pt s) = t" using e by (simp add: seal_frame_def split: sum.split)
  then show ?thesis using encrypt_packet_moves[OF assms e] by simp
qed

lemma stamped_moves:
  assumes "kdf_ok L" "on_chain L secret s"
  shows "on_chain L secret (snd (stamped L fl st path body s)) \<and> moved s (snd (stamped L fl st path body s))
    \<and> rotated s (snd (stamped L fl st path body s))
    \<and> s_send_packet_number (snd (stamped L fl st path body s)) = s_send_packet_number s + 1"
proof -
  obtain u where u: "rekey_before_stamp L s = (Some (if s_rekey_unconfirmed u then F_REKEY else 0), u)"
    "on_chain L secret u" "moved s u" "rotated s u" "s_send_packet_number u = s_send_packet_number s"
    by (rule stamp_ok[OF assms])
  let ?u = "u\<lparr>s_send_packet_number := s_send_packet_number u + 1\<rparr>"
  have u1: "on_chain L secret ?u" by (rule on_chain_cong[OF u(2)]) simp_all
  have mu: "moved s ?u" "rotated s ?u" using u(3,4) by (simp_all add: moved_def rotated_def)
  obtain h where r: "stamped L fl st path body s = seal_frame L h body ?u"
    using u(1) by (simp add: stamped_def next_send_pn_def Let_def)
  note f = seal_frame_moves[OF u1, of h body]
  have "moved s (snd (seal_frame L h body ?u))" "rotated s (snd (seal_frame L h body ?u))"
    using mu f by (auto simp: moved_def rotated_def)
  then show ?thesis unfolding r using f u(5) by simp
qed

lemma sack_state:
  assumes "kdf_ok L" "on_chain L secret s"
  shows "send_stream_sack L ok k st path s =
    ((True, fst (send_bytes ok (stamped L (F_ENCRYPTED OR F_ACK) st (\<lambda>_. path) (sack_to_wire k) s))),
     snd (stamped L (F_ENCRYPTED OR F_ACK) st (\<lambda>_. path) (sack_to_wire k) s))"
proof -
  obtain u where "rekey_before_stamp L s = (Some (if s_rekey_unconfirmed u then F_REKEY else 0), u)"
    by (rule stamp_ok[OF assms])
  then show ?thesis by (simp add: stamped_sack Let_def split_beta)
qed

lemma path_validation_moves:
  assumes "on_chain L secret s"
  shows "on_chain L secret (snd (encrypt_path_validation L path payload s)) \<and> moved s (snd (encrypt_path_validation L path payload s))
    \<and> rotated s (snd (encrypt_path_validation L path payload s))
    \<and> s_send_packet_number (snd (encrypt_path_validation L path payload s)) = s_send_packet_number s + 1"
proof -
  let ?u = "s\<lparr>s_send_packet_number := s_send_packet_number s + 1\<rparr>"
  have u1: "on_chain L secret ?u" by (rule on_chain_cong[OF assms]) simp_all
  obtain h where r: "encrypt_path_validation L path payload s = seal_frame L h payload ?u"
    by (simp add: encrypt_path_validation_def next_send_pn_def Let_def build_path_validation_packet_def packet_new_def)
  note f = seal_frame_moves[OF u1, of h payload]
  have "moved s (snd (seal_frame L h payload ?u))" "rotated s (snd (seal_frame L h payload ?u))"
    using f by (auto simp: moved_def rotated_def)
  then show ?thesis unfolding r using f by simp
qed

lemma emit_moves:
  assumes "kdf_ok L" "mask_ok L" "on_chain L secret s"
  shows "on_chain L secret (snd (emit L f s)) \<and> moved s (snd (emit L f s)) \<and> rotated s (snd (emit L f s))
    \<and> s_send_packet_number (snd (emit L f s)) = s_send_packet_number s + 1"
proof (cases f)
  case (FApp ok st pl fl off)
  then show ?thesis
    using send_moves[OF assms, of ok st pl fl off "fst (send_app_data L ok st pl fl off s)" "snd (send_app_data L ok st pl fl off s)"]
    by simp
next
  case (FSack ok k st path)
  then show ?thesis using stamped_moves[OF assms(1,3)] by (simp add: sack_state[OF assms(1,3)])
next
  case (FPath ok path payload)
  then show ?thesis using path_validation_moves[OF assms(3)] by (simp add: send_path_validation_def)
qed (simp_all add: stamped_frames stamped_moves[OF assms(1,3)])

subsection \<open>Nonces\<close>

text \<open>
  The key and nonce of every AEAD seal an endpoint attempts, over the sealing of frames of
  every kind, the reception of arbitrary datagrams and rotations of its own.
\<close>

datatype endpoint_op = DoEmit frame | DoReceive bytes | DoRekey

fun do_op :: "crypto_lib \<Rightarrow> endpoint_op \<Rightarrow> session \<Rightarrow> session" where
  "do_op L (DoEmit f) s = snd (emit L f s)"
| "do_op L (DoReceive w) s = snd (receive_wire L w s)"
| "do_op L DoRekey s = snd (rekey L s)"

definition seal_nonce :: "session \<Rightarrow> bytes \<times> bytes" where
  "seal_nonce s = (cs_send_key (cst_session (s_crypto s)), state_nonce_prefix (s_crypto s) @ to_be_bytes (s_send_packet_number s))"

definition emit_seal :: "crypto_lib \<Rightarrow> frame \<Rightarrow> session \<Rightarrow> (bytes \<times> bytes) list" where
  "emit_seal L f s =
     (case f of FPath _ _ _ \<Rightarrow> [seal_nonce s]
      | _ \<Rightarrow> (case rekey_before_stamp L s of (None, t) \<Rightarrow> [] | (Some _, t) \<Rightarrow> [seal_nonce t]))"

fun sealed_with :: "crypto_lib \<Rightarrow> endpoint_op \<Rightarrow> session \<Rightarrow> (bytes \<times> bytes) list" where
  "sealed_with L (DoEmit f) s = emit_seal L f s"
| "sealed_with L _ s = []"

fun seal_log :: "('op \<Rightarrow> 's \<Rightarrow> 's) \<Rightarrow> ('op \<Rightarrow> 's \<Rightarrow> (bytes \<times> bytes) list) \<Rightarrow> 'op list \<Rightarrow> 's \<Rightarrow> (bytes \<times> bytes) list" where
  "seal_log step seals [] s = []"
| "seal_log step seals (op # ops) s = seals op s @ seal_log step seals ops (step op s)"

text \<open>A counter that each logged step uses and then advances never gives the same nonce again.\<close>

locale nonce_discipline =
  fixes step :: "'op \<Rightarrow> 's \<Rightarrow> 's" and pn :: "'s \<Rightarrow> u64" and seals :: "'op \<Rightarrow> 's \<Rightarrow> (bytes \<times> bytes) list" and ok :: "'s \<Rightarrow> bool"
  assumes ok_step: "ok s \<Longrightarrow> ok (step op s)"
    and step_cases: "ok s \<Longrightarrow> seals op s = [] \<and> pn (step op s) = pn s \<or>
      (\<exists>k pre. seals op s = [(k, pre @ to_be_bytes (pn s))] \<and> pn (step op s) = pn s + 1)"
begin

lemma log_nonces:
  assumes "ok s" "unat (pn s) + length ops < 2 ^ 64"
  shows "distinct (map snd (seal_log step seals ops s)) \<and> (\<forall>n \<in> set (map snd (seal_log step seals ops s)). \<exists>pre q. n = pre @ to_be_bytes q \<and> pn s \<le> (q :: u64))"
  using assms
proof (induction ops arbitrary: s)
  case (Cons op ops)
  let ?t = "step op s"
  have pn1: "unat (pn s + 1) = unat (pn s) + 1" using Cons.prems(2) by (simp add: unat_word_ariths)
  have ge: "pn s \<le> pn ?t" "unat (pn ?t) \<le> unat (pn s) + 1"
    using step_cases[OF Cons.prems(1), of op] pn1 by (auto simp: word_le_nat_alt)
  then have "unat (pn ?t) + length ops < 2 ^ 64" using Cons.prems(2) by simp
  note ih = Cons.IH[OF ok_step[OF Cons.prems(1)] this]
  have later: "\<exists>pre q. n = pre @ to_be_bytes q \<and> pn ?t \<le> q" if "n \<in> set (map snd (seal_log step seals ops ?t))" for n
    using ih that by blast
  from step_cases[OF Cons.prems(1), of op] show ?case
  proof (elim disjE exE conjE)
    assume "seals op s = []"
    then show ?case using ih later ge by (fastforce intro: order.trans)
  next
    fix k pre
    assume sw: "seals op s = [(k, pre @ to_be_bytes (pn s))]" and t: "pn ?t = pn s + 1"
    have "pre @ to_be_bytes (pn s) \<notin> set (map snd (seal_log step seals ops ?t))"
    proof
      assume "pre @ to_be_bytes (pn s) \<in> set (map snd (seal_log step seals ops ?t))"
      then obtain pre' q where q: "pre @ to_be_bytes (pn s) = pre' @ to_be_bytes q" "pn s + 1 \<le> q" using later t by metis
      then have "to_be_bytes (pn s) = to_be_bytes q" by simp
      then have "pn s = q" using to_be_bytes_inj[of "pn s" q] by simp
      then show False using q(2) pn1 by (simp add: word_le_nat_alt)
    qed
    then show ?case using sw ih later ge by (fastforce intro: order.trans)
  qed
qed simp

end

text \<open>Application data in the common form.\<close>

lemma app_stamped:
  "send_app_data L ok st pl fl off s =
     (let (pt, padded) = shaped_plaintext (session_padding_policy s) (app_plaintext off pl)
      in case stamped L (if padded then fl OR F_ENCRYPTED OR F_PADDED else fl OR F_ENCRYPTED) st s_send_path_id pt s of
           (None, t) \<Rightarrow> (None, t)
         | (Some w, t) \<Rightarrow> if ok then (Some w, t\<lparr>s_pacer := pacer_consume (word_of_nat (length w)) (s_pacer t)\<rparr>) else (None, t))"
proof -
  obtain r t where r: "rekey_before_stamp L s = (r, t)" by (rule prod.exhaust)
  have "session_padding_policy (t\<lparr>s_send_packet_number := n\<rparr>) = session_padding_policy s" for n
    using stamp_kept[OF r] by (simp add: kept_def session_padding_policy_def)
  then show ?thesis using r
    by (simp add: send_app_data_def stamped_def seal_frame_def next_send_pn_def current_send_path_id_def Let_def split_beta
        or.assoc or.commute or.left_commute split: option.split sum.split prod.split)
qed

text \<open>What leaves as a datagram was sealed with the logged key and nonce.\<close>

definition sealed_as :: "crypto_lib \<Rightarrow> bytes \<times> bytes \<Rightarrow> bytes \<Rightarrow> bool" where
  "sealed_as L kn w \<longleftrightarrow> (\<exists>suite h pt c m. aead_seal L suite (fst kn) (snd kn) (to_aad_image h) pt = Some c
     \<and> w = to_wire_masked (packet_new h c) m)"

lemma sealed_asI:
  "aead_seal L suite k n (to_aad_image h) pt = Some c \<Longrightarrow> w = to_wire_masked (packet_new h c) m \<Longrightarrow> sealed_as L (k, n) w"
  unfolding sealed_as_def by fastforce

lemma seal_frame_sealed:
  assumes "seal_frame L h pt s = (Some w, t)"
  shows "sealed_as L (cs_send_key (cst_session (s_crypto s)), state_nonce_prefix (s_crypto s) @ to_be_bytes (hdr_packet_number h)) w"
  using assms
  by (auto simp: seal_frame_def encrypt_packet_def state_encrypt_def encrypt_with_nonce_def protect_packet_def packet_aad_def
      build_packet_nonce_def Let_def split_beta split: sum.splits if_splits option.splits intro: sealed_asI)

lemma stamped_sealed:
  assumes "stamped L fl st path body s = (Some w, t)"
  shows "\<exists>kn. (case rekey_before_stamp L s of (None, u) \<Rightarrow> [] | (Some _, u) \<Rightarrow> [seal_nonce u]) = [kn] \<and> sealed_as L kn w"
proof -
  obtain x u where u: "rekey_before_stamp L s = (Some x, u)"
    using assms by (auto simp: stamped_def split: prod.splits option.splits)
  obtain h where "seal_frame L h body (u\<lparr>s_send_packet_number := s_send_packet_number u + 1\<rparr>) = (Some w, t)"
    "hdr_packet_number h = s_send_packet_number u"
    using assms u by (auto simp: stamped_def next_send_pn_def Let_def with_path_id_def with_epoch_def header_new_def)
  then show ?thesis using u seal_frame_sealed by (fastforce simp: seal_nonce_def)
qed

lemma path_sealed:
  assumes "encrypt_path_validation L path payload s = (Some w, t)"
  shows "sealed_as L (seal_nonce s) w"
proof -
  obtain h where "seal_frame L h payload (s\<lparr>s_send_packet_number := s_send_packet_number s + 1\<rparr>) = (Some w, t)"
    "hdr_packet_number h = s_send_packet_number s"
    using assms by (auto simp: encrypt_path_validation_def next_send_pn_def Let_def build_path_validation_packet_def
        packet_new_def header_new_def with_path_id_def)
  then show ?thesis using seal_frame_sealed by (fastforce simp: seal_nonce_def)
qed

lemma sent_cases: "send_bytes ok r = (Some w, t) \<Longrightarrow> r = (Some w, t)"
  by (cases r) (auto simp: send_bytes_def split: if_splits)

lemmas stamped_sent = stamped_sealed[OF sent_cases]

lemma emit_sealed:
  assumes "emit L f s = (Some w, t)"
  shows "\<exists>kn. emit_seal L f s = [kn] \<and> sealed_as L kn w"
proof (cases f)
  case (FApp ok st pl fl off)
  obtain pt padded where p: "shaped_plaintext (session_padding_policy s) (app_plaintext off pl) = (pt, padded)" by (rule prod.exhaust)
  obtain t' where "stamped L (if padded then fl OR F_ENCRYPTED OR F_PADDED else fl OR F_ENCRYPTED) st s_send_path_id pt s = (Some w, t')"
    using assms unfolding FApp emit.simps app_stamped p Let_def prod.case
    by (cases "stamped L (if padded then fl OR F_ENCRYPTED OR F_PADDED else fl OR F_ENCRYPTED) st s_send_path_id pt s")
      (simp split: option.splits if_splits)
  from stamped_sealed[OF this] show ?thesis by (simp add: FApp emit_seal_def)
next
  case (FSack ok k st path)
  obtain r u where "rekey_before_stamp L s = (r, u)" by (rule prod.exhaust)
  then have "send_bytes ok (stamped L (F_ENCRYPTED OR F_ACK) st (\<lambda>_. path) (sack_to_wire k) s) = (Some w, t)"
    using assms unfolding FSack emit.simps stamped_sack by (simp add: Let_def split_beta prod_eq_iff split: option.splits)
  from stamped_sent[OF this] show ?thesis by (simp add: FSack emit_seal_def)
next
  case (FPath ok path payload)
  then show ?thesis using assms path_sealed[OF sent_cases] by (simp add: emit_seal_def send_path_validation_def)
next
  case (FWindow ok st limit)
  show ?thesis using assms unfolding FWindow emit.simps stamped_frames emit_seal_def frame.case by (rule stamped_sent)
next
  case (FKeepalive ok pong)
  show ?thesis using assms unfolding FKeepalive emit.simps stamped_frames emit_seal_def frame.case by (rule stamped_sent)
next
  case (FCover ok)
  show ?thesis using assms unfolding FCover emit.simps stamped_frames emit_seal_def frame.case by (rule stamped_sent)
next
  case (FClose ok)
  show ?thesis using assms unfolding FClose emit.simps stamped_frames emit_seal_def frame.case by (rule stamped_sent)
qed

lemma do_op_disciplined:
  assumes "kdf_ok L" "mask_ok L" "on_chain L secret s"
  shows "on_chain L secret (do_op L op s) \<and>
    (sealed_with L op s = [] \<and> s_send_packet_number (do_op L op s) = s_send_packet_number s \<or>
     (\<exists>k pre. sealed_with L op s = [(k, pre @ to_be_bytes (s_send_packet_number s))]
        \<and> s_send_packet_number (do_op L op s) = s_send_packet_number s + 1))"
proof (cases op)
  case (DoEmit f)
  obtain t where "rekey_before_stamp L s = (Some (if s_rekey_unconfirmed t then F_REKEY else 0), t)"
    "s_send_packet_number t = s_send_packet_number s" by (rule stamp_ok[OF assms(1,3)])
  then have "\<exists>k pre. emit_seal L f s = [(k, pre @ to_be_bytes (s_send_packet_number s))]"
    by (cases f) (simp_all add: emit_seal_def seal_nonce_def)
  then show ?thesis using DoEmit emit_moves[OF assms, of f] by simp
next
  case (DoReceive w)
  then show ?thesis using receive_moves[OF assms(1,3), where r = "fst (receive_wire L w s)" and t = "snd (receive_wire L w s)"]
    by simp
next
  case DoRekey
  then show ?thesis using rekey_moves[OF assms(1,3)] by simp
qed

interpretation endpoint_nonces: nonce_discipline "do_op L" s_send_packet_number "sealed_with L"
  "\<lambda>s. kdf_ok L \<and> mask_ok L \<and> on_chain L secret s" for L secret
  by unfold_locales (use do_op_disciplined in blast)+

subsection \<open>Arrival\<close>

lemma seal_frame_parses:
  assumes "kdf_ok L" "mask_ok L" "on_chain L secret s" "on_chain L secret r" "s_is_server s \<noteq> s_is_server r"
    and h: "hdr_session_id h = s_id r" and w: "seal_frame L h pt s = (Some w, t)"
  obtains c where "parse_protected L w r = Ok (packet_new h c)"
proof -
  obtain c v where c: "encrypt_packet L h pt [] s = (Ok c, v)" "protect_packet L (packet_new h c) v = Ok w"
    using w by (auto simp: seal_frame_def split: prod.splits sum.splits)
  have v: "s_header_protection v = hp_derive L (lib_suite L) secret (s_is_server s)"
    using encrypt_packet_moves(1,2)[OF assms(3) c(1)] by (simp add: on_chain_def moved_def)
  have r: "s_header_protection r = hp_derive L (lib_suite L) secret (\<not> s_is_server s)"
    using assms(4,5) by (simp add: on_chain_def)
  have "16 \<le> length c"
    using c(2) by (auto simp: protect_packet_def hp_sample_def HP_SAMPLE_LEN_def packet_new_def split: sum.splits if_splits)
  from parse_protect[OF assms(2,1) v r this h] show ?thesis using that c(2) by auto
qed

lemma stamped_arrives:
  assumes L: "crypto_ok L" and s: "on_chain L secret s" and r: "on_chain L secret r"
    and ends: "s_is_server s \<noteq> s_is_server r" "s_id s = s_id r"
    and room: "s_epoch s < 255" "s_rekey_after s \<le> AEAD_MAX_INVOCATIONS" "0 < s_rekey_after s"
      "cs_recv_counter (cst_session (s_crypto r)) < AEAD_MAX_INVOCATIONS"
    and len: "length body < 2 ^ 32" and conf: "s_rekey_unconfirmed s \<or> s_epoch s \<le> s_epoch r"
    and sent: "stamped L fl st path body s = (res, t)"
    and gap: "s_epoch r \<le> s_epoch t" "s_epoch t - s_epoch r \<le> MAX_REKEY_CATCHUP"
    and fresh: "fst (accept (s_recv_replay r) (s_send_packet_number s))"
  obtains w u c r' where "res = Some w" "kept s u" "s_epoch u = s_epoch t"
    "receive_wire L w r = (Ok (packet_new (with_path_id (with_epoch (header_new (s_id s) st (s_send_packet_number s)
       (fl OR (if s_rekey_unconfirmed u then F_REKEY else 0))) (s_epoch t)) (path u)) c, body), r')"
    "s_epoch r' = s_epoch t"
proof -
  have k: "kdf_ok L" "mask_ok L" using L by (simp_all add: crypto_ok_def)
  obtain u where u: "rekey_before_stamp L s = (Some (if s_rekey_unconfirmed u then F_REKEY else 0), u)"
    "on_chain L secret u" "moved s u" "rotated s u" "s_send_packet_number u = s_send_packet_number s"
    "s_epoch s < 255 \<longrightarrow> send_invocations u < max (s_rekey_after s) 1"
    by (rule stamp_ok[OF k(1) s])
  have id: "s_is_server u = s_is_server s" using u(3) by (simp add: moved_def)
  let ?u = "u\<lparr>s_send_packet_number := s_send_packet_number u + 1\<rparr>"
  let ?h = "with_path_id (with_epoch (header_new (s_id s) st (s_send_packet_number s)
     (fl OR (if s_rekey_unconfirmed u then F_REKEY else 0))) (s_epoch u)) (path ?u)"
  have u1: "on_chain L secret ?u" by (rule on_chain_cong[OF u(2)]) simp_all
  have "1 \<le> s_rekey_after s" using room(3) unfolding word_le_nat_alt word_less_nat_alt by simp
  then have cnt: "send_invocations ?u < AEAD_MAX_INVOCATIONS"
    using u(6) room(1,2) by (simp add: max_absorb1 send_invocations_def)
  have eq: "seal_frame L ?h body ?u = (res, t)" using sent u(1,5) by (simp add: stamped_def next_send_pn_def Let_def)
  have te: "s_epoch t = s_epoch u"
    using eq by (auto simp: seal_frame_def encrypt_packet_def Let_def split_beta split: sum.splits)
  have flag: "flags_contains (hdr_flags ?h) F_REKEY" if "s_epoch r < s_epoch ?u"
  proof -
    have "s_rekey_unconfirmed u" using u(4) conf that by (auto simp: rotated_def)
    then show ?thesis by (simp add: flags_contains_def with_path_id_def with_epoch_def header_new_def word_ao_absorbs or.commute)
  qed
  obtain c v w r' where o: "encrypt_packet L ?h body [] ?u = (Ok c, v)" "protect_packet L (packet_new ?h c) v = Ok w"
    "receive_wire L w r = (Ok (packet_new ?h c, body), r')" "s_epoch r' = s_epoch ?u"
    by (rule seal_open_wire[OF L u1 r _ cnt room(4) len _ _ _ _ flag])
      (use ends id gap te fresh u(5) in \<open>simp_all add: with_path_id_def with_epoch_def header_new_def\<close>)
  have res: "res = Some w" using eq o(1,2) by (simp add: seal_frame_def)
  have ku: "kept s ?u" by (rule kept_trans[OF stamp_kept[OF u(1)] kept_pn(1)])
  show ?thesis by (rule that[of w ?u c r']) (use res o(3,4) te ku in simp_all)
qed

subsection \<open>Properties\<close>

text \<open>
  C13. No nonce is used twice. Over any sequence of the frames an endpoint sends (data,
  window updates, keep-alives, cover traffic, close, path validation, acknowledgements),
  of receptions of arbitrary datagrams and of key rotations, short of \<open>2 ^ 64\<close>
  operations, the nonces of all AEAD seals it attempts are pairwise distinct, within an
  epoch and across epochs, also for frames that fail after sealing; and every datagram a
  frame puts out is the seal under the key and nonce recorded for it.
\<close>

theorem nonces_never_repeat:
  assumes "kdf_ok L" "mask_ok L" "on_chain L secret s" "unat (s_send_packet_number s) + length ops < 2 ^ 64"
  shows "distinct (map snd (seal_log (do_op L) (sealed_with L) ops s)) \<and>
    (\<forall>f u w t. emit L f u = (Some w, t) \<longrightarrow> (\<exists>kn. sealed_with L (DoEmit f) u = [kn] \<and> sealed_as L kn w))"
  using endpoint_nonces.log_nonces[of L secret s ops] emit_sealed assms by simp

theorem nonces_never_repeat_witness:
  "distinct (map snd (seal_log (do_op demo_lib) (sealed_with demo_lib)
     [DoEmit (FApp True 1 [1] F_RELIABLE (Some 0)), DoRekey, DoReceive [7], DoEmit (FPath True 3 (replicate 32 5)),
      DoEmit (FKeepalive False True)] (demo_peer False)))"
proof -
  have "s_send_packet_number (demo_peer False) = 0" by (simp add: demo_peer_def session_init_def)
  then show ?thesis
    using nonces_never_repeat[OF demo_kdf(1,2) demo_peer_on_chain(1)[of False], of "[DoEmit (FApp True 1 [1] F_RELIABLE (Some 0)),
      DoRekey, DoReceive [7], DoEmit (FPath True 3 (replicate 32 5)), DoEmit (FKeepalive False True)]"] by simp
qed

text \<open>
  C25. Path validation does not carry a rotation. Every other frame names a new epoch
  with the REKEY flag until the peer is known to have followed, so that the peer can
  follow; a PATH_VALIDATION frame is stamped with the sender's epoch and never with the
  flag. A peer that has not followed yet refuses it, unopened, and stays where it is.
\<close>

theorem path_validation_refused_behind:
  assumes "kdf_ok L" "mask_ok L" "on_chain L secret s" "on_chain L secret r"
    and ends: "s_is_server s \<noteq> s_is_server r" "s_id s = s_id r"
    and sent: "send_path_validation L ok path payload s = (Some w, t)" and behind: "s_epoch r < s_epoch s"
  shows "receive_wire L w r = (Err (CryptoFailure (ForwardWithoutRekey (s_epoch s) (s_epoch r))), r)"
proof -
  let ?u = "s\<lparr>s_send_packet_number := s_send_packet_number s + 1\<rparr>"
  have u: "on_chain L secret ?u" by (rule on_chain_cong[OF assms(3)]) simp_all
  obtain h where h: "seal_frame L h payload ?u = (Some w, t)" "hdr_session_id h = s_id r" "hdr_epoch h = s_epoch s"
    "hdr_flags h = F_PATH_VALIDATION OR F_ENCRYPTED"
    using sent_cases[OF sent[unfolded send_path_validation_def]] ends(2)
    by (auto simp: encrypt_path_validation_def next_send_pn_def Let_def build_path_validation_packet_def
        packet_new_def header_new_def with_path_id_def)
  have "s_is_server ?u \<noteq> s_is_server r" using ends(1) by simp
  from seal_frame_parses[OF assms(1,2) u assms(4) this h(2,1)]
  obtain c where "parse_protected L w r = Ok (packet_new h c)" .
  moreover have "\<not> flags_contains (F_PATH_VALIDATION OR F_ENCRYPTED) F_REKEY"
    by (simp add: flags_contains_def F_PATH_VALIDATION_def F_ENCRYPTED_def F_REKEY_def)
  moreover have "s_epoch s \<noteq> s_epoch r" "\<not> s_epoch s < s_epoch r" using behind by simp_all
  ultimately show ?thesis using h(3,4)
    by (simp add: receive_wire_def decrypt_packet_accepting_rekey_def packet_new_def Let_def)
qed

theorem path_validation_refused_behind_witness:
  "\<exists>w t. send_path_validation demo_lib True 3 (replicate 32 5) (snd (rekey demo_lib (demo_peer False))) = (Some w, t)
    \<and> receive_wire demo_lib w (demo_peer True) = (Err (CryptoFailure (ForwardWithoutRekey 1 0)), demo_peer True)"
proof -
  let ?s = "snd (rekey demo_lib (demo_peer False))" and ?r = "snd (rekey demo_lib (demo_peer True))"
  note d = demo_peer_on_chain
  have t: "on_chain demo_lib demo_secret (snd (rekey demo_lib (demo_peer e))) \<and> s_is_server (snd (rekey demo_lib (demo_peer e))) = e
      \<and> s_id (snd (rekey demo_lib (demo_peer e))) = replicate 32 1 \<and> s_send_packet_number (snd (rekey demo_lib (demo_peer e))) = 0
      \<and> s_recv_replay (snd (rekey demo_lib (demo_peer e))) = replay_new
      \<and> cs_send_counter (cst_session (s_crypto (snd (rekey demo_lib (demo_peer e))))) = 0
      \<and> cs_recv_counter (cst_session (s_crypto (snd (rekey demo_lib (demo_peer e))))) = 0" for e
    by (rule rekey_ok[OF demo_kdf(1) d(1)[of e]]) (use d[of e] in \<open>simp_all add: demo_peer_def session_init_def\<close>)
  let ?u = "?s\<lparr>s_send_packet_number := 1\<rparr>"
  have u: "on_chain demo_lib demo_secret ?u" by (rule on_chain_cong) (use t[of False] in simp_all)
  let ?h = "(with_path_id (header_new (replicate 32 1) 0 0 F_PATH_VALIDATION) 3)\<lparr>hdr_flags := F_PATH_VALIDATION OR F_ENCRYPTED, hdr_epoch := 1\<rparr>"
  obtain c v w where "encrypt_packet demo_lib ?h (replicate 32 5) [] ?u = (Ok c, v)" "protect_packet demo_lib (packet_new ?h c) v = Ok w"
    by (rule seal_open_wire[OF demo_lib_ok u, of ?r "replicate 32 5" ?h])
      (use t demo_rotated_epoch in \<open>simp_all add: send_invocations_def state_send_invocations_def AEAD_MAX_INVOCATIONS_def
        with_path_id_def header_new_def accept_def replay_new_def\<close>)
  then have w: "send_path_validation demo_lib True 3 (replicate 32 5) ?s = (Some w, v)"
    using t[of False] demo_rotated_epoch[of False]
    by (simp add: send_path_validation_def send_bytes_def encrypt_path_validation_def next_send_pn_def build_path_validation_packet_def
        packet_new_def with_path_id_def header_new_def seal_frame_def Let_def)
  have "receive_wire demo_lib w (demo_peer True)
      = (Err (CryptoFailure (ForwardWithoutRekey (s_epoch ?s) (s_epoch (demo_peer True)))), demo_peer True)"
    by (rule path_validation_refused_behind[OF demo_kdf(1,2) _ d(1) _ _ w]) (use t d demo_rotated_epoch in simp_all)
  then show ?thesis using w d(4) demo_rotated_epoch by simp
qed

end
