(* ===== verification/Rekey_Channel.thy ===== *)
theory Rekey_Channel
  imports Control_Frames
begin

text \<open>
  Two sessions joined by an adversarial network: key rotations started independently on
  both sides stay in step under loss, duplication, reordering and forgery, whatever kinds of
  frames the ends send. The network delivers any datagram ever sent, any number of times and
  in any order, and any forgery the AEAD does not open.
\<close>

subsection \<open>What a frame says about the epoch\<close>

text \<open>
  The peer parses every frame that leaves as a datagram; it names the epoch its sender is at
  and, while a rotation is not known to have been followed and unless it is a path
  validation, carries the REKEY flag.
\<close>

lemma seal_frame_state:
  "s_epoch (snd (seal_frame L h pt s)) = s_epoch s" "s_rekey_unconfirmed (snd (seal_frame L h pt s)) = s_rekey_unconfirmed s"
  by (simp_all add: seal_frame_def encrypt_packet_def Let_def split_beta split: sum.split)

lemma stamped_parses:
  assumes k: "kdf_ok L" "mask_ok L" and s: "on_chain L secret s" and b: "on_chain L secret b"
    and ends: "s_is_server s \<noteq> s_is_server b" "s_id b = s_id s" and w: "stamped L fl st path body s = (Some w, t)"
  shows "\<exists>p. parse_protected L w b = Ok p \<and> hdr_epoch (pkt_header p) = s_epoch t
    \<and> (s_rekey_unconfirmed t \<longrightarrow> flags_contains (hdr_flags (pkt_header p)) F_REKEY)"
proof -
  obtain u where u: "rekey_before_stamp L s = (Some (if s_rekey_unconfirmed u then F_REKEY else 0), u)"
    "on_chain L secret u" "moved s u" "rotated s u" "s_send_packet_number u = s_send_packet_number s"
    by (rule stamp_ok[OF k(1) s])
  let ?u = "u\<lparr>s_send_packet_number := s_send_packet_number u + 1\<rparr>"
  let ?h = "with_path_id (with_epoch (header_new (s_id s) st (s_send_packet_number u)
     (fl OR (if s_rekey_unconfirmed u then F_REKEY else 0))) (s_epoch u)) (path ?u)"
  have u1: "on_chain L secret ?u" by (rule on_chain_cong[OF u(2)]) simp_all
  have f: "seal_frame L ?h body ?u = (Some w, t)" using w u(1) by (simp add: stamped_def next_send_pn_def Let_def)
  have side: "s_is_server ?u \<noteq> s_is_server b" using u(3) ends(1) by (simp add: moved_def)
  obtain c where c: "parse_protected L w b = Ok (packet_new ?h c)"
    by (rule seal_frame_parses[OF k u1 b side _ f]) (use ends(2) in \<open>simp add: with_path_id_def with_epoch_def header_new_def\<close>)
  have t: "s_epoch t = s_epoch u" "s_rekey_unconfirmed t = s_rekey_unconfirmed u"
    using seal_frame_state[of L ?h body ?u] unfolding f by simp_all
  show ?thesis using c t
    by (auto simp: packet_new_def with_path_id_def with_epoch_def header_new_def flags_contains_def word_ao_absorbs or.commute)
qed

lemma path_validation_parses:
  assumes k: "kdf_ok L" "mask_ok L" and s: "on_chain L secret s" and b: "on_chain L secret b"
    and ends: "s_is_server s \<noteq> s_is_server b" "s_id b = s_id s" and w: "encrypt_path_validation L path payload s = (Some w, t)"
  shows "\<exists>p. parse_protected L w b = Ok p \<and> hdr_epoch (pkt_header p) = s_epoch t"
proof -
  let ?u = "s\<lparr>s_send_packet_number := s_send_packet_number s + 1\<rparr>"
  have u: "on_chain L secret ?u" by (rule on_chain_cong[OF s]) simp_all
  obtain h where h: "seal_frame L h payload ?u = (Some w, t)" "hdr_session_id h = s_id b" "hdr_epoch h = s_epoch s"
    using w ends(2) by (auto simp: encrypt_path_validation_def next_send_pn_def Let_def build_path_validation_packet_def
        packet_new_def header_new_def with_path_id_def)
  have "s_is_server ?u \<noteq> s_is_server b" using ends(1) by simp
  from seal_frame_parses[OF k u b this h(2,1)] obtain c where "parse_protected L w b = Ok (packet_new h c)" .
  moreover have "s_epoch t = s_epoch s" using seal_frame_state(1)[of L h payload ?u] unfolding h(1) by simp
  ultimately show ?thesis using h(3) by (simp add: packet_new_def)
qed

subsection \<open>Two ends and a network\<close>

text \<open>
  The ends are indexed by their side (\<open>True\<close> is the server); \<open>pipe x d\<close> is every frame side
  \<open>d\<close> has put on the wire, with its datagram.
\<close>

record channel =
  ends :: "bool \<Rightarrow> session"
  pipe :: "bool \<Rightarrow> (frame \<times> bytes) list"

definition set_end :: "bool \<Rightarrow> session \<Rightarrow> channel \<Rightarrow> channel" where
  "set_end d s x = x\<lparr>ends := (ends x)(d := s)\<rparr>"

definition post :: "bool \<Rightarrow> frame \<Rightarrow> bytes option \<Rightarrow> channel \<Rightarrow> channel" where
  "post d f r x = (case r of Some w \<Rightarrow> x\<lparr>pipe := (pipe x)(d := (f, w) # pipe x d)\<rparr> | None \<Rightarrow> x)"

inductive channel_step :: "crypto_lib \<Rightarrow> channel \<Rightarrow> channel \<Rightarrow> bool" for L where
  sends: "emit L f (ends x d) = (r, s) \<Longrightarrow> channel_step L x (post d f r (set_end d s x))"
| receives: "(f, w) \<in> set (pipe x (\<not> d)) \<Longrightarrow> channel_step L x (set_end d (snd (receive_wire L w (ends x d))) x)"
| forged: "parse_protected L w (ends x d) = Ok p \<Longrightarrow>
    \<forall>st \<in> candidate_keys L (pkt_header p) (ends x d). \<not> opens_under L (pkt_header p) (pkt_payload p) (pkt_extensions p) st \<Longrightarrow>
    channel_step L x (set_end d (snd (receive_wire L w (ends x d))) x)"
| rotates: "channel_step L x (set_end d (snd (rekey L (ends x d))) x)"

inductive channel_reachable :: "crypto_lib \<Rightarrow> bytes \<Rightarrow> channel \<Rightarrow> bool" for L secret where
  start: "session_new L now sid secret False = Ok a \<Longrightarrow> session_new L now' sid secret True = Ok b \<Longrightarrow>
    channel_reachable L secret \<lparr>ends = (\<lambda>d. if d then b else a), pipe = (\<lambda>_. [])\<rparr>"
| step: "channel_reachable L secret x \<Longrightarrow> channel_step L x y \<Longrightarrow> channel_reachable L secret y"

text \<open>
  A sent packet names an epoch its sender has reached, and its receiver too unless it asks
  to be followed or is a path validation.
\<close>

definition is_path :: "frame \<Rightarrow> bool" where
  "is_path f = (case f of FPath ok path payload \<Rightarrow> True | _ \<Rightarrow> False)"

lemma emitted_parses:
  assumes k: "kdf_ok L" "mask_ok L" and s: "on_chain L secret s" and b: "on_chain L secret b"
    and ends: "s_is_server s \<noteq> s_is_server b" "s_id b = s_id s" and w: "emit L f s = (Some w, t)"
  shows "\<exists>p. parse_protected L w b = Ok p \<and> hdr_epoch (pkt_header p) = s_epoch t
    \<and> (is_path f \<or> (s_rekey_unconfirmed t \<longrightarrow> flags_contains (hdr_flags (pkt_header p)) F_REKEY))"
proof (cases f)
  case (FApp ok st pl fl off)
  have hp: "s_header_protection b = hp_derive L (lib_suite L) secret (\<not> s_is_server s)" using b ends(1) by (simp add: on_chain_def)
  show ?thesis using send_moves[OF k s w[unfolded FApp emit.simps]] hp ends(2) by blast
next
  case (FPath ok path payload)
  then have "encrypt_path_validation L path payload s = (Some w, t)"
    using sent_cases w by (simp add: send_path_validation_def)
  from path_validation_parses[OF k s b ends this] show ?thesis by (auto simp: is_path_def FPath)
next
  case (FSack ok q st path)
  have "send_bytes ok (stamped L (F_ENCRYPTED OR F_ACK) st (\<lambda>_. path) (sack_to_wire q) s) = (Some w, t)"
    using w unfolding FSack emit.simps sack_state[OF k(1) s] by (simp add: Let_def prod_eq_iff)
  from stamped_parses[OF k s b ends sent_cases[OF this]] show ?thesis by blast
next
  case (FWindow ok st limit)
  from stamped_parses[OF k s b ends sent_cases[OF w[unfolded FWindow emit.simps stamped_frames]]] show ?thesis by blast
next
  case (FKeepalive ok pong)
  from stamped_parses[OF k s b ends sent_cases[OF w[unfolded FKeepalive emit.simps stamped_frames]]] show ?thesis by blast
next
  case (FCover ok)
  from stamped_parses[OF k s b ends sent_cases[OF w[unfolded FCover emit.simps stamped_frames]]] show ?thesis by blast
next
  case (FClose ok)
  from stamped_parses[OF k s b ends sent_cases[OF w[unfolded FClose emit.simps stamped_frames]]] show ?thesis by blast
qed

definition in_step :: "crypto_lib \<Rightarrow> session \<Rightarrow> session \<Rightarrow> frame \<times> bytes \<Rightarrow> bool" where
  "in_step L from to m \<longleftrightarrow> (\<exists>p. parse_protected L (snd m) to = Ok p \<and> hdr_epoch (pkt_header p) \<le> s_epoch from
     \<and> (is_path (fst m) \<or> flags_contains (hdr_flags (pkt_header p)) F_REKEY \<or> hdr_epoch (pkt_header p) \<le> s_epoch to))"

definition side_ok :: "crypto_lib \<Rightarrow> bytes \<Rightarrow> channel \<Rightarrow> bool \<Rightarrow> bool" where
  "side_ok L secret x d \<longleftrightarrow> on_chain L secret (ends x d) \<and> s_is_server (ends x d) = d
     \<and> s_id (ends x d) = s_id (ends x True) \<and> s_rekey_after (ends x d) = REKEY_SOFT_LIMIT
     \<and> (s_rekey_unconfirmed (ends x d) \<or> s_epoch (ends x d) \<le> s_epoch (ends x (\<not> d)))
     \<and> (\<forall>m \<in> set (pipe x d). in_step L (ends x d) (ends x (\<not> d)) m)"

lemma in_step_mono:
  assumes "in_step L from to w" "s_epoch from \<le> s_epoch from'" "moved to to'"
  shows "in_step L from' to' w"
proof -
  have "parse_protected L (snd w) to = parse_protected L (snd w) to'"
    using assms(3) by (intro parse_protected_cong) (simp_all add: moved_def)
  then show ?thesis using assms unfolding in_step_def moved_def by (metis order.trans)
qed

text \<open>One end moves to \<open>s\<close> and posts \<open>r\<close>: what has to be shown to keep the invariant.\<close>

lemma channel_keep:
  assumes inv: "\<forall>e. side_ok L secret x e" and m: "moved (ends x d) s" "on_chain L secret s"
    and conf: "s_rekey_unconfirmed s \<or> s_epoch s \<le> s_epoch (ends x (\<not> d))"
    and new: "\<And>w. r = Some w \<Longrightarrow> in_step L s (ends x (\<not> d)) (f, w)"
  shows "\<forall>e. side_ok L secret (post d f r (set_end d s x)) e"
proof
  fix e
  let ?y = "post d f r (set_end d s x)"
  have i: "on_chain L secret (ends x e)" "s_is_server (ends x e) = e" "s_rekey_after (ends x e) = REKEY_SOFT_LIMIT"
    "s_id (ends x e) = s_id (ends x True)"
    "s_rekey_unconfirmed (ends x e) \<or> s_epoch (ends x e) \<le> s_epoch (ends x (\<not> e))" for e
    using inv[rule_format, of e] unfolding side_ok_def by blast+
  have ip: "in_step L (ends x e) (ends x (\<not> e)) w" if "w \<in> set (pipe x e)" for e w
    using inv[rule_format, of e] that unfolding side_ok_def by blast
  have mv: "s_id s = s_id (ends x d)" "s_is_server s = d" "s_rekey_after s = REKEY_SOFT_LIMIT"
    "s_epoch (ends x d) \<le> s_epoch s"
    using m(1) i(2,3)[of d] by (simp_all add: moved_def)
  have ey: "ends ?y g = (if g = d then s else ends x g)" for g by (simp add: post_def set_end_def split: option.splits)
  have id: "s_id (ends ?y g) = s_id (ends x True)" for g using ey[of g] mv(1) i(4)[of d] i(4)[of g] i(4)[of "\<not> d"] by simp
  show "side_ok L secret ?y e"
  proof (cases "e = d")
    case True
    have es: "ends ?y e = s" "ends ?y (\<not> e) = ends x (\<not> d)" using True ey[of e] ey[of "\<not> e"] by simp_all
    have "in_step L s (ends x (\<not> d)) w" if w: "w \<in> set (pipe ?y e)" for w
    proof -
      have "(\<exists>v. r = Some v \<and> w = (f, v)) \<or> w \<in> set (pipe x d)" using w True by (auto simp: post_def set_end_def split: option.splits)
      then show ?thesis using new in_step_mono[OF ip mv(4) moved_refl] by blast
    qed
    then show ?thesis unfolding side_ok_def es using m(2) mv True conf id[of e] i(4)[of d] es by (simp add: id)
  next
    case False
    then have ne: "e = (\<not> d)" by simp
    have es: "ends ?y e = ends x e" "ends ?y (\<not> e) = s" using ne ey[of e] ey[of "\<not> e"] by simp_all
    have p: "pipe ?y e = pipe x e" using ne by (simp add: post_def set_end_def split: option.splits)
    have d: "(\<not> e) = d" using ne by simp
    have "in_step L (ends x e) s w" if w: "w \<in> set (pipe ?y e)" for w
      using in_step_mono[OF ip[of w e] order.refl, of s] w p m(1) d by simp
    moreover have "s_rekey_unconfirmed (ends x e) \<or> s_epoch (ends x e) \<le> s_epoch s"
      using i(5)[of e] mv(4) d order.trans by auto
    ultimately show ?thesis unfolding side_ok_def es id using i by blast
  qed
qed

lemma channel_step_keeps:
  assumes L: "kdf_ok L" "mask_ok L" and inv: "\<forall>e. side_ok L secret x e" and st: "channel_step L x y"
  shows "\<forall>e. side_ok L secret y e"
proof -
  have i: "on_chain L secret (ends x e)" "s_is_server (ends x e) = e"
    "s_rekey_unconfirmed (ends x e) \<or> s_epoch (ends x e) \<le> s_epoch (ends x (\<not> e))" for e
    using inv[rule_format, of e] unfolding side_ok_def by blast+
  have id: "s_id (ends x (\<not> d)) = s_id (ends x d)" for d
    using inv[rule_format, of d] inv[rule_format, of "\<not> d"] unfolding side_ok_def by simp
  have hp: "s_header_protection (ends x (\<not> d)) = hp_derive L (lib_suite L) secret (\<not> s_is_server (ends x d))" for d
    using i(1)[of "\<not> d"] i(2)[of d] i(2)[of "\<not> d"] by (simp add: on_chain_def)
  have keep: "\<forall>e. side_ok L secret (set_end d s x) e" if "moved (ends x d) s" "on_chain L secret s"
    "s_rekey_unconfirmed s \<or> s_epoch s \<le> s_epoch (ends x (\<not> d))" for d s
    using channel_keep[OF inv that, of None] by (simp add: post_def)
  from st show ?thesis
  proof cases
    case (sends f d r s)
    have rs: "r = fst (emit L f (ends x d))" "s = snd (emit L f (ends x d))" using sends(2) by simp_all
    note m = emit_moves[OF L i(1)[of d], of f, folded rs(2)]
    have conf: "s_rekey_unconfirmed s \<or> s_epoch s \<le> s_epoch (ends x (\<not> d))"
      using m i(3)[of d] by (auto simp: rotated_def)
    have side: "s_is_server (ends x d) \<noteq> s_is_server (ends x (\<not> d))" using i(2)[of d] i(2)[of "\<not> d"] by simp
    have new: "in_step L s (ends x (\<not> d)) (f, w)" if rw: "r = Some w" for w
    proof -
      obtain p where "parse_protected L w (ends x (\<not> d)) = Ok p" "hdr_epoch (pkt_header p) = s_epoch s"
        "is_path f \<or> (s_rekey_unconfirmed s \<longrightarrow> flags_contains (hdr_flags (pkt_header p)) F_REKEY)"
        using emitted_parses[OF L i(1)[of d] i(1)[of "\<not> d"] side id[of d] sends(2)[unfolded rw]] by blast
      then show ?thesis using conf by (auto simp: in_step_def)
    qed
    show ?thesis unfolding sends(1) by (rule channel_keep[OF inv _ _ conf new]) (use m in auto)
  next
    case (receives f w d)
    obtain r t where rt: "receive_wire L w (ends x d) = (r, t)" by (rule prod.exhaust)
    note m = receive_moves[OF L(1) i(1) rt]
    have "in_step L (ends x (\<not> d)) (ends x d) (f, w)"
      using inv[rule_format, of "\<not> d"] receives(2) unfolding side_ok_def by simp
    then have conf: "s_rekey_unconfirmed t \<or> s_epoch t \<le> s_epoch (ends x (\<not> d))"
      using m i(3)[of d] by (auto simp: in_step_def)
    show ?thesis unfolding receives(1) rt snd_conv by (rule keep[OF _ _ conf]) (use m in auto)
  next
    case (forged w d p)
    have "\<exists>e. decrypt_packet_accepting_rekey L (pkt_header p) (pkt_payload p) (pkt_extensions p) (ends x d) = (Err e, ends x d)"
      by (rule unopened_refused[OF forged(3)])
    then have "snd (receive_wire L w (ends x d)) = ends x d" using forged(2) by (auto simp: receive_wire_def)
    then show ?thesis unfolding forged(1) using keep[OF moved_refl i(1,3)] by simp
  next
    case (rotates d)
    note m = rekey_moves[OF L(1) i(1), of d]
    have conf: "s_rekey_unconfirmed (snd (rekey L (ends x d))) \<or> s_epoch (snd (rekey L (ends x d))) \<le> s_epoch (ends x (\<not> d))"
      using m i(3)[of d] by (auto simp: rotated_def)
    show ?thesis unfolding rotates(1) by (rule keep[OF _ _ conf]) (use m in auto)
  qed
qed

lemma channel_reachable_ok:
  assumes L: "kdf_ok L" "mask_ok L" and secret: "length secret = 32" and reach: "channel_reachable L secret x"
  shows "\<forall>e. side_ok L secret x e"
  using reach
proof induction
  case (start now sid a now' b)
  obtain a' where a: "session_new L now sid secret False = Ok a'" "on_chain L secret a'" "s_is_server a' = False"
    "s_id a' = sid" "s_epoch a' = 0" by (rule on_chain_new[OF L(1) secret])
  obtain b' where b: "session_new L now' sid secret True = Ok b'" "on_chain L secret b'" "s_is_server b' = True"
    "s_id b' = sid" "s_epoch b' = 0" by (rule on_chain_new[OF L(1) secret])
  have lim: "s_rekey_after s = REKEY_SOFT_LIMIT" if "session_new L n sid secret side = Ok s" for n side s
    using that by (auto simp: session_new_def session_init_def split: sum.splits)
  have "a' = a" "b' = b" using start a(1) b(1) by simp_all
  then show ?case using a b lim[OF start(1)] lim[OF start(2)] by (simp add: side_ok_def)
next
  case (step x y)
  then show ?case using channel_step_keeps[OF L] by blast
qed

text \<open>A packet is turned away for naming a later epoch without the REKEY flag only when it does.\<close>

lemma without_rekey_refused:
  assumes "fst (decrypt_packet_accepting_rekey L h c x s) = Err (CryptoFailure (ForwardWithoutRekey e n))"
  shows "s_epoch s < hdr_epoch h" "\<not> flags_contains (hdr_flags h) F_REKEY"
proof -
  have "s_epoch s < hdr_epoch h \<and> \<not> flags_contains (hdr_flags h) F_REKEY"
  proof (cases rule: accepting_rekey_cases[of L h c x s])
    case (refused e')
    then show ?thesis using assms by auto
  next
    case (current pt n s1 r s2)
    then show ?thesis using assms replay_check_cases[of s1 "hdr_packet_number h" pt] by (metis Inl_inject core_error.distinct(5) fst_conv sum.simps(4))
  next
    case (forward k crypto crypto1 pt s1 r s2)
    then show ?thesis using assms replay_check_cases[of s1 "hdr_packet_number h" pt] by (metis Inl_inject core_error.distinct(5) fst_conv sum.simps(4))
  qed
  then show "s_epoch s < hdr_epoch h" "\<not> flags_contains (hdr_flags h) F_REKEY" by blast+
qed

subsection \<open>Properties\<close>

text \<open>
  C5. Key rotation stays in step. Let a client and a server session come from one
  handshake secret and let them, in any order, send frames of every kind (data, window
  updates, keep-alives, cover traffic, close, path validation, acknowledgements), rotate
  their keys on their own, and receive whatever the network delivers: anything the other end
  ever sent, lost, repeated and reordered, and forgeries the AEAD does not open. Whenever
  both are at the same epoch they hold each other's keys; when one is behind, the keys it
  would derive for the other's epoch are the other's; and no genuine frame but a path
  validation, which never carries the REKEY flag, is turned away for naming a later epoch
  without it.
\<close>

theorem rekey_in_step:
  assumes "kdf_ok L" "mask_ok L" "length secret = 32" "channel_reachable L secret x"
  shows "(s_epoch (ends x False) = s_epoch (ends x True) \<longrightarrow>
      session_peers (cst_session (s_crypto (ends x False))) (cst_session (s_crypto (ends x True))))
    \<and> (s_epoch (ends x (\<not> d)) < s_epoch (ends x d) \<longrightarrow> (\<exists>k c.
        derive_forward_crypto L (s_epoch (ends x d) - s_epoch (ends x (\<not> d))) (ends x (\<not> d)) = Ok (k, c)
        \<and> session_peers (cst_session (s_crypto (ends x d))) (cst_session c)))
    \<and> (\<forall>(f, w) \<in> set (pipe x d). is_path f
        \<or> fst (receive_wire L w (ends x (\<not> d))) \<noteq> Err (CryptoFailure (ForwardWithoutRekey e c)))"
proof (intro conjI)
  have ok: "side_ok L secret x e" for e using channel_reachable_ok[OF assms] by blast
  show "s_epoch (ends x False) = s_epoch (ends x True) \<longrightarrow>
      session_peers (cst_session (s_crypto (ends x False))) (cst_session (s_crypto (ends x True)))"
    using on_chain_peers[OF assms(1), of secret "ends x False" "ends x True"] ok[of True] ok[of False]
    by (simp add: side_ok_def)
  show "s_epoch (ends x (\<not> d)) < s_epoch (ends x d) \<longrightarrow> (\<exists>k c.
        derive_forward_crypto L (s_epoch (ends x d) - s_epoch (ends x (\<not> d))) (ends x (\<not> d)) = Ok (k, c)
        \<and> session_peers (cst_session (s_crypto (ends x d))) (cst_session c))"
    using forward_peers[OF assms(1), of secret "ends x d" "ends x (\<not> d)"] ok[of d] ok[of "\<not> d"]
    unfolding side_ok_def by metis
  have "is_path f" if w: "(f, w) \<in> set (pipe x d)" "fst (receive_wire L w (ends x (\<not> d))) = Err (CryptoFailure (ForwardWithoutRekey e c))" for f w
  proof -
    have "in_step L (ends x d) (ends x (\<not> d)) (f, w)" using ok[of d] w(1) unfolding side_ok_def by blast
    then obtain p where p: "parse_protected L w (ends x (\<not> d)) = Ok p"
      "is_path f \<or> flags_contains (hdr_flags (pkt_header p)) F_REKEY \<or> hdr_epoch (pkt_header p) \<le> s_epoch (ends x (\<not> d))"
      by (auto simp: in_step_def)
    let ?D = "decrypt_packet_accepting_rekey L (pkt_header p) (pkt_payload p) (pkt_extensions p) (ends x (\<not> d))"
    have "fst ?D = Err (CryptoFailure (ForwardWithoutRekey e c))"
      using w(2) p(1) by (cases ?D; cases "fst ?D") (auto simp: receive_wire_def)
    from without_rekey_refused[OF this] show ?thesis using p(2) by force
  qed
  then show "\<forall>(f, w) \<in> set (pipe x d). is_path f
      \<or> fst (receive_wire L w (ends x (\<not> d))) \<noteq> Err (CryptoFailure (ForwardWithoutRekey e c))" by blast
qed

definition demo_channel :: channel where
  "demo_channel = \<lparr>ends = demo_peer, pipe = (\<lambda>_. [])\<rparr>"

lemma demo_channel_reachable: "channel_reachable demo_lib demo_secret demo_channel"
proof -
  have "demo_peer = (\<lambda>d. if d then demo_peer True else demo_peer False)" by auto
  then show ?thesis
    using channel_reachable.start[OF demo_peer_new[of False] demo_peer_new[of True]] by (simp add: demo_channel_def)
qed

lemma demo_window:
  obtains w t where "emit demo_lib (FWindow True 1 5) (snd (rekey demo_lib (demo_peer False))) = (Some w, t)" "s_epoch t = 1"
proof -
  let ?s = "snd (rekey demo_lib (demo_peer False))" and ?r = "demo_peer True"
  note d = demo_peer_on_chain
  have s: "on_chain demo_lib demo_secret ?s \<and> s_is_server ?s = False \<and> s_id ?s = replicate 32 1 \<and> s_send_packet_number ?s = 0
      \<and> cs_send_counter (cst_session (s_crypto ?s)) = 0 \<and> s_rekey_after ?s = REKEY_SOFT_LIMIT \<and> s_rekey_unconfirmed ?s"
    by (rule rekey_ok[OF demo_kdf(1) d(1)[of False]]) (use d[of False] in \<open>simp_all add: demo_peer_def session_init_def\<close>)
  have "\<exists>c. crypto_state_new demo_lib demo_secret True = Ok c \<and> cs_recv_counter (cst_session c) = 0"
    using crypto_state_new_ok[OF demo_kdf(1,3), of True] by blast
  then have r: "cs_recv_counter (cst_session (s_crypto ?r)) = 0" "s_recv_replay ?r = replay_new"
    by (auto simp: demo_peer_def session_init_def)
  have "send_invocations ?s = 0" using s by (simp add: send_invocations_def state_send_invocations_def)
  then have stamp: "rekey_before_stamp demo_lib ?s = (Some F_REKEY, ?s)"
    using s by (simp add: rekey_before_stamp_def send_needs_rekey_def)
  obtain res t where st: "stamped demo_lib (F_ENCRYPTED OR F_WINDOW_UPDATE) 1 (\<lambda>_. 0) (to_be_bytes (5 :: u64)) ?s = (res, t)" by (rule prod.exhaust)
  have t: "s_epoch t = 1"
    using st stamp demo_rotated_epoch[of False]
    by (auto simp: stamped_def next_send_pn_def Let_def seal_frame_def encrypt_packet_def split_beta split: sum.splits)
  have f: "s_is_server ?s \<noteq> s_is_server ?r" "s_id ?s = s_id ?r" "s_epoch ?s < 255" "s_rekey_after ?s \<le> AEAD_MAX_INVOCATIONS"
    "0 < s_rekey_after ?s" "length (to_be_bytes (5 :: u64)) < 2 ^ 32" "s_epoch ?r \<le> s_epoch t" "s_epoch t - s_epoch ?r \<le> MAX_REKEY_CATCHUP"
    using s d(2-4)[of True] demo_rotated_epoch[of False] t by (simp_all add: AEAD_MAX_INVOCATIONS_def)
  have g: "cs_recv_counter (cst_session (s_crypto ?r)) < AEAD_MAX_INVOCATIONS" "fst (accept (s_recv_replay ?r) (s_send_packet_number ?s))"
    using s r by (simp_all add: AEAD_MAX_INVOCATIONS_def accept_def replay_new_def)
  obtain w where "res = Some w"
    by (rule stamped_arrives[OF demo_lib_ok _ d(1)[of True] f(1-5) g(1) f(6) _ st f(7,8) g(2)]) (use s in simp_all)
  then show ?thesis using that[of w t] st t by (simp add: stamped_frames send_bytes_def)
qed

text \<open>The client has rotated and told the server of a window, then the server has rotated too.\<close>

theorem rekey_in_step_witness:
  "\<exists>x w. channel_reachable demo_lib demo_secret x \<and> pipe x False = [(FWindow True 1 5, w)] \<and> s_epoch (ends x True) = 0
    \<and> fst (receive_wire demo_lib w (ends x True)) \<noteq> Err (CryptoFailure (ForwardWithoutRekey 1 0))
    \<and> (\<exists>y. channel_step demo_lib x y \<and> session_peers (cst_session (s_crypto (ends y False))) (cst_session (s_crypto (ends y True))))"
proof -
  let ?a = "snd (rekey demo_lib (demo_peer False))" and ?b = "demo_peer True" and ?f = "FWindow True 1 5"
  let ?x = "set_end False ?a demo_channel"
  obtain w t where e: "emit demo_lib ?f ?a = (Some w, t)" "s_epoch t = 1" by (rule demo_window)
  let ?y = "post False ?f (Some w) (set_end False t ?x)"
  let ?z = "set_end True (snd (rekey demo_lib ?b)) ?y"
  have fields: "ends ?x False = ?a" "ends ?y False = t" "ends ?y True = ?b" "ends ?z False = t" "ends ?z True = snd (rekey demo_lib ?b)"
    "pipe ?y False = [(?f, w)]"
    by (simp_all add: set_end_def post_def demo_channel_def)
  have "channel_step demo_lib demo_channel ?x"
    using channel_step.rotates[of demo_lib demo_channel False] by (simp add: demo_channel_def)
  moreover have "channel_step demo_lib ?x ?y" using channel_step.sends[of demo_lib ?f ?x False "Some w" t] e(1) fields(1) by simp
  ultimately have y: "channel_reachable demo_lib demo_secret ?y" using demo_channel_reachable channel_reachable.step by blast
  have st: "channel_step demo_lib ?y ?z" using channel_step.rotates[of demo_lib ?y True] unfolding fields(3) .
  then have z: "channel_reachable demo_lib demo_secret ?z" using y channel_reachable.step by blast
  have "fst (receive_wire demo_lib w ?b) \<noteq> Err (CryptoFailure (ForwardWithoutRekey 1 0))"
    using rekey_in_step[OF demo_kdf y, of False 1 0] fields by (simp add: is_path_def)
  moreover have "session_peers (cst_session (s_crypto (ends ?z False))) (cst_session (s_crypto (ends ?z True)))"
    using rekey_in_step[OF demo_kdf z, of False 1 0] e(2) demo_rotated_epoch[of True] unfolding fields by simp
  ultimately show ?thesis using y st demo_peer_on_chain(4)[of True] fields by metis
qed

end
