(* ===== verification/Coalescer.thy ===== *)
theory Coalescer
  imports Wire_Types
begin

text \<open>
  Bundling of small packets: the send-side batcher and the receive-side decoder
  (\<open>transport/packet_coalescer.rs\<close>) and their packet form
  (\<open>transport/packet_coalescer_codec.rs\<close>).
\<close>

subsection \<open>The batcher\<close>

abbreviation MAX_ASSEMBLED_DATAGRAM :: nat where "MAX_ASSEMBLED_DATAGRAM \<equiv> 65507"
abbreviation DEFAULT_MAX_DATAGRAM :: nat where "DEFAULT_MAX_DATAGRAM \<equiv> 1200"
abbreviation BUNDLE_HEADER_SIZE :: nat where "BUNDLE_HEADER_SIZE \<equiv> 2"
abbreviation SUB_HEADER_SIZE :: nat where "SUB_HEADER_SIZE \<equiv> 2"

record coalescer_config =
  cc_max_datagram_size :: nat
  cc_flush_timeout_us :: u64
  cc_max_packets :: u16

definition coalescer_config_default :: coalescer_config where
  "coalescer_config_default =
     \<lparr>cc_max_datagram_size = DEFAULT_MAX_DATAGRAM, cc_flush_timeout_us = 500, cc_max_packets = 256\<rparr>"

record packet_coalescer =
  pc_config :: coalescer_config
  pc_buf :: bytes
  pc_count :: u16
  pc_batch_start :: "nanos option"

definition coalescer_new :: "coalescer_config \<Rightarrow> packet_coalescer" where
  "coalescer_new config =
     \<lparr>pc_config = config, pc_buf = replicate BUNDLE_HEADER_SIZE 0, pc_count = 0, pc_batch_start = None\<rparr>"

definition push_inner :: "nanos \<Rightarrow> bytes \<Rightarrow> packet_coalescer \<Rightarrow> packet_coalescer" where
  "push_inner now data c =
     (let len = (word_of_nat (length data) :: u16)
      in c\<lparr>pc_buf := pc_buf c @ to_be_bytes len @ data, pc_count := pc_count c + 1,
           pc_batch_start := (case pc_batch_start c of None \<Rightarrow> Some now | Some t \<Rightarrow> Some t)\<rparr>)"

definition should_flush :: "nanos \<Rightarrow> packet_coalescer \<Rightarrow> bool" where
  "should_flush now c \<longleftrightarrow>
     pc_count c \<noteq> 0 \<and>
     (case pc_batch_start c of
        Some start \<Rightarrow> now - start \<ge> unat (cc_flush_timeout_us (pc_config c)) * 1000
      | None \<Rightarrow> False)"

definition coalescer_flush :: "packet_coalescer \<Rightarrow> bytes option \<times> packet_coalescer" where
  "coalescer_flush c =
     (if pc_count c = 0 then (None, c)
      else let count_bytes = to_be_bytes (pc_count c)
           in (Some ((pc_buf c)[0 := count_bytes ! 0, 1 := count_bytes ! 1]),
               c\<lparr>pc_buf := replicate BUNDLE_HEADER_SIZE 0, pc_count := 0, pc_batch_start := None\<rparr>))"

definition coalescer_push :: "nanos \<Rightarrow> bytes \<Rightarrow> packet_coalescer \<Rightarrow> bytes option \<times> packet_coalescer" where
  "coalescer_push now data c =
     (let needed = SUB_HEADER_SIZE + length data
      in if length (pc_buf c) + needed > cc_max_datagram_size (pc_config c) \<or> pc_count c \<ge> cc_max_packets (pc_config c)
         then let (flushed, c') = coalescer_flush c in (flushed, push_inner now data c')
         else (None, push_inner now data c))"

definition pending_bytes :: "packet_coalescer \<Rightarrow> nat" where
  "pending_bytes c = length (pc_buf c) - BUNDLE_HEADER_SIZE"

subsection \<open>The decoder\<close>

record decoalescer =
  dec_data :: bytes
  dec_offset :: nat
  dec_remaining :: u16

definition decoalescer_new :: "bytes \<Rightarrow> decoalescer option" where
  "decoalescer_new datagram =
     (if length datagram < BUNDLE_HEADER_SIZE then None
      else Some \<lparr>dec_data = datagram, dec_offset = BUNDLE_HEADER_SIZE, dec_remaining = from_be_bytes (take 2 datagram)\<rparr>)"

definition decoalescer_next :: "decoalescer \<Rightarrow> bytes option \<times> decoalescer" where
  "decoalescer_next d =
     (if dec_remaining d = 0 then (None, d)
      else if dec_offset d + SUB_HEADER_SIZE > length (dec_data d) then (None, d)
      else let len = unat (from_be_bytes (subslice (dec_offset d) 2 (dec_data d)) :: u16);
               d1 = d\<lparr>dec_offset := dec_offset d + SUB_HEADER_SIZE\<rparr>
           in if dec_offset d1 + len > length (dec_data d) then (None, d1)
              else (Some (subslice (dec_offset d1) len (dec_data d)),
                    d1\<lparr>dec_offset := dec_offset d1 + len, dec_remaining := dec_remaining d1 - 1\<rparr>))"

text \<open>\<open>for sub in decoder\<close>: every sub-payload until the iterator ends.\<close>

lemma decoalescer_next_shrinks:
  "decoalescer_next d = (Some sub, d') \<Longrightarrow> unat (dec_remaining d') < unat (dec_remaining d)"
  by (auto simp: decoalescer_next_def Let_def unat_minus_one unat_gt_0 split: if_splits)

function decoalescer_collect :: "decoalescer \<Rightarrow> bytes list" where
  "decoalescer_collect d =
     (case decoalescer_next d of (None, _) \<Rightarrow> [] | (Some sub, d') \<Rightarrow> sub # decoalescer_collect d')"
  by pat_completeness auto

termination decoalescer_collect
  by (relation "measure (\<lambda>d. unat (dec_remaining d))") (auto dest: decoalescer_next_shrinks[OF sym])

declare decoalescer_collect.simps [simp del]

subsection \<open>Bundles as packets\<close>

datatype coalesced_parse_error = EmptyOrTruncatedHeader | TruncatedSubPacket nat nat

definition wrap_coalesced_packet :: "session_id \<Rightarrow> stream_id \<Rightarrow> u64 \<Rightarrow> packet_flags \<Rightarrow> bytes \<Rightarrow> phantom_packet" where
  "wrap_coalesced_packet session_id stream_id packet_number flags_extra bundle =
     packet_new (header_new session_id stream_id packet_number (flags_extra OR F_COALESCED)) bundle"

definition unwrap_coalesced_packet :: "phantom_packet \<Rightarrow> (coalesced_parse_error, bytes list option) result" where
  "unwrap_coalesced_packet packet =
     (if \<not> flags_contains (hdr_flags (pkt_header packet)) F_COALESCED then Ok None
      else if length (pkt_payload packet) < 2 then Err EmptyOrTruncatedHeader
      else let claimed_count = unat (from_be_bytes (take 2 (pkt_payload packet)) :: u16)
           in case decoalescer_new (pkt_payload packet) of
                None \<Rightarrow> Err EmptyOrTruncatedHeader
              | Some decoder \<Rightarrow>
                  let out = decoalescer_collect decoder
                  in if length out \<noteq> claimed_count then Err (TruncatedSubPacket claimed_count (length out))
                     else Ok (Some out))"

lemma coalescer_flush_shrinks:
  "coalescer_flush c = (Some datagram, c') \<Longrightarrow> unat (pc_count c') < unat (pc_count c)"
  by (auto simp: coalescer_flush_def Let_def unat_gt_0 split: if_splits)

function drain_coalescer_to_packets ::
  "packet_coalescer \<Rightarrow> session_id \<Rightarrow> stream_id \<Rightarrow> u32 \<Rightarrow> packet_flags \<Rightarrow> phantom_packet list \<times> u32 \<times> packet_coalescer" where
  "drain_coalescer_to_packets c session_id stream_id next_sequence flags_extra =
     (case coalescer_flush c of
        (None, c') \<Rightarrow> ([], next_sequence, c')
      | (Some bundle, c') \<Rightarrow>
          let pkt = wrap_coalesced_packet session_id stream_id (ucast next_sequence) flags_extra bundle;
              (out, n, c'') = drain_coalescer_to_packets c' session_id stream_id (next_sequence + 1) flags_extra
          in (pkt # out, n, c''))"
  by pat_completeness auto

termination drain_coalescer_to_packets
  by (relation "measure (\<lambda>(c, _). unat (pc_count c))") (auto dest: coalescer_flush_shrinks[OF sym])

declare drain_coalescer_to_packets.simps [simp del]

subsection \<open>What a batch is\<close>

definition sub_packet :: "bytes \<Rightarrow> bytes" where
  "sub_packet d = to_be_bytes (word_of_nat (length d) :: u16) @ d"

definition bundle_of :: "bytes list \<Rightarrow> bytes" where
  "bundle_of ps = to_be_bytes (word_of_nat (length ps) :: u16) @ concat (map sub_packet ps)"

definition sub_ok :: "bytes \<Rightarrow> bool" where
  "sub_ok d \<longleftrightarrow> length d < 2 ^ 16"

lemma length_sub_packet [simp]: "length (sub_packet d) = SUB_HEADER_SIZE + length d"
  by (simp add: sub_packet_def)

lemma unat_of_nat_u16: "n < 2 ^ 16 \<Longrightarrow> unat (word_of_nat n :: u16) = n"
  by (simp add: unat_of_nat take_bit_nat_eq_self)

lemma decoalescer_next_sub:
  assumes "sub_ok d" "n \<noteq> 0"
  shows "decoalescer_next \<lparr>dec_data = pre @ sub_packet d @ post, dec_offset = length pre, dec_remaining = n\<rparr> =
    (Some d, \<lparr>dec_data = pre @ sub_packet d @ post, dec_offset = length (pre @ sub_packet d), dec_remaining = n - 1\<rparr>)"
proof -
  let ?h = "to_be_bytes (word_of_nat (length d) :: u16)"
  have data: "pre @ sub_packet d @ post = pre @ ?h @ d @ post" by (simp add: sub_packet_def)
  have "subslice (length pre) 2 (pre @ ?h @ d @ post) = ?h"
    by (simp add: subslice_append2 subslice_append1)
  moreover have "subslice (length pre + 2) (length d) (pre @ ?h @ d @ post) = d"
    by (simp add: subslice_append2 subslice_append1)
  ultimately show ?thesis using assms unfolding data
    by (simp add: decoalescer_next_def Let_def sub_ok_def unat_of_nat_u16)
qed

lemma collect_subs:
  assumes "\<forall>p \<in> set ps. sub_ok p" "length ps < 2 ^ 16"
  shows "decoalescer_collect \<lparr>dec_data = pre @ concat (map sub_packet ps) @ post, dec_offset = length pre,
    dec_remaining = word_of_nat (length ps)\<rparr> = ps"
  using assms
proof (induction ps arbitrary: pre)
  case Nil
  then show ?case by (subst decoalescer_collect.simps) (simp add: decoalescer_next_def)
next
  case (Cons p ps)
  have n: "(word_of_nat (length (p # ps)) :: u16) \<noteq> 0" "(word_of_nat (length (p # ps)) - 1 :: u16) = word_of_nat (length ps)"
    using unat_of_nat_u16[of "length (p # ps)"] Cons.prems(2) by (auto simp flip: unat_inject)
  have "decoalescer_next \<lparr>dec_data = pre @ concat (map sub_packet (p # ps)) @ post, dec_offset = length pre,
      dec_remaining = word_of_nat (length (p # ps))\<rparr> =
    (Some p, \<lparr>dec_data = (pre @ sub_packet p) @ concat (map sub_packet ps) @ post, dec_offset = length (pre @ sub_packet p),
      dec_remaining = word_of_nat (length ps)\<rparr>)"
    using decoalescer_next_sub[of p "word_of_nat (length (p # ps))" pre "concat (map sub_packet ps) @ post"] Cons.prems(1) n
    by simp
  then show ?case
    using Cons.IH[of "pre @ sub_packet p"] Cons.prems by (subst decoalescer_collect.simps) simp
qed

lemma unwrap_bundle:
  assumes "\<forall>p \<in> set ps. sub_ok p" "length ps < 2 ^ 16" "flags_contains (hdr_flags (pkt_header pkt)) F_COALESCED"
    "pkt_payload pkt = bundle_of ps @ junk"
  shows "unwrap_coalesced_packet pkt = Ok (Some ps)"
proof -
  let ?n = "word_of_nat (length ps) :: u16"
  have t: "take 2 (pkt_payload pkt) = to_be_bytes ?n" and l: "length (pkt_payload pkt) \<ge> 2"
    using assms(4) by (simp_all add: bundle_of_def)
  have new: "decoalescer_new (pkt_payload pkt) =
      Some \<lparr>dec_data = to_be_bytes ?n @ concat (map sub_packet ps) @ junk, dec_offset = length (to_be_bytes ?n), dec_remaining = ?n\<rparr>"
    using l t assms(4) by (simp add: decoalescer_new_def bundle_of_def)
  show ?thesis unfolding unwrap_coalesced_packet_def new
    using assms(3) l t collect_subs[OF assms(1,2), of "to_be_bytes ?n" junk] unat_of_nat_u16[OF assms(2)]
    by (simp add: Let_def)
qed

lemma wrap_flags [simp]:
  "flags_contains (hdr_flags (pkt_header (wrap_coalesced_packet sid st pn fl b))) F_COALESCED"
  "pkt_payload (wrap_coalesced_packet sid st pn fl b) = b"
  by (simp_all add: wrap_coalesced_packet_def packet_new_def header_new_def flags_contains_bits bit_or_iff)

text \<open>Everything the batcher hands back for a sequence of packets and a final flush.\<close>

definition coalesce_all :: "nanos \<Rightarrow> bytes list \<Rightarrow> packet_coalescer \<Rightarrow> bytes list" where
  "coalesce_all now ds c =
     (let (outs, c') = run (\<lambda>c d. coalescer_push now d c) c ds
      in List.map_filter id (outs @ [fst (coalescer_flush c')]))"

definition batch_holds :: "bytes list \<Rightarrow> packet_coalescer \<Rightarrow> bool" where
  "batch_holds ps c \<longleftrightarrow> pc_buf c = [0, 0] @ concat (map sub_packet ps) \<and> pc_count c = word_of_nat (length ps)
     \<and> length ps < 2 ^ 16 \<and> (\<forall>p \<in> set ps. sub_ok p)"

lemma batch_holds_new: "batch_holds [] (coalescer_new cfg)"
  by (simp add: batch_holds_def coalescer_new_def numeral_2_eq_2)

lemma flush_batch:
  assumes "batch_holds ps c"
  shows "fst (coalescer_flush c) = (if ps = [] then None else Some (bundle_of ps))"
    "batch_holds [] (snd (coalescer_flush c))" "pc_config (snd (coalescer_flush c)) = pc_config c"
proof -
  have z: "pc_count c = 0 \<longleftrightarrow> ps = []"
    using assms unat_of_nat_u16[of "length ps"] by (auto simp: batch_holds_def simp flip: unat_inject)
  have two: "\<exists>a b. to_be_bytes (pc_count c) = [a, b]"
  proof -
    have "length (to_be_bytes (pc_count c)) = Suc (Suc 0)" by simp
    then show ?thesis by (simp only: length_Suc_conv length_0_conv) blast
  qed
  show "fst (coalescer_flush c) = (if ps = [] then None else Some (bundle_of ps))"
    using z two assms by (auto simp: coalescer_flush_def Let_def batch_holds_def bundle_of_def)
  show "batch_holds [] (snd (coalescer_flush c))" "pc_config (snd (coalescer_flush c)) = pc_config c"
    using z assms by (auto simp: coalescer_flush_def Let_def batch_holds_def numeral_2_eq_2)
qed

lemma push_inner_batch:
  assumes "batch_holds ps c" "sub_ok d" "length ps < 65535"
  shows "batch_holds (ps @ [d]) (push_inner now d c)" "pc_config (push_inner now d c) = pc_config c"
  using assms by (auto simp: batch_holds_def push_inner_def Let_def sub_packet_def)

lemma push_batch:
  assumes h: "batch_holds ps c" and d: "sub_ok d"
  shows "(fst (coalescer_push now d c) = None \<and> batch_holds (ps @ [d]) (snd (coalescer_push now d c))
      \<and> length (pc_buf (snd (coalescer_push now d c))) \<le> cc_max_datagram_size (pc_config c))
    \<or> (fst (coalescer_push now d c) = (if ps = [] then None else Some (bundle_of ps))
      \<and> batch_holds [d] (snd (coalescer_push now d c)))"
    and "pc_config (snd (coalescer_push now d c)) = pc_config c"
proof -
  note f = flush_batch[OF h]
  have fresh: "batch_holds [d] (push_inner now d (snd (coalescer_flush c)))"
    "pc_config (push_inner now d (snd (coalescer_flush c))) = pc_config c"
    using push_inner_batch[OF f(2) d] f(3) by simp_all
  have room: "length ps < 65535" if "\<not> pc_count c \<ge> cc_max_packets (pc_config c)"
  proof -
    have "unat (pc_count c) < unat (cc_max_packets (pc_config c))" using that by (simp add: word_le_nat_alt)
    then show ?thesis using h unat_u16_bound[of "cc_max_packets (pc_config c)"] unat_of_nat_u16[of "length ps"]
      by (simp add: batch_holds_def)
  qed
  have len: "length (pc_buf (push_inner now d c)) = length (pc_buf c) + (SUB_HEADER_SIZE + length d)"
    by (simp add: push_inner_def Let_def)
  let ?full = "length (pc_buf c) + (SUB_HEADER_SIZE + length d) > cc_max_datagram_size (pc_config c)
    \<or> pc_count c \<ge> cc_max_packets (pc_config c)"
  have call: "coalescer_push now d c =
      (if ?full then (fst (coalescer_flush c), push_inner now d (snd (coalescer_flush c))) else (None, push_inner now d c))"
    by (simp add: coalescer_push_def Let_def split_beta)
  show "(fst (coalescer_push now d c) = None \<and> batch_holds (ps @ [d]) (snd (coalescer_push now d c))
      \<and> length (pc_buf (snd (coalescer_push now d c))) \<le> cc_max_datagram_size (pc_config c))
    \<or> (fst (coalescer_push now d c) = (if ps = [] then None else Some (bundle_of ps))
      \<and> batch_holds [d] (snd (coalescer_push now d c)))"
  proof (cases ?full)
    case True
    then show ?thesis unfolding call using f(1) fresh(1) by simp
  next
    case False
    then have "length ps < 65535" using room by blast
    then show ?thesis unfolding call using False push_inner_batch(1)[OF h d, of now] len by simp
  qed
  show "pc_config (snd (coalescer_push now d c)) = pc_config c"
    using fresh(2) by (simp add: coalescer_push_def Let_def split_beta push_inner_def)
qed

lemma batch_length: "batch_holds ps c \<Longrightarrow> length (bundle_of ps) = length (pc_buf c)"
  by (simp add: batch_holds_def bundle_of_def)

lemma coalesce_all_step:
  "coalesce_all now (d # ds) c =
     (case fst (coalescer_push now d c) of None \<Rightarrow> [] | Some b \<Rightarrow> [b]) @ coalesce_all now ds (snd (coalescer_push now d c))"
  by (simp add: coalesce_all_def Let_def split_beta map_filter_simps split: option.split)

lemma coalesce_groups:
  assumes "batch_holds ps c" "\<forall>d \<in> set ds. sub_ok d"
    "fits \<longrightarrow> length (pc_buf c) \<le> m \<and> (\<forall>d \<in> set ds. length d + 4 \<le> m)" "cc_max_datagram_size (pc_config c) = m"
  shows "\<exists>groups. concat groups = ps @ ds \<and> coalesce_all now ds c = map bundle_of groups
    \<and> (\<forall>g \<in> set groups. length g < 2 ^ 16 \<and> (\<forall>p \<in> set g. sub_ok p) \<and> (fits \<longrightarrow> length (bundle_of g) \<le> m))"
  using assms
proof (induction ds arbitrary: c ps)
  case Nil
  note f = flush_batch[OF Nil.prems(1)]
  have "coalesce_all now [] c = (if ps = [] then [] else map bundle_of [ps])"
    using f(1) by (simp add: coalesce_all_def map_filter_simps)
  moreover have "length ps < 2 ^ 16" "\<forall>p \<in> set ps. sub_ok p" using Nil.prems(1) by (simp_all add: batch_holds_def)
  ultimately show ?case using Nil.prems(3) batch_length[OF Nil.prems(1)]
    by (intro exI[of _ "if ps = [] then [] else [ps]"]) auto
next
  case (Cons d ds)
  let ?c = "snd (coalescer_push now d c)"
  have d: "sub_ok d" and ds: "\<forall>d \<in> set ds. sub_ok d" using Cons.prems(2) by simp_all
  note push = push_batch[OF Cons.prems(1) d, of now]
  have cfg: "cc_max_datagram_size (pc_config ?c) = m" using push(2) Cons.prems(4) by simp
  have psok: "length ps < 2 ^ 16" "\<forall>p \<in> set ps. sub_ok p" using Cons.prems(1) by (simp_all add: batch_holds_def)
  from push(1) show ?case
  proof
    assume a: "fst (coalescer_push now d c) = None \<and> batch_holds (ps @ [d]) ?c \<and>
      length (pc_buf ?c) \<le> cc_max_datagram_size (pc_config c)"
    then obtain groups where "concat groups = (ps @ [d]) @ ds" "coalesce_all now ds ?c = map bundle_of groups"
      "\<forall>g \<in> set groups. length g < 2 ^ 16 \<and> (\<forall>p \<in> set g. sub_ok p) \<and> (fits \<longrightarrow> length (bundle_of g) \<le> m)"
      using Cons.IH[of "ps @ [d]" ?c] ds cfg Cons.prems(3,4) by auto
    then show ?thesis using a by (intro exI[of _ groups]) (simp add: coalesce_all_step)
  next
    assume a: "fst (coalescer_push now d c) = (if ps = [] then None else Some (bundle_of ps)) \<and> batch_holds [d] ?c"
    have "length (pc_buf ?c) = length d + 4" using a by (simp add: batch_holds_def)
    then obtain groups where g: "concat groups = [d] @ ds" "coalesce_all now ds ?c = map bundle_of groups"
      "\<forall>g \<in> set groups. length g < 2 ^ 16 \<and> (\<forall>p \<in> set g. sub_ok p) \<and> (fits \<longrightarrow> length (bundle_of g) \<le> m)"
      using Cons.IH[of "[d]" ?c] a ds cfg Cons.prems(3) by auto
    show ?thesis using g a psok Cons.prems(3) batch_length[OF Cons.prems(1)]
      by (intro exI[of _ "if ps = [] then groups else ps # groups"]) (simp add: coalesce_all_step)
  qed
qed

text \<open>
  C35. Batching loses and reorders nothing. Whatever packets shorter than 64 KiB are
  pushed, every datagram the batcher hands back is decoded to the packets put into
  it, and together they are the packets pushed, in order; and when each packet fits
  the configured datagram with its four bytes of framing, no datagram is larger than
  configured.
\<close>

theorem coalescing_round_trip:
  assumes "\<forall>d \<in> set ds. length d < 2 ^ 16"
  shows "\<exists>groups. concat groups = ds
    \<and> map (\<lambda>b. unwrap_coalesced_packet (wrap_coalesced_packet sid st pn fl b)) (coalesce_all now ds (coalescer_new cfg))
      = map (\<lambda>g. Ok (Some g)) groups
    \<and> ((\<forall>d \<in> set ds. length d + 4 \<le> cc_max_datagram_size cfg) \<longrightarrow>
       (\<forall>b \<in> set (coalesce_all now ds (coalescer_new cfg)). length b \<le> cc_max_datagram_size cfg))"
proof -
  define m where "m = cc_max_datagram_size cfg"
  let ?fits = "ds \<noteq> [] \<and> (\<forall>d \<in> set ds. length d + 4 \<le> m)"
  have "?fits \<longrightarrow> length (pc_buf (coalescer_new cfg)) \<le> m \<and> (\<forall>d \<in> set ds. length d + 4 \<le> m)"
    by (cases ds) (auto simp: coalescer_new_def)
  moreover have "\<forall>d \<in> set ds. sub_ok d" "cc_max_datagram_size (pc_config (coalescer_new cfg)) = m"
    using assms by (simp_all add: sub_ok_def coalescer_new_def m_def)
  ultimately obtain groups where g: "concat groups = ds" "coalesce_all now ds (coalescer_new cfg) = map bundle_of groups"
    "\<forall>g \<in> set groups. length g < 2 ^ 16 \<and> (\<forall>p \<in> set g. sub_ok p) \<and> (?fits \<longrightarrow> length (bundle_of g) \<le> m)"
    using coalesce_groups[OF batch_holds_new, of ds ?fits cfg m now] by auto
  have dec: "unwrap_coalesced_packet (wrap_coalesced_packet sid st pn fl (bundle_of x)) = Ok (Some x)" if "x \<in> set groups" for x
    using g(3) that unwrap_bundle[of x "wrap_coalesced_packet sid st pn fl (bundle_of x)" "[]"] by simp
  have none: "ds = [] \<Longrightarrow> coalesce_all now ds (coalescer_new cfg) = []"
    by (simp add: coalesce_all_def coalescer_flush_def coalescer_new_def map_filter_simps)
  show ?thesis using g dec none unfolding m_def[symmetric]
    by (intro exI[of _ groups]) (cases "ds = []"; auto)
qed

theorem coalescing_round_trip_witness:
  "\<exists>groups. concat groups = [[1], [2, 3]]
    \<and> map (\<lambda>b. unwrap_coalesced_packet (wrap_coalesced_packet [] 1 0 0 b)) (coalesce_all 0 [[1], [2, 3]] (coalescer_new coalescer_config_default))
      = map (\<lambda>g. Ok (Some g)) groups"
  using coalescing_round_trip[of "[[1], [2, 3]]" "[]" 1 0 0 0 coalescer_config_default] by fastforce

end
