(* ===== verification/Stream_Table.thy ===== *)
theory Stream_Table
  imports Stream_Send Stream_Recv
begin

text \<open>
  The streams of one session: the demultiplexer that allocates ids and routes data
  to the application (\<open>transport/multiplexer.rs\<close>), the count of open streams per
  side, the record of the ids the peer has used, and the operations that put a
  stream into the session's table and take it out again (\<open>api/session.rs\<close>). A
  bounded channel is its queue, its depth and whether its receiver still exists.
\<close>

subsection \<open>Channels and the demultiplexer\<close>

abbreviation LAST_STREAM_ID :: u32 where "LAST_STREAM_ID \<equiv> ucast (- 1 :: u16)"
abbreviation RAW_APP_STREAM_ID :: u32 where "RAW_APP_STREAM_ID \<equiv> 1"
abbreviation MAX_STREAMS :: nat where "MAX_STREAMS \<equiv> 256"
abbreviation STREAM_RECV_CHANNEL_DEPTH :: nat where "STREAM_RECV_CHANNEL_DEPTH \<equiv> 1024"

datatype stream_message = MsgData bytes | MsgAck u32 | MsgClose

record 'a mpsc =
  ch_queue :: "'a list"
  ch_depth :: nat
  ch_open :: bool

definition mpsc_channel :: "nat \<Rightarrow> 'a mpsc" where
  "mpsc_channel n = \<lparr>ch_queue = [], ch_depth = n, ch_open = True\<rparr>"

definition mpsc_try_send :: "'a \<Rightarrow> 'a mpsc \<Rightarrow> bool \<times> 'a mpsc" where
  "mpsc_try_send m c =
     (if ch_open c \<and> length (ch_queue c) < ch_depth c then (True, c\<lparr>ch_queue := ch_queue c @ [m]\<rparr>) else (False, c))"

record demux =
  dx_streams :: "u32 \<rightharpoonup> stream_message mpsc"
  dx_control :: "bytes mpsc"
  dx_first_stream_id :: u32
  dx_next_stream_id :: u32
  dx_id_step :: u32

definition demux_new_with_role :: "nat \<Rightarrow> bool \<Rightarrow> demux" where
  "demux_new_with_role control_buffer is_client =
     (let first_id = (if is_client then 3 else 2)
      in \<lparr>dx_streams = Map.empty, dx_control = mpsc_channel control_buffer,
          dx_first_stream_id = first_id, dx_next_stream_id = first_id, dx_id_step = 2\<rparr>)"

definition demux_open_stream :: "nat \<Rightarrow> demux \<Rightarrow> u32 option \<times> demux" where
  "demux_open_stream buffer_size d =
     (let stream_id = dx_next_stream_id d
      in if stream_id \<le> LAST_STREAM_ID
         then (Some stream_id,
               d\<lparr>dx_next_stream_id := stream_id + dx_id_step d,
                 dx_streams := (dx_streams d)(stream_id \<mapsto> mpsc_channel buffer_size)\<rparr>)
         else (None, d))"

definition register_stream :: "u32 \<Rightarrow> nat \<Rightarrow> demux \<Rightarrow> demux" where
  "register_stream stream_id buffer_size d =
     d\<lparr>dx_streams := (dx_streams d)(stream_id \<mapsto> mpsc_channel buffer_size)\<rparr>"

definition is_local_stream_id :: "demux \<Rightarrow> u32 \<Rightarrow> bool" where
  "is_local_stream_id d stream_id \<longleftrightarrow> stream_id > 1 \<and> stream_id mod 2 = dx_first_stream_id d mod 2"

definition has_opened :: "demux \<Rightarrow> u32 \<Rightarrow> bool" where
  "has_opened d stream_id \<longleftrightarrow>
     is_local_stream_id d stream_id \<and> stream_id \<ge> dx_first_stream_id d \<and> stream_id < dx_next_stream_id d"

definition demux_close_stream :: "u32 \<Rightarrow> demux \<Rightarrow> demux" where
  "demux_close_stream stream_id d = d\<lparr>dx_streams := (dx_streams d)(stream_id := None)\<rparr>"

definition close_all_streams :: "demux \<Rightarrow> demux" where
  "close_all_streams d = d\<lparr>dx_streams := Map.empty\<rparr>"

definition route_message :: "u32 \<Rightarrow> stream_message \<Rightarrow> demux \<Rightarrow> bool \<times> demux" where
  "route_message stream_id m d =
     (case dx_streams d stream_id of
        Some c \<Rightarrow> let (sent, c') = mpsc_try_send m c in (sent, d\<lparr>dx_streams := (dx_streams d)(stream_id \<mapsto> c')\<rparr>)
      | None \<Rightarrow> (False, d))"

definition route_data :: "u32 \<Rightarrow> bytes \<Rightarrow> demux \<Rightarrow> bool \<times> demux" where
  "route_data stream_id payload d =
     (if stream_id = 0 then let (sent, c) = mpsc_try_send payload (dx_control d) in (sent, d\<lparr>dx_control := c\<rparr>)
      else route_message stream_id (MsgData payload) d)"

definition route_ack :: "u32 \<Rightarrow> u32 \<Rightarrow> demux \<Rightarrow> bool \<times> demux" where
  "route_ack stream_id seq d = (if stream_id = 0 then (False, d) else route_message stream_id (MsgAck seq) d)"

definition route_close :: "u32 \<Rightarrow> demux \<Rightarrow> bool \<times> demux" where
  "route_close stream_id d = (if stream_id = 0 then (False, d) else route_message stream_id MsgClose d)"

text \<open>
  The awaiting variants: the send waits (\<open>None\<close>, nothing changed) while the channel
  is full and its receiver exists, and otherwise answers as the non-blocking one.
\<close>

definition mpsc_waits :: "'a mpsc \<Rightarrow> bool" where
  "mpsc_waits c \<longleftrightarrow> ch_open c \<and> length (ch_queue c) \<ge> ch_depth c"

definition route_data_async :: "u32 \<Rightarrow> bytes \<Rightarrow> demux \<Rightarrow> bool option \<times> demux" where
  "route_data_async stream_id payload d =
     (if (if stream_id = 0 then mpsc_waits (dx_control d)
          else case dx_streams d stream_id of Some c \<Rightarrow> mpsc_waits c | None \<Rightarrow> False)
      then (None, d)
      else let (sent, d') = route_data stream_id payload d in (Some sent, d'))"

definition route_ack_async :: "u32 \<Rightarrow> u32 \<Rightarrow> demux \<Rightarrow> bool option \<times> demux" where
  "route_ack_async stream_id seq d =
     (if stream_id \<noteq> 0 \<and> (case dx_streams d stream_id of Some c \<Rightarrow> mpsc_waits c | None \<Rightarrow> False)
      then (None, d)
      else let (sent, d') = route_ack stream_id seq d in (Some sent, d'))"

definition route_close_async :: "u32 \<Rightarrow> demux \<Rightarrow> bool option \<times> demux" where
  "route_close_async stream_id d =
     (if stream_id \<noteq> 0 \<and> (case dx_streams d stream_id of Some c \<Rightarrow> mpsc_waits c | None \<Rightarrow> False)
      then (None, d)
      else let (sent, d') = route_close stream_id d in (Some sent, d'))"

subsection \<open>The stream gauge\<close>

record stream_gauge =
  sg_local_open :: int
  sg_peer_open :: int
  sg_local_parity :: u32

datatype gauge_side = LocalSide | PeerSide

definition gauge_new :: "bool \<Rightarrow> stream_gauge" where
  "gauge_new is_client = \<lparr>sg_local_open = 0, sg_peer_open = 0, sg_local_parity = (if is_client then 1 else 0)\<rparr>"

definition gauge_is_local :: "stream_gauge \<Rightarrow> u32 \<Rightarrow> bool" where
  "gauge_is_local g stream_id \<longleftrightarrow> stream_id mod 2 = sg_local_parity g"

definition gauge_side_of :: "stream_gauge \<Rightarrow> u32 \<Rightarrow> gauge_side option" where
  "gauge_side_of g stream_id =
     (if stream_id \<le> RAW_APP_STREAM_ID then None
      else Some (if gauge_is_local g stream_id then LocalSide else PeerSide))"

definition gauge_opened :: "u32 \<Rightarrow> stream_gauge \<Rightarrow> stream_gauge" where
  "gauge_opened stream_id g =
     (case gauge_side_of g stream_id of
        None \<Rightarrow> g
      | Some LocalSide \<Rightarrow> g\<lparr>sg_local_open := sg_local_open g + 1\<rparr>
      | Some PeerSide \<Rightarrow> g\<lparr>sg_peer_open := sg_peer_open g + 1\<rparr>)"

definition try_open_local :: "stream_gauge \<Rightarrow> bool \<times> stream_gauge" where
  "try_open_local g =
     (if sg_local_open g < int MAX_STREAMS then (True, g\<lparr>sg_local_open := sg_local_open g + 1\<rparr>) else (False, g))"

definition undo_open_local :: "stream_gauge \<Rightarrow> stream_gauge" where
  "undo_open_local g = (if sg_local_open g > 0 then g\<lparr>sg_local_open := sg_local_open g - 1\<rparr> else g)"

definition peer_open :: "stream_gauge \<Rightarrow> nat" where
  "peer_open g = nat (max (sg_peer_open g) 0)"

definition gauge_closed :: "u32 \<Rightarrow> stream_gauge \<Rightarrow> stream_gauge" where
  "gauge_closed stream_id g =
     (case gauge_side_of g stream_id of
        None \<Rightarrow> g
      | Some LocalSide \<Rightarrow> if sg_local_open g > 0 then g\<lparr>sg_local_open := sg_local_open g - 1\<rparr> else g
      | Some PeerSide \<Rightarrow> if sg_peer_open g > 0 then g\<lparr>sg_peer_open := sg_peer_open g - 1\<rparr> else g)"

definition gauge_drain :: "stream_gauge \<Rightarrow> stream_gauge" where
  "gauge_drain g = g\<lparr>sg_local_open := 0, sg_peer_open := 0\<rparr>"

subsection \<open>The ids the peer has used\<close>

type_synonym peer_stream_ids = "u64 list option"

abbreviation PEER_STREAM_ID_WORDS :: nat where "PEER_STREAM_ID_WORDS \<equiv> 2 ^ 16 div 2 div 64"

definition peer_slot :: "u32 \<Rightarrow> (nat \<times> u64) option" where
  "peer_slot stream_id =
     (let index = unat (drop_bit 1 stream_id)
      in if index div 64 < PEER_STREAM_ID_WORDS then Some (index div 64, push_bit (index mod 64) 1) else None)"

definition has_seen :: "u32 \<Rightarrow> peer_stream_ids \<Rightarrow> bool" where
  "has_seen stream_id p =
     (case (p, peer_slot stream_id) of
        (Some seen, Some (w, b)) \<Rightarrow> w < length seen \<and> (seen ! w) AND b \<noteq> 0
      | _ \<Rightarrow> False)"

definition mark_seen :: "u32 \<Rightarrow> peer_stream_ids \<Rightarrow> peer_stream_ids" where
  "mark_seen stream_id p =
     (case peer_slot stream_id of
        None \<Rightarrow> p
      | Some (w, b) \<Rightarrow>
          let seen = (case p of Some xs \<Rightarrow> xs | None \<Rightarrow> replicate PEER_STREAM_ID_WORDS 0)
          in Some (if w < length seen then seen[w := (seen ! w) OR b] else seen))"

subsection \<open>The session's stream table\<close>

record stream_table =
  tb_streams :: "u32 \<rightharpoonup> stream"
  tb_demux :: demux
  tb_gauge :: stream_gauge
  tb_peer_streams :: peer_stream_ids

text \<open>A session starts with the raw-app stream the pump creates.\<close>

definition table_new :: "nat \<Rightarrow> bool \<Rightarrow> stream_table" where
  "table_new control_buffer is_client =
     \<lparr>tb_streams = [RAW_APP_STREAM_ID \<mapsto> stream_new 1], tb_demux = demux_new_with_role control_buffer is_client,
      tb_gauge = gauge_new is_client, tb_peer_streams = None\<rparr>"

text \<open>\<open>PhantomSession::open_stream\<close>: \<open>None\<close> is either refusal (\<open>CoreError::StreamError\<close>).\<close>

definition phantom_open_stream :: "stream_table \<Rightarrow> u32 option \<times> stream_table" where
  "phantom_open_stream t =
     (case try_open_local (tb_gauge t) of
        (False, g) \<Rightarrow> (None, t\<lparr>tb_gauge := g\<rparr>)
      | (True, g) \<Rightarrow>
          (case demux_open_stream STREAM_RECV_CHANNEL_DEPTH (tb_demux t) of
             (None, d) \<Rightarrow> (None, t\<lparr>tb_gauge := undo_open_local g, tb_demux := d\<rparr>)
           | (Some stream_id, d) \<Rightarrow>
               (Some stream_id,
                t\<lparr>tb_gauge := g, tb_demux := d,
                  tb_streams := (tb_streams t)(stream_id \<mapsto> stream_new (ucast stream_id))\<rparr>)))"

definition retire_released_stream :: "u32 \<Rightarrow> stream_table \<Rightarrow> stream_table" where
  "retire_released_stream stream_id t =
     (if stream_id \<le> RAW_APP_STREAM_ID \<or> tb_streams t stream_id = None then t
      else t\<lparr>tb_streams := (tb_streams t)(stream_id := None), tb_gauge := gauge_closed stream_id (tb_gauge t),
             tb_demux := demux_close_stream stream_id (tb_demux t)\<rparr>)"

definition retire_untouched_local :: "u32 \<Rightarrow> stream_table \<Rightarrow> bool \<times> stream_table" where
  "retire_untouched_local stream_id t =
     (if \<not> is_local_stream_id (tb_demux t) stream_id then (False, t)
      else let untouched = (case tb_streams t stream_id of Some s \<Rightarrow> \<not> has_sent_reliable s | None \<Rightarrow> False)
           in if \<not> untouched then (False, t) else (True, retire_released_stream stream_id t))"

datatype unheld_stream = UnheldOpens | UnheldRetired | UnheldNotThePeers

definition classify_unheld_stream :: "u32 \<Rightarrow> demux \<Rightarrow> peer_stream_ids \<Rightarrow> unheld_stream" where
  "classify_unheld_stream stream_id d peer_streams =
     (if is_local_stream_id d stream_id
      then if has_opened d stream_id then UnheldRetired else UnheldNotThePeers
      else if has_seen stream_id peer_streams then UnheldRetired else UnheldOpens)"

text \<open>
  The stream the receive path creates for an id with no stream in the table; the
  flag says whether a handle was handed to the channel \<open>accept_stream\<close> reads, for
  which \<open>incoming_room\<close> says that the channel took it.
\<close>

definition create_peer_stream :: "u32 \<Rightarrow> stream_table \<Rightarrow> stream_table" where
  "create_peer_stream stream_id t =
     (let t1 = t\<lparr>tb_streams := (tb_streams t)(stream_id \<mapsto> stream_new (ucast stream_id))\<rparr>
      in if stream_id > RAW_APP_STREAM_ID
         then t1\<lparr>tb_peer_streams := mark_seen stream_id (tb_peer_streams t1),
                 tb_gauge := gauge_opened stream_id (tb_gauge t1),
                 tb_demux := register_stream stream_id STREAM_RECV_CHANNEL_DEPTH (tb_demux t1)\<rparr>
         else t1)"

text \<open>
  What a reliable segment meets: a stream in the table, a new stream, the answer for
  a stream that is gone, or a refusal.
\<close>

datatype admission = AdmHeld | AdmCreated | AdmRetired | AdmRefused

definition admit_stream :: "u32 \<Rightarrow> stream_table \<Rightarrow> admission \<times> stream_table" where
  "admit_stream stream_id t =
     (case tb_streams t stream_id of
        Some s \<Rightarrow> (AdmHeld, t)
      | None \<Rightarrow>
          (case classify_unheld_stream stream_id (tb_demux t) (tb_peer_streams t) of
             UnheldRetired \<Rightarrow> (AdmRetired, t)
           | UnheldNotThePeers \<Rightarrow> (AdmRefused, t)
           | UnheldOpens \<Rightarrow>
               if peer_open (tb_gauge t) \<ge> MAX_STREAMS then (AdmRefused, t)
               else (AdmCreated, create_peer_stream stream_id t)))"

text \<open>The part of \<open>retire_stream\<close> that is about the table; it says whether the stream left.\<close>

definition drop_closed_stream :: "u32 \<Rightarrow> stream_table \<Rightarrow> bool \<times> stream_table" where
  "drop_closed_stream stream_id t =
     (if stream_id \<le> RAW_APP_STREAM_ID \<or> tb_streams t stream_id = None then (False, t)
      else (True, t\<lparr>tb_streams := (tb_streams t)(stream_id := None), tb_gauge := gauge_closed stream_id (tb_gauge t)\<rparr>))"

subsection \<open>Ids as numbers\<close>

lemma u32_mod2: "(i :: u32) mod 2 = (if odd (unat i) then 1 else 0)"
proof -
  have "unat (i mod 2) = unat i mod 2" by (simp add: unat_mod_distrib)
  also have "\<dots> = unat (if odd (unat i) then 1 else 0 :: u32)" by (simp add: odd_iff_mod_2_eq_one)
  finally show ?thesis by (simp only: unat_inject)
qed

lemma parity_two: "(i :: u32) mod 2 = 0 \<or> i mod 2 = 1"
  by (simp add: u32_mod2)

lemma drop_bit1_inject: "drop_bit 1 (i :: u32) = drop_bit 1 j \<Longrightarrow> i mod 2 = j mod 2 \<Longrightarrow> i = j"
proof -
  assume "drop_bit 1 i = drop_bit 1 j" "i mod 2 = j mod 2"
  then have "unat (i div 2) = unat (j div 2)" "unat (i mod 2) = unat (j mod 2)" by (simp_all add: drop_bit_Suc)
  then have "unat i div 2 = unat j div 2" "unat i mod 2 = unat j mod 2" by (simp_all add: unat_div_distrib unat_mod_distrib)
  then have "unat i = unat j" by (metis div_mult_mod_eq)
  then show "i = j" by simp
qed

lemma bit_test: "j < 64 \<Longrightarrow> (w :: u64) AND push_bit j 1 \<noteq> 0 \<longleftrightarrow> bit w j"
proof -
  assume "j < 64"
  then have "w AND push_bit j 1 = (if bit w j then push_bit j 1 else 0)"
    by (intro bit_word_eqI) (auto simp: bit_and_iff bit_exp_iff)
  moreover have "push_bit j 1 \<noteq> (0 :: u64)" using \<open>j < 64\<close> by (simp add: push_bit_eq_mult)
  ultimately show ?thesis by simp
qed

definition seen_ok :: "peer_stream_ids \<Rightarrow> bool" where
  "seen_ok p \<longleftrightarrow> (\<forall>xs. p = Some xs \<longrightarrow> length xs = PEER_STREAM_ID_WORDS)"

definition wire_id :: "u32 \<Rightarrow> bool" where
  "wire_id i \<longleftrightarrow> i \<le> LAST_STREAM_ID"

lemma LAST_STREAM_ID_eq: "LAST_STREAM_ID = 65535"
  by code_simp

lemma wire_id_iff: "wire_id i \<longleftrightarrow> unat i < 2 ^ 16"
  by (auto simp: wire_id_def LAST_STREAM_ID_eq word_le_nat_alt)

lemma ucast_wire_id [simp]: "wire_id (ucast (i :: u16))"
  proof -
  have "unat (ucast i :: u32) = unat i" by (simp add: unsigned_ucast_eq take_bit_nat_eq_self order_le_less_trans[OF unat_u16_bound])
  then show ?thesis using unsigned_less[of i] by (simp add: wire_id_iff)
qed

lemma peer_slot_wire: "wire_id i \<Longrightarrow> peer_slot i = Some (unat i div 2 div 64, push_bit (unat i div 2 mod 64) 1)"
  by (simp add: wire_id_iff peer_slot_def drop_bit_Suc unat_div_distrib div_less_iff_less_mult Let_def)

lemma mark_seen_ok: "seen_ok p \<Longrightarrow> seen_ok (mark_seen i p)"
  by (auto simp: seen_ok_def mark_seen_def Let_def split: option.splits)

lemma has_seen_mark:
  assumes "seen_ok p" "wire_id i" "wire_id j"
  shows "has_seen j (mark_seen i p) \<longleftrightarrow> has_seen j p \<or> unat i div 2 = unat j div 2"
proof -
  let ?xs = "case p of Some xs \<Rightarrow> xs | None \<Rightarrow> replicate PEER_STREAM_ID_WORDS 0"
  let ?m = "unat i div 2" and ?n = "unat j div 2"
  have len: "length ?xs = PEER_STREAM_ID_WORDS" using assms(1) by (simp add: seen_ok_def split: option.split)
  have lt: "?m div 64 < PEER_STREAM_ID_WORDS" "?n div 64 < PEER_STREAM_ID_WORDS"
    using assms(2,3) by (simp_all add: wire_id_iff div_less_iff_less_mult)
  have mark: "mark_seen i p = Some (?xs[?m div 64 := (?xs ! (?m div 64)) OR push_bit (?m mod 64) 1])"
    using len lt by (simp add: mark_seen_def peer_slot_wire[OF assms(2)] Let_def)
  have before: "has_seen j p \<longleftrightarrow> bit (?xs ! (?n div 64)) (?n mod 64)"
    using len lt assms(1) by (cases p) (simp_all add: has_seen_def peer_slot_wire[OF assms(3)] bit_test[simplified] seen_ok_def)
  have after: "has_seen j (mark_seen i p) \<longleftrightarrow>
      bit ((?xs[?m div 64 := (?xs ! (?m div 64)) OR push_bit (?m mod 64) 1]) ! (?n div 64)) (?n mod 64)"
    using len lt unfolding mark has_seen_def peer_slot_wire[OF assms(3)] by (simp add: bit_test[simplified])
  have "?m = ?n \<longleftrightarrow> ?m div 64 = ?n div 64 \<and> ?m mod 64 = ?n mod 64" by (metis div_mult_mod_eq)
  then show ?thesis unfolding before after using len lt
    by (auto simp: nth_list_update bit_or_iff bit_exp_iff)
qed

lemma seen_mark_same:
  assumes "seen_ok p" "wire_id i" "wire_id j" "i mod 2 = j mod 2"
  shows "has_seen j (mark_seen i p) \<longleftrightarrow> has_seen j p \<or> i = j"
proof -
  have "unat i mod 2 = unat j mod 2" using assms(4) by (simp add: u32_mod2 odd_iff_mod_2_eq_one split: if_splits)
  then have "unat i div 2 = unat j div 2 \<longleftrightarrow> i = j" by (metis div_mult_mod_eq unat_inject)
  then show ?thesis using has_seen_mark[OF assms(1-3)] by simp
qed

lemma seen_mark_mono: "seen_ok p \<Longrightarrow> wire_id i \<Longrightarrow> wire_id j \<Longrightarrow> has_seen j p \<Longrightarrow> has_seen j (mark_seen i p)"
  by (simp add: has_seen_mark)

lemma seen_none [simp]: "\<not> has_seen i None" by (simp add: has_seen_def)

subsection \<open>The table over time\<close>

datatype table_op =
    OpenLocal | PeerSegment u16 | CloseBoth u32 | Release u32 | ReleaseUntouched u32
  | UpdateStream u32 "stream \<Rightarrow> stream"

text \<open>One operation on the table, with the ids it hands to the application.\<close>

fun table_step :: "stream_table \<Rightarrow> table_op \<Rightarrow> u32 list \<times> stream_table" where
  "table_step t OpenLocal =
     (case phantom_open_stream t of (Some i, t') \<Rightarrow> ([i], t') | (None, t') \<Rightarrow> ([], t'))"
| "table_step t (PeerSegment sid) =
     (case admit_stream (ucast sid) t of
        (AdmCreated, t') \<Rightarrow> (if (ucast sid :: u32) > RAW_APP_STREAM_ID then [ucast sid] else [], t')
      | (_, t') \<Rightarrow> ([], t'))"
| "table_step t (CloseBoth i) = ([], snd (drop_closed_stream i t))"
| "table_step t (Release i) = ([], retire_released_stream i t)"
| "table_step t (ReleaseUntouched i) = ([], snd (retire_untouched_local i t))"
| "table_step t (UpdateStream i f) =
     ([], t\<lparr>tb_streams := (case tb_streams t i of Some s \<Rightarrow> (tb_streams t)(i \<mapsto> f s) | None \<Rightarrow> tb_streams t)\<rparr>)"

definition local_ids :: "stream_table \<Rightarrow> u32 set" where
  "local_ids t = {i \<in> dom (tb_streams t). is_local_stream_id (tb_demux t) i}"

definition peer_ids :: "stream_table \<Rightarrow> u32 set" where
  "peer_ids t = {i \<in> dom (tb_streams t). i > 1 \<and> \<not> is_local_stream_id (tb_demux t) i}"

text \<open>An id that has been opened at some time, by the side it belongs to.\<close>

definition id_used :: "stream_table \<Rightarrow> u32 \<Rightarrow> bool" where
  "id_used t i \<longleftrightarrow>
     (if is_local_stream_id (tb_demux t) i then has_opened (tb_demux t) i else has_seen i (tb_peer_streams t))"

definition demux_ok :: "demux \<Rightarrow> bool" where
  "demux_ok d \<longleftrightarrow> (dx_first_stream_id d = 2 \<or> dx_first_stream_id d = 3) \<and> dx_id_step d = 2
     \<and> dx_first_stream_id d \<le> dx_next_stream_id d \<and> dx_next_stream_id d mod 2 = dx_first_stream_id d mod 2
     \<and> unat (dx_next_stream_id d) \<le> 65537"

definition table_inv :: "stream_table \<Rightarrow> bool" where
  "table_inv t \<longleftrightarrow> demux_ok (tb_demux t) \<and> sg_local_parity (tb_gauge t) = dx_first_stream_id (tb_demux t) mod 2
     \<and> finite (dom (tb_streams t)) \<and> seen_ok (tb_peer_streams t)
     \<and> (\<forall>i \<in> dom (tb_streams t). wire_id i \<and> (i > 1 \<longrightarrow> id_used t i))
     \<and> sg_local_open (tb_gauge t) = int (card (local_ids t)) \<and> sg_peer_open (tb_gauge t) = int (card (peer_ids t))
     \<and> card (local_ids t) \<le> MAX_STREAMS \<and> card (peer_ids t) \<le> MAX_STREAMS"

lemma gauge_side_inv:
  assumes "table_inv t"
  shows "gauge_side_of (tb_gauge t) i =
    (if i \<le> 1 then None else Some (if is_local_stream_id (tb_demux t) i then LocalSide else PeerSide))"
  using assms by (auto simp: table_inv_def gauge_side_of_def gauge_is_local_def is_local_stream_id_def)

lemma is_local_upd [simp]:
  "is_local_stream_id (d\<lparr>dx_streams := x\<rparr>) i = is_local_stream_id d i"
  "has_opened (d\<lparr>dx_streams := x\<rparr>) i = has_opened d i"
  "is_local_stream_id (d\<lparr>dx_next_stream_id := n\<rparr>) i = is_local_stream_id d i"
  by (simp_all add: is_local_stream_id_def has_opened_def)

lemma demux_ok_upd [simp]: "demux_ok (d\<lparr>dx_streams := x\<rparr>) = demux_ok d"
  by (simp add: demux_ok_def)

lemma table_inv_new: "table_inv (table_new n c)"
proof -
  have d: "dom (tb_streams (table_new n c)) = {1}" by (auto simp: table_new_def)
  then have "local_ids (table_new n c) = {}" "peer_ids (table_new n c) = {}"
    by (auto simp: local_ids_def peer_ids_def is_local_stream_id_def)
  then show ?thesis using d
    by (auto simp: table_inv_def table_new_def demux_new_with_role_def demux_ok_def Let_def gauge_new_def seen_ok_def wire_id_iff)
qed

lemma table_inv_parts:
  assumes "table_inv t"
  shows "demux_ok (tb_demux t)" "sg_local_parity (tb_gauge t) = dx_first_stream_id (tb_demux t) mod 2"
    "finite (dom (tb_streams t))" "seen_ok (tb_peer_streams t)"
    "\<And>i. i \<in> dom (tb_streams t) \<Longrightarrow> wire_id i" "\<And>i. i \<in> dom (tb_streams t) \<Longrightarrow> i > 1 \<Longrightarrow> id_used t i"
    "sg_local_open (tb_gauge t) = int (card (local_ids t))" "sg_peer_open (tb_gauge t) = int (card (peer_ids t))"
    "card (local_ids t) \<le> MAX_STREAMS" "card (peer_ids t) \<le> MAX_STREAMS"
    "finite (local_ids t)" "finite (peer_ids t)"
  using assms unfolding table_inv_def local_ids_def peer_ids_def by auto

lemma card_remove_int: "finite A \<Longrightarrow> int (card (A - {i})) = int (card A) - (if i \<in> A then 1 else 0)"
  using card_Suc_Diff1[of A i] by auto

lemma inv_remove:
  assumes inv: "table_inv t" and i: "i > 1" "tb_streams t i \<noteq> None"
  shows "table_inv (t\<lparr>tb_streams := (tb_streams t)(i := None), tb_gauge := gauge_closed i (tb_gauge t),
      tb_demux := (tb_demux t)\<lparr>dx_streams := x\<rparr>\<rparr>)" (is "table_inv ?t")
proof -
  note P = table_inv_parts[OF inv]
  have ids: "local_ids ?t = local_ids t - {i}" "peer_ids ?t = peer_ids t - {i}"
    by (auto simp: local_ids_def peer_ids_def)
  have mem: "i \<in> local_ids t \<longleftrightarrow> is_local_stream_id (tb_demux t) i"
    "i \<in> peer_ids t \<longleftrightarrow> \<not> is_local_stream_id (tb_demux t) i"
    using i by (auto simp: local_ids_def peer_ids_def is_local_stream_id_def)
  have g: "gauge_closed i (tb_gauge t) = (if is_local_stream_id (tb_demux t) i
      then (tb_gauge t)\<lparr>sg_local_open := sg_local_open (tb_gauge t) - 1\<rparr>
      else (tb_gauge t)\<lparr>sg_peer_open := sg_peer_open (tb_gauge t) - 1\<rparr>)"
    using i(1) mem P(7,8,11,12) gauge_side_inv[OF inv, of i]
    by (auto simp: gauge_closed_def not_le[symmetric] card_gt_0_iff)
  have c: "int (card (local_ids t - {i})) = int (card (local_ids t)) - (if i \<in> local_ids t then 1 else 0)"
    "int (card (peer_ids t - {i})) = int (card (peer_ids t)) - (if i \<in> peer_ids t then 1 else 0)"
    using P(11,12) by (simp_all add: card_remove_int)
  have used: "id_used ?t j = id_used t j" for j by (simp add: id_used_def)
  have le: "card (local_ids t - {i}) \<le> MAX_STREAMS" "card (peer_ids t - {i}) \<le> MAX_STREAMS"
    using P(9,10) card_Diff1_le[of "local_ids t" i] card_Diff1_le[of "peer_ids t" i] by linarith+
  show ?thesis unfolding table_inv_def ids c used using P(1-8) le mem g by auto
qed

lemma drop_closed_inv: "table_inv t \<Longrightarrow> table_inv (snd (drop_closed_stream i t))"
  using inv_remove[of t i "dx_streams (tb_demux t)"]
  by (auto simp: drop_closed_stream_def not_le)

lemma retire_released_inv: "table_inv t \<Longrightarrow> table_inv (retire_released_stream i t)"
  using inv_remove[of t i "(dx_streams (tb_demux t))(i := None)"]
  by (auto simp: retire_released_stream_def not_le demux_close_stream_def)

lemma retire_untouched_inv: "table_inv t \<Longrightarrow> table_inv (snd (retire_untouched_local i t))"
  by (simp add: retire_untouched_local_def Let_def retire_released_inv)

lemma update_stream_inv:
  assumes "table_inv t"
  shows "table_inv (snd (table_step t (UpdateStream i f)))"
proof (cases "tb_streams t i")
  case (Some s)
  let ?t = "t\<lparr>tb_streams := (tb_streams t)(i \<mapsto> f s)\<rparr>"
  have d: "dom ((tb_streams t)(i \<mapsto> f s)) = dom (tb_streams t)" using Some by auto
  then have "local_ids ?t = local_ids t" "peer_ids ?t = peer_ids t" "id_used ?t = id_used t"
    by (auto simp: local_ids_def peer_ids_def id_used_def fun_eq_iff)
  then show ?thesis using assms d Some by (simp add: table_inv_def)
qed (use assms in simp)

lemma next_id_step:
  assumes "demux_ok d" "dx_next_stream_id d \<le> LAST_STREAM_ID"
  shows "unat (dx_next_stream_id d + 2) = unat (dx_next_stream_id d) + 2" "wire_id (dx_next_stream_id d)"
    "dx_next_stream_id d > 1" "(dx_next_stream_id d + 2) mod 2 = dx_next_stream_id d mod 2"
proof -
  have n: "unat (dx_next_stream_id d) < 2 ^ 16" using assms(2) wire_id_iff by (simp add: wire_id_def)
  show u: "unat (dx_next_stream_id d + 2) = unat (dx_next_stream_id d) + 2" using n by (simp add: unat_word_ariths(1))
  show "wire_id (dx_next_stream_id d)" using n by (simp add: wire_id_iff)
  have "2 \<le> unat (dx_first_stream_id d)" "unat (dx_first_stream_id d) \<le> unat (dx_next_stream_id d)"
    using assms(1) by (auto simp: demux_ok_def word_le_nat_alt)
  then show "dx_next_stream_id d > 1" by (simp add: word_less_nat_alt)
  show "(dx_next_stream_id d + 2) mod 2 = dx_next_stream_id d mod 2" unfolding u32_mod2 u by simp
qed

lemma opened_step:
  fixes x :: "u32 \<rightharpoonup> stream_message mpsc"
  assumes "demux_ok d" "dx_next_stream_id d \<le> LAST_STREAM_ID"
  defines "d' \<equiv> d\<lparr>dx_next_stream_id := dx_next_stream_id d + 2, dx_streams := x\<rparr>"
  shows "demux_ok d'" "\<not> has_opened d (dx_next_stream_id d)" "has_opened d' (dx_next_stream_id d)"
    "is_local_stream_id d (dx_next_stream_id d)" "has_opened d i \<Longrightarrow> has_opened d' i"
proof -
  note N = next_id_step[OF assms(1,2)]
  have f: "dx_first_stream_id d \<le> dx_next_stream_id d" "dx_next_stream_id d mod 2 = dx_first_stream_id d mod 2"
    using assms(1) by (simp_all add: demux_ok_def)
  have n: "unat (dx_next_stream_id d) < 2 ^ 16" using N(2) by (simp add: wire_id_iff)
  show "demux_ok d'" using assms(1) N n unfolding demux_ok_def d'_def by (auto simp: word_le_nat_alt)
  show "\<not> has_opened d (dx_next_stream_id d)" by (simp add: has_opened_def)
  show l: "is_local_stream_id d (dx_next_stream_id d)" using N(3) f by (simp add: is_local_stream_id_def)
  have lt: "dx_next_stream_id d < dx_next_stream_id d + 2" using N(1) by (simp add: word_less_nat_alt)
  show "has_opened d' (dx_next_stream_id d)" using l f lt by (simp add: has_opened_def d'_def is_local_stream_id_def)
  show "has_opened d i \<Longrightarrow> has_opened d' i" using lt
    by (auto simp: has_opened_def d'_def is_local_stream_id_def)
qed

text \<open>What opening a stream on this side does: nothing, or a stream on an id never used.\<close>

lemma phantom_open_cases:
  assumes inv: "table_inv t"
  obtains (refused) "phantom_open_stream t = (None, t)"
  | (opened) i t' where "phantom_open_stream t = (Some i, t')" "i > 1" "\<not> id_used t i" "id_used t' i" "table_inv t'"
      "\<forall>j. id_used t j \<longrightarrow> id_used t' j" "wire_id i"
proof (cases "sg_local_open (tb_gauge t) < int MAX_STREAMS \<and> dx_next_stream_id (tb_demux t) \<le> LAST_STREAM_ID")
  case False
  note P = table_inv_parts[OF inv]
  have "phantom_open_stream t = (None, t)"
    using False P(7) by (auto simp: phantom_open_stream_def try_open_local_def demux_open_stream_def undo_open_local_def)
  then show ?thesis by (rule refused)
next
  case True
  note P = table_inv_parts[OF inv]
  let ?d = "tb_demux t" let ?i = "dx_next_stream_id ?d"
  let ?d' = "?d\<lparr>dx_next_stream_id := ?i + 2, dx_streams := (dx_streams ?d)(?i \<mapsto> mpsc_channel STREAM_RECV_CHANNEL_DEPTH)\<rparr>"
  let ?t = "t\<lparr>tb_gauge := (tb_gauge t)\<lparr>sg_local_open := sg_local_open (tb_gauge t) + 1\<rparr>, tb_demux := ?d',
      tb_streams := (tb_streams t)(?i \<mapsto> stream_new (ucast ?i))\<rparr>"
  have le: "?i \<le> LAST_STREAM_ID" and room: "card (local_ids t) < MAX_STREAMS" using True P(7) by auto
  note O = opened_step[OF P(1) le] and N = next_id_step[OF P(1) le]
  have step: "dx_id_step ?d = 2" using P(1) by (simp add: demux_ok_def)
  have call: "phantom_open_stream t = (Some ?i, ?t)"
    using True step by (simp add: phantom_open_stream_def try_open_local_def demux_open_stream_def Let_def)
  have mono: "id_used ?t j" if "id_used t j" for j using that O(5) by (auto simp: id_used_def split: if_splits)
  have unused: "\<not> id_used t ?i" and used: "id_used ?t ?i" using O(2,3,4) by (simp_all add: id_used_def)
  have notin: "?i \<notin> dom (tb_streams t)" using P(6) unused N(3) by blast
  have ids: "local_ids ?t = insert ?i (local_ids t)" "peer_ids ?t = peer_ids t"
    using O(4) by (auto simp: local_ids_def peer_ids_def)
  have c: "card (local_ids ?t) = Suc (card (local_ids t))"
    unfolding ids using notin P(11) by (simp add: local_ids_def)
  have "table_inv ?t" unfolding table_inv_def c ids(2)
    using P(1-8,10) O(1) N(2) used mono room by auto
  then show ?thesis using opened[OF call] N(2,3) unused used mono by blast
qed

text \<open>What a segment on an id does to the table: nothing, or a stream on an id never used.\<close>

lemma admit_cases:
  assumes inv: "table_inv t" and w: "wire_id i"
  obtains (same) a where "admit_stream i t = (a, t)" "a \<noteq> AdmCreated"
  | (created) t' where "admit_stream i t = (AdmCreated, t')" "tb_streams t i = None" "\<not> id_used t i" "i > 1 \<longrightarrow> id_used t' i"
      "table_inv t'" "\<forall>j. wire_id j \<longrightarrow> id_used t j \<longrightarrow> id_used t' j"
      "tb_streams t' = (tb_streams t)(i \<mapsto> stream_new (ucast i))"
proof (cases "tb_streams t i = None \<and> classify_unheld_stream i (tb_demux t) (tb_peer_streams t) = UnheldOpens
    \<and> peer_open (tb_gauge t) < MAX_STREAMS")
  case False
  have "\<exists>a. admit_stream i t = (a, t) \<and> a \<noteq> AdmCreated"
  proof (cases "tb_streams t i")
    case None
    then show ?thesis using False
      by (cases "classify_unheld_stream i (tb_demux t) (tb_peer_streams t)") (auto simp: admit_stream_def)
  qed (simp add: admit_stream_def)
  then show ?thesis using same by blast
next
  case True
  note P = table_inv_parts[OF inv]
  let ?t = "create_peer_stream i t"
  have call: "admit_stream i t = (AdmCreated, ?t)" using True by (simp add: admit_stream_def)
  have peer: "\<not> is_local_stream_id (tb_demux t) i" "\<not> has_seen i (tb_peer_streams t)"
    using True by (auto simp: classify_unheld_stream_def split: if_splits)
  then have unused: "\<not> id_used t i" by (simp add: id_used_def)
  have streams: "tb_streams ?t = (tb_streams t)(i \<mapsto> stream_new (ucast i))"
    by (simp add: create_peer_stream_def Let_def)
  have room: "card (peer_ids t) < MAX_STREAMS" using True P(8) by (simp add: peer_open_def)
  have notin: "i \<notin> dom (tb_streams t)" using True by auto
  show ?thesis
  proof (cases "i > 1")
    case False
    have t: "?t = t\<lparr>tb_streams := (tb_streams t)(i \<mapsto> stream_new (ucast i))\<rparr>"
      using False by (simp add: create_peer_stream_def)
    have ids: "local_ids ?t = local_ids t" "peer_ids ?t = peer_ids t"
      using False by (auto simp: t local_ids_def peer_ids_def is_local_stream_id_def)
    have used: "id_used ?t j = id_used t j" for j by (simp add: t id_used_def)
    have "table_inv ?t" unfolding table_inv_def ids used using P w False by (auto simp: t)
    then show ?thesis using created[OF call _ unused] True False used streams by auto
  next
    case big: True
    have t: "?t = t\<lparr>tb_streams := (tb_streams t)(i \<mapsto> stream_new (ucast i)),
        tb_peer_streams := mark_seen i (tb_peer_streams t),
        tb_gauge := (tb_gauge t)\<lparr>sg_peer_open := sg_peer_open (tb_gauge t) + 1\<rparr>,
        tb_demux := (tb_demux t)\<lparr>dx_streams := (dx_streams (tb_demux t))(i \<mapsto> mpsc_channel STREAM_RECV_CHANNEL_DEPTH)\<rparr>\<rparr>"
      using big peer gauge_side_inv[OF inv, of i]
      by (simp add: create_peer_stream_def Let_def gauge_opened_def register_stream_def)
    have ids: "local_ids ?t = local_ids t" "peer_ids ?t = insert i (peer_ids t)"
      using big peer by (auto simp: t local_ids_def peer_ids_def)
    have c: "card (peer_ids ?t) = Suc (card (peer_ids t))"
      unfolding ids using notin P(12) by (simp add: peer_ids_def)
    have mono: "id_used ?t j" if "id_used t j" "wire_id j" for j
      using that seen_mark_mono[OF P(4) w that(2)] by (auto simp: t id_used_def split: if_splits)
    have used: "id_used ?t i" using peer seen_mark_same[OF P(4) w w] by (simp add: t id_used_def)
    have "table_inv ?t" unfolding table_inv_def c ids(1)
      using P(1-9) w used mono room mark_seen_ok[OF P(4)] by (auto simp: t)
    then show ?thesis using created[OF call _ unused] True used mono streams by auto
  qed
qed

subsection \<open>Ids are handed out once\<close>

text \<open>
  The contract of whatever opens streams: it keeps a record of the ids it has
  opened, never forgets one, and opens only ids that are not in it.
\<close>

locale id_ledger =
  fixes step :: "'s \<Rightarrow> 'op \<Rightarrow> u32 list \<times> 's"
    and used :: "'s \<Rightarrow> u32 \<Rightarrow> bool"
    and ok :: "'s \<Rightarrow> bool"
  assumes step_ok: "ok s \<Longrightarrow> ok (snd (step s op))"
    and step_distinct: "ok s \<Longrightarrow> distinct (fst (step s op))"
    and step_opens: "ok s \<Longrightarrow> i \<in> set (fst (step s op)) \<Longrightarrow> \<not> used s i \<and> used (snd (step s op)) i \<and> wire_id i"
    and step_keeps: "ok s \<Longrightarrow> wire_id i \<Longrightarrow> used s i \<Longrightarrow> used (snd (step s op)) i"
begin

lemma run_fresh:
  assumes "ok s"
  shows "distinct (concat (fst (run step s ops))) \<and>
    (\<forall>i \<in> set (concat (fst (run step s ops))). wire_id i \<and> \<not> used s i)"
  using assms
proof (induction ops arbitrary: s)
  case (Cons op ops)
  obtain new s' where st: "step s op = (new, s')" by (rule prod.exhaust)
  obtain rest s'' where r: "run step s' ops = (rest, s'')" by (rule prod.exhaust)
  have ok': "ok s'" using step_ok[OF Cons.prems, of op] st by simp
  have ih: "distinct (concat rest)" "\<And>i. i \<in> set (concat rest) \<Longrightarrow> wire_id i \<and> \<not> used s' i"
    using Cons.IH[OF ok'] r by auto
  have new: "distinct new" "\<And>i. i \<in> set new \<Longrightarrow> \<not> used s i \<and> used s' i \<and> wire_id i"
    using step_distinct[OF Cons.prems, of op] step_opens[OF Cons.prems, of _ op] st by auto
  have "i \<notin> set new" if "i \<in> set (concat rest)" for i using ih(2)[OF that] new(2) by blast
  moreover have "\<not> used s i" if "i \<in> set (concat rest)" for i
    using ih(2)[OF that] step_keeps[OF Cons.prems, of i op] st by auto
  ultimately show ?case using ih new by (auto simp: st r)
qed simp

lemma opened_once: "ok s \<Longrightarrow> distinct (concat (fst (run step s ops)))"
  using run_fresh by blast

end

lemma table_step_cases:
  assumes inv: "table_inv t"
  shows "table_inv (snd (table_step t op)) \<and> distinct (fst (table_step t op))
    \<and> (\<forall>i \<in> set (fst (table_step t op)). \<not> id_used t i \<and> id_used (snd (table_step t op)) i \<and> wire_id i)
    \<and> (\<forall>i. wire_id i \<longrightarrow> id_used t i \<longrightarrow> id_used (snd (table_step t op)) i)"
proof (cases op)
  case OpenLocal
  show ?thesis
  proof (cases rule: phantom_open_cases[OF inv])
    case 1
    then show ?thesis using inv OpenLocal by simp
  next
    case (2 i t')
    then show ?thesis using OpenLocal by simp
  qed
next
  case (PeerSegment sid)
  show ?thesis
  proof (cases rule: admit_cases[OF inv ucast_wire_id[of sid]])
    case (1 a)
    then show ?thesis using inv PeerSegment by (cases a) simp_all
  next
    case (2 t')
    then show ?thesis using PeerSegment by (simp)
  qed
next
  case (CloseBoth i)
  then show ?thesis using drop_closed_inv[OF inv, of i] by (auto simp: drop_closed_stream_def id_used_def)
next
  case (Release i)
  then show ?thesis using retire_released_inv[OF inv, of i]
    by (auto simp: retire_released_stream_def demux_close_stream_def id_used_def)
next
  case (ReleaseUntouched i)
  then show ?thesis using retire_untouched_inv[OF inv, of i]
    by (auto simp: retire_untouched_local_def Let_def retire_released_stream_def demux_close_stream_def id_used_def)
next
  case (UpdateStream i f)
  then show ?thesis using update_stream_inv[OF inv, of i f] by (simp add: id_used_def)
qed

interpretation stream_ids: id_ledger table_step id_used table_inv
proof
  fix s :: stream_table and op and i
  assume "table_inv s"
  note C = table_step_cases[OF this, of op]
  show "table_inv (snd (table_step s op))" "distinct (fst (table_step s op))" using C by blast+
  show "i \<in> set (fst (table_step s op)) \<Longrightarrow> \<not> id_used s i \<and> id_used (snd (table_step s op)) i \<and> wire_id i" using C by blast
  show "wire_id i \<Longrightarrow> id_used s i \<Longrightarrow> id_used (snd (table_step s op)) i" using C by blast
qed

lemma table_card:
  assumes "table_inv t"
  shows "card (dom (tb_streams t)) \<le> 2 * MAX_STREAMS + 2"
proof -
  note P = table_inv_parts[OF assms]
  have "dom (tb_streams t) \<subseteq> local_ids t \<union> peer_ids t \<union> {0, 1}"
  proof
    fix i assume "i \<in> dom (tb_streams t)"
    moreover have "i > 1 \<or> i = 0 \<or> i = 1" 
    proof -
      have "1 < unat i \<or> unat i = unat (0 :: u32) \<or> unat i = unat (1 :: u32)" by (simp only: unat_0 unat_1) linarith
      then have "1 < unat i \<or> i = 0 \<or> i = 1" by (simp only: unat_inject)
      then show ?thesis by (simp add: word_less_nat_alt)
    qed
    ultimately show "i \<in> local_ids t \<union> peer_ids t \<union> {0, 1}" by (auto simp: local_ids_def peer_ids_def)
  qed
  then have "card (dom (tb_streams t)) \<le> card (local_ids t \<union> peer_ids t \<union> {0, 1})"
    using P(11,12) by (intro card_mono) auto
  also have "\<dots> \<le> card (local_ids t) + card (peer_ids t) + 2"
    using card_Un_le[of "local_ids t \<union> peer_ids t" "{0, 1}"] card_Un_le[of "local_ids t" "peer_ids t"]
    by (simp add: card_insert_if split: if_splits)
  finally show ?thesis using P(9,10) by simp
qed

end
