(* ===== verification/Delivery.thy ===== *)
theory Delivery
  imports Stream_Table Shaping Coalescer
begin

text \<open>
  The path from the packet handler to the application (\<open>api/session.rs\<close>): the
  queue the reader fills, the router and the two delivery tasks behind it, and the
  backlog counter that bounds what a peer can make this side hold. A task takes an
  item, settles its accounts and then waits for room in the application's channel;
  the two halves are separate steps here.
\<close>

subsection \<open>The queue and its charge\<close>

abbreviation RECV_DELIVERY_HARD_CAP :: u64 where "RECV_DELIVERY_HARD_CAP \<equiv> 4 * 1024 * 1024"
abbreviation DELIVERY_ITEM_OVERHEAD_BYTES :: u64 where "DELIVERY_ITEM_OVERHEAD_BYTES \<equiv> 128"
abbreviation RAW_APP_RECV_CHANNEL_DEPTH :: nat where "RAW_APP_RECV_CHANNEL_DEPTH \<equiv> 256"
definition MAX_DELIVERY_CHARGE_PER_FRAME :: u64 where
  "MAX_DELIVERY_CHARGE_PER_FRAME =
     (let bundle = MAX_RECV_PAYLOAD - BUNDLE_HEADER_SIZE; per_sub = SUB_HEADER_SIZE + 1
      in word_of_nat (bundle div per_sub) * (1 + DELIVERY_ITEM_OVERHEAD_BYTES))"

datatype deliver_item = ItemData u32 bytes bool | ItemClose u32 | ItemRetire u32

definition delivery_charge :: "nat \<Rightarrow> u64" where
  "delivery_charge payload_len = word_of_nat payload_len + DELIVERY_ITEM_OVERHEAD_BYTES"

record delivery =
  dv_router :: "deliver_item list"
  dv_raw :: "(bytes \<times> bool) list"
  dv_streams :: "deliver_item list"
  dv_undelivered :: u64
  dv_open :: bool
  dv_raw_open :: bool
  dv_raw_pending :: "bytes option"
  dv_stream_pending :: "deliver_item option"
  dv_recv_channel :: "bytes mpsc"
  dv_growth_budget :: u32

definition delivery_new :: delivery where
  "delivery_new =
     \<lparr>dv_router = [], dv_raw = [], dv_streams = [], dv_undelivered = 0, dv_open = True, dv_raw_open = True, dv_raw_pending = None,
      dv_stream_pending = None, dv_recv_channel = mpsc_channel RAW_APP_RECV_CHANNEL_DEPTH,
      dv_growth_budget = SESSION_RECV_WINDOW_GROWTH_BUDGET\<rparr>"

text \<open>A send on the unbounded channel succeeds while the router holds the other end.\<close>

definition deliver_send :: "deliver_item \<Rightarrow> delivery \<Rightarrow> bool \<times> delivery" where
  "deliver_send item v = (if dv_open v then (True, v\<lparr>dv_router := dv_router v @ [item]\<rparr>) else (False, v))"

definition deliver_charged :: "deliver_item \<Rightarrow> nat \<Rightarrow> delivery \<Rightarrow> delivery" where
  "deliver_charged item n v =
     (case deliver_send item v of
        (True, v') \<Rightarrow> v'\<lparr>dv_undelivered := dv_undelivered v' + delivery_charge n\<rparr>
      | (False, v') \<Rightarrow> v')"

fun enqueue_run :: "bytes list \<Rightarrow> u32 \<Rightarrow> delivery \<Rightarrow> delivery" where
  "enqueue_run [] stream_id v = v"
| "enqueue_run (chunk # rest) stream_id v =
     (if chunk = [] then enqueue_run rest stream_id v
      else enqueue_run rest stream_id (deliver_charged (ItemData stream_id chunk True) (length chunk) v))"

definition take_unordered_remote_fin :: "u32 \<Rightarrow> stream \<Rightarrow> delivery \<Rightarrow> stream \<times> delivery" where
  "take_unordered_remote_fin stream_id s v =
     (if stream_id > RAW_APP_STREAM_ID
      then let (ended, s') = note_unordered_remote_fin s
           in (s', if ended then deliver_charged (ItemClose stream_id) 0 v else v)
      else (s, v))"

definition retire_stream :: "u32 \<Rightarrow> stream_table \<Rightarrow> delivery \<Rightarrow> stream_table \<times> delivery" where
  "retire_stream stream_id t v =
     (case drop_closed_stream stream_id t of
        (True, t') \<Rightarrow> (t', snd (deliver_send (ItemRetire stream_id) v))
      | (False, t') \<Rightarrow> (t', v))"

subsection \<open>The router and the delivery tasks\<close>

definition router_step :: "delivery \<Rightarrow> delivery" where
  "router_step v =
     (case dv_router v of
        [] \<Rightarrow> v
      | item # rest \<Rightarrow>
          let v = v\<lparr>dv_router := rest\<rparr>
          in case item of
               ItemData stream_id bs reliable \<Rightarrow>
                 if stream_id \<le> RAW_APP_STREAM_ID
                 then if dv_raw_open v then v\<lparr>dv_raw := dv_raw v @ [(bs, reliable)]\<rparr> else v
                 else v\<lparr>dv_streams := dv_streams v @ [ItemData stream_id bs reliable]\<rparr>
             | ItemClose stream_id \<Rightarrow>
                 if stream_id > RAW_APP_STREAM_ID then v\<lparr>dv_streams := dv_streams v @ [ItemClose stream_id]\<rparr>
                 else v\<lparr>dv_undelivered := dv_undelivered v - delivery_charge 0\<rparr>
             | ItemRetire stream_id \<Rightarrow>
                 if stream_id > RAW_APP_STREAM_ID then v\<lparr>dv_streams := dv_streams v @ [ItemRetire stream_id]\<rparr> else v)"

text \<open>Crediting the flow-control window of a stream for consumed bytes.\<close>

definition credit_stream :: "nanos \<Rightarrow> bool \<Rightarrow> u32 \<Rightarrow> nat \<Rightarrow> bool \<Rightarrow> stream_table \<Rightarrow> delivery \<Rightarrow> stream_table \<times> delivery" where
  "credit_stream now raced stream_id len reliable t v =
     (case tb_streams t stream_id of
        None \<Rightarrow> (t, v)
      | Some s \<Rightarrow>
          let (limit, budget, s1) = record_app_consumed now raced (word_of_nat len) reliable (dv_growth_budget v) s;
              s2 = (case limit of Some l \<Rightarrow> stage_window_update_limit l s1 | None \<Rightarrow> s1)
          in (t\<lparr>tb_streams := (tb_streams t)(stream_id \<mapsto> s2)\<rparr>, v\<lparr>dv_growth_budget := budget\<rparr>))"

definition task_a_take :: "nanos \<Rightarrow> bool \<Rightarrow> stream_table \<Rightarrow> delivery \<Rightarrow> stream_table \<times> delivery" where
  "task_a_take now raced t v =
     (case (dv_raw_pending v, dv_raw v) of
        (None, (bs, reliable) # rest) \<Rightarrow>
          let v1 = v\<lparr>dv_raw := rest, dv_undelivered := dv_undelivered v - delivery_charge (length bs),
                     dv_raw_pending := Some bs\<rparr>
          in credit_stream now raced RAW_APP_STREAM_ID (length bs) reliable t v1
      | _ \<Rightarrow> (t, v))"

definition task_a_hand :: "delivery \<Rightarrow> delivery" where
  "task_a_hand v =
     (case dv_raw_pending v of
        None \<Rightarrow> v
      | Some bs \<Rightarrow>
          if mpsc_waits (dv_recv_channel v) then v
          else if \<not> ch_open (dv_recv_channel v) then v\<lparr>dv_raw_pending := None, dv_raw_open := False, dv_raw := []\<rparr>
          else v\<lparr>dv_raw_pending := None, dv_recv_channel := snd (mpsc_try_send bs (dv_recv_channel v))\<rparr>)"

definition task_b_take :: "nanos \<Rightarrow> bool \<Rightarrow> stream_table \<Rightarrow> delivery \<Rightarrow> stream_table \<times> delivery" where
  "task_b_take now raced t v =
     (case (dv_stream_pending v, dv_streams v) of
        (None, item # rest) \<Rightarrow>
          let v1 = v\<lparr>dv_streams := rest, dv_stream_pending := Some item\<rparr>
          in (case item of
                ItemData stream_id bs reliable \<Rightarrow>
                  credit_stream now raced stream_id (length bs) reliable t
                    (v1\<lparr>dv_undelivered := dv_undelivered v1 - delivery_charge (length bs)\<rparr>)
              | ItemClose stream_id \<Rightarrow> (t, v1\<lparr>dv_undelivered := dv_undelivered v1 - delivery_charge 0\<rparr>)
              | ItemRetire stream_id \<Rightarrow> (t, v1))
      | _ \<Rightarrow> (t, v))"

definition task_b_hand :: "stream_table \<Rightarrow> delivery \<Rightarrow> stream_table \<times> delivery" where
  "task_b_hand t v =
     (case dv_stream_pending v of
        None \<Rightarrow> (t, v)
      | Some (ItemData stream_id bs reliable) \<Rightarrow>
          (case route_data_async stream_id bs (tb_demux t) of
             (None, d) \<Rightarrow> (t, v)
           | (Some sent, d) \<Rightarrow> (t\<lparr>tb_demux := d\<rparr>, v\<lparr>dv_stream_pending := None\<rparr>))
      | Some (ItemClose stream_id) \<Rightarrow>
          (case route_close_async stream_id (tb_demux t) of
             (None, d) \<Rightarrow> (t, v)
           | (Some sent, d) \<Rightarrow> (t\<lparr>tb_demux := d\<rparr>, v\<lparr>dv_stream_pending := None\<rparr>))
      | Some (ItemRetire stream_id) \<Rightarrow>
          (t\<lparr>tb_demux := demux_close_stream stream_id (tb_demux t)\<rparr>, v\<lparr>dv_stream_pending := None\<rparr>))"

subsection \<open>The pipeline as a whole\<close>

text \<open>
  Steps of the reader (the first two), of the three tasks, and of the application
  reading from the session or from an opened stream, or dropping one of the two
  receiving ends. A step says which items the reader queued and what the application
  took out of which channel.
\<close>

datatype delivery_op =
    ReaderRun u32 "bytes list" | ReaderItem deliver_item | RouterTurn
  | TakeA nanos bool | HandA | TakeB nanos bool | HandB | AppRecv | AppGone | StreamRecv u32 | StreamGone u32

datatype taken = RawTaken bytes | StreamTaken u32 stream_message

definition item_len :: "deliver_item \<Rightarrow> nat" where
  "item_len item = (case item of ItemData _ bs _ \<Rightarrow> length bs | _ \<Rightarrow> 0)"

definition reader_item :: "deliver_item \<Rightarrow> delivery \<Rightarrow> delivery" where
  "reader_item item v =
     (case item of ItemRetire _ \<Rightarrow> snd (deliver_send item v) | _ \<Rightarrow> deliver_charged item (item_len item) v)"

definition queued_by :: "deliver_item list \<Rightarrow> delivery \<Rightarrow> deliver_item list" where
  "queued_by items v = (if dv_open v then items else [])"

definition on_route :: "u32 \<Rightarrow> (stream_message mpsc \<Rightarrow> stream_message mpsc) \<Rightarrow> stream_table \<Rightarrow> stream_table" where
  "on_route i f t = t\<lparr>tb_demux := (tb_demux t)\<lparr>dx_streams := (dx_streams (tb_demux t))(i :=
     map_option f (dx_streams (tb_demux t) i))\<rparr>\<rparr>"

definition route_queue :: "u32 \<Rightarrow> stream_table \<Rightarrow> stream_message list" where
  "route_queue i t = (case dx_streams (tb_demux t) i of Some c \<Rightarrow> ch_queue c | None \<Rightarrow> [])"

fun delivery_step ::
  "stream_table \<times> delivery \<Rightarrow> delivery_op \<Rightarrow> (deliver_item list \<times> taken list) \<times> stream_table \<times> delivery" where
  "delivery_step (t, v) (ReaderRun i chunks) =
     ((queued_by (map (\<lambda>c. ItemData i c True) (deliver_in_order_run chunks)) v, []), t, enqueue_run chunks i v)"
| "delivery_step (t, v) (ReaderItem item) = ((queued_by [item] v, []), t, reader_item item v)"
| "delivery_step (t, v) RouterTurn = (([], []), t, router_step v)"
| "delivery_step (t, v) (TakeA now raced) = (([], []), task_a_take now raced t v)"
| "delivery_step (t, v) HandA = (([], []), t, task_a_hand v)"
| "delivery_step (t, v) (TakeB now raced) = (([], []), task_b_take now raced t v)"
| "delivery_step (t, v) HandB = (([], []), task_b_hand t v)"
| "delivery_step (t, v) AppRecv =
     (([], map RawTaken (take 1 (ch_queue (dv_recv_channel v)))),
      t, v\<lparr>dv_recv_channel := (dv_recv_channel v)\<lparr>ch_queue := tl (ch_queue (dv_recv_channel v))\<rparr>\<rparr>)"
| "delivery_step (t, v) AppGone = (([], []), t, v\<lparr>dv_recv_channel := (dv_recv_channel v)\<lparr>ch_open := False\<rparr>\<rparr>)"
| "delivery_step (t, v) (StreamRecv i) =
     (([], map (StreamTaken i) (take 1 (route_queue i t))), on_route i (\<lambda>c. c\<lparr>ch_queue := tl (ch_queue c)\<rparr>) t, v)"
| "delivery_step (t, v) (StreamGone i) = (([], []), on_route i (\<lambda>c. c\<lparr>ch_open := False\<rparr>) t, v)"

text \<open>What is on its way: the charge of everything queued, and the items of each destination.\<close>

definition item_charge :: "deliver_item \<Rightarrow> nat" where
  "item_charge item = (case item of ItemData _ bs _ \<Rightarrow> 128 + length bs | ItemClose _ \<Rightarrow> 128 | ItemRetire _ \<Rightarrow> 0)"

definition backlog :: "delivery \<Rightarrow> nat" where
  "backlog v = sum_list (map item_charge (dv_router v)) + sum_list (map (\<lambda>r. 128 + length (fst r)) (dv_raw v))
     + sum_list (map item_charge (dv_streams v))"

fun item_stream :: "deliver_item \<Rightarrow> u32" where
  "item_stream (ItemData i _ _) = i"
| "item_stream (ItemClose i) = i"
| "item_stream (ItemRetire i) = i"

definition items_of :: "u32 \<Rightarrow> deliver_item list \<Rightarrow> deliver_item list" where
  "items_of i items = filter (\<lambda>item. item_stream item = i) items"

fun raw_bytes :: "deliver_item list \<Rightarrow> bytes list" where
  "raw_bytes [] = []"
| "raw_bytes (ItemData i bs r # items) = (if i \<le> RAW_APP_STREAM_ID then bs # raw_bytes items else raw_bytes items)"
| "raw_bytes (_ # items) = raw_bytes items"

text \<open>What an item is to the application, and what it took from a channel.\<close>

fun messages :: "deliver_item list \<Rightarrow> stream_message list" where
  "messages [] = []"
| "messages (ItemData i bs r # items) = MsgData bs # messages items"
| "messages (ItemClose i # items) = MsgClose # messages items"
| "messages (ItemRetire i # items) = messages items"

fun raw_taken :: "taken list \<Rightarrow> bytes list" where
  "raw_taken [] = []"
| "raw_taken (RawTaken bs # ts) = bs # raw_taken ts"
| "raw_taken (StreamTaken _ _ # ts) = raw_taken ts"

fun stream_taken :: "u32 \<Rightarrow> taken list \<Rightarrow> stream_message list" where
  "stream_taken i [] = []"
| "stream_taken i (RawTaken _ # ts) = stream_taken i ts"
| "stream_taken i (StreamTaken j m # ts) = (if j = i then m # stream_taken i ts else stream_taken i ts)"

text \<open>The stream has a route and the application holds its receiving end.\<close>

definition route_held :: "u32 \<Rightarrow> stream_table \<Rightarrow> bool" where
  "route_held i t = (case dx_streams (tb_demux t) i of Some c \<Rightarrow> ch_open c | None \<Rightarrow> False)"

definition stream_content :: "u32 \<Rightarrow> delivery \<Rightarrow> deliver_item list" where
  "stream_content i v =
     items_of i ((case dv_stream_pending v of Some item \<Rightarrow> [item] | None \<Rightarrow> []) @ dv_streams v @ dv_router v)"

definition raw_content :: "delivery \<Rightarrow> bytes list" where
  "raw_content v =
     (case dv_raw_pending v of Some bs \<Rightarrow> [bs] | None \<Rightarrow> []) @ map fst (dv_raw v) @ raw_bytes (dv_router v)"

lemma items_of_append [simp]: "items_of i (xs @ ys) = items_of i xs @ items_of i ys"
  by (simp add: items_of_def)

lemma items_of_simps [simp]:
  "items_of i [] = []" "items_of i (x # xs) = (if item_stream x = i then x # items_of i xs else items_of i xs)"
  by (simp_all add: items_of_def)

lemma raw_bytes_append [simp]: "raw_bytes (xs @ ys) = raw_bytes xs @ raw_bytes ys"
  by (induction xs rule: raw_bytes.induct) simp_all

lemma messages_append [simp]: "messages (xs @ ys) = messages xs @ messages ys"
  by (induction xs rule: messages.induct) simp_all

lemma raw_taken_append [simp]: "raw_taken (xs @ ys) = raw_taken xs @ raw_taken ys"
  by (induction xs rule: raw_taken.induct) simp_all

lemma stream_taken_append [simp]: "stream_taken i (xs @ ys) = stream_taken i xs @ stream_taken i ys"
  by (induction i xs rule: stream_taken.induct) simp_all

lemma raw_taken_maps [simp]: "raw_taken (map RawTaken xs) = xs" "stream_taken i (map RawTaken xs) = []"
  by (induction xs) simp_all

lemma stream_taken_maps [simp]:
  "raw_taken (map (StreamTaken j) ms) = []" "stream_taken i (map (StreamTaken j) ms) = (if j = i then ms else [])"
  by (induction ms) auto

lemma charge_word [simp]: "delivery_charge n = word_of_nat (128 + n)"
  by (simp add: delivery_charge_def)

lemma deliver_send_eq:
  "deliver_send item v = (dv_open v, if dv_open v then v\<lparr>dv_router := dv_router v @ [item]\<rparr> else v)"
  by (simp add: deliver_send_def)

lemma deliver_charged_eq:
  "deliver_charged item n v = (if dv_open v
     then v\<lparr>dv_router := dv_router v @ [item], dv_undelivered := dv_undelivered v + word_of_nat (128 + n)\<rparr> else v)"
  by (simp add: deliver_charged_def deliver_send_eq)

lemma enqueue_run_eq:
  "enqueue_run chunks i v = (if dv_open v
     then v\<lparr>dv_router := dv_router v @ map (\<lambda>c. ItemData i c True) (deliver_in_order_run chunks),
            dv_undelivered := dv_undelivered v + word_of_nat (sum_list (map (\<lambda>c. 128 + length c) (deliver_in_order_run chunks)))\<rparr>
     else v)"
  by (induction chunks arbitrary: v) (simp_all add: deliver_in_order_run_def deliver_charged_eq algebra_simps)

lemma credit_frame:
  "dv_router (snd (credit_stream now raced i n r t v)) = dv_router v"
  "dv_raw (snd (credit_stream now raced i n r t v)) = dv_raw v"
  "dv_streams (snd (credit_stream now raced i n r t v)) = dv_streams v"
  "dv_undelivered (snd (credit_stream now raced i n r t v)) = dv_undelivered v"
  "dv_raw_pending (snd (credit_stream now raced i n r t v)) = dv_raw_pending v"
  "dv_stream_pending (snd (credit_stream now raced i n r t v)) = dv_stream_pending v"
  "dv_raw_open (snd (credit_stream now raced i n r t v)) = dv_raw_open v"
  "dv_recv_channel (snd (credit_stream now raced i n r t v)) = dv_recv_channel v"
  by (simp_all add: credit_stream_def Let_def split_beta split: option.split)

text \<open>
  One step, as the items it queued and the messages the application took: the items of
  a destination move along in order, into its channel and from there to the application,
  and the counter follows the backlog as long as the session's receiving end is held.
\<close>

definition counted :: "delivery \<Rightarrow> bool" where
  "counted v \<longleftrightarrow> dv_undelivered v = word_of_nat (backlog v)"

definition stream_moves :: "u32 \<Rightarrow> stream_table \<times> delivery \<Rightarrow> deliver_item list \<times> taken list \<Rightarrow> stream_table \<times> delivery \<Rightarrow> bool" where
  "stream_moves i s io s' \<longleftrightarrow> (route_held i (fst s') \<longrightarrow> route_held i (fst s)
     \<and> route_queue i (fst s) @ messages (stream_content i (snd s) @ items_of i (fst io))
         = stream_taken i (snd io) @ route_queue i (fst s') @ messages (stream_content i (snd s')))"

definition raw_moves :: "delivery \<Rightarrow> deliver_item list \<times> taken list \<Rightarrow> delivery \<Rightarrow> bool" where
  "raw_moves v io v' \<longleftrightarrow> (dv_raw_open v' \<longrightarrow> dv_raw_open v
     \<and> ch_queue (dv_recv_channel v) @ raw_content v @ raw_bytes (fst io)
         = raw_taken (snd io) @ ch_queue (dv_recv_channel v') @ raw_content v'
     \<and> (counted v \<longrightarrow> counted v'))"

lemmas content_defs = stream_content_def raw_content_def counted_def backlog_def item_charge_def

lemma same_routes:
  "tb_demux t' = tb_demux t \<Longrightarrow> route_held i t' = route_held i t \<and> route_queue i t' = route_queue i t"
  by (simp add: route_held_def route_queue_def)

lemma stream_moves_content:
  assumes "tb_demux (fst s') = tb_demux (fst s)" "stream_content i (snd s') = stream_content i (snd s) @ items_of i items"
  shows "stream_moves i s (items, []) s'"
  using assms(2) same_routes[OF assms(1), of i] by (simp add: stream_moves_def)

lemma credit_demux: "tb_demux (fst (credit_stream now raced i n r t v)) = tb_demux t"
  by (simp add: credit_stream_def Let_def split_beta split: option.split)

subsubsection \<open>The reader, the router and the taking of an item\<close>

lemma reader_run_moves:
  "i > RAW_APP_STREAM_ID \<Longrightarrow> stream_moves i (t, v) (fst (delivery_step (t, v) (ReaderRun j chunks))) (snd (delivery_step (t, v) (ReaderRun j chunks)))"
  "raw_moves v (fst (delivery_step (t, v) (ReaderRun j chunks))) (snd (snd (delivery_step (t, v) (ReaderRun j chunks))))"
proof -
  have raw: "raw_bytes (map (\<lambda>c. ItemData j c True) cs) = (if j \<le> RAW_APP_STREAM_ID then cs else [])" for cs
    by (induction cs) simp_all
  show "raw_moves v (fst (delivery_step (t, v) (ReaderRun j chunks))) (snd (snd (delivery_step (t, v) (ReaderRun j chunks))))"
    by (simp add: raw_moves_def enqueue_run_eq queued_by_def content_defs o_def raw algebra_simps)
  show "stream_moves i (t, v) (fst (delivery_step (t, v) (ReaderRun j chunks))) (snd (delivery_step (t, v) (ReaderRun j chunks)))"
    unfolding delivery_step.simps fst_conv snd_conv
    by (rule stream_moves_content) (simp_all add: enqueue_run_eq queued_by_def stream_content_def)
qed

lemma reader_item_moves:
  "stream_moves i (t, v) (queued_by [item] v, []) (t, reader_item item v)"
  "raw_moves v (queued_by [item] v, []) (reader_item item v)"
  by (rule stream_moves_content; cases item; simp add: reader_item_def deliver_charged_eq deliver_send_eq queued_by_def content_defs; fail)
    (cases item; simp add: raw_moves_def reader_item_def deliver_charged_eq deliver_send_eq queued_by_def item_len_def
      content_defs algebra_simps)

lemma router_moves:
  "i > RAW_APP_STREAM_ID \<Longrightarrow> stream_moves i (t, v) ([], []) (t, router_step v)" "raw_moves v ([], []) (router_step v)"
proof -
  have "(i > RAW_APP_STREAM_ID \<longrightarrow> stream_content i (router_step v) = stream_content i v) \<and> raw_moves v ([], []) (router_step v)"
  proof (cases "dv_router v")
    case Nil
    then show ?thesis by (simp add: router_step_def raw_moves_def)
  next
    case (Cons item rest)
    then show ?thesis
      by (cases item) (auto simp: raw_moves_def router_step_def content_defs algebra_simps Let_def)
  qed
  then show "i > RAW_APP_STREAM_ID \<Longrightarrow> stream_moves i (t, v) ([], []) (t, router_step v)" "raw_moves v ([], []) (router_step v)"
    by (auto intro: stream_moves_content)
qed

lemma task_a_take_moves:
  "stream_moves i (t, v) ([], []) (task_a_take now raced t v)" "raw_moves v ([], []) (snd (task_a_take now raced t v))"
proof -
  have "tb_demux (fst (task_a_take now raced t v)) = tb_demux t
    \<and> stream_content i (snd (task_a_take now raced t v)) = stream_content i v \<and> raw_moves v ([], []) (snd (task_a_take now raced t v))"
  proof (cases "dv_raw_pending v = None \<and> dv_raw v \<noteq> []")
    case True
    then obtain bs r rest where "dv_raw v = (bs, r) # rest" by (cases "dv_raw v") auto
    then show ?thesis using True
      by (simp add: raw_moves_def task_a_take_def Let_def content_defs credit_frame credit_demux algebra_simps)
  next
    case False
    then have "task_a_take now raced t v = (t, v)"
      by (cases "dv_raw v") (auto simp: task_a_take_def split: option.split)
    then show ?thesis by (simp add: raw_moves_def)
  qed
  then show "stream_moves i (t, v) ([], []) (task_a_take now raced t v)" "raw_moves v ([], []) (snd (task_a_take now raced t v))"
    by (auto intro: stream_moves_content)
qed

lemma task_b_take_moves:
  "stream_moves i (t, v) ([], []) (task_b_take now raced t v)" "raw_moves v ([], []) (snd (task_b_take now raced t v))"
proof -
  have "tb_demux (fst (task_b_take now raced t v)) = tb_demux t
    \<and> stream_content i (snd (task_b_take now raced t v)) = stream_content i v \<and> raw_moves v ([], []) (snd (task_b_take now raced t v))"
  proof (cases "dv_stream_pending v = None \<and> dv_streams v \<noteq> []")
    case True
    then obtain item rest where "dv_streams v = item # rest" by (cases "dv_streams v") auto
    then show ?thesis using True
      by (cases item) (simp_all add: raw_moves_def task_b_take_def Let_def content_defs credit_frame credit_demux algebra_simps)
  next
    case False
    then have "task_b_take now raced t v = (t, v)"
      by (cases "dv_streams v") (auto simp: task_b_take_def split: option.split)
    then show ?thesis by (simp add: raw_moves_def)
  qed
  then show "stream_moves i (t, v) ([], []) (task_b_take now raced t v)" "raw_moves v ([], []) (snd (task_b_take now raced t v))"
    by (auto intro: stream_moves_content)
qed

subsubsection \<open>Handing over\<close>

lemma task_a_hand_moves: "stream_moves i (t, v) ([], []) (t, task_a_hand v)" "raw_moves v ([], []) (task_a_hand v)"
proof -
  have "stream_content i (task_a_hand v) = stream_content i v"
    by (cases "dv_raw_pending v") (simp_all add: task_a_hand_def stream_content_def)
  then show "stream_moves i (t, v) ([], []) (t, task_a_hand v)" by (intro stream_moves_content) simp_all
  show "raw_moves v ([], []) (task_a_hand v)"
    by (cases "dv_raw_pending v")
      (simp_all add: raw_moves_def task_a_hand_def content_defs Let_def mpsc_waits_def mpsc_try_send_def)
qed

text \<open>What a send that may wait does to the routes: it waits, or puts the message where its receiving end is held.\<close>

lemma route_message_moves:
  assumes "route_message j m d = (sent, d')"
  defines "w \<equiv> (case dx_streams d j of Some c \<Rightarrow> mpsc_waits c | None \<Rightarrow> False)"
  shows "\<not> w \<Longrightarrow> route_held i (t\<lparr>tb_demux := d'\<rparr>) = route_held i (t\<lparr>tb_demux := d\<rparr>)"
    and "\<not> w \<Longrightarrow> route_held i (t\<lparr>tb_demux := d\<rparr>) \<Longrightarrow>
      route_queue i (t\<lparr>tb_demux := d'\<rparr>) = route_queue i (t\<lparr>tb_demux := d\<rparr>) @ (if j = i then [m] else [])"
  using assms
  by (auto simp: route_message_def route_held_def route_queue_def mpsc_waits_def mpsc_try_send_def Let_def
      split: option.splits if_splits)

lemma hand_message:
  assumes p: "dv_stream_pending v = Some item" "messages [item] = [m]"
    and r: "route_message (item_stream item) m (tb_demux t) = (sent, d')"
      "\<not> (case dx_streams (tb_demux t) (item_stream item) of Some c \<Rightarrow> mpsc_waits c | None \<Rightarrow> False)"
  shows "stream_moves i (t, v) ([], []) (t\<lparr>tb_demux := d'\<rparr>, v\<lparr>dv_stream_pending := None\<rparr>)"
proof -
  have "messages (item # xs) = m # messages xs" for xs using messages_append[of "[item]" xs] p(2) by simp
  then show ?thesis using route_message_moves[OF r(1), of i t] r(2) p(1)
    by (auto simp: stream_moves_def stream_content_def)
qed

lemma task_b_hand_moves:
  assumes i: "i > RAW_APP_STREAM_ID"
  shows "stream_moves i (t, v) ([], []) (task_b_hand t v)"
proof (cases "dv_stream_pending v")
  case None
  then show ?thesis by (simp add: task_b_hand_def stream_moves_def)
next
  case (Some item)
  show ?thesis
  proof (cases item)
    case (ItemData j bs r)
    let ?w = "case dx_streams (tb_demux t) j of Some c \<Rightarrow> mpsc_waits c | None \<Rightarrow> False"
    obtain sent d' where m: "route_message j (MsgData bs) (tb_demux t) = (sent, d')" by (rule prod.exhaust)
    show ?thesis
    proof (cases "j = 0")
      case True
      then show ?thesis using Some ItemData i
        by (auto simp: task_b_hand_def route_data_async_def route_data_def stream_moves_def stream_content_def
            route_held_def route_queue_def Let_def split: prod.splits)
    next
      case False
      then show ?thesis using hand_message[OF Some, of "MsgData bs" t sent d' i] Some ItemData m
        by (cases ?w) (simp_all add: task_b_hand_def route_data_async_def route_data_def stream_moves_def[of i "(t, v)" "([], [])" "(t, v)"])
    qed
  next
    case (ItemClose j)
    let ?w = "case dx_streams (tb_demux t) j of Some c \<Rightarrow> mpsc_waits c | None \<Rightarrow> False"
    obtain sent d' where m: "route_message j MsgClose (tb_demux t) = (sent, d')" by (rule prod.exhaust)
    show ?thesis
    proof (cases "j = 0")
      case True
      then show ?thesis using Some ItemClose i
        by (auto simp: task_b_hand_def route_close_async_def route_close_def stream_moves_def stream_content_def
            route_held_def route_queue_def)
    next
      case False
      then show ?thesis using hand_message[OF Some, of MsgClose t sent d' i] Some ItemClose m
        by (cases ?w) (simp_all add: task_b_hand_def route_close_async_def route_close_def stream_moves_def[of i "(t, v)" "([], [])" "(t, v)"])
    qed
  next
    case (ItemRetire j)
    then show ?thesis using Some
      by (auto simp: task_b_hand_def stream_moves_def stream_content_def route_held_def route_queue_def demux_close_stream_def)
  qed
qed

lemma task_b_hand_raw: "raw_moves v ([], []) (snd (task_b_hand t v))"
proof -
  have "snd (task_b_hand t v) = v \<or> snd (task_b_hand t v) = v\<lparr>dv_stream_pending := None\<rparr>"
    by (auto simp: task_b_hand_def split: option.splits deliver_item.splits prod.splits)
  then show ?thesis by (auto simp: raw_moves_def content_defs)
qed

subsubsection \<open>The application\<close>

lemma take_tl: "take 1 xs @ tl xs = xs"
  by (cases xs) simp_all

lemma stream_recv_moves:
  "stream_moves i (t, v) (fst (delivery_step (t, v) (StreamRecv j))) (snd (delivery_step (t, v) (StreamRecv j)))"
proof (cases "dx_streams (tb_demux t) j")
  case (Some c)
  then show ?thesis using take_tl[of "ch_queue c"]
    by (simp add: stream_moves_def on_route_def route_held_def route_queue_def del: One_nat_def)
qed (simp add: stream_moves_def on_route_def route_held_def route_queue_def)

lemma app_recv_moves: "raw_moves v (fst (delivery_step (t, v) AppRecv)) (snd (snd (delivery_step (t, v) AppRecv)))"
proof -
  have "ch_queue (dv_recv_channel v) = take 1 (ch_queue (dv_recv_channel v)) @ tl (ch_queue (dv_recv_channel v))"
    by (rule take_tl[symmetric])
  then show ?thesis by (simp add: raw_moves_def content_defs del: One_nat_def)
qed

lemma stream_gone_moves: "stream_moves i (t, v) ([], []) (on_route j (\<lambda>c. c\<lparr>ch_open := False\<rparr>) t, v)"
  by (cases "dx_streams (tb_demux t) j") (simp_all add: stream_moves_def on_route_def route_held_def route_queue_def)

subsubsection \<open>Any run\<close>

lemma delivery_step_stream:
  assumes i: "i > RAW_APP_STREAM_ID"
  shows "stream_moves i (t, v) (fst (delivery_step (t, v) op)) (snd (delivery_step (t, v) op))"
proof (cases op)
  case (ReaderRun j chunks)
  then show ?thesis using reader_run_moves(1)[OF i] by blast
next
  case (StreamRecv j)
  then show ?thesis using stream_recv_moves by blast
next
  case AppRecv
  then show ?thesis by (simp add: stream_moves_def stream_content_def)
next
  case AppGone
  then show ?thesis by (simp add: stream_moves_def stream_content_def)
qed (simp_all add: reader_item_moves(1) router_moves(1)[OF i] task_a_take_moves(1) task_a_hand_moves(1)
    task_b_take_moves(1) task_b_hand_moves[OF i] stream_gone_moves)

lemma delivery_step_raw: "raw_moves v (fst (delivery_step (t, v) op)) (snd (snd (delivery_step (t, v) op)))"
proof (cases op)
  case (ReaderRun j chunks)
  then show ?thesis using reader_run_moves(2) by blast
next
  case AppRecv
  then show ?thesis using app_recv_moves by blast
next
  case AppGone
  then show ?thesis by (simp add: raw_moves_def content_defs)
next
  case (StreamRecv j)
  then show ?thesis by (simp add: raw_moves_def)
next
  case (StreamGone j)
  then show ?thesis by (simp add: raw_moves_def)
qed (simp_all add: reader_item_moves(2) router_moves(2) task_a_take_moves(2) task_a_hand_moves(2)
    task_b_take_moves(2) task_b_hand_raw)

lemma run_pairs:
  "concat (map fst (fst (run delivery_step s (op # ops)))) = fst (fst (delivery_step s op)) @ concat (map fst (fst (run delivery_step (snd (delivery_step s op)) ops)))"
  "concat (map snd (fst (run delivery_step s (op # ops)))) = snd (fst (delivery_step s op)) @ concat (map snd (fst (run delivery_step (snd (delivery_step s op)) ops)))"
  "snd (run delivery_step s (op # ops)) = snd (run delivery_step (snd (delivery_step s op)) ops)"
  by (simp_all add: Let_def split_beta)

lemma stream_moves_trans:
  "stream_moves i a x b \<Longrightarrow> stream_moves i b y c \<Longrightarrow> stream_moves i a (fst x @ fst y, snd x @ snd y) c"
  unfolding stream_moves_def by (simp only: fst_conv snd_conv items_of_append messages_append stream_taken_append) (metis append.assoc)

lemma raw_moves_trans: "raw_moves a x b \<Longrightarrow> raw_moves b y c \<Longrightarrow> raw_moves a (fst x @ fst y, snd x @ snd y) c"
  unfolding raw_moves_def by (simp only: fst_conv snd_conv raw_bytes_append raw_taken_append) (metis append.assoc)

lemma run_stream_moves:
  assumes i: "i > RAW_APP_STREAM_ID"
  shows "stream_moves i s (concat (map fst (fst (run delivery_step s ops))), concat (map snd (fst (run delivery_step s ops))))
    (snd (run delivery_step s ops))"
proof (induction ops arbitrary: s)
  case Nil
  show ?case by (simp add: stream_moves_def)
next
  case (Cons op ops)
  show ?case using stream_moves_trans[OF delivery_step_stream[OF i, of "fst s" "snd s" op] Cons[of "snd (delivery_step (fst s, snd s) op)"]]
    unfolding run_pairs prod.collapse fst_conv snd_conv .
qed

lemma run_raw_moves:
  "raw_moves (snd s) (concat (map fst (fst (run delivery_step s ops))), concat (map snd (fst (run delivery_step s ops))))
    (snd (snd (run delivery_step s ops)))"
proof (induction ops arbitrary: s)
  case Nil
  show ?case by (simp add: raw_moves_def)
next
  case (Cons op ops)
  show ?case using raw_moves_trans[OF delivery_step_raw[of "snd s" "fst s" op] Cons[of "snd (delivery_step (fst s, snd s) op)"]]
    unfolding run_pairs prod.collapse fst_conv snd_conv .
qed

subsection \<open>Properties\<close>

text \<open>
  C30. The delivery pipeline neither loses, duplicates nor reorders, and its backlog
  counter is exact. Over any interleaving of the reader, the router, the two delivery
  tasks and the application, from any state of the pipeline and its channels: as long as
  a stream keeps its route and the application holds its receiving end, what the
  application took from the stream's channel, what is still in that channel and what is
  still on the way are together, in order, what was in the channel and on the way before,
  followed by what the reader queued since (data, then the end of the stream). As long as
  the application holds the receiving end of the session the same is true of the raw-app
  data, and the counter the flooding check reads remains the exact charge of what is
  queued. (An item whose stream has no route, or whose receiving end is gone, is discarded.)
\<close>

theorem delivery_pipeline_exact:
  "let (io, t', v') = run delivery_step (t, v) ops;
       queued = concat (map fst io); taken = concat (map snd io)
   in (\<forall>i. i > RAW_APP_STREAM_ID \<and> route_held i t' \<longrightarrow> route_held i t
        \<and> route_queue i t @ messages (stream_content i v) @ messages (items_of i queued)
            = stream_taken i taken @ route_queue i t' @ messages (stream_content i v'))
    \<and> (dv_raw_open v' \<longrightarrow>
          ch_queue (dv_recv_channel v) @ raw_content v @ raw_bytes queued
            = raw_taken taken @ ch_queue (dv_recv_channel v') @ raw_content v'
        \<and> (dv_undelivered v = word_of_nat (backlog v) \<longrightarrow> dv_undelivered v' = word_of_nat (backlog v')))"
  using run_stream_moves[of _ "(t, v)" ops] run_raw_moves[of "(t, v)" ops]
  by (simp add: Let_def split_beta stream_moves_def raw_moves_def counted_def)

text \<open>A stream with a route is given two frames and its end; the application has read the first frame.\<close>

abbreviation demo_routes :: stream_table where
  "demo_routes \<equiv> (table_new 4 True)\<lparr>tb_demux := register_stream 2 8 (tb_demux (table_new 4 True))\<rparr>"

abbreviation demo_deliveries :: "delivery_op list" where
  "demo_deliveries \<equiv> [ReaderRun 2 [[7], [], [8]], ReaderItem (ItemClose 2), RouterTurn, RouterTurn, TakeB 0 False, HandB,
     StreamRecv 2, TakeB 0 False, HandB, ReaderRun 1 [[5]]]"

theorem delivery_pipeline_exact_witness:
  "let (io, t', v') = run delivery_step (demo_routes, delivery_new) demo_deliveries
   in stream_taken 2 (concat (map snd io)) = [MsgData [7]] \<and> route_queue 2 t' = [MsgData [8]]
    \<and> stream_taken 2 (concat (map snd io)) @ route_queue 2 t' @ messages (stream_content 2 v') = [MsgData [7], MsgData [8], MsgClose]
    \<and> dv_undelivered v' = 257"
proof -
  let ?r = "run delivery_step (demo_routes, delivery_new) demo_deliveries"
  have two: "\<not> (2 :: u32) \<le> 1" "(1 :: u32) < 2" by code_simp+
  have small: "tb_streams (table_new 4 True) 2 = None" "dx_streams (tb_demux (table_new 4 True)) 2 = None"
    by (simp_all add: table_new_def demux_new_with_role_def)
  have eval: "concat (map fst (fst ?r)) = [ItemData 2 [7] True, ItemData 2 [8] True, ItemClose 2, ItemData 1 [5] True]"
    "concat (map snd (fst ?r)) = [StreamTaken 2 (MsgData [7])]" "route_queue 2 (fst (snd ?r)) = [MsgData [8]]"
    "route_held 2 (fst (snd ?r))" "dv_raw_open (snd (snd ?r))" "backlog (snd (snd ?r)) = 257"
    by (simp_all add: delivery_new_def enqueue_run_eq queued_by_def deliver_in_order_run_def reader_item_def deliver_charged_eq
        item_len_def router_step_def task_b_take_def credit_stream_def small task_b_hand_def register_stream_def mpsc_channel_def
        mpsc_waits_def mpsc_try_send_def route_queue_def route_held_def on_route_def
        route_data_async_def route_data_def route_message_def backlog_def item_charge_def Let_def two)
  have start: "stream_content 2 delivery_new = []" "route_queue 2 demo_routes = []" "dv_undelivered delivery_new = 0" "backlog delivery_new = 0"
    by (simp_all add: stream_content_def delivery_new_def backlog_def route_queue_def register_stream_def mpsc_channel_def)
  obtain io t' v' where r: "?r = (io, t', v')" by (metis prod.exhaust)
  note t = delivery_pipeline_exact[of demo_routes delivery_new demo_deliveries, unfolded r prod.case Let_def]
  have "messages (items_of 2 (concat (map fst io))) = stream_taken 2 (concat (map snd io)) @ route_queue 2 t' @ messages (stream_content 2 v')"
    using conjunct1[OF t, THEN spec, of 2] eval(4) two(2) start(1,2) unfolding r fst_conv snd_conv by simp
  moreover have "dv_undelivered v' = word_of_nat (backlog v')"
    using conjunct2[OF t] eval(5) start(3,4) unfolding r fst_conv snd_conv by simp
  ultimately show ?thesis using eval unfolding r prod.case Let_def fst_conv snd_conv by simp
qed

end
