(* ===== verification/Packet_Dispatch.thy ===== *)
theory Packet_Dispatch
  imports Control_Frames Delivery Reliable_Delivery
begin

text \<open>
  The receive side of a session (\<open>api/session.rs\<close>): \<open>handle_packet\<close> with one
  definition per branch, in the order the code tests them, and the turn of the reader
  task around it. An endpoint is the transport session, the stream table, the delivery
  pipeline and the reader's own bookkeeping. What the handler asks of its surroundings
  is an argument (the clock, the transport's answers, the fresh challenge, the room in
  the channel of incoming streams); what it does to them is a list of actions, in order.
\<close>

subsection \<open>State, inputs and actions\<close>

record endpoint =
  ep_session :: session
  ep_table :: stream_table
  ep_delivery :: delivery
  ep_challenges :: "u8 \<rightharpoonup> nanos"
  ep_last_peer_path :: u8

record packet_env =
  pe_now :: nanos
  pe_now_sack :: nanos
  pe_sent :: bool
  pe_grant_sent :: bool
  pe_candidate :: bool
  pe_promotes :: bool
  pe_challenge :: bytes

datatype action =
    SendBytes bytes | SendToCandidate bytes | SetOutboundCid bytes | SlideCids cid_slide | ConfirmSource
  | FeedAck retired_segment u32 u8 | ResetCongestion | NotifyOutbound | Incoming u32 | PublishDraining

definition sent_bytes :: "bytes option \<Rightarrow> action list" where
  "sent_bytes r = (case r of Some w \<Rightarrow> [SendBytes w] | None \<Rightarrow> [])"

subsection \<open>Outstanding challenges\<close>

definition challenge_start :: "nanos \<Rightarrow> u8 \<Rightarrow> (u8 \<rightharpoonup> nanos) \<Rightarrow> (u8 \<rightharpoonup> nanos)" where
  "challenge_start now path_id started = started(path_id \<mapsto> now)"

definition challenge_resolve :: "u8 \<Rightarrow> (u8 \<rightharpoonup> nanos) \<Rightarrow> nanos option \<times> (u8 \<rightharpoonup> nanos)" where
  "challenge_resolve path_id started = (started path_id, started(path_id := None))"

definition challenge_expire :: "nanos \<Rightarrow> nanos \<Rightarrow> (u8 \<rightharpoonup> nanos) \<Rightarrow> (u8 \<rightharpoonup> nanos)" where
  "challenge_expire now timeout started =
     (\<lambda>p. case started p of Some at \<Rightarrow> if now - at > timeout then None else Some at | None \<Rightarrow> None)"

definition path_validation_timeout :: "nanos \<Rightarrow> session \<Rightarrow> nanos" where
  "path_validation_timeout rtt s =
     (let cfg = s_liveness_config s; pto = max (lc_min_pto cfg) (duration_mul rtt 3)
      in duration_mul pto (max (unat (lc_path_down_ptos cfg)) 1))"

definition sweep_path_validation_timeouts :: "nanos \<Rightarrow> nanos \<Rightarrow> endpoint \<Rightarrow> endpoint" where
  "sweep_path_validation_timeouts now rtt e =
     e\<lparr>ep_challenges := challenge_expire now (path_validation_timeout rtt (ep_session e)) (ep_challenges e)\<rparr>"

subsection \<open>Opening a packet\<close>

definition open_packet :: "crypto_lib \<Rightarrow> phantom_packet \<Rightarrow> session \<Rightarrow> bytes option \<times> session" where
  "open_packet L packet s =
     (if flags_contains (hdr_flags (pkt_header packet)) F_ENCRYPTED
      then case decrypt_packet_accepting_rekey L (pkt_header packet) (pkt_payload packet) (pkt_extensions packet) s of
             (Inl e, s1) \<Rightarrow> (None, s1)
           | (Inr pt, s1) \<Rightarrow>
               (case unshape_plaintext (flags_contains (hdr_flags (pkt_header packet)) F_PADDED) pt of
                  Inl e \<Rightarrow> (None, s1)
                | Inr inner \<Rightarrow> (Some inner, s1))
      else (None, s))"

definition apply_eps02_peer_migration_rotation :: "crypto_lib \<Rightarrow> session \<Rightarrow> bytes \<times> session" where
  "apply_eps02_peer_migration_rotation L s =
     (if s_is_server s then advance_outbound_cid L s
      else let (_, s1) = next_migration_path_id s in advance_outbound_cid L s1)"

definition note_authenticated :: "crypto_lib \<Rightarrow> nanos \<Rightarrow> u8 \<Rightarrow> endpoint \<Rightarrow> action list \<times> endpoint" where
  "note_authenticated L now path_id e =
     (case note_migration_path L path_id (update_activity now (ep_session e)) of
        (None, s1) \<Rightarrow> ([ConfirmSource], e\<lparr>ep_session := s1\<rparr>)
      | (Some slide, s1) \<Rightarrow>
          let (cid, s2) = apply_eps02_peer_migration_rotation L s1
          in ([ConfirmSource, SlideCids slide, SetOutboundCid cid], e\<lparr>ep_session := s2, ep_last_peer_path := path_id\<rparr>))"

subsection \<open>Control frames\<close>

definition on_keepalive :: "crypto_lib \<Rightarrow> packet_env \<Rightarrow> packet_flags \<Rightarrow> endpoint \<Rightarrow> action list \<times> endpoint" where
  "on_keepalive L env fl e =
     (if \<not> flags_contains fl F_ACK
      then let (r, s1) = send_keepalive L (pe_sent env) True (ep_session e) in (sent_bytes r, e\<lparr>ep_session := s1\<rparr>)
      else ([], e))"

definition on_control :: "bytes \<Rightarrow> endpoint \<Rightarrow> endpoint" where
  "on_control plaintext e =
     (if length plaintext < CONTROL_SUBTYPE_LEN then e
      else if plaintext ! 0 = CONTROL_CLOSE then e\<lparr>ep_session := note_peer_closed (ep_session e)\<rparr>
      else e)"

definition on_window_update :: "u32 \<Rightarrow> bytes \<Rightarrow> endpoint \<Rightarrow> action list \<times> endpoint" where
  "on_window_update stream_id plaintext e =
     (if length plaintext \<noteq> WINDOW_UPDATE_PAYLOAD_LEN then ([], e)
      else let limit = (from_be_bytes plaintext :: u64); t = ep_table e
           in case tb_streams t stream_id of
                None \<Rightarrow> ([], e)
              | Some s \<Rightarrow> ([NotifyOutbound],
                  e\<lparr>ep_table := t\<lparr>tb_streams := (tb_streams t)(stream_id \<mapsto> apply_peer_window_limit limit s)\<rparr>\<rparr>))"

definition set_stream :: "u32 \<Rightarrow> stream \<Rightarrow> endpoint \<Rightarrow> endpoint" where
  "set_stream stream_id s e = e\<lparr>ep_table := (ep_table e)\<lparr>tb_streams := (tb_streams (ep_table e))(stream_id \<mapsto> s)\<rparr>\<rparr>"

definition retire_if_retirable :: "u32 \<Rightarrow> stream \<Rightarrow> endpoint \<Rightarrow> endpoint" where
  "retire_if_retirable stream_id s e =
     (if is_retirable s
      then let (t, v) = retire_stream stream_id (ep_table e) (ep_delivery e) in e\<lparr>ep_table := t, ep_delivery := v\<rparr>
      else e)"

definition on_ack :: "packet_env \<Rightarrow> packet_flags \<Rightarrow> u32 \<Rightarrow> u8 \<Rightarrow> bytes \<Rightarrow> endpoint \<Rightarrow> action list \<times> endpoint" where
  "on_ack env fl stream_id path_id plaintext e =
     (case sack_from_wire plaintext of
        Inl err \<Rightarrow> ([], e)
      | Inr sack \<Rightarrow>
          (case tb_streams (ep_table e) stream_id of
             None \<Rightarrow> ([], e)
           | Some s \<Rightarrow>
               let (result, s1) = on_sack (pe_now env) sack s;
                   fed = map (\<lambda>r. FeedAck r (ack_delay_us sack) path_id) (filter (\<lambda>r. rs_sent_at r \<noteq> None) (sr_retired result));
                   woken = (if sr_lost result \<noteq> [] \<or> sr_retired result \<noteq> [] then [NotifyOutbound] else []);
                   (s2, v) = (if flags_contains fl F_FIN then take_unordered_remote_fin stream_id s1 (ep_delivery e)
                              else (s1, ep_delivery e))
               in (fed @ woken, retire_if_retirable stream_id s2 (set_stream stream_id s2 (e\<lparr>ep_delivery := v\<rparr>)))))"

definition on_path_validation ::
  "crypto_lib \<Rightarrow> packet_env \<Rightarrow> u8 \<Rightarrow> bytes \<Rightarrow> endpoint \<Rightarrow> action list \<times> endpoint" where
  "on_path_validation L env path_id plaintext e =
     (if length plaintext \<noteq> PATH_CHALLENGE_LEN then ([], e)
      else let s = ep_session e in
        case registry_state path_id (s_path_registry s) of
          Some Validating \<Rightarrow>
            let (validated, reg) = complete_path_validation path_id plaintext (s_path_registry s);
                e1 = e\<lparr>ep_session := s\<lparr>s_path_registry := reg\<rparr>, ep_challenges := snd (challenge_resolve path_id (ep_challenges e))\<rparr>
            in if validated \<and> pe_promotes env
               then let t = ep_table e1;
                        e2 = e1\<lparr>ep_table := t\<lparr>tb_streams := (\<lambda>i. map_option reset_rto (tb_streams t i))\<rparr>\<rparr>
                    in ([ResetCongestion],
                        if path_id = REBIND_VALIDATION_PATH_ID
                        then e2\<lparr>ep_session := (ep_session e2)\<lparr>s_path_registry := retire_path path_id (s_path_registry (ep_session e2))\<rparr>\<rparr>
                        else e2)
               else ([], e1)
        | Some Validated \<Rightarrow> ([], e)
        | Some Failed \<Rightarrow> ([], e)
        | _ \<Rightarrow>
            let (r, s1) = send_path_validation L (pe_sent env) path_id plaintext s
            in (sent_bytes r, e\<lparr>ep_session := s1\<rparr>))"

subsection \<open>The path gate\<close>

definition challenge_candidate :: "crypto_lib \<Rightarrow> packet_env \<Rightarrow> u8 \<Rightarrow> endpoint \<Rightarrow> action list \<times> endpoint" where
  "challenge_candidate L env path_id e =
     (let s = ep_session e; (issued, reg) = begin_path_validation (pe_challenge env) path_id (s_path_registry s);
          s1 = s\<lparr>s_path_registry := reg\<rparr>
      in case issued of
           None \<Rightarrow> ([], e\<lparr>ep_session := s1\<rparr>)
         | Some challenge \<Rightarrow>
             let (r, s2) = encrypt_path_validation L path_id challenge s1
             in (case r of Some w \<Rightarrow> [SendToCandidate w] | None \<Rightarrow> [],
                 e\<lparr>ep_session := s2, ep_challenges := challenge_start (pe_now env) path_id (ep_challenges e)\<rparr>))"

definition path_gate :: "crypto_lib \<Rightarrow> packet_env \<Rightarrow> u8 \<Rightarrow> endpoint \<Rightarrow> action list \<times> endpoint" where
  "path_gate L env path_id e =
     (let s = ep_session e in
      if registry_state path_id (s_path_registry s) \<noteq> Some Validated
      then if pe_candidate env then challenge_candidate L env path_id e
           else ([], e\<lparr>ep_session := s\<lparr>s_path_registry := register_unvalidated_path path_id (s_path_registry s)\<rparr>\<rparr>)
      else if pe_candidate env then challenge_candidate L env REBIND_VALIDATION_PATH_ID e
      else ([], e))"

subsection \<open>Application data\<close>

definition on_coalesced :: "phantom_packet \<Rightarrow> u32 \<Rightarrow> bytes \<Rightarrow> endpoint \<Rightarrow> endpoint" where
  "on_coalesced packet stream_id plaintext e =
     (case unwrap_coalesced_packet \<lparr>pkt_header = pkt_header packet, pkt_payload = plaintext, pkt_extensions = []\<rparr> of
        Inr (Some subs) \<Rightarrow> e\<lparr>ep_delivery := enqueue_run (filter (\<lambda>s. s \<noteq> []) subs) stream_id (ep_delivery e)\<rparr>
      | Inr None \<Rightarrow> e
      | Inl err \<Rightarrow> e)"

abbreviation MAX_RECV_RELIABLE_CHUNK :: u64 where
  "MAX_RECV_RELIABLE_CHUNK \<equiv> word_of_nat (MAX_RECV_PAYLOAD - RELIABLE_OFFSET_LEN)"
abbreviation RELEASED_GRANT_STRIDE :: u32 where "RELEASED_GRANT_STRIDE \<equiv> 16"

definition released_stream_grant :: "u32 \<Rightarrow> bool \<Rightarrow> bool \<Rightarrow> u64 option" where
  "released_stream_grant stream_offset is_persist_probe fin =
     (if fin \<or> (\<not> is_persist_probe \<and> stream_offset mod RELEASED_GRANT_STRIDE \<noteq> 0) then None
      else Some (sat_add (sat_mul (ucast stream_offset + 1) MAX_RECV_RELIABLE_CHUNK) (ucast MAX_RECV_WINDOW)))"

text \<open>The answer for a stream that is gone: an acknowledgement up to the offset, and room to go on.\<close>

definition answer_retired ::
  "crypto_lib \<Rightarrow> packet_env \<Rightarrow> u32 \<Rightarrow> u8 \<Rightarrow> u32 \<Rightarrow> bool \<Rightarrow> bool \<Rightarrow> session \<Rightarrow> action list \<times> session" where
  "answer_retired L env stream_id path_id stream_offset is_persist_probe fin s =
     (let (acked, s1) =
            (case from_inclusive_ranges [(0, stream_offset)] 0 of
               None \<Rightarrow> ([], s)
             | Some sack \<Rightarrow>
                 let ((_, r), s1) = send_stream_sack L (pe_sent env) sack (ucast stream_id) path_id s in (sent_bytes r, s1))
      in case released_stream_grant stream_offset is_persist_probe fin of
           None \<Rightarrow> (acked, s1)
         | Some limit \<Rightarrow>
             let (r, s2) = send_window_update L (pe_grant_sent env) (ucast stream_id) limit s1
             in (acked @ sent_bytes r, s2))"

definition deliver_reliable ::
  "crypto_lib \<Rightarrow> packet_env \<Rightarrow> bool \<Rightarrow> u32 \<Rightarrow> u8 \<Rightarrow> u32 \<Rightarrow> bytes \<Rightarrow> stream \<Rightarrow> endpoint \<Rightarrow> action list \<times> endpoint" where
  "deliver_reliable L env fin stream_id path_id stream_offset data local e =
     (let is_persist_probe = (data = [] \<and> \<not> fin);
          (delivered, s1) = accept_in_order (pe_now env) stream_offset [data] local;
          e1 = set_stream stream_id s1 e
      in case received_sack (pe_now_sack env) 0 s1 of
           None \<Rightarrow> ([], e1)
         | Some sack \<Rightarrow>
             let ((sealed, r), ses) = send_stream_sack L (pe_sent env) sack (ucast stream_id) path_id (ep_session e1);
                 e2 = e1\<lparr>ep_session := ses\<rparr>
             in if \<not> sealed then (sent_bytes r, e2)
                else
                  let e3 = e2\<lparr>ep_delivery := enqueue_run delivered stream_id (ep_delivery e2)\<rparr>;
                      s2 = (if is_persist_probe then stage_window_update_limit (recv_limit s1) s1 else s1);
                      woken = (if is_persist_probe then [NotifyOutbound] else []);
                      s3 = (if fin then note_remote_fin stream_offset s2 else s2);
                      (eof, s4) = take_in_order_fin s3;
                      e4 = set_stream stream_id s4 e3
                  in (sent_bytes r @ woken,
                      if eof
                      then retire_if_retirable stream_id s4
                             (e4\<lparr>ep_delivery := deliver_charged (ItemClose stream_id) 0 (ep_delivery e4)\<rparr>)
                      else e4))"

definition on_reliable ::
  "crypto_lib \<Rightarrow> packet_env \<Rightarrow> packet_flags \<Rightarrow> u32 \<Rightarrow> u8 \<Rightarrow> bytes \<Rightarrow> endpoint \<Rightarrow> action list \<times> endpoint" where
  "on_reliable L env fl stream_id path_id plaintext e =
     (if length plaintext < 4 then ([], e)
      else
        let stream_offset = from_be_bytes (take 4 plaintext); data = drop 4 plaintext;
            fin = flags_contains fl F_FIN; is_persist_probe = (data = [] \<and> \<not> fin);
            (adm, t) = admit_stream stream_id (ep_table e)
        in case adm of
             AdmRefused \<Rightarrow> ([], e)
           | AdmRetired \<Rightarrow>
               let (acts, s1) = answer_retired L env stream_id path_id stream_offset is_persist_probe fin (ep_session e)
               in (acts, e\<lparr>ep_session := s1\<rparr>)
           | _ \<Rightarrow>
               (case tb_streams t stream_id of
                  None \<Rightarrow> ([], e)
                | Some local \<Rightarrow>
                    let (acts, e1) = deliver_reliable L env fin stream_id path_id stream_offset data local (e\<lparr>ep_table := t\<rparr>)
                    in ((if adm = AdmCreated \<and> stream_id > RAW_APP_STREAM_ID then [Incoming stream_id] else []) @ acts, e1)))"

definition on_unreliable :: "packet_flags \<Rightarrow> u32 \<Rightarrow> bytes \<Rightarrow> endpoint \<Rightarrow> endpoint" where
  "on_unreliable fl stream_id plaintext e =
     (let e1 = (if plaintext \<noteq> []
                then e\<lparr>ep_delivery := deliver_charged (ItemData stream_id plaintext False) (length plaintext) (ep_delivery e)\<rparr>
                else e)
      in if \<not> flags_contains fl F_FIN then e1
         else case tb_streams (ep_table e1) stream_id of
                None \<Rightarrow> e1
              | Some s \<Rightarrow>
                  let (s1, v) = take_unordered_remote_fin stream_id s (ep_delivery e1)
                  in retire_if_retirable stream_id s1 (set_stream stream_id s1 (e1\<lparr>ep_delivery := v\<rparr>)))"

subsection \<open>The handler\<close>

text \<open>What follows the AEAD gate, on the inner plaintext.\<close>

definition dispatch :: "crypto_lib \<Rightarrow> packet_env \<Rightarrow> phantom_packet \<Rightarrow> bytes \<Rightarrow> endpoint \<Rightarrow> action list \<times> endpoint" where
  "dispatch L env packet plaintext e =
     (let fl = hdr_flags (pkt_header packet);
          stream_id = (ucast (hdr_stream_id (pkt_header packet)) :: u32);
          path_id = hdr_path_id (pkt_header packet)
      in if flags_contains fl F_KEEPALIVE then on_keepalive L env fl e
         else if flags_contains fl F_CONTROL then ([], on_control plaintext e)
         else if flags_contains fl F_COVER then ([], e)
         else if flags_contains fl F_ACK then on_ack env fl stream_id path_id plaintext e
         else if flags_contains fl F_WINDOW_UPDATE then on_window_update stream_id plaintext e
         else if flags_contains fl F_PATH_VALIDATION then on_path_validation L env path_id plaintext e
         else
           let (gated, e1) = path_gate L env path_id e in
           if flags_contains fl F_COALESCED then (gated, on_coalesced packet stream_id plaintext e1)
           else if flags_contains fl F_RELIABLE
           then let (acts, e2) = on_reliable L env fl stream_id path_id plaintext e1 in (gated @ acts, e2)
           else (gated, on_unreliable fl stream_id plaintext e1))"

definition handle_packet :: "crypto_lib \<Rightarrow> packet_env \<Rightarrow> phantom_packet \<Rightarrow> endpoint \<Rightarrow> action list \<times> endpoint" where
  "handle_packet L env packet e =
     (let path_id = hdr_path_id (pkt_header packet) in
      if hdr_session_id (pkt_header packet) \<noteq> s_id (ep_session e) then ([], e)
      else
        case open_packet L packet (mark_path_seen (pe_now env) path_id (ep_session e)) of
          (None, s1) \<Rightarrow> ([], e\<lparr>ep_session := s1\<rparr>)
        | (Some plaintext, s1) \<Rightarrow>
            let (noted, e1) = note_authenticated L (pe_now env) path_id (e\<lparr>ep_session := s1\<rparr>);
                (acts, e2) = dispatch L env packet plaintext e1
            in (noted @ acts, e2))"

subsection \<open>The reader's turn\<close>

datatype reader_input = Received bytes | ReadFailed | GivenUp

datatype reader_verdict = ReaderContinues | PeerClosed | FlowControlIgnored | TransportFailed | TransportGaveUp

definition reader_turn ::
  "crypto_lib \<Rightarrow> packet_env \<Rightarrow> nanos \<Rightarrow> reader_input \<Rightarrow> nanos option \<Rightarrow> endpoint \<Rightarrow>
     reader_verdict \<times> action list \<times> nanos option \<times> endpoint" where
  "reader_turn L env rtt input deadline e =
     (if dv_undelivered (ep_delivery e) > RECV_DELIVERY_HARD_CAP then (FlowControlIgnored, [], deadline, e)
      else case input of
             ReadFailed \<Rightarrow> (TransportFailed, [], deadline, e)
           | GivenUp \<Rightarrow> (TransportGaveUp, [], deadline, e)
           | Received bs \<Rightarrow>
               if length bs > MAX_RECV_FRAME then (ReaderContinues, [], deadline, e)
               else case parse_protected L bs (ep_session e) of
                      Inl err \<Rightarrow> (ReaderContinues, [], deadline, e)
                    | Inr packet \<Rightarrow>
                        if hdr_version (pkt_header packet) \<noteq> WIRE_VERSION then (ReaderContinues, [], deadline, e)
                        else
                          let (acts, e1) = handle_packet L env packet e
                          in if \<not> s_peer_closed (ep_session e1) then (ReaderContinues, acts, deadline, e1)
                             else
                               let d = (case deadline of Some d \<Rightarrow> d | None \<Rightarrow> pe_now env + drain_window_for_rtt rtt)
                               in (if pe_now env \<ge> d then PeerClosed else ReaderContinues, acts @ [PublishDraining], Some d, e1))"

subsection \<open>What a packet does to the stream table\<close>

definition incoming_ids :: "action list \<Rightarrow> u32 list" where
  "incoming_ids acts = List.map_filter (\<lambda>a. case a of Incoming i \<Rightarrow> Some i | _ \<Rightarrow> None) acts"

lemma incoming_ids_simps [simp]:
  "incoming_ids [] = []" "incoming_ids (acts @ acts') = incoming_ids acts @ incoming_ids acts'"
  "incoming_ids (a # acts) = (case a of Incoming i \<Rightarrow> i # incoming_ids acts | _ \<Rightarrow> incoming_ids acts)"
  "incoming_ids (sent_bytes r) = []"
  by (simp_all add: incoming_ids_def map_filter_simps List.map_filter_def sent_bytes_def split: action.split option.split)

definition table_evolves :: "stream_table \<Rightarrow> u32 list \<Rightarrow> stream_table \<Rightarrow> bool" where
  "table_evolves t ids t' \<longleftrightarrow> (table_inv t \<longrightarrow> table_inv t' \<and> distinct ids
     \<and> (\<forall>i \<in> set ids. \<not> id_used t i \<and> id_used t' i \<and> wire_id i)
     \<and> (\<forall>i. wire_id i \<longrightarrow> id_used t i \<longrightarrow> id_used t' i))"

lemma evolves_refl [simp]: "table_evolves t [] t" by (simp add: table_evolves_def)

lemma evolves_trans:
  assumes "table_evolves t ids t'" "table_evolves t' ids' t''"
  shows "table_evolves t (ids @ ids') t''"
proof (unfold table_evolves_def, intro impI)
  assume t: "table_inv t"
  have a: "table_inv t'" "distinct ids" "\<And>i. i \<in> set ids \<Longrightarrow> \<not> id_used t i \<and> id_used t' i \<and> wire_id i"
    "\<And>i. wire_id i \<Longrightarrow> id_used t i \<Longrightarrow> id_used t' i" using assms(1) t unfolding table_evolves_def by blast+
  have b: "table_inv t''" "distinct ids'" "\<And>i. i \<in> set ids' \<Longrightarrow> \<not> id_used t' i \<and> id_used t'' i \<and> wire_id i"
    "\<And>i. wire_id i \<Longrightarrow> id_used t' i \<Longrightarrow> id_used t'' i" using assms(2) a(1) unfolding table_evolves_def by blast+
  have "distinct (ids @ ids')" using a b by auto
  then show "table_inv t'' \<and> distinct (ids @ ids') \<and> (\<forall>i \<in> set (ids @ ids'). \<not> id_used t i \<and> id_used t'' i \<and> wire_id i)
    \<and> (\<forall>i. wire_id i \<longrightarrow> id_used t i \<longrightarrow> id_used t'' i)" using a b by auto
qed

lemma evolves_table_step: "table_evolves t (fst (table_step t op)) (snd (table_step t op))"
  unfolding table_evolves_def using table_step_cases by blast

text \<open>Changes of the streams themselves and of what their channels hold leave the ids alone.\<close>

definition same_ids :: "stream_table \<Rightarrow> stream_table \<Rightarrow> bool" where
  "same_ids t t' \<longleftrightarrow> dom (tb_streams t') = dom (tb_streams t) \<and> tb_gauge t' = tb_gauge t
     \<and> tb_peer_streams t' = tb_peer_streams t
     \<and> dx_first_stream_id (tb_demux t') = dx_first_stream_id (tb_demux t)
     \<and> dx_next_stream_id (tb_demux t') = dx_next_stream_id (tb_demux t) \<and> dx_id_step (tb_demux t') = dx_id_step (tb_demux t)"

lemma evolves_same: "same_ids t t' \<Longrightarrow> table_evolves t [] t'"
proof -
  assume s: "same_ids t t'"
  then have d: "is_local_stream_id (tb_demux t') = is_local_stream_id (tb_demux t)" "has_opened (tb_demux t') = has_opened (tb_demux t)"
    "demux_ok (tb_demux t') = demux_ok (tb_demux t)" "dx_first_stream_id (tb_demux t') = dx_first_stream_id (tb_demux t)"
    by (auto simp: same_ids_def is_local_stream_id_def has_opened_def demux_ok_def fun_eq_iff)
  then have u: "id_used t' = id_used t" using s by (simp add: id_used_def same_ids_def fun_eq_iff)
  have "local_ids t' = local_ids t" "peer_ids t' = peer_ids t"
    using d s by (simp_all add: local_ids_def peer_ids_def same_ids_def)
  then show ?thesis using s d u by (simp add: table_evolves_def table_inv_def same_ids_def)
qed

lemma same_ids_refl [simp]: "same_ids t t" by (simp add: same_ids_def)

lemma same_ids_trans: "same_ids t t' \<Longrightarrow> same_ids t' t'' \<Longrightarrow> same_ids t t''" by (simp add: same_ids_def)

lemma same_ids_streams: "dom m = dom (tb_streams t) \<Longrightarrow> same_ids t (t\<lparr>tb_streams := m\<rparr>)" by (simp add: same_ids_def)

lemma evolves_set_stream: "tb_streams (ep_table e) i = Some s \<Longrightarrow> table_evolves (ep_table e) [] (ep_table (set_stream i s' e))"
  unfolding set_stream_def by (simp, rule evolves_same, rule same_ids_streams) auto

lemma evolves_retire: "table_evolves (ep_table e) [] (ep_table (retire_if_retirable i s e))"
  using evolves_table_step[of "ep_table e" "CloseBoth i"]
  by (auto simp: retire_if_retirable_def retire_stream_def Let_def split: prod.splits bool.splits)

lemma evolves_admit:
  fixes sid :: stream_id
  assumes "admit_stream (ucast sid) t = (a, t')"
  shows "table_evolves t (if a = AdmCreated \<and> (ucast sid :: u32) > RAW_APP_STREAM_ID then [ucast sid] else []) t'"
  using evolves_table_step[of t "PeerSegment sid"] assms by (cases a) simp_all

lemma set_stream_simps [simp]:
  "ep_session (set_stream i s e) = ep_session e" "ep_delivery (set_stream i s e) = ep_delivery e"
  "tb_streams (ep_table (set_stream i s e)) i = Some s" "ep_challenges (set_stream i s e) = ep_challenges e"
  by (simp_all add: set_stream_def)

text \<open>Branch by branch: the ids announced are those the table has newly taken up.\<close>

definition evolves :: "endpoint \<Rightarrow> action list \<times> endpoint \<Rightarrow> bool" where
  "evolves e r \<longleftrightarrow> table_evolves (ep_table e) (incoming_ids (fst r)) (ep_table (snd r))"

lemma evolves_quiet: "ep_table (snd r) = ep_table e \<Longrightarrow> incoming_ids (fst r) = [] \<Longrightarrow> evolves e r"
  by (simp add: evolves_def)

lemma evolves_control [simp]: "ep_table (on_control pt e) = ep_table e" by (simp add: on_control_def)

lemma evolves_coalesced [simp]: "ep_table (on_coalesced p i pt e) = ep_table e"
  by (simp add: on_coalesced_def split: sum.split option.split)

lemma evolves_keepalive: "evolves e (on_keepalive L env fl e)"
  by (rule evolves_quiet) (simp_all add: on_keepalive_def split_beta)

lemma evolves_gate: "evolves e (path_gate L env p e)"
  by (rule evolves_quiet) (simp_all add: path_gate_def challenge_candidate_def Let_def split_beta split: option.split)

lemma gate_table: "ep_table (snd (path_gate L env p e)) = ep_table e" "incoming_ids (fst (path_gate L env p e)) = []"
    "ep_delivery (snd (path_gate L env p e)) = ep_delivery e"
  by (simp_all add: path_gate_def challenge_candidate_def Let_def split_beta split: option.split)

lemma evolves_window_update: "evolves e (on_window_update i pt e)"
proof -
  have "table_evolves t [] (t\<lparr>tb_streams := (tb_streams t)(i \<mapsto> s')\<rparr>)" if "tb_streams t i = Some s" for t s s'
    by (rule evolves_same, rule same_ids_streams) (use that in auto)
  then show ?thesis by (auto simp: evolves_def on_window_update_def Let_def split: option.split)
qed

lemma evolves_path_validation: "evolves e (on_path_validation L env p pt e)"
proof -
  have "table_evolves t [] (t\<lparr>tb_streams := \<lambda>i. map_option reset_rto (tb_streams t i)\<rparr>)" for t
    by (rule evolves_same, rule same_ids_streams) (auto simp: dom_def)
  then show ?thesis
    by (simp add: evolves_def on_path_validation_def Let_def split_beta split: option.split path_state_kind.split)
qed

lemma incoming_fed [simp]: "incoming_ids (map (\<lambda>r. FeedAck r d p) rs) = []"
  by (induction rs) simp_all

lemma evolves_ack: "evolves e (on_ack env fl i p pt e)"
proof (cases "sack_from_wire pt")
  case (Inr k)
  show ?thesis
  proof (cases "tb_streams (ep_table e) i")
    case (Some s)
    obtain res s1 where o: "on_sack (pe_now env) k s = (res, s1)" by (rule prod.exhaust)
    obtain s2 v where f: "(if flags_contains fl F_FIN then take_unordered_remote_fin i s1 (ep_delivery e) else (s1, ep_delivery e)) = (s2, v)"
      by (rule prod.exhaust)
    let ?e = "set_stream i s2 (e\<lparr>ep_delivery := v\<rparr>)"
    have "table_evolves (ep_table e) [] (ep_table ?e)" using evolves_set_stream[of "e\<lparr>ep_delivery := v\<rparr>" i s s2] Some by simp
    from evolves_trans[OF this evolves_retire] show ?thesis
      unfolding evolves_def on_ack_def Inr sum.case Some option.case o Let_def prod.case f by simp
  qed (simp add: evolves_def on_ack_def Inr)
qed (simp add: evolves_def on_ack_def)

lemma evolves_deliver_reliable:
  assumes "tb_streams (ep_table e) i = Some s"
  shows "evolves e (deliver_reliable L env fin i p off d s e)"
proof -
  obtain del s1 where a: "accept_in_order (pe_now env) off [d] s = (del, s1)" by (rule prod.exhaust)
  have 1: "table_evolves (ep_table e) [] (ep_table (set_stream i s1 e))" by (rule evolves_set_stream[OF assms])
  show ?thesis
  proof (cases "received_sack (pe_now_sack env) 0 s1")
    case None
    then show ?thesis using a 1 by (simp add: evolves_def deliver_reliable_def)
  next
    case (Some k)
    obtain sealed r ses where k: "send_stream_sack L (pe_sent env) k (ucast i) p (ep_session e) = ((sealed, r), ses)"
      by (metis prod.exhaust)
    have 2: "table_evolves (ep_table e) [] (ep_table (set_stream i s' e'))" if "ep_table e' = ep_table (set_stream i s1 e)" for s' e'
      using evolves_set_stream[OF assms, of s'] that by (simp add: set_stream_def)
    have 3: "table_evolves (ep_table e) [] (ep_table (retire_if_retirable i s' (e'\<lparr>ep_delivery := v\<rparr>)))"
      if "table_evolves (ep_table e) [] (ep_table e')" for s' e' v
      using evolves_trans[OF that, of "[]" "ep_table (retire_if_retirable i s' (e'\<lparr>ep_delivery := v\<rparr>))"]
        evolves_retire[of "e'\<lparr>ep_delivery := v\<rparr>" i s'] by simp
    show ?thesis using a 1 Some k 2 3
      by (simp add: evolves_def deliver_reliable_def Let_def split_beta)
  qed
qed

lemma evolves_reliable: "evolves e (on_reliable L env fl (ucast (sid :: stream_id)) p pt e)"
proof (cases "length pt < 4")
  case False
  let ?i = "ucast sid :: u32" and ?fin = "flags_contains fl F_FIN"
  let ?off = "from_be_bytes (take 4 pt) :: u32" and ?d = "drop 4 pt"
  obtain a t where a: "admit_stream ?i (ep_table e) = (a, t)" by (rule prod.exhaust)
  note ev = evolves_admit[OF a]
  show ?thesis
  proof (cases "a = AdmHeld \<or> a = AdmCreated")
    case True
    show ?thesis
    proof (cases "tb_streams t ?i")
      case None
      then show ?thesis using False a True by (auto simp: evolves_def on_reliable_def)
    next
      case (Some local)
      obtain acts e1 where r: "deliver_reliable L env ?fin ?i p ?off ?d local (e\<lparr>ep_table := t\<rparr>) = (acts, e1)" by (rule prod.exhaust)
      have "table_evolves t (incoming_ids acts) (ep_table e1)"
        using evolves_deliver_reliable[of "e\<lparr>ep_table := t\<rparr>" ?i local L env ?fin p ?off ?d] Some r by (simp add: evolves_def)
      from evolves_trans[OF ev this] show ?thesis using False a Some r True
        by (auto simp: evolves_def on_reliable_def Let_def)
    qed
  next
    case other: False
    then have "a = AdmRetired \<or> a = AdmRefused" by (cases a) simp_all
    moreover have "incoming_ids (fst (answer_retired L env i p off pr f ses)) = []" for i off pr f ses
      by (simp add: answer_retired_def Let_def split_beta split: option.split)
    ultimately show ?thesis using False a by (auto simp: evolves_def on_reliable_def split_beta Let_def)
  qed
qed (simp add: evolves_def on_reliable_def)

lemma evolves_unreliable: "evolves e ([], on_unreliable fl i pt e)"
proof -
  have "table_evolves (ep_table e) [] (ep_table (retire_if_retirable i s' (set_stream i s' e')))"
    if "tb_streams (ep_table e) i = Some s" "ep_table e' = ep_table e" for s s' e'
    using evolves_trans[OF evolves_set_stream[of e' i s s'] evolves_retire[of _ i s']] that by simp
  then show ?thesis by (auto simp: evolves_def on_unreliable_def Let_def split_beta split: option.split)
qed

lemma evolves_dispatch: "evolves e (dispatch L env packet pt e)"
proof -
  let ?g = "path_gate L env (hdr_path_id (pkt_header packet)) e"
  have g: "evolves e (fst ?g @ fst r, snd r)" if "evolves (snd ?g) r" for r
    using that gate_table[of L env "hdr_path_id (pkt_header packet)" e] by (simp add: evolves_def)
  show ?thesis
    unfolding dispatch_def Let_def
    using evolves_keepalive evolves_ack evolves_window_update evolves_path_validation
      g[OF evolves_reliable] g[OF evolves_unreliable] g[OF evolves_quiet[of "([], _)"]]
    by (simp add: split_beta evolves_quiet)
qed

lemma evolves_handle: "evolves e (handle_packet L env packet e)"
proof (cases "hdr_session_id (pkt_header packet) \<noteq> s_id (ep_session e)")
  case False
  obtain o' s1 where o: "open_packet L packet (mark_path_seen (pe_now env) (hdr_path_id (pkt_header packet)) (ep_session e)) = (o', s1)"
    by (rule prod.exhaust)
  show ?thesis
  proof (cases o')
    case None
    then show ?thesis using o False by (simp add: evolves_def handle_packet_def Let_def)
  next
    case (Some pt)
    obtain noted e1 where n: "note_authenticated L (pe_now env) (hdr_path_id (pkt_header packet)) (e\<lparr>ep_session := s1\<rparr>) = (noted, e1)"
      by (rule prod.exhaust)
    obtain acts e2 where d: "dispatch L env packet pt e1 = (acts, e2)" by (rule prod.exhaust)
    have "ep_table e1 = ep_table e" "incoming_ids noted = []"
      using n by (auto simp: note_authenticated_def split: prod.splits option.splits)
    then have "evolves e (noted @ acts, e2)" using evolves_dispatch[of e1 L env packet pt] d by (simp add: evolves_def)
    then show ?thesis using False o Some n d by (simp add: handle_packet_def Let_def)
  qed
qed (simp add: evolves_def handle_packet_def)

subsection \<open>The endpoint over time\<close>

text \<open>
  Everything that touches the table: arriving packets of any kind and content, the
  application opening and releasing streams, the delivery tasks. The result of a step
  names the streams handed to the application.
\<close>

datatype endpoint_event =
    Arrives packet_env phantom_packet | Opens | Releases u32 | ReleasesUntouched u32 | Delivers delivery_op

fun endpoint_step :: "crypto_lib \<Rightarrow> endpoint \<Rightarrow> endpoint_event \<Rightarrow> u32 list \<times> endpoint" where
  "endpoint_step L e (Arrives env packet) = (let (acts, e1) = handle_packet L env packet e in (incoming_ids acts, e1))"
| "endpoint_step L e Opens =
     (case phantom_open_stream (ep_table e) of (Some i, t) \<Rightarrow> ([i], e\<lparr>ep_table := t\<rparr>) | (None, t) \<Rightarrow> ([], e\<lparr>ep_table := t\<rparr>))"
| "endpoint_step L e (Releases i) = ([], e\<lparr>ep_table := retire_released_stream i (ep_table e)\<rparr>)"
| "endpoint_step L e (ReleasesUntouched i) = ([], e\<lparr>ep_table := snd (retire_untouched_local i (ep_table e))\<rparr>)"
| "endpoint_step L e (Delivers op) =
     (let (_, t, v) = delivery_step (ep_table e, ep_delivery e) op in ([], e\<lparr>ep_table := t, ep_delivery := v\<rparr>))"

lemma route_message_ids: "dx_first_stream_id (snd (route_message i m d)) = dx_first_stream_id d"
    "dx_next_stream_id (snd (route_message i m d)) = dx_next_stream_id d" "dx_id_step (snd (route_message i m d)) = dx_id_step d"
  by (simp_all add: route_message_def split_beta split: option.split)

lemma delivery_same_ids: "same_ids t (fst (snd (delivery_step (t, v) op)))"
proof -
  have cr: "same_ids t (fst (credit_stream now raced i n r t v))" for now raced i n r v
    by (auto simp: credit_stream_def Let_def split_beta split: option.split if_splits intro!: same_ids_streams)
  have "same_ids t (t\<lparr>tb_demux := snd (route_data_async i bs (tb_demux t))\<rparr>)"
    "same_ids t (t\<lparr>tb_demux := snd (route_close_async i (tb_demux t))\<rparr>)" for i bs
    by (simp_all add: same_ids_def route_data_async_def route_data_def route_close_async_def route_close_def Let_def split_beta
        route_message_ids)
  then have b: "same_ids t (fst (task_b_hand t v))"
    by (auto simp: task_b_hand_def demux_close_stream_def same_ids_def split_beta
        split: option.split deliver_item.split)
  show ?thesis
    using cr b by (cases op) (auto simp: task_a_take_def task_b_take_def on_route_def split_beta same_ids_def Let_def
        split: option.split list.split deliver_item.split)
qed

lemma evolves_step: "table_evolves (ep_table e) (fst (endpoint_step L e ev)) (ep_table (snd (endpoint_step L e ev)))"
proof (cases ev)
  case (Arrives env packet)
  then show ?thesis using evolves_handle[of e L env packet] by (simp add: evolves_def split_beta)
next
  case Opens
  then show ?thesis using evolves_table_step[of "ep_table e" OpenLocal]
    by (cases "phantom_open_stream (ep_table e)"; cases "fst (phantom_open_stream (ep_table e))") simp_all
next
  case (Releases i)
  then show ?thesis using evolves_table_step[of "ep_table e" "Release i"] by simp
next
  case (ReleasesUntouched i)
  then show ?thesis using evolves_table_step[of "ep_table e" "ReleaseUntouched i"] by simp
next
  case (Delivers op)
  then show ?thesis using evolves_same[OF delivery_same_ids[of "ep_table e" "ep_delivery e" op]] by (simp add: split_beta)
qed

interpretation endpoint_ids: id_ledger "endpoint_step L" "\<lambda>e. id_used (ep_table e)" "\<lambda>e. table_inv (ep_table e)" for L
  by unfold_locales (use evolves_step[of _ L] in \<open>unfold table_evolves_def, blast\<close>)+

definition endpoint_new :: "session \<Rightarrow> nat \<Rightarrow> endpoint" where
  "endpoint_new s control_buffer =
     \<lparr>ep_session = s, ep_table = table_new control_buffer (\<not> s_is_server s), ep_delivery = delivery_new,
      ep_challenges = Map.empty, ep_last_peer_path = 0\<rparr>"

lemma endpoint_run_inv: "table_inv (ep_table (snd (run (endpoint_step L) (endpoint_new s n) evs)))"
  by (rule run_invariant[where I = "\<lambda>e. table_inv (ep_table e)"])
    (use endpoint_ids.step_ok table_inv_new in \<open>auto simp: endpoint_new_def\<close>)

subsection \<open>Confinement\<close>

definition control_flags :: "packet_flags \<Rightarrow> bool" where
  "control_flags fl \<longleftrightarrow> flags_contains fl F_KEEPALIVE \<or> flags_contains fl F_CONTROL \<or> flags_contains fl F_COVER
     \<or> flags_contains fl F_ACK \<or> flags_contains fl F_WINDOW_UPDATE \<or> flags_contains fl F_PATH_VALIDATION"

fun item_stream :: "deliver_item \<Rightarrow> u32" where
  "item_stream (ItemData i _ _) = i"
| "item_stream (ItemClose i) = i"
| "item_stream (ItemRetire i) = i"

fun is_data :: "deliver_item \<Rightarrow> bool" where
  "is_data (ItemData _ _ _) = True"
| "is_data _ = False"

text \<open>Queues only items of stream \<open>i\<close>, of application data only if \<open>d\<close>, and touches no other stream.\<close>

definition confined :: "u32 \<Rightarrow> bool \<Rightarrow> endpoint \<Rightarrow> endpoint \<Rightarrow> bool" where
  "confined i d e e' \<longleftrightarrow> (\<exists>new. dv_router (ep_delivery e') = dv_router (ep_delivery e) @ new
      \<and> (\<forall>item \<in> set new. item_stream item = i \<and> (is_data item \<longrightarrow> d)))
    \<and> (\<forall>j. j \<noteq> i \<longrightarrow> tb_streams (ep_table e') j = tb_streams (ep_table e) j)"

lemma confined_refl: "ep_table e' = ep_table e \<Longrightarrow> ep_delivery e' = ep_delivery e \<Longrightarrow> confined i d e e'"
  by (simp add: confined_def)

lemma confined_trans: "confined i d e e' \<Longrightarrow> confined i d e' e'' \<Longrightarrow> confined i d e e''"
  unfolding confined_def by fastforce

lemma confined_mono: "confined i False e e' \<Longrightarrow> confined i d e e'"
  unfolding confined_def by blast

lemma confined_cong: "confined i d e e' \<Longrightarrow> ep_table e1 = ep_table e \<Longrightarrow> ep_delivery e1 = ep_delivery e \<Longrightarrow> confined i d e1 e'"
  by (simp add: confined_def)

lemma confined_set_stream: "confined i d e (set_stream i s e)"
  by (simp add: confined_def set_stream_def)

lemma charged_router: "dv_router (deliver_charged item n v) = dv_router v @ (if dv_open v then [item] else [])"
    "dv_open (deliver_charged item n v) = dv_open v"
  by (simp_all add: deliver_charged_def deliver_send_def)

lemma confined_charged:
  assumes "item_stream item = i" "is_data item \<longrightarrow> d"
  shows "confined i d e (e\<lparr>ep_delivery := deliver_charged item n (ep_delivery e)\<rparr>)"
  using assms by (auto simp: confined_def charged_router)

lemma confined_run: "confined i True e (e\<lparr>ep_delivery := enqueue_run chunks i (ep_delivery e)\<rparr>)"
proof (induction chunks arbitrary: e)
  case (Cons c cs)
  let ?e = "e\<lparr>ep_delivery := deliver_charged (ItemData i c True) (length c) (ep_delivery e)\<rparr>"
  have "confined i True e ?e" by (rule confined_charged) simp_all
  from confined_trans[OF this Cons.IH[of ?e]] show ?case using Cons.IH[of e] by simp
qed (simp add: confined_refl)

lemma confined_retire: "confined i d e (retire_if_retirable i s e)"
  by (auto simp: retire_if_retirable_def retire_stream_def drop_closed_stream_def deliver_send_def confined_def)

lemma confined_fin:
  assumes "take_unordered_remote_fin i s (ep_delivery e) = (s', v)"
  shows "confined i d e (e\<lparr>ep_delivery := v\<rparr>)"
proof -
  have "v = ep_delivery e \<or> v = deliver_charged (ItemClose i) 0 (ep_delivery e)"
    using assms by (auto simp: take_unordered_remote_fin_def split: if_splits prod.splits)
  then show ?thesis using confined_charged[of "ItemClose i" i d e 0] by (auto simp: confined_refl)
qed

lemma confined_ack: "confined i False e (snd (on_ack env fl i p pt e))"
proof (cases "sack_from_wire pt")
  case (Inr k)
  show ?thesis
  proof (cases "tb_streams (ep_table e) i")
    case (Some s)
    obtain res s1 where o: "on_sack (pe_now env) k s = (res, s1)" by (rule prod.exhaust)
    obtain s2 v where f: "(if flags_contains fl F_FIN then take_unordered_remote_fin i s1 (ep_delivery e) else (s1, ep_delivery e)) = (s2, v)"
      by (rule prod.exhaust)
    have "confined i False e (e\<lparr>ep_delivery := v\<rparr>)"
      using f confined_fin[of i s1 e s2 v False] by (auto simp: confined_refl split: if_splits)
    from confined_trans[OF confined_trans[OF this confined_set_stream] confined_retire] show ?thesis
      unfolding on_ack_def Inr sum.case Some option.case o Let_def prod.case f by simp
  qed (simp add: on_ack_def Inr confined_refl)
qed (simp add: on_ack_def confined_refl)

lemma confined_window_update: "confined i False e (snd (on_window_update i pt e))"
  by (simp add: on_window_update_def confined_def Let_def split: option.split)

lemma confined_deliver_reliable: "confined i True e (snd (deliver_reliable L env fin i p off d s e))"
proof -
  obtain del s1 where a: "accept_in_order (pe_now env) off [d] s = (del, s1)" by (rule prod.exhaust)
  have 1: "confined i True e (set_stream i s1 e)" by (rule confined_set_stream)
  show ?thesis
  proof (cases "received_sack (pe_now_sack env) 0 s1")
    case None
    then show ?thesis using a 1 by (simp add: deliver_reliable_def)
  next
    case (Some k)
    obtain sealed r ses where k: "send_stream_sack L (pe_sent env) k (ucast i) p (ep_session e) = ((sealed, r), ses)"
      by (metis prod.exhaust)
    let ?e2 = "(set_stream i s1 e)\<lparr>ep_session := ses\<rparr>"
    have 2: "confined i True e ?e2" using 1 by (simp add: confined_def)
    note 3 = confined_trans[OF confined_trans[OF 2 confined_run] confined_set_stream]
    note 4 = confined_trans[OF confined_trans[OF 3 confined_charged[of "ItemClose i" i True]] confined_retire]
    show ?thesis using a Some k 2 3 4 by (simp add: deliver_reliable_def Let_def split_beta)
  qed
qed

lemma admit_others: "admit_stream i t = (a, t') \<Longrightarrow> j \<noteq> i \<Longrightarrow> tb_streams t' j = tb_streams t j"
  by (auto simp: admit_stream_def create_peer_stream_def Let_def split: option.splits unheld_stream.splits if_splits)

lemma confined_reliable: "confined i True e (snd (on_reliable L env fl i p pt e))"
proof -
  obtain a t where a: "admit_stream i (ep_table e) = (a, t)" by (rule prod.exhaust)
  have "confined i True e (e\<lparr>ep_table := t\<rparr>)" using admit_others[OF a] by (simp add: confined_def)
  note d = confined_trans[OF this confined_deliver_reliable]
  show ?thesis
    by (cases a; cases "tb_streams t i") (simp_all add: on_reliable_def a Let_def split_beta confined_refl d)
qed

lemma confined_unreliable: "confined i True e (on_unreliable fl i pt e)"
proof -
  let ?e = "if pt \<noteq> [] then e\<lparr>ep_delivery := deliver_charged (ItemData i pt False) (length pt) (ep_delivery e)\<rparr> else e"
  have 1: "confined i True e ?e" using confined_charged[of "ItemData i pt False" i True e] by (simp add: confined_refl)
  show ?thesis
  proof (cases "flags_contains fl F_FIN \<and> tb_streams (ep_table ?e) i \<noteq> None")
    case False
    then show ?thesis using 1 unfolding on_unreliable_def Let_def by (auto split: option.splits)
  next
    case True
    then obtain s where s: "tb_streams (ep_table ?e) i = Some s" by blast
    obtain s1 v where f: "take_unordered_remote_fin i s (ep_delivery ?e) = (s1, v)" by (rule prod.exhaust)
    note 2 = confined_trans[OF confined_trans[OF confined_trans[OF 1 confined_fin[OF f]] confined_set_stream] confined_retire]
    show ?thesis unfolding on_unreliable_def Let_def s f option.case prod.case using True 2 by simp
  qed
qed

lemma confined_coalesced: "confined i True e (on_coalesced p i pt e)"
  using confined_run by (simp add: on_coalesced_def confined_refl split: sum.split option.split)

lemma path_validation_others:
  "ep_delivery (snd (on_path_validation L env p pt e)) = ep_delivery e"
  "tb_streams (ep_table (snd (on_path_validation L env p pt e))) j \<in> {tb_streams (ep_table e) j, map_option reset_rto (tb_streams (ep_table e) j)}"
  by (simp_all add: on_path_validation_def Let_def split_beta split: option.split path_state_kind.split)

lemma confined_dispatch:
  assumes "\<not> flags_contains (hdr_flags (pkt_header packet)) F_PATH_VALIDATION \<or> flags_contains (hdr_flags (pkt_header packet)) F_KEEPALIVE
    \<or> flags_contains (hdr_flags (pkt_header packet)) F_CONTROL \<or> flags_contains (hdr_flags (pkt_header packet)) F_COVER
    \<or> flags_contains (hdr_flags (pkt_header packet)) F_ACK \<or> flags_contains (hdr_flags (pkt_header packet)) F_WINDOW_UPDATE"
  shows "confined (ucast (hdr_stream_id (pkt_header packet))) (\<not> control_flags (hdr_flags (pkt_header packet))) e (snd (dispatch L env packet pt e))"
proof (cases "control_flags (hdr_flags (pkt_header packet))")
  case True
  have "ep_table (snd (on_keepalive L env fl e)) = ep_table e" "ep_delivery (snd (on_keepalive L env fl e)) = ep_delivery e" for fl
    by (simp_all add: on_keepalive_def split_beta)
  moreover have "ep_delivery (on_control pt e) = ep_delivery e" by (simp add: on_control_def)
  ultimately show ?thesis using True assms confined_ack confined_window_update
    by (auto simp: dispatch_def control_flags_def Let_def confined_refl)
next
  case False
  let ?g = "path_gate L env (hdr_path_id (pkt_header packet)) e"
  have c: "confined i d e e'" if "confined i d (snd ?g) e'" for i d e'
    by (rule confined_cong[OF that]) (simp_all add: gate_table)
  show ?thesis using False c[OF confined_coalesced] c[OF confined_reliable] c[OF confined_unreliable]
    by (simp add: dispatch_def control_flags_def Let_def split_beta)
qed

lemma note_authenticated_keeps:
  "ep_table (snd (note_authenticated L now p e)) = ep_table e" "ep_delivery (snd (note_authenticated L now p e)) = ep_delivery e"
  by (simp_all add: note_authenticated_def split_beta split: option.split)

text \<open>The plaintext a packet opens to at an endpoint, if any.\<close>

definition opened :: "crypto_lib \<Rightarrow> packet_env \<Rightarrow> phantom_packet \<Rightarrow> endpoint \<Rightarrow> bytes option" where
  "opened L env packet e =
     (if hdr_session_id (pkt_header packet) \<noteq> s_id (ep_session e) then None
      else fst (open_packet L packet (mark_path_seen (pe_now env) (hdr_path_id (pkt_header packet)) (ep_session e))))"

lemma handle_unopened:
  assumes "opened L env packet e = None"
  shows "ep_table (snd (handle_packet L env packet e)) = ep_table e" "ep_delivery (snd (handle_packet L env packet e)) = ep_delivery e"
  using assms by (auto simp: opened_def handle_packet_def Let_def split: prod.split option.split if_splits)

lemma handle_opened:
  assumes "opened L env packet e = Some pt"
  obtains e1 where "snd (handle_packet L env packet e) = snd (dispatch L env packet pt e1)" "ep_table e1 = ep_table e"
    "ep_delivery e1 = ep_delivery e"
proof -
  obtain s1 where o: "open_packet L packet (mark_path_seen (pe_now env) (hdr_path_id (pkt_header packet)) (ep_session e)) = (Some pt, s1)"
    "hdr_session_id (pkt_header packet) = s_id (ep_session e)"
    using assms by (auto simp: opened_def prod_eq_iff split: if_splits)
  show ?thesis
    by (rule that[of "snd (note_authenticated L (pe_now env) (hdr_path_id (pkt_header packet)) (e\<lparr>ep_session := s1\<rparr>))"])
      (simp_all add: handle_packet_def o Let_def split_beta note_authenticated_keeps)
qed

subsection \<open>Properties\<close>

text \<open>
  C15. A packet acts on its own stream only. Whatever a packet is, everything handling it
  queues for the application belongs to the stream its header names; application data is
  queued only if the packet was authenticated (opened under the session's keys and not
  replayed) and is none of the control kinds, which are keep-alive, control, cover,
  acknowledgement, window update and path validation; and the other streams are left as
  they were, except that a packet flagged as path validation may reset the retransmission
  timers of all of them, which the code does when the validation moves the session to a path.
\<close>

theorem packet_confined_to_its_stream:
  fixes L env packet e
  defines "e' \<equiv> snd (handle_packet L env packet e)" and "fl \<equiv> hdr_flags (pkt_header packet)"
    and "i \<equiv> ucast (hdr_stream_id (pkt_header packet)) :: u32"
  shows "(\<exists>new. dv_router (ep_delivery e') = dv_router (ep_delivery e) @ new
      \<and> (\<forall>item \<in> set new. item_stream item = i \<and> (is_data item \<longrightarrow> opened L env packet e \<noteq> None \<and> \<not> control_flags fl)))
    \<and> (\<forall>j. j \<noteq> i \<longrightarrow> tb_streams (ep_table e') j = tb_streams (ep_table e) j
         \<or> flags_contains fl F_PATH_VALIDATION \<and> tb_streams (ep_table e') j = map_option reset_rto (tb_streams (ep_table e) j))"
proof (cases "opened L env packet e")
  case None
  then show ?thesis using handle_unopened by (simp add: e'_def)
next
  case (Some pt)
  obtain e1 where e1: "e' = snd (dispatch L env packet pt e1)" "ep_table e1 = ep_table e" "ep_delivery e1 = ep_delivery e"
    unfolding e'_def by (rule handle_opened[OF Some])
  show ?thesis
  proof (cases "flags_contains fl F_PATH_VALIDATION \<and> \<not> (flags_contains fl F_KEEPALIVE \<or> flags_contains fl F_CONTROL
      \<or> flags_contains fl F_COVER \<or> flags_contains fl F_ACK \<or> flags_contains fl F_WINDOW_UPDATE)")
    case True
    then have "e' = snd (on_path_validation L env (hdr_path_id (pkt_header packet)) pt e1)"
      using e1(1) by (simp add: dispatch_def fl_def Let_def)
    then show ?thesis using path_validation_others[of L env "hdr_path_id (pkt_header packet)" pt e1] True e1(2,3) by auto
  next
    case False
    then have "confined i (\<not> control_flags fl) e1 e'" unfolding e1(1) i_def fl_def by (intro confined_dispatch) auto
    then show ?thesis using e1(2,3) Some by (simp add: confined_def)
  qed
qed

definition demo_env :: packet_env where
  "demo_env = \<lparr>pe_now = 8, pe_now_sack = 8, pe_sent = True, pe_grant_sent = True, pe_candidate = False, pe_promotes = False,
     pe_challenge = replicate 32 7\<rparr>"

definition demo_end :: "bool \<Rightarrow> endpoint" where
  "demo_end side = endpoint_new (demo_peer side) 4"

theorem packet_confined_to_its_stream_witness:
  "tb_streams (ep_table (snd (handle_packet demo_lib demo_env (packet_new (demo_forgery\<lparr>hdr_stream_id := 3\<rparr>) [1, 2, 3]) (demo_end True)))) 1
     = Some (stream_new 1)"
  using packet_confined_to_its_stream[of demo_lib demo_env "packet_new (demo_forgery\<lparr>hdr_stream_id := 3\<rparr>) [1, 2, 3]" "demo_end True"]
  by (simp add: packet_new_def demo_forgery_def with_epoch_def header_new_def flags_contains_def F_REKEY_def F_PATH_VALIDATION_def
      demo_end_def endpoint_new_def table_new_def)

text \<open>
  C14. A forged packet is inert. Whatever its header, epoch, flags and bytes, a packet that
  is not marked encrypted, or that the AEAD opens neither under the current keys nor under
  the forward keys its epoch asks for, causes no action at all (nothing is sent, no
  connection id changes, no stream is announced, no timer is refreshed) and leaves the
  endpoint as it was, except for the time its path was last seen.
\<close>

theorem forged_packet_inert:
  assumes "flags_contains (hdr_flags h) F_ENCRYPTED \<longrightarrow> (\<forall>st \<in> candidate_keys L h (ep_session e). \<not> opens_under L h c x st)"
  shows "handle_packet L env \<lparr>pkt_header = h, pkt_payload = c, pkt_extensions = x\<rparr> e =
    ([], if hdr_session_id h = s_id (ep_session e)
         then e\<lparr>ep_session := mark_path_seen (pe_now env) (hdr_path_id h) (ep_session e)\<rparr> else e)"
proof -
  let ?s = "mark_path_seen (pe_now env) (hdr_path_id h) (ep_session e)"
  have "candidate_keys L h ?s = candidate_keys L h (ep_session e)"
    by (simp add: candidate_keys_def mark_path_seen_def derive_forward_crypto_def cong: sum.case_cong)
  then have "\<exists>err. decrypt_packet_accepting_rekey L h c x ?s = (Err err, ?s)" if "flags_contains (hdr_flags h) F_ENCRYPTED"
    using unopened_refused[of L h ?s c x] assms that by simp
  then show ?thesis by (auto simp: handle_packet_def open_packet_def Let_def)
qed

theorem forged_packet_inert_witness:
  "fst (handle_packet demo_lib demo_env \<lparr>pkt_header = demo_forgery\<lparr>hdr_flags := F_ENCRYPTED OR F_CONTROL\<rparr>,
     pkt_payload = 1 # replicate 15 0, pkt_extensions = []\<rparr> (demo_end True)) = []"
proof -
  have "1 # replicate 15 0 \<noteq> demo_tag bs" for bs by (simp add: demo_tag_def numeral_eq_Suc)
  then have "\<not> opens_under demo_lib h (1 # replicate 15 0) [] st" for h st by (simp add: opens_under_def demo_lib_def)
  then show ?thesis using forged_packet_inert[of "demo_forgery\<lparr>hdr_flags := F_ENCRYPTED OR F_CONTROL\<rparr>" demo_lib "demo_end True"
      "1 # replicate 15 0" "[]" demo_env] by simp
qed

text \<open>
  C16. Stream ids are never reused and the table is bounded. From a session's start, over
  any sequence of arriving packets of any content, of streams opened and released by the
  application and of steps of the delivery tasks, the ids of the streams handed to the
  application, opened here or by the peer, are pairwise distinct; each side has at most
  256 streams open, and the table never holds more than both allowances and the two
  reserved ids.
\<close>

theorem stream_ids_never_reused:
  "distinct (concat (fst (run (endpoint_step L) (endpoint_new s n) evs)))
    \<and> card (local_ids (ep_table (snd (run (endpoint_step L) (endpoint_new s n) evs)))) \<le> MAX_STREAMS
    \<and> card (peer_ids (ep_table (snd (run (endpoint_step L) (endpoint_new s n) evs)))) \<le> MAX_STREAMS
    \<and> card (dom (tb_streams (ep_table (snd (run (endpoint_step L) (endpoint_new s n) evs))))) \<le> 2 * MAX_STREAMS + 2"
proof -
  have "table_inv (ep_table (endpoint_new s n))" by (simp add: endpoint_new_def table_inv_new)
  from endpoint_ids.opened_once[OF this] show ?thesis
    using table_inv_parts(9,10)[OF endpoint_run_inv] table_card[OF endpoint_run_inv] by blast
qed

end
