(* ===== verification/End_To_End.thy ===== *)
theory End_To_End
  imports Packet_Dispatch
begin

text \<open>
  Two endpoints together: what one seals, the other's packet handler does. A reliable
  segment put on the wire by \<open>send_app_data\<close> is, at the peer, exactly a step of the
  receiver of \<open>Reliable_Delivery\<close>, and an acknowledgement carries the path of what it
  acknowledges.
\<close>

subsection \<open>From the wire to the branches\<close>

lemma on_chain_marked: "on_chain L secret s \<Longrightarrow> on_chain L secret (mark_path_seen now p s)"
  by (erule on_chain_cong) (simp_all add: mark_path_seen_def)

lemma marked_fields [simp]:
  "s_id (mark_path_seen now p s) = s_id s" "s_is_server (mark_path_seen now p s) = s_is_server s"
  "s_epoch (mark_path_seen now p s) = s_epoch s" "s_crypto (mark_path_seen now p s) = s_crypto s"
  "s_recv_replay (mark_path_seen now p s) = s_recv_replay s" "s_header_protection (mark_path_seen now p s) = s_header_protection s"
  by (simp_all add: mark_path_seen_def)

text \<open>A datagram the session accepts reaches \<open>dispatch\<close> with its inner plaintext.\<close>

lemma handle_accepted:
  assumes w: "receive_wire L w (mark_path_seen (pe_now env) (hdr_path_id h) (ep_session e)) = (Ok (packet_new h c, pt), r')"
    and id: "hdr_session_id h = s_id (ep_session e)" and enc: "flags_contains (hdr_flags h) F_ENCRYPTED"
    and pad: "unshape_plaintext (flags_contains (hdr_flags h) F_PADDED) pt = Ok inner"
  shows "parse_protected L w (ep_session e) = Ok (packet_new h c)"
    and "handle_packet L env (packet_new h c) e =
      (let (noted, e1) = note_authenticated L (pe_now env) (hdr_path_id h) (e\<lparr>ep_session := r'\<rparr>);
           (acts, e2) = dispatch L env (packet_new h c) inner e1 in (noted @ acts, e2))"
proof -
  let ?s = "mark_path_seen (pe_now env) (hdr_path_id h) (ep_session e)"
  have "parse_protected L w (ep_session e) = parse_protected L w ?s" by (rule parse_protected_cong) simp_all
  moreover have p: "parse_protected L w ?s = Ok (packet_new h c)"
    "decrypt_packet_accepting_rekey L h c [] ?s = (Ok pt, r')"
    using w by (auto simp: receive_wire_def packet_new_def split: sum.splits prod.splits)
  ultimately show "parse_protected L w (ep_session e) = Ok (packet_new h c)" by simp
  have "open_packet L (packet_new h c) ?s = (Some inner, r')"
    using enc pad p(2) by (simp add: open_packet_def packet_new_def)
  then show "handle_packet L env (packet_new h c) e =
      (let (noted, e1) = note_authenticated L (pe_now env) (hdr_path_id h) (e\<lparr>ep_session := r'\<rparr>);
           (acts, e2) = dispatch L env (packet_new h c) inner e1 in (noted @ acts, e2))"
    using id unfolding handle_packet_def Let_def by (simp add: packet_new_def)
qed

subsection \<open>Keys through the handler\<close>

lemma eps02_on_chain: "on_chain L secret s \<Longrightarrow> on_chain L secret (snd (apply_eps02_peer_migration_rotation L s))"
  by (erule on_chain_cong) (simp_all add: apply_eps02_peer_migration_rotation_def advance_outbound_cid_def next_migration_path_id_def Let_def)

lemma note_authenticated_on_chain:
  assumes "on_chain L secret (ep_session e)"
  shows "on_chain L secret (ep_session (snd (note_authenticated L now p e)))"
proof -
  have "on_chain L secret (snd (note_migration_path L p (update_activity now (ep_session e))))"
    by (rule on_chain_cong[OF assms]) (simp_all add: note_migration_path_def update_activity_def Let_def)
  then show ?thesis using eps02_on_chain by (simp add: note_authenticated_def split_beta split: option.split)
qed

lemma path_gate_on_chain:
  assumes "on_chain L secret (ep_session e)"
  shows "on_chain L secret (ep_session (snd (path_gate L env p e)))"
proof -
  have r: "on_chain L secret ((ep_session e)\<lparr>s_path_registry := reg\<rparr>)" for reg by (rule on_chain_cong[OF assms]) simp_all
  then have "on_chain L secret (ep_session (snd (challenge_candidate L env q e)))" for q
    using path_validation_moves[OF r] by (simp add: challenge_candidate_def Let_def split_beta split: option.split)
  then show ?thesis using r assms by (simp add: path_gate_def Let_def)
qed

subsection \<open>The handler and the receiver of the delivery system\<close>

text \<open>What a step of the receiver leaves in the queue and in the table.\<close>

definition queued_items :: "u32 \<Rightarrow> reliable_effect \<Rightarrow> stream \<Rightarrow> deliver_item list" where
  "queued_items i eff s' = map (\<lambda>c. ItemData i c True) (re_delivered eff)
     @ (if re_eof eff then ItemClose i # (if is_retirable s' \<and> i > RAW_APP_STREAM_ID then [ItemRetire i] else []) else [])"

definition held_after :: "u32 \<Rightarrow> reliable_effect \<Rightarrow> stream \<Rightarrow> stream option" where
  "held_after i eff s' = (if re_eof eff \<and> is_retirable s' \<and> i > RAW_APP_STREAM_ID then None else Some s')"

lemma retire_effect:
  assumes "dv_open (ep_delivery e)" "tb_streams (ep_table e) i = Some s"
  shows "dv_router (ep_delivery (retire_if_retirable i s e)) =
      dv_router (ep_delivery e) @ (if is_retirable s \<and> i > RAW_APP_STREAM_ID then [ItemRetire i] else [])"
    and "tb_streams (ep_table (retire_if_retirable i s e)) i = (if is_retirable s \<and> i > RAW_APP_STREAM_ID then None else Some s)"
  using assms by (auto simp: retire_if_retirable_def retire_stream_def drop_closed_stream_def deliver_send_def not_less)

lemma deliver_reliable_refines:
  assumes k: "kdf_ok L" "on_chain L secret (ep_session e)" and op: "dv_open (ep_delivery e)"
    and rr: "recv_reliable (pe_now env) (pe_now_sack env) True fin (app_plaintext (Some off) d) s = (eff, s')"
    and r: "deliver_reliable L env fin i p off d s e = (acts, e')"
  shows "dv_router (ep_delivery e') = dv_router (ep_delivery e) @ queued_items i eff s'"
    and "tb_streams (ep_table e') i = held_after i eff s'"
    and "re_sack eff = Some sk \<Longrightarrow>
      set (sent_bytes (snd (fst (send_stream_sack L (pe_sent env) sk (ucast i) p (ep_session e))))) \<subseteq> set acts"
proof -
  obtain del s1 where a: "accept_in_order (pe_now env) off [d] s = (del, s1)" by (rule prod.exhaust)
  have "dv_router (ep_delivery e') = dv_router (ep_delivery e) @ queued_items i eff s' \<and> tb_streams (ep_table e') i = held_after i eff s'
    \<and> (re_sack eff = Some sk \<longrightarrow> set (sent_bytes (snd (fst (send_stream_sack L (pe_sent env) sk (ucast i) p (ep_session e))))) \<subseteq> set acts)"
  proof (cases "received_sack (pe_now_sack env) 0 s1")
    case None
    then show ?thesis using a r rr by (auto simp: deliver_reliable_def recv_reliable_def queued_items_def held_after_def)
  next
    case (Some q)
    obtain r' ses where q: "send_stream_sack L (pe_sent env) q (ucast i) p (ep_session e) = ((True, r'), ses)"
      by (simp add: sack_state[OF k])
    let ?probe = "d = [] \<and> \<not> fin"
    let ?s2 = "if ?probe then stage_window_update_limit (recv_limit s1) s1 else s1"
    let ?s3 = "if fin then note_remote_fin off ?s2 else ?s2"
    obtain eof s4 where t: "take_in_order_fin ?s3 = (eof, s4)" by (rule prod.exhaust)
    have eff: "eff = \<lparr>re_delivered = deliver_in_order_run del, re_sack = Some q, re_eof = eof\<rparr>" "s' = s4"
      using rr by (simp_all add: recv_reliable_def Let_def a Some t)
    let ?e3 = "(set_stream i s1 e)\<lparr>ep_session := ses, ep_delivery := enqueue_run del i (ep_delivery e)\<rparr>"
    let ?e4 = "set_stream i s4 ?e3"
    let ?e5 = "?e4\<lparr>ep_delivery := deliver_charged (ItemClose i) 0 (ep_delivery ?e4)\<rparr>"
    have run: "dv_router (enqueue_run del i (ep_delivery e)) = dv_router (ep_delivery e) @ map (\<lambda>c. ItemData i c True) (deliver_in_order_run del)"
      "dv_open (enqueue_run del i (ep_delivery e))" using op by (simp_all add: enqueue_run_eq)
    have R: "acts = sent_bytes r' @ (if ?probe then [NotifyOutbound] else [])" "e' = (if eof then retire_if_retirable i s4 ?e5 else ?e4)"
      using r by (simp_all add: deliver_reliable_def Let_def a Some q t)
    have "dv_router (ep_delivery (retire_if_retirable i s4 ?e5)) = dv_router (ep_delivery ?e5)
        @ (if is_retirable s4 \<and> i > RAW_APP_STREAM_ID then [ItemRetire i] else [])"
      "tb_streams (ep_table (retire_if_retirable i s4 ?e5)) i = (if is_retirable s4 \<and> i > RAW_APP_STREAM_ID then None else Some s4)"
      by (rule retire_effect; use run in \<open>simp add: charged_router set_stream_def\<close>)+
    then show ?thesis using run eff q
      by (auto simp: R queued_items_def held_after_def charged_router)
  qed
  then show "dv_router (ep_delivery e') = dv_router (ep_delivery e) @ queued_items i eff s'"
    and "tb_streams (ep_table e') i = held_after i eff s'"
    and "re_sack eff = Some sk \<Longrightarrow>
      set (sent_bytes (snd (fst (send_stream_sack L (pe_sent env) sk (ucast i) p (ep_session e))))) \<subseteq> set acts" by blast+
qed

text \<open>What the handler does to the session before the branch on the kind of data.\<close>

definition gated :: "session \<Rightarrow> session \<Rightarrow> bool" where
  "gated s t \<longleftrightarrow> s_epoch t = s_epoch s \<and> s_is_server t = s_is_server s \<and> s_id t = s_id s \<and> s_rekey_after t = s_rekey_after s
     \<and> (s_send_packet_number t = s_send_packet_number s \<or> s_send_packet_number t = s_send_packet_number s + 1)"

lemma note_authenticated_gated:
  "gated (ep_session e) (ep_session (snd (note_authenticated L now p e)))
   \<and> s_send_packet_number (ep_session (snd (note_authenticated L now p e))) = s_send_packet_number (ep_session e)"
  by (simp add: gated_def note_authenticated_def note_migration_path_def update_activity_def apply_eps02_peer_migration_rotation_def
      advance_outbound_cid_def next_migration_path_id_def Let_def split_beta split: option.split)

lemma path_validation_gated: "gated s (snd (encrypt_path_validation L p c s))"
  by (simp add: gated_def encrypt_path_validation_def next_send_pn_def seal_frame_def encrypt_packet_def Let_def split_beta split: sum.split)

lemma path_gate_gated: "gated (ep_session e) (ep_session (snd (path_gate L env p e)))"
proof -
  have r: "gated ((ep_session e)\<lparr>s_path_registry := reg\<rparr>) t = gated (ep_session e) t" for reg t by (simp add: gated_def)
  have "gated (ep_session e) (ep_session (snd (challenge_candidate L env q e)))" for q
    using path_validation_gated[where s = "(ep_session e)\<lparr>s_path_registry := _\<rparr>"]
    by (simp add: challenge_candidate_def Let_def split_beta r split: option.split) (simp add: gated_def)
  then show ?thesis by (simp add: path_gate_def Let_def) (simp add: gated_def)
qed

subsection \<open>A reliable segment from end to end\<close>

lemma ack_flags:
  fixes rk
  defines "f \<equiv> (F_ENCRYPTED OR F_ACK) OR (if rk then F_REKEY else 0)"
  shows "flags_contains f F_ENCRYPTED" "\<not> flags_contains f F_PADDED" "flags_contains f F_ACK" "\<not> flags_contains f F_KEEPALIVE"
    "\<not> flags_contains f F_CONTROL" "\<not> flags_contains f F_COVER"
  unfolding f_def by (cases rk; simp add: flags_contains_def flag_defs)+

lemma stamped_epoch:
  "rekey_before_stamp L s = (Some x, u) \<Longrightarrow> s_epoch (snd (stamped L fl st path body s)) = s_epoch u"
  by (simp add: stamped_def next_send_pn_def seal_frame_def encrypt_packet_def Let_def split_beta split: sum.split)


definition segment_flags :: "bool \<Rightarrow> packet_flags" where
  "segment_flags fin = (if fin then F_RELIABLE OR F_FIN else F_RELIABLE)"

text \<open>The flags of a reliable segment, as the handler tests them.\<close>

definition segment_kind :: "bool \<Rightarrow> packet_flags \<Rightarrow> bool" where
  "segment_kind fin f \<longleftrightarrow> flags_contains f F_ENCRYPTED \<and> flags_contains f F_RELIABLE \<and> flags_contains f F_FIN = fin
     \<and> \<not> control_flags f \<and> \<not> flags_contains f F_COALESCED"

lemma segment_header_flags:
  "segment_kind fin ((if padded then segment_flags fin OR F_ENCRYPTED OR F_PADDED else segment_flags fin OR F_ENCRYPTED)
    OR (if rk then F_REKEY else 0))"
  "flags_contains ((if padded then segment_flags fin OR F_ENCRYPTED OR F_PADDED else segment_flags fin OR F_ENCRYPTED)
    OR (if rk then F_REKEY else 0)) F_PADDED = padded"
  by (cases fin; cases padded; cases rk; simp add: flags_contains_def flag_defs segment_kind_def control_flags_def segment_flags_def)+

lemma ucast_stream_id [simp]: "(ucast (ucast (i :: stream_id) :: u32) :: stream_id) = i"
  by (rule bit_word_eqI) (simp add: bit_unsigned_iff)

lemma segment_arrives:
  assumes L: "crypto_ok L" and s: "on_chain L secret s" and r: "on_chain L secret r"
    and ends: "s_is_server s \<noteq> s_is_server r" "s_id s = s_id r"
    and room: "s_epoch s < 255" "s_rekey_after s \<le> AEAD_MAX_INVOCATIONS" "0 < s_rekey_after s"
      "cs_recv_counter (cst_session (s_crypto r)) < AEAD_MAX_INVOCATIONS"
    and pl: "length payload \<le> MAX_APP_CHUNK" and conf: "s_rekey_unconfirmed s \<or> s_epoch s \<le> s_epoch r"
    and sent: "send_app_data L True stream payload (segment_flags fin) (Some off) s = (res, t)"
    and gap: "s_epoch r \<le> s_epoch t" "s_epoch t - s_epoch r \<le> MAX_REKEY_CATCHUP"
    and fresh: "fst (accept (s_recv_replay r) (s_send_packet_number s))"
  obtains w h c pt r' where "res = Some w" "receive_wire L w r = (Ok (packet_new h c, pt), r')"
    "unshape_plaintext (flags_contains (hdr_flags h) F_PADDED) pt = Ok (app_plaintext (Some off) payload)"
    "segment_kind fin (hdr_flags h)" "hdr_path_id h = s_send_path_id s" "hdr_session_id h = s_id s" "hdr_stream_id h = stream"
    "hdr_version h = WIRE_VERSION" "s_epoch r' = s_epoch t"
proof -
  obtain pt padded where sh: "shaped_plaintext (session_padding_policy s) (app_plaintext (Some off) payload) = (pt, padded)" by (rule prod.exhaust)
  let ?fl = "if padded then segment_flags fin OR F_ENCRYPTED OR F_PADDED else segment_flags fin OR F_ENCRYPTED"
  obtain res0 t0 where st: "stamped L ?fl stream s_send_path_id pt s = (res0, t0)" by (rule prod.exhaust)
  have rs: "res = res0" "s_epoch t = s_epoch t0"
    using sent unfolding app_stamped sh Let_def prod.case st by (auto split: option.splits)
  have len: "length pt < 2 ^ 32" using shaped_wire_bound[OF pl, of "session_padding_policy s" "Some off"] sh by simp
  obtain w u c r' where o: "res0 = Some w" "kept s u" "receive_wire L w r = (Ok (packet_new (with_path_id (with_epoch
      (header_new (s_id s) stream (s_send_packet_number s) (?fl OR (if s_rekey_unconfirmed u then F_REKEY else 0))) (s_epoch t0))
      (s_send_path_id u)) c, pt), r')" "s_epoch r' = s_epoch t0"
    by (rule stamped_arrives[OF L s r ends room len conf st _ _ fresh]) (use gap rs(2) in simp_all)
  have "s_send_path_id u = s_send_path_id s" using o(2) by (simp add: kept_def)
  then show ?thesis
    using that[OF _ o(3)] o(1,4) rs shape_round_trip[OF sh] segment_header_flags[where fin = fin and padded = padded and rk = "s_rekey_unconfirmed u"]
    by (simp add: with_path_id_def with_epoch_def header_new_def)
qed

text \<open>An accepted segment on a held stream is the whole of what the handler does after the path gate.\<close>

lemma handle_segment:
  assumes acc: "receive_wire L w (mark_path_seen (pe_now env) (hdr_path_id h) (ep_session e)) = (Ok (packet_new h c, pt), r')"
    and id: "hdr_session_id h = s_id (ep_session e)" and kind: "segment_kind fin (hdr_flags h)"
    and pad: "unshape_plaintext (flags_contains (hdr_flags h) F_PADDED) pt = Ok (app_plaintext (Some off) payload)"
    and held: "tb_streams (ep_table e) (ucast (hdr_stream_id h)) = Some local"
    and k: "kdf_ok L" "on_chain L secret (ep_session e)"
  obtains e2 pre acts e' where "on_chain L secret (ep_session e2)" "ep_table e2 = ep_table e" "ep_delivery e2 = ep_delivery e"
    "gated r' (ep_session e2)"
    "deliver_reliable L env fin (ucast (hdr_stream_id h)) (hdr_path_id h) off payload local e2 = (acts, e')"
    "parse_protected L w (ep_session e) = Ok (packet_new h c)" "handle_packet L env (packet_new h c) e = (pre @ acts, e')"
proof -
  have fl: "flags_contains (hdr_flags h) F_ENCRYPTED" "flags_contains (hdr_flags h) F_RELIABLE" "flags_contains (hdr_flags h) F_FIN = fin"
    "\<not> control_flags (hdr_flags h)" "\<not> flags_contains (hdr_flags h) F_COALESCED" using kind by (simp_all add: segment_kind_def)
  note H = handle_accepted[OF acc id fl(1) pad]
  let ?n = "note_authenticated L (pe_now env) (hdr_path_id h) (e\<lparr>ep_session := r'\<rparr>)"
  let ?g = "path_gate L env (hdr_path_id h) (snd ?n)"
  have "on_chain L secret r'" using receive_moves[OF k(1) on_chain_marked[OF k(2)] acc] by simp
  then have "on_chain L secret (ep_session (snd ?n))" by (intro note_authenticated_on_chain) simp
  then have c2: "on_chain L secret (ep_session (snd ?g))" by (rule path_gate_on_chain)
  have same: "ep_table (snd ?g) = ep_table e" "ep_delivery (snd ?g) = ep_delivery e" by (simp_all add: gate_table note_authenticated_keeps)
  obtain acts e' where d: "deliver_reliable L env fin (ucast (hdr_stream_id h)) (hdr_path_id h) off payload local (snd ?g) = (acts, e')"
    by (rule prod.exhaust)
  have tid: "(snd ?g)\<lparr>ep_table := ep_table e\<rparr> = snd ?g" unfolding same(1)[symmetric] by simp
  have "on_reliable L env (hdr_flags h) (ucast (hdr_stream_id h)) (hdr_path_id h) (app_plaintext (Some off) payload) (snd ?g) = (acts, e')"
    using held same(1) d fl(3) by (simp add: on_reliable_def admit_stream_def Let_def tid)
  then have "dispatch L env (packet_new h c) (app_plaintext (Some off) payload) (snd ?n) = (fst ?g @ acts, e')"
    using fl(2,4,5) unfolding dispatch_def Let_def control_flags_def by (simp add: packet_new_def split_beta)
  then have "handle_packet L env (packet_new h c) e = ((fst ?n @ fst ?g) @ acts, e')"
    unfolding H(2) Let_def by (simp add: split_beta)
  moreover have "gated r' (ep_session (snd ?g))"
    using note_authenticated_gated[of "e\<lparr>ep_session := r'\<rparr>" L "pe_now env" "hdr_path_id h"] path_gate_gated[of "snd ?n" L env "hdr_path_id h"]
    by (auto simp: gated_def)
  ultimately show ?thesis using that[OF c2 same _ d H(1)] by blast
qed

text \<open>An acknowledgement opens, at the end it is for, to its plaintext, on its stream and path.\<close>

lemma stamp_one_epoch:
  assumes "kdf_ok L" "on_chain L secret s" "s_epoch s < 255" "rekey_before_stamp L s = (x, u)"
  shows "s_epoch s \<le> s_epoch u \<and> s_epoch u - s_epoch s \<le> 1"
proof (cases "send_needs_rekey s")
  case True
  have "s_epoch s \<noteq> 255" using assms(3) by auto
  from rekey_ok[OF assms(1,2) this] obtain t where t: "rekey L s = (Ok (s_epoch s + 1), t)" "unat (s_epoch t) = unat (s_epoch s) + 1" by blast
  then have "u = t" using True assms(4) by (simp add: rekey_before_stamp_def)
  then show ?thesis using t(2) by (simp add: word_le_nat_alt unat_sub)
next
  case False
  then show ?thesis using assms(4) by (simp add: rekey_before_stamp_def)
qed

definition is_ack :: "packet_header \<Rightarrow> stream_id \<Rightarrow> u8 \<Rightarrow> bool" where
  "is_ack h stream path \<longleftrightarrow> flags_contains (hdr_flags h) F_ENCRYPTED \<and> flags_contains (hdr_flags h) F_ACK
     \<and> hdr_stream_id h = stream \<and> hdr_path_id h = path"

lemma ack_arrives:
  assumes L: "crypto_ok L" and v: "on_chain L secret v" and t: "on_chain L secret t"
    and ends: "s_is_server v \<noteq> s_is_server t" "s_id v = s_id t"
    and room: "s_epoch v < 255" "s_rekey_after v \<le> AEAD_MAX_INVOCATIONS" "0 < s_rekey_after v"
      "cs_recv_counter (cst_session (s_crypto t)) < AEAD_MAX_INVOCATIONS"
    and len: "length (sack_to_wire k) < 2 ^ 32" and ep: "s_epoch v = s_epoch t"
    and fresh: "fst (accept (s_recv_replay t) (s_send_packet_number v))"
  shows "\<exists>a q t'. snd (fst (send_stream_sack L True k stream path v)) = Some a
    \<and> receive_wire L a t = (Ok (q, sack_to_wire k), t') \<and> is_ack (pkt_header q) stream path"
proof -
  have kd: "kdf_ok L" using L by (simp add: crypto_ok_def)
  obtain res v' where st: "stamped L (F_ENCRYPTED OR F_ACK) stream (\<lambda>_. path) (sack_to_wire k) v = (res, v')" by (rule prod.exhaust)
  obtain u where u: "rekey_before_stamp L v = (Some (if s_rekey_unconfirmed u then F_REKEY else 0), u)" by (rule stamp_ok[OF kd v])
  have "s_epoch v' = s_epoch u" using stamped_epoch[OF u, of "F_ENCRYPTED OR F_ACK" stream "\<lambda>_. path" "sack_to_wire k"] st by simp
  then have gap: "s_epoch t \<le> s_epoch v'" "s_epoch v' - s_epoch t \<le> MAX_REKEY_CATCHUP"
    using stamp_one_epoch[OF kd v room(1) u] ep by (auto simp: word_le_nat_alt)
  have conf: "s_rekey_unconfirmed v \<or> s_epoch v \<le> s_epoch t" using ep by simp
  obtain a y c t' where o: "res = Some a" "kept v y" "s_epoch y = s_epoch v'" "receive_wire L a t = (Ok (packet_new (with_path_id (with_epoch
      (header_new (s_id v) stream (s_send_packet_number v) ((F_ENCRYPTED OR F_ACK) OR (if s_rekey_unconfirmed y then F_REKEY else 0)))
      (s_epoch v')) path) c, sack_to_wire k), t')" "s_epoch t' = s_epoch v'"
    by (rule stamped_arrives[OF L v t ends room len conf st gap fresh])
  have "snd (fst (send_stream_sack L True k stream path v)) = Some a" using o(1) st by (simp add: sack_state[OF kd v] send_bytes_def)
  moreover have "is_ack (pkt_header (packet_new (with_path_id (with_epoch
      (header_new (s_id v) stream (s_send_packet_number v) ((F_ENCRYPTED OR F_ACK) OR (if s_rekey_unconfirmed y then F_REKEY else 0)))
      (s_epoch v')) path) c)) stream path"
    using ack_flags[of "s_rekey_unconfirmed y"]
    by (simp add: is_ack_def packet_new_def with_path_id_def with_epoch_def header_new_def)
  ultimately show ?thesis using o(4) by blast
qed

text \<open>The acknowledgement of any stream is short: at most 32 ranges are named.\<close>

lemma received_sack_short:
  assumes "received_sack now d s = Some k"
  shows "length (sack_to_wire k) < 2 ^ 32"
proof -
  have "length (sack_ranges k) \<le> 32" if "from_ascending_coalesced rs delay = Some k" for rs delay
    using that by (auto simp: from_ascending_coalesced_def MAX_SACK_RANGES_def Let_def split: if_splits)
  then have "length (sack_ranges k) \<le> 32"
    using assms by (auto simp: received_sack_def from_inclusive_ranges_def Let_def split: if_splits)
  then show ?thesis by (simp add: sack_to_wire_def split_beta Let_def)
qed

lemma recv_reliable_sack: "recv_reliable now now' True fin pt s = (eff, s') \<Longrightarrow> re_sack eff = Some k \<Longrightarrow> length (sack_to_wire k) < 2 ^ 32"
  by (auto simp: recv_reliable_def Let_def split_beta dest: received_sack_short split: if_splits option.splits)

text \<open>
  C3. A reliable segment from end to end, and its acknowledgement back. A session seals a
  segment of at most one chunk; at the peer, which may be up to 16 key rotations behind, the
  datagram parses and the packet handler does exactly what the receiver of the delivery
  system does with the segment's plaintext: the same data and end of stream enter the queue
  to the application, on the stream's id and in that order, and the stream is left in the
  same state or leaves the table when both its halves have closed. When the transport takes
  it, the acknowledgement the receiver produced goes out as a datagram that the session
  which sent the segment opens to exactly that acknowledgement, on the segment's stream and
  on the path the segment came on. (The peer must hold the stream, neither side may have used
  up its keys or epochs, and each must see the other's packet number for the first time; the
  handler may use one number for a path challenge before it acknowledges.)
\<close>

theorem reliable_segment_end_to_end:
  assumes L: "crypto_ok L" and s: "on_chain L secret s" and r: "on_chain L secret (ep_session e)"
    and ends: "s_is_server s \<noteq> s_is_server (ep_session e)" "s_id s = s_id (ep_session e)"
    and room: "s_epoch s < 255" "s_rekey_after s \<le> AEAD_MAX_INVOCATIONS" "0 < s_rekey_after s"
      "cs_recv_counter (cst_session (s_crypto (ep_session e))) < AEAD_MAX_INVOCATIONS"
    and pl: "length payload \<le> MAX_APP_CHUNK" and conf: "s_rekey_unconfirmed s \<or> s_epoch s \<le> s_epoch (ep_session e)"
    and sent: "send_app_data L True stream payload (segment_flags fin) (Some off) s = (res, t)"
    and gap: "s_epoch (ep_session e) \<le> s_epoch t" "s_epoch t - s_epoch (ep_session e) \<le> MAX_REKEY_CATCHUP"
    and fresh: "fst (accept (s_recv_replay (ep_session e)) (s_send_packet_number s))"
    and held: "tb_streams (ep_table e) (ucast stream) = Some local" and op: "dv_open (ep_delivery e)"
    and rr: "recv_reliable (pe_now env) (pe_now_sack env) True fin (app_plaintext (Some off) payload) local = (eff, local')"
    and ackroom: "s_epoch t < 255" "s_rekey_after (ep_session e) \<le> AEAD_MAX_INVOCATIONS" "0 < s_rekey_after (ep_session e)"
      "cs_recv_counter (cst_session (s_crypto t)) < AEAD_MAX_INVOCATIONS"
      "fst (accept (s_recv_replay s) (s_send_packet_number (ep_session e)))"
      "fst (accept (s_recv_replay s) (s_send_packet_number (ep_session e) + 1))"
  shows "\<exists>w p acts e'. res = Some w \<and> parse_protected L w (ep_session e) = Ok p \<and> handle_packet L env p e = (acts, e')
    \<and> dv_router (ep_delivery e') = dv_router (ep_delivery e) @ queued_items (ucast stream) eff local'
    \<and> tb_streams (ep_table e') (ucast stream) = held_after (ucast stream) eff local'
    \<and> (\<forall>k. re_sack eff = Some k \<and> pe_sent env \<longrightarrow> (\<exists>a q t'. SendBytes a \<in> set acts
         \<and> receive_wire L a t = (Ok (q, sack_to_wire k), t') \<and> is_ack (pkt_header q) stream (s_send_path_id s)))"
proof -
  let ?m = "mark_path_seen (pe_now env) (s_send_path_id s) (ep_session e)"
  have k: "kdf_ok L" "mask_ok L" using L by (simp_all add: crypto_ok_def)
  obtain w h c pt r' where a: "res = Some w" "receive_wire L w ?m = (Ok (packet_new h c, pt), r')"
    "unshape_plaintext (flags_contains (hdr_flags h) F_PADDED) pt = Ok (app_plaintext (Some off) payload)"
    "segment_kind fin (hdr_flags h)" "hdr_path_id h = s_send_path_id s" "hdr_session_id h = s_id s" "hdr_stream_id h = stream"
    "s_epoch r' = s_epoch t"
    by (rule segment_arrives[OF L s on_chain_marked[OF r] _ _ room(1-3) _ pl _ sent, of "pe_now env" "s_send_path_id s"])
      (use ends room(4) conf gap fresh in simp_all)
  obtain e2 pre acts e' where b: "on_chain L secret (ep_session e2)" "ep_table e2 = ep_table e" "ep_delivery e2 = ep_delivery e"
    "gated r' (ep_session e2)"
    "deliver_reliable L env fin (ucast stream) (s_send_path_id s) off payload local e2 = (acts, e')"
    "parse_protected L w (ep_session e) = Ok (packet_new h c)" "handle_packet L env (packet_new h c) e = (pre @ acts, e')"
    by (rule handle_segment[OF _ _ a(4,3) _ k(1) r, of w env c r' local, unfolded a(5,7)]) (use a ends(2) held in simp_all)
  have "dv_open (ep_delivery e2)" using op b(3) by simp
  note R = deliver_reliable_refines[OF k(1) b(1) this rr b(5)]
  note mt = send_moves[OF k s sent]
  have "moved ?m r'" "s_send_packet_number r' = s_send_packet_number ?m" using receive_moves[OF k(1) on_chain_marked[OF r] a(2)] by blast+
  then have v: "s_is_server (ep_session e2) \<noteq> s_is_server t" "s_id (ep_session e2) = s_id t" "s_epoch (ep_session e2) = s_epoch t"
    "s_rekey_after (ep_session e2) = s_rekey_after (ep_session e)"
    "s_send_packet_number (ep_session e2) \<in> {s_send_packet_number (ep_session e), s_send_packet_number (ep_session e) + 1}"
    using b(4) mt ends a(8) by (auto simp: gated_def moved_def mark_path_seen_def)
  have rep: "s_recv_replay t = s_recv_replay s" using send_app_data_kept[of s L True stream payload "segment_flags fin" "Some off"] sent
    by (simp add: kept_def)
  have "\<exists>a q t'. SendBytes a \<in> set (pre @ acts) \<and> receive_wire L a t = (Ok (q, sack_to_wire x), t')
      \<and> is_ack (pkt_header q) stream (s_send_path_id s)" if x: "re_sack eff = Some x" "pe_sent env" for x
  proof -
    obtain a' q t' where o: "snd (fst (send_stream_sack L True x stream (s_send_path_id s) (ep_session e2))) = Some a'"
      "receive_wire L a' t = (Ok (q, sack_to_wire x), t')" "is_ack (pkt_header q) stream (s_send_path_id s)"
      using ack_arrives[OF L b(1) _ v(1,2), of x stream "s_send_path_id s"] mt v(3-5) ackroom rep recv_reliable_sack[OF rr x(1)] by auto
    then have "SendBytes a' \<in> set acts" using R(3)[OF x(1)] x(2) by (simp add: sent_bytes_def)
    then show ?thesis using o(2,3) by auto
  qed
  then show ?thesis using a(1) b(3,6,7) R(1,2) by auto
qed

lemma demo_fresh:
  "cs_send_counter (cst_session (s_crypto (demo_peer d))) = 0" "cs_recv_counter (cst_session (s_crypto (demo_peer d))) = 0"
  "s_rekey_after (demo_peer d) = REKEY_SOFT_LIMIT" "s_rekey_unconfirmed (demo_peer d) = False" "s_recv_replay (demo_peer d) = replay_new"
  "s_send_packet_number (demo_peer d) = 0"
proof -
  obtain c where "crypto_state_new demo_lib demo_secret d = Ok c" "cs_send_counter (cst_session c) = 0" "cs_recv_counter (cst_session c) = 0"
    by (rule crypto_state_new_ok[OF demo_kdf(1,3)])
  then show "cs_send_counter (cst_session (s_crypto (demo_peer d))) = 0" "cs_recv_counter (cst_session (s_crypto (demo_peer d))) = 0"
    "s_rekey_after (demo_peer d) = REKEY_SOFT_LIMIT" "s_rekey_unconfirmed (demo_peer d) = False" "s_recv_replay (demo_peer d) = replay_new"
    "s_send_packet_number (demo_peer d) = 0" by (simp_all add: demo_peer_def session_init_def)
qed

lemma demo_stamp: "rekey_before_stamp demo_lib (demo_peer d) = (Some 0, demo_peer d)"
  using demo_fresh[of d]
  by (simp add: rekey_before_stamp_def send_needs_rekey_def send_invocations_def state_send_invocations_def)

definition demo_held :: endpoint where
  "demo_held = set_stream 3 (stream_new 3) (demo_end True)"

lemma demo_held_parts:
  "ep_session demo_held = demo_peer True" "tb_streams (ep_table demo_held) 3 = Some (stream_new 3)"
  "dv_open (ep_delivery demo_held)" "dv_router (ep_delivery demo_held) = []"
  by (simp_all add: demo_held_def demo_end_def endpoint_new_def delivery_new_def)

lemma send_keeps_recv_counter:
  assumes "rekey_before_stamp L s = (Some x, s)"
  shows "cs_recv_counter (cst_session (s_crypto (snd (send_app_data L ok st pl fl off s)))) = cs_recv_counter (cst_session (s_crypto s))"
proof -
  have e: "cs_recv_counter (cst_session (s_crypto (snd (encrypt_packet L h pt y u)))) = cs_recv_counter (cst_session (s_crypto u))" for h pt y u
    by (simp add: encrypt_packet_def state_encrypt_def encrypt_with_nonce_def Let_def split_beta split: option.split)
  show ?thesis using assms e
    by (simp add: send_app_data_def next_send_pn_def Let_def split_beta split: option.split sum.split prod.split)
qed

theorem reliable_segment_end_to_end_witness:
  "\<exists>w p acts e' a q t'. fst (send_app_data demo_lib True 3 [7] (segment_flags False) (Some 0) (demo_peer False)) = Some w
    \<and> parse_protected demo_lib w (demo_peer True) = Ok p \<and> handle_packet demo_lib demo_env p demo_held = (acts, e')
    \<and> dv_router (ep_delivery e') = [ItemData 3 [7] True] \<and> SendBytes a \<in> set acts
    \<and> receive_wire demo_lib a (snd (send_app_data demo_lib True 3 [7] (segment_flags False) (Some 0) (demo_peer False)))
        = (Ok (q, sack_to_wire demo_k1), t')"
proof -
  let ?s = "demo_peer False" and ?e = demo_held
  let ?r = "send_app_data demo_lib True 3 [7] (segment_flags False) (Some 0) ?s"
  have env: "pe_now demo_env = 8" "pe_now_sack demo_env = 8" "pe_sent demo_env" by (simp_all add: demo_env_def)
  have t: "s_epoch (snd ?r) = 0" using send_epoch[OF demo_stamp] demo_peer_on_chain(4)[of False] by simp
  have i: "ucast (3 :: stream_id) = (3 :: u32)" by simp
  have f: "s_is_server ?s \<noteq> s_is_server (demo_peer True)" "s_id ?s = s_id (demo_peer True)" "s_epoch ?s < 255" "s_rekey_after ?s \<le> AEAD_MAX_INVOCATIONS" "0 < s_rekey_after ?s"
    "cs_recv_counter (cst_session (s_crypto (demo_peer True))) < AEAD_MAX_INVOCATIONS" "length [7 :: u8] \<le> MAX_APP_CHUNK"
    "s_rekey_unconfirmed ?s \<or> s_epoch ?s \<le> s_epoch (demo_peer True)"
    using demo_peer_on_chain demo_fresh by (simp_all add: AEAD_MAX_INVOCATIONS_def size_budget_defs)
  have g: "s_epoch (demo_peer True) \<le> s_epoch (snd ?r)" "s_epoch (snd ?r) - s_epoch (demo_peer True) \<le> MAX_REKEY_CATCHUP"
    "fst (accept (s_recv_replay (demo_peer True)) (s_send_packet_number ?s))"
    using demo_peer_on_chain demo_fresh t by (simp_all add: accept_def replay_new_def)
  have b: "s_epoch (snd ?r) < 255" "s_rekey_after (demo_peer True) \<le> AEAD_MAX_INVOCATIONS" "0 < s_rekey_after (demo_peer True)"
    "cs_recv_counter (cst_session (s_crypto (snd ?r))) < AEAD_MAX_INVOCATIONS"
    "fst (accept (s_recv_replay ?s) (s_send_packet_number (demo_peer True)))"
    "fst (accept (s_recv_replay ?s) (s_send_packet_number (demo_peer True) + 1))"
    using demo_fresh t send_keeps_recv_counter[OF demo_stamp] by (simp_all add: AEAD_MAX_INVOCATIONS_def accept_def replay_new_def)
  have h: "tb_streams (ep_table ?e) (ucast (3 :: stream_id)) = Some (stream_new 3)" using demo_held_parts(2) i by simp
  have rr: "recv_reliable (pe_now demo_env) (pe_now_sack demo_env) True False (app_plaintext (Some 0) [7]) (stream_new 3)
      = (\<lparr>re_delivered = [[7]], re_sack = Some demo_k1, re_eof = False\<rparr>, demo_r1)" unfolding env by (rule demo_recv(1))
  note parts = demo_held_parts(1)[symmetric]
  from reliable_segment_end_to_end[OF demo_lib_ok demo_peer_on_chain(1)[of False] demo_peer_on_chain(1)[of True, unfolded parts]
      f(1,2)[unfolded parts] f(3-5) f(6)[unfolded parts] f(7) f(8)[unfolded parts] prod.collapse[symmetric] g[unfolded parts]
      h demo_held_parts(3) rr b(1) b(2,3)[unfolded parts] b(4) b(5,6)[unfolded parts]]
  obtain w p acts e' where r: "fst ?r = Some w" "parse_protected demo_lib w (ep_session ?e) = Ok p"
    "handle_packet demo_lib demo_env p ?e = (acts, e')"
    "dv_router (ep_delivery e') = dv_router (ep_delivery ?e) @ queued_items (ucast (3 :: stream_id)) \<lparr>re_delivered = [[7]], re_sack = Some demo_k1, re_eof = False\<rparr> demo_r1"
    "\<forall>k. re_sack \<lparr>re_delivered = [[7]], re_sack = Some demo_k1, re_eof = False\<rparr> = Some k \<and> pe_sent demo_env \<longrightarrow> (\<exists>a q t'. SendBytes a \<in> set acts
       \<and> receive_wire demo_lib a (snd ?r) = (Ok (q, sack_to_wire k), t') \<and> is_ack (pkt_header q) 3 (s_send_path_id ?s))"
    by blast
  obtain a q t' where "SendBytes a \<in> set acts" "receive_wire demo_lib a (snd ?r) = (Ok (q, sack_to_wire demo_k1), t')"
    using spec[OF r(5), of demo_k1] env(3) by auto
  moreover have "dv_router (ep_delivery e') = [ItemData 3 [7] True]" using r(4) demo_held_parts(4) by (simp add: queued_items_def)
  ultimately show ?thesis using r(1-3) unfolding demo_held_parts(1) by blast
qed

subsection \<open>Migration and acknowledgements\<close>

text \<open>What opening a packet leaves of the session's migration state.\<close>

definition same_paths :: "session \<Rightarrow> session \<Rightarrow> bool" where
  "same_paths s t \<longleftrightarrow> s_send_path_id t = s_send_path_id s \<and> s_last_seen_path_id t = s_last_seen_path_id s
     \<and> s_outbound_cid_index t = s_outbound_cid_index s \<and> s_is_server t = s_is_server s \<and> s_cid_chain t = s_cid_chain s"

lemma replay_same_paths: "same_paths s (snd (replay_check pn pt s))"
  by (simp add: replay_check_def same_paths_def split_beta Let_def)

lemma receive_same_paths: "same_paths s (snd (receive_wire L w s))"
proof (cases "parse_protected L w s")
  case (Inr p)
  have "same_paths s (snd (decrypt_packet_accepting_rekey L h c x s))" for h c x
  proof (cases rule: accepting_rekey_cases[of L h c x s])
    case (current pt n s1 r s2)
    then show ?thesis using replay_same_paths[of s1 "hdr_packet_number h" pt] by (simp add: same_paths_def confirm_rekey_caught_up_def)
  next
    case (forward k crypto crypto1 pt s1 r s2)
    then show ?thesis using replay_same_paths[of s1 "hdr_packet_number h" pt]
      by (simp add: same_paths_def confirm_rekey_caught_up_def commit_forward_crypto_def)
  qed (simp add: same_paths_def)
  from this[of "pkt_header p" "pkt_payload p" "pkt_extensions p"] show ?thesis
    by (auto simp: receive_wire_def Inr split: sum.split prod.split)
qed (simp add: receive_wire_def same_paths_def)

text \<open>The path id \<open>p\<close> counts as a migration of the peer for a session that last saw \<open>q\<close>.\<close>

definition newer_path :: "u8 \<Rightarrow> u8 \<Rightarrow> bool" where
  "newer_path p q \<longleftrightarrow> p - q \<noteq> 0 \<and> p - q \<le> 128"

lemma next_path_newer: "newer_path (fst (next_migration_path_id s)) (s_send_path_id s)"
proof -
  let ?p = "s_send_path_id s"
  have "(1 :: u8) - p \<noteq> 0 \<and> 1 - p \<le> 128" if "p + 1 = 0 \<or> p + 1 = 255" for p :: u8
  proof -
    have "p = 0 - 1 \<or> p = 255 - 1" using that by (metis add_diff_cancel_right')
    then show ?thesis by auto
  qed
  then show ?thesis by (simp add: newer_path_def next_migration_path_id_def Let_def)
qed

lemma on_ack_session: "ep_session (snd (on_ack env fl i p pt e)) = ep_session e"
  by (simp add: on_ack_def retire_if_retirable_def Let_def split_beta split: sum.split option.split)

lemma client_follows:
  fixes L now p e
  assumes "\<not> s_is_server (ep_session e)" "newer_path p (s_last_seen_path_id (ep_session e))"
  defines "s' \<equiv> ep_session (snd (note_authenticated L now p e))"
  shows "s_outbound_cid_index s' = s_outbound_cid_index (ep_session e) + 1"
    and "s_send_path_id s' = fst (next_migration_path_id (ep_session e))" and "s_last_seen_path_id s' = p"
    and "SetOutboundCid (outbound_cid L (s_cid_chain (ep_session e)) (s_outbound_cid_index (ep_session e) + 1))
      \<in> set (fst (note_authenticated L now p e))" and "s_is_server s' = s_is_server (ep_session e)"
  using assms unfolding s'_def
  by (simp_all add: note_authenticated_def note_migration_path_def update_activity_def newer_path_def
      apply_eps02_peer_migration_rotation_def advance_outbound_cid_def next_migration_path_id_def Let_def split_beta linorder_not_less[symmetric])

text \<open>
  C18. An acknowledgement makes a migrated client migrate again. After a client has moved to
  a new path, the server acknowledges what arrives there on that same path id (the previous
  property); to the client that path id is newer than any it has seen from the server, so it
  takes the acknowledgement for a migration of the server: it rotates its connection id and
  moves its path id on once more. The next acknowledgement then finds it in the same
  situation, so the two ends never come to rest: each acknowledged flight uses up another
  connection id.
\<close>

theorem acknowledgement_restarts_migration:
  assumes L: "crypto_ok L" and v: "on_chain L secret v" and c: "on_chain L secret (ep_session e)"
    and ends: "s_is_server v" "\<not> s_is_server (ep_session e)" "s_id v = s_id (ep_session e)"
    and room: "s_epoch v < 255" "s_rekey_after v \<le> AEAD_MAX_INVOCATIONS" "0 < s_rekey_after v"
      "cs_recv_counter (cst_session (s_crypto (ep_session e))) < AEAD_MAX_INVOCATIONS"
    and len: "length (sack_to_wire k) < 2 ^ 32" and conf: "s_rekey_unconfirmed v \<or> s_epoch v \<le> s_epoch (ep_session e)"
    and sent: "send_stream_sack L True k stream (s_send_path_id (ep_session e)) v = ((b, res), t)"
    and gap: "s_epoch (ep_session e) \<le> s_epoch t" "s_epoch t - s_epoch (ep_session e) \<le> MAX_REKEY_CATCHUP"
    and fresh: "fst (accept (s_recv_replay (ep_session e)) (s_send_packet_number v))"
    and moved: "newer_path (s_send_path_id (ep_session e)) (s_last_seen_path_id (ep_session e))"
  shows "\<exists>w p acts e'. res = Some w \<and> parse_protected L w (ep_session e) = Ok p \<and> handle_packet L env p e = (acts, e')
    \<and> s_outbound_cid_index (ep_session e') = s_outbound_cid_index (ep_session e) + 1
    \<and> SetOutboundCid (outbound_cid L (s_cid_chain (ep_session e)) (s_outbound_cid_index (ep_session e) + 1)) \<in> set acts
    \<and> s_send_path_id (ep_session e') = fst (next_migration_path_id (ep_session e))
    \<and> newer_path (s_send_path_id (ep_session e')) (s_last_seen_path_id (ep_session e'))"
proof -
  let ?s = "ep_session e" let ?path = "s_send_path_id ?s"
  have k: "kdf_ok L" using L by (simp add: crypto_ok_def)
  obtain res0 t0 where st: "stamped L (F_ENCRYPTED OR F_ACK) stream (\<lambda>_. ?path) (sack_to_wire k) v = (res0, t0)" by (rule prod.exhaust)
  have rs: "res = res0" "t = t0" using sent unfolding sack_state[OF k v] st by (simp_all add: send_bytes_def)
  let ?m = "mark_path_seen (pe_now env) ?path ?s"
  have side: "s_is_server v \<noteq> s_is_server ?m" "s_id v = s_id ?m" "cs_recv_counter (cst_session (s_crypto ?m)) < AEAD_MAX_INVOCATIONS"
    "s_rekey_unconfirmed v \<or> s_epoch v \<le> s_epoch ?m" "s_epoch ?m \<le> s_epoch t0" "s_epoch t0 - s_epoch ?m \<le> MAX_REKEY_CATCHUP"
    "fst (accept (s_recv_replay ?m) (s_send_packet_number v))" using ends room(4) conf gap fresh rs by simp_all
  obtain w u x r' where o: "res0 = Some w" "kept v u" "s_epoch u = s_epoch t0" "receive_wire L w ?m = (Ok (packet_new (with_path_id (with_epoch
      (header_new (s_id v) stream (s_send_packet_number v) ((F_ENCRYPTED OR F_ACK) OR (if s_rekey_unconfirmed u then F_REKEY else 0)))
      (s_epoch t0)) ?path) x, sack_to_wire k), r')" "s_epoch r' = s_epoch t0"
    by (rule stamped_arrives[OF L v on_chain_marked[OF c] side(1,2) room(1-3) side(3) len side(4) st side(5-7)])
  let ?h = "with_path_id (with_epoch (header_new (s_id v) stream (s_send_packet_number v)
      ((F_ENCRYPTED OR F_ACK) OR (if s_rekey_unconfirmed u then F_REKEY else 0))) (s_epoch t0)) ?path"
  have h: "hdr_path_id ?h = ?path" "hdr_session_id ?h = s_id ?s" "hdr_flags ?h = (F_ENCRYPTED OR F_ACK) OR (if s_rekey_unconfirmed u then F_REKEY else 0)"
    using ends(3) by (simp_all add: with_path_id_def with_epoch_def header_new_def)
  note fl = ack_flags[of "s_rekey_unconfirmed u"]
  let ?n = "note_authenticated L (pe_now env) ?path (e\<lparr>ep_session := r'\<rparr>)"
  have H: "parse_protected L w ?s = Ok (packet_new ?h x)" "handle_packet L env (packet_new ?h x) e =
      (fst ?n @ fst (on_ack env (hdr_flags ?h) (ucast (hdr_stream_id ?h)) ?path (sack_to_wire k) (snd ?n)),
       snd (on_ack env (hdr_flags ?h) (ucast (hdr_stream_id ?h)) ?path (sack_to_wire k) (snd ?n)))"
    using handle_accepted[of L w env ?h e x "sack_to_wire k" r' "sack_to_wire k"] o(4) fl h
    by (simp_all add: unshape_plaintext_def dispatch_def packet_new_def Let_def split_beta)
  have same: "same_paths ?s r'" using receive_same_paths[of ?m L w] o(4) by (simp add: same_paths_def mark_path_seen_def)
  note F = client_follows[of "e\<lparr>ep_session := r'\<rparr>" ?path L "pe_now env"]
  have nx: "fst (next_migration_path_id r') = fst (next_migration_path_id ?s)"
    using same by (simp add: next_migration_path_id_def same_paths_def Let_def)
  show ?thesis using H o(1) rs(1) F same nx ends(2) moved next_path_newer[of ?s]
    by (simp add: on_ack_session same_paths_def)
qed

definition demo_mover :: endpoint where
  "demo_mover = (demo_end False)\<lparr>ep_session := snd (next_migration_path_id (demo_peer False))\<rparr>"

definition demo_sack :: sack where
  "demo_sack = \<lparr>largest_acked = 0, ack_delay_us = 0, sack_ranges = [(0, 0)]\<rparr>"

lemma demo_mover_parts:
  "on_chain demo_lib demo_secret (ep_session demo_mover)" "\<not> s_is_server (ep_session demo_mover)" "s_id (ep_session demo_mover) = replicate 32 1"
  "s_epoch (ep_session demo_mover) = 0" "s_recv_replay (ep_session demo_mover) = replay_new" "s_send_path_id (ep_session demo_mover) = 1"
  "s_last_seen_path_id (ep_session demo_mover) = 0" "cs_recv_counter (cst_session (s_crypto (ep_session demo_mover))) = 0"
  "s_outbound_cid_index (ep_session demo_mover) = 0"
proof -
  have p: "s_send_path_id (demo_peer False) = 0" "s_last_seen_path_id (demo_peer False) = 0" "s_outbound_cid_index (demo_peer False) = 0"
    by (simp_all add: demo_peer_def session_init_def)
  have m: "ep_session demo_mover = (demo_peer False)\<lparr>s_send_path_id := 1\<rparr>"
    by (simp add: demo_mover_def next_migration_path_id_def p)
  show "on_chain demo_lib demo_secret (ep_session demo_mover)" unfolding m by (rule on_chain_cong[OF demo_peer_on_chain(1)[of False]]) simp_all
  show "\<not> s_is_server (ep_session demo_mover)" "s_id (ep_session demo_mover) = replicate 32 1"
    "s_epoch (ep_session demo_mover) = 0" "s_recv_replay (ep_session demo_mover) = replay_new" "s_send_path_id (ep_session demo_mover) = 1"
    "s_last_seen_path_id (ep_session demo_mover) = 0" "cs_recv_counter (cst_session (s_crypto (ep_session demo_mover))) = 0"
    "s_outbound_cid_index (ep_session demo_mover) = 0"
    unfolding m using demo_peer_on_chain[of False] demo_fresh[of False] p by simp_all
qed

theorem acknowledgement_restarts_migration_witness:
  "\<exists>w p acts e'. snd (fst (send_stream_sack demo_lib True demo_sack 1 1 (demo_peer True))) = Some w
    \<and> parse_protected demo_lib w (ep_session demo_mover) = Ok p \<and> handle_packet demo_lib demo_env p demo_mover = (acts, e')
    \<and> s_outbound_cid_index (ep_session e') = 1"
proof -
  let ?r = "send_stream_sack demo_lib True demo_sack 1 1 (demo_peer True)"
  have t: "s_epoch (snd ?r) = 0"
    using stamped_epoch[OF demo_stamp[of True]] demo_peer_on_chain(4)[of True] by (simp add: sack_state[OF demo_kdf(1) demo_peer_on_chain(1)])
  have r: "send_stream_sack demo_lib True demo_sack 1 (s_send_path_id (ep_session demo_mover)) (demo_peer True)
      = ((fst (fst ?r), snd (fst ?r)), snd ?r)" by (simp add: demo_mover_parts)
  have len: "length (sack_to_wire demo_sack) < 2 ^ 32" by (simp add: demo_sack_def sack_to_wire_def)
  have mv: "newer_path (s_send_path_id (ep_session demo_mover)) (s_last_seen_path_id (ep_session demo_mover))"
    by (simp add: newer_path_def demo_mover_parts)
  show ?thesis
    using acknowledgement_restarts_migration[OF demo_lib_ok demo_peer_on_chain(1)[of True] demo_mover_parts(1) _ demo_mover_parts(2) _ _ _ _ _ len _ r _ _ _ mv,
        of demo_env] demo_peer_on_chain[of True] demo_fresh[of True] demo_mover_parts t
    by (force simp: AEAD_MAX_INVOCATIONS_def accept_def replay_new_def)
qed

lemma unat_neg_u8: "0 < unat (q :: u8) \<Longrightarrow> unat (- q) = 256 - unat q"
proof -
  assume q: "0 < unat q"
  have "(unat (- q) + unat q) mod 256 = 0" using unat_word_ariths(1)[of "- q" q] by simp
  then obtain k where k: "unat (- q) + unat q = 256 * k" by (auto simp: mod_eq_0_iff_dvd)
  have b: "unat (- q) < 256" "unat q < 256" using unsigned_less[of "- q"] unsigned_less[of q] by simp_all
  then have "256 * k < 512" "0 < 256 * k" using q k by linarith+
  then have "k = 1" by simp
  then show ?thesis using k by simp
qed

text \<open>
  C19. A window update strands a peer that has migrated often. A window update carries path
  id 0 whatever path its sender is on. To a receiver that has followed the peer to path ids
  128 to 253, path 0 counts as a migration that wraps around: it moves its window of
  connection ids up by the distance to 256, although the peer still uses the id it used
  before, and that id is then outside the window.
\<close>

theorem window_update_strands_peer:
  assumes k: "kdf_ok L" "mask_ok L" and s: "on_chain L secret s" and r: "on_chain L secret (ep_session e)"
    and ends: "s_is_server s \<noteq> s_is_server (ep_session e)" "s_id s = s_id (ep_session e)"
    and sent: "send_window_update L ok stream limit s = (Some w, t)"
    and far: "128 \<le> s_last_seen_path_id (ep_session e)" "s_last_seen_path_id (ep_session e) \<le> 253"
    and step: "s_outbound_cid_index s = s_inbound_cid_highest_seen (ep_session e)" "unat (s_outbound_cid_index s) < 2 ^ 62"
  shows "\<exists>p. parse_protected L w (ep_session e) = Ok p \<and>
    (let s' = ep_session (snd (note_authenticated L now (hdr_path_id (pkt_header p)) e))
     in s_outbound_cid_index t \<notin> set (map fst (inbound_window L (s_cid_chain s') (s_inbound_cid_highest_seen s')
          CID_WINDOW_TRAILING CID_WINDOW_LEADING)))"
proof -
  have "stamped L (F_ENCRYPTED OR F_WINDOW_UPDATE) stream (\<lambda>_. 0) (to_be_bytes limit) s = (Some w, t)"
    using sent_cases[OF sent[unfolded stamped_frames(1)]] .
  moreover obtain x u where u: "rekey_before_stamp L s = (Some x, u)" "on_chain L secret u" "moved s u"
    by (rule stamp_ok[OF k(1) s]) blast
  ultimately obtain h where h: "seal_frame L h (to_be_bytes limit) (u\<lparr>s_send_packet_number := s_send_packet_number u + 1\<rparr>) = (Some w, t)"
    "hdr_path_id h = 0" "hdr_session_id h = s_id (ep_session e)"
    using ends(2) by (auto simp: stamped_def next_send_pn_def Let_def with_path_id_def with_epoch_def header_new_def)
  have "on_chain L secret (u\<lparr>s_send_packet_number := s_send_packet_number u + 1\<rparr>)" by (rule on_chain_cong[OF u(2)]) simp_all
  from seal_frame_parses[OF k this r _ h(3,1)] obtain c where p: "parse_protected L w (ep_session e) = Ok (packet_new h c)"
    using u(3) ends(1) by (auto simp: moved_def)
  have t: "s_outbound_cid_index t = s_outbound_cid_index s"
    using emit_kept[of s L "FWindow ok stream limit"] sent by (simp add: kept_def)
  let ?q = "s_last_seen_path_id (ep_session e)" and ?s' = "ep_session (snd (note_authenticated L now 0 e))"
  have "unat ?q \<ge> 128" "unat ?q \<le> 253" using far by (simp_all add: word_le_nat_alt)
  then have d: "unat (- ?q) = 256 - unat ?q" by (intro unat_neg_u8) simp
  then have fw: "- ?q \<noteq> 0" "- ?q \<le> 128" using \<open>unat ?q \<ge> 128\<close> \<open>unat ?q \<le> 253\<close>
    by (simp_all add: word_le_nat_alt unat_eq_zero[symmetric])
  have "s_inbound_cid_highest_seen ?s' = s_inbound_cid_highest_seen (ep_session e) + ucast (- ?q)"
    using fw by (simp add: note_authenticated_def note_migration_path_def update_activity_def Let_def split_beta
        apply_eps02_peer_migration_rotation_def advance_outbound_cid_def next_migration_path_id_def linorder_not_less[symmetric])
  moreover have "unat (ucast (- ?q) :: u64) = 256 - unat ?q" using d by (simp add: unsigned_ucast_eq take_bit_nat_eq_self)
  ultimately have hi: "unat (s_inbound_cid_highest_seen ?s') = unat (s_outbound_cid_index t) + (256 - unat ?q)"
    using step t by (simp add: unat_word_ariths(1))
  have "unat (s_outbound_cid_index t) + (256 - unat ?q) < 2 ^ 63" using step(2) t by simp
  from window_holds_iff[OF refl hi this, of L "s_cid_chain ?s'"] show ?thesis
    using p h(2) \<open>unat ?q \<le> 253\<close> by (simp add: packet_new_def Let_def)
qed

definition demo_roamer :: session where
  "demo_roamer = (demo_peer False)\<lparr>s_outbound_cid_index := 200, s_send_path_id := 200\<rparr>"

definition demo_follower :: endpoint where
  "demo_follower = (demo_end True)\<lparr>ep_session := (demo_peer True)\<lparr>s_last_seen_path_id := 200, s_inbound_cid_highest_seen := 200\<rparr>\<rparr>"

lemma demo_roaming:
  "on_chain demo_lib demo_secret demo_roamer" "on_chain demo_lib demo_secret (ep_session demo_follower)"
  "s_is_server demo_roamer \<noteq> s_is_server (ep_session demo_follower)" "s_id demo_roamer = s_id (ep_session demo_follower)"
proof -
  show "on_chain demo_lib demo_secret demo_roamer" unfolding demo_roamer_def
    by (rule on_chain_cong[OF demo_peer_on_chain(1)[of False]]) simp_all
  show "on_chain demo_lib demo_secret (ep_session demo_follower)"
    by (rule on_chain_cong[OF demo_peer_on_chain(1)[of True]]) (simp_all add: demo_follower_def)
qed (simp_all add: demo_roamer_def demo_follower_def demo_peer_on_chain)

lemma demo_roamer_stamp: "rekey_before_stamp demo_lib demo_roamer = (Some 0, demo_roamer)"
  using demo_fresh[of False]
  by (simp add: rekey_before_stamp_def send_needs_rekey_def send_invocations_def state_send_invocations_def demo_roamer_def)

theorem window_update_strands_peer_witness:
  "\<exists>w t p. send_window_update demo_lib True 1 65536 demo_roamer = (Some w, t) \<and> parse_protected demo_lib w (ep_session demo_follower) = Ok p
    \<and> (let s' = ep_session (snd (note_authenticated demo_lib 8 (hdr_path_id (pkt_header p)) demo_follower))
       in s_outbound_cid_index t \<notin> set (map fst (inbound_window demo_lib (s_cid_chain s') (s_inbound_cid_highest_seen s')
            CID_WINDOW_TRAILING CID_WINDOW_LEADING)))"
proof -
  let ?r = "stamped demo_lib (F_ENCRYPTED OR F_WINDOW_UPDATE) 1 (\<lambda>_. 0) (to_be_bytes (65536 :: u64)) demo_roamer"
  have e: "s_epoch (snd ?r) = 0" using stamped_epoch[OF demo_roamer_stamp] demo_peer_on_chain(4)[of False] by (simp add: demo_roamer_def)
  have f: "s_epoch demo_roamer < 255" "s_rekey_after demo_roamer \<le> AEAD_MAX_INVOCATIONS" "0 < s_rekey_after demo_roamer"
    "cs_recv_counter (cst_session (s_crypto (ep_session demo_follower))) < AEAD_MAX_INVOCATIONS" "length (to_be_bytes (65536 :: u64)) < 2 ^ 32"
    "s_rekey_unconfirmed demo_roamer \<or> s_epoch demo_roamer \<le> s_epoch (ep_session demo_follower)"
    "s_epoch (ep_session demo_follower) \<le> s_epoch (snd ?r)" "s_epoch (snd ?r) - s_epoch (ep_session demo_follower) \<le> MAX_REKEY_CATCHUP"
    "fst (accept (s_recv_replay (ep_session demo_follower)) (s_send_packet_number demo_roamer))"
    using demo_peer_on_chain demo_fresh e
    by (simp_all add: demo_roamer_def demo_follower_def AEAD_MAX_INVOCATIONS_def
        accept_def replay_new_def)
  obtain w where "fst ?r = Some w"
    by (rule stamped_arrives[OF demo_lib_ok demo_roaming f(1-6) prod.collapse[symmetric] f(7-9)]) blast
  then obtain t where w: "send_window_update demo_lib True 1 65536 demo_roamer = (Some w, t)"
    by (cases ?r) (simp add: stamped_frames(1) send_bytes_def)
  show ?thesis
    using window_update_strands_peer[OF demo_kdf(1,2) demo_roaming w, of 8] w by (auto simp: demo_roamer_def demo_follower_def)
qed

end
