(* ===== verification/Udp_Datagram.thy ===== *)
theory Udp_Datagram
  imports Shaping
begin

text \<open>
  The PhantomUDP datagram layer: the outer header (\<open>phantom_udp/envelope.rs\<close>), the
  split of a frame into datagrams and back (\<open>phantom_udp/datagram.rs\<close>), and the bounded
  reassembly of fragments (\<open>transport/fragmentation.rs\<close>). The hash maps are association
  lists with distinct keys, in any order. The clock is an argument.
\<close>

subsection \<open>The outer header\<close>

abbreviation CONN_ID_LEN :: nat where "CONN_ID_LEN \<equiv> 8"
abbreviation FRAG_SUBHDR_LEN :: nat where "FRAG_SUBHDR_LEN \<equiv> 8"
definition MAX_INNER_FRAG_CHUNK :: nat where "MAX_INNER_FRAG_CHUNK = PATH_MTU - DATAGRAM_HDR_LEN - FRAG_SUBHDR_LEN"
abbreviation TYPE_SHIFT :: nat where "TYPE_SHIFT \<equiv> 6"
abbreviation FRAG_BIT :: u8 where "FRAG_BIT \<equiv> 0b00100000"
abbreviation RESERVED_MASK :: u8 where "RESERVED_MASK \<equiv> 0b00011111"

datatype packet_type = Initial | OneRtt | Retry

record outer_header =
  oh_ty :: packet_type
  oh_fragmented :: bool
  oh_cid :: bytes

datatype envelope_error = EnvTruncated | EnvReservedType | EnvReservedBitsSet | EnvFrameTooLarge

definition encode_header :: "packet_type \<Rightarrow> bool \<Rightarrow> bytes \<Rightarrow> bytes" where
  "encode_header ty fragmented cid =
     (let type_bits = (case ty of Initial \<Rightarrow> 0b00 | OneRtt \<Rightarrow> 0b01 | Retry \<Rightarrow> (0b10 :: u8));
          fl = push_bit TYPE_SHIFT type_bits;
          fl = (if fragmented then fl OR FRAG_BIT else fl)
      in fl # cid)"

definition decode_header :: "bytes \<Rightarrow> (envelope_error, outer_header \<times> bytes) result" where
  "decode_header buf =
     (if length buf < DATAGRAM_HDR_LEN then Err EnvTruncated
      else
        let fl = buf ! 0 in
        if fl AND RESERVED_MASK \<noteq> 0 then Err EnvReservedBitsSet
        else
          let ty = (if drop_bit TYPE_SHIFT fl = 0b00 then Some Initial else if drop_bit TYPE_SHIFT fl = 0b01 then Some OneRtt
                    else if drop_bit TYPE_SHIFT fl = 0b10 then Some Retry else None)
          in case ty of
               None \<Rightarrow> Err EnvReservedType
             | Some ty \<Rightarrow> Ok (\<lparr>oh_ty = ty, oh_fragmented = (fl AND FRAG_BIT \<noteq> 0), oh_cid = take CONN_ID_LEN (drop 1 buf)\<rparr>,
                             drop DATAGRAM_HDR_LEN buf))"

subsection \<open>Reassembly\<close>

abbreviation MAX_UDP_PAYLOAD :: nat where "MAX_UDP_PAYLOAD \<equiv> 1200"
abbreviation MAX_REASSEMBLED_LEN :: nat where "MAX_REASSEMBLED_LEN \<equiv> 256 * 1024"
abbreviation MAX_TOTAL_CHUNKS :: u16 where "MAX_TOTAL_CHUNKS \<equiv> word_of_nat (MAX_REASSEMBLED_LEN div MAX_UDP_PAYLOAD + 1)"
abbreviation MAX_CONCURRENT_ASSEMBLIES :: nat where "MAX_CONCURRENT_ASSEMBLIES \<equiv> 256"

record crypto_frame =
  cf_session_id :: bytes
  cf_packet_id :: u32
  cf_chunk_index :: u16
  cf_total_chunks :: u16
  cf_payload :: bytes

record assembly_state =
  as_chunks :: "(u16 \<times> bytes) list"
  as_total_chunks :: u16
  as_last_update :: nanos

type_synonym fragment_assembler = "((bytes \<times> u32) \<times> assembly_state) list"

definition assembler_new :: fragment_assembler where "assembler_new = []"

definition evict_stalest :: "fragment_assembler \<Rightarrow> fragment_assembler" where
  "evict_stalest asm =
     (if asm = [] then []
      else let stalest_key = fst (arg_min_list (\<lambda>e. as_last_update (snd e)) asm)
           in filter (\<lambda>e. fst e \<noteq> stalest_key) asm)"

definition insert_if_absent :: "u16 \<Rightarrow> bytes \<Rightarrow> (u16 \<times> bytes) list \<Rightarrow> (u16 \<times> bytes) list" where
  "insert_if_absent i payload chunks = (if map_of chunks i = None then chunks @ [(i, payload)] else chunks)"

definition collect_chunks :: "assembly_state \<Rightarrow> bytes option" where
  "collect_chunks st =
     map_option concat (those (map (\<lambda>i. map_of (as_chunks st) (word_of_nat i)) [0..<unat (as_total_chunks st)]))"

definition process_chunk :: "nanos \<Rightarrow> crypto_frame \<Rightarrow> fragment_assembler \<Rightarrow> bytes option \<times> fragment_assembler" where
  "process_chunk now frame asm =
     (if cf_total_chunks frame = 0 \<or> cf_total_chunks frame > MAX_TOTAL_CHUNKS
         \<or> cf_chunk_index frame \<ge> cf_total_chunks frame \<or> length (cf_payload frame) > MAX_UDP_PAYLOAD
      then (None, asm)
      else
        let key = (cf_session_id frame, cf_packet_id frame);
            asm1 = (if map_of asm key = None \<and> length asm \<ge> MAX_CONCURRENT_ASSEMBLIES then evict_stalest asm else asm);
            st = (case map_of asm1 key of
                    Some st \<Rightarrow> st
                  | None \<Rightarrow> \<lparr>as_chunks = [], as_total_chunks = cf_total_chunks frame, as_last_update = now\<rparr>);
            st' = st\<lparr>as_last_update := now,
                     as_chunks := insert_if_absent (cf_chunk_index frame) (cf_payload frame) (as_chunks st)\<rparr>;
            rest = filter (\<lambda>e. fst e \<noteq> key) asm1
        in if length (as_chunks st') = unat (as_total_chunks st') then (collect_chunks st', rest)
           else (None, (key, st') # rest))"

definition get_nacks_and_evict :: "nanos \<Rightarrow> fragment_assembler \<Rightarrow> (bytes \<times> u32 \<times> u16 list) list \<times> fragment_assembler" where
  "get_nacks_and_evict now asm =
     (let missing = (\<lambda>st. filter (\<lambda>i. map_of (as_chunks st) i = None) (map word_of_nat [0..<unat (as_total_chunks st)]));
          dead = (\<lambda>st. now - as_last_update st > millis 5000);
          nacks = concat (map (\<lambda>(key, st). if \<not> dead st \<and> now - as_last_update st > millis 50 \<and> missing st \<noteq> []
                                           then [(fst key, snd key, missing st)] else []) asm)
      in (nacks, filter (\<lambda>(key, st). \<not> dead st) asm))"

text \<open>\<open>slice::chunks\<close>.\<close>

function chunks_of :: "nat \<Rightarrow> bytes \<Rightarrow> bytes list" where
  "chunks_of n xs = (if xs = [] \<or> n = 0 then [] else take n xs # chunks_of n (drop n xs))"
  by pat_completeness auto
termination by (relation "measure (\<lambda>(n, xs). length xs)") auto

declare chunks_of.simps [simp del]

definition fragment_payload :: "bytes \<Rightarrow> u32 \<Rightarrow> bytes \<Rightarrow> crypto_frame list" where
  "fragment_payload session_id packet_id payload =
     (let chunks = chunks_of MAX_UDP_PAYLOAD payload; total_chunks = (word_of_nat (length chunks) :: u16)
      in map (\<lambda>(i, chunk). \<lparr>cf_session_id = session_id, cf_packet_id = packet_id, cf_chunk_index = word_of_nat i,
                            cf_total_chunks = total_chunks, cf_payload = chunk\<rparr>) (enumerate 0 chunks))"

subsection \<open>Frames and datagrams\<close>

definition cid16 :: "bytes \<Rightarrow> bytes" where
  "cid16 cid = cid @ replicate (16 - CONN_ID_LEN) 0"

definition encode_datagrams :: "packet_type \<Rightarrow> bytes \<Rightarrow> u32 \<Rightarrow> bytes \<Rightarrow> (envelope_error, bytes list) result" where
  "encode_datagrams ty cid packet_id frame =
     (if length frame \<le> MAX_INNER_UNFRAGMENTED then Ok [encode_header ty False cid @ frame]
      else
        let chunks = chunks_of MAX_INNER_FRAG_CHUNK frame in
        if length chunks > unat MAX_TOTAL_CHUNKS then Err EnvFrameTooLarge
        else let total = (word_of_nat (length chunks) :: u16)
             in Ok (map (\<lambda>(i, chunk). encode_header ty True cid @ to_be_bytes packet_id @ to_be_bytes (word_of_nat i :: u16)
                           @ to_be_bytes total @ chunk) (enumerate 0 chunks)))"

definition wire_len :: "nat \<Rightarrow> nat" where
  "wire_len frame_len =
     (if frame_len \<le> MAX_INNER_UNFRAGMENTED then DATAGRAM_HDR_LEN + frame_len
      else let chunks = (frame_len + MAX_INNER_FRAG_CHUNK - 1) div MAX_INNER_FRAG_CHUNK
           in frame_len + chunks * (DATAGRAM_HDR_LEN + FRAG_SUBHDR_LEN))"

definition push_datagram ::
  "nanos \<Rightarrow> bytes \<Rightarrow> fragment_assembler \<Rightarrow> (envelope_error, outer_header \<times> bytes option) result \<times> fragment_assembler" where
  "push_datagram now datagram asm =
     (case decode_header datagram of
        Inl e \<Rightarrow> (Err e, asm)
      | Inr (hdr, rest) \<Rightarrow>
          if \<not> oh_fragmented hdr then (Ok (hdr, Some rest), asm)
          else if length rest < FRAG_SUBHDR_LEN then (Err EnvTruncated, asm)
          else
            let frame = \<lparr>cf_session_id = cid16 (oh_cid hdr), cf_packet_id = from_be_bytes (take 4 rest),
                         cf_chunk_index = from_be_bytes (take 2 (drop 4 rest)),
                         cf_total_chunks = from_be_bytes (take 2 (drop 6 rest)), cf_payload = drop FRAG_SUBHDR_LEN rest\<rparr>;
                (r, asm') = process_chunk now frame asm
            in (Ok (hdr, r), asm'))"

lemmas udp_sizes = MAX_INNER_FRAG_CHUNK_def PATH_MTU_def DATAGRAM_HDR_LEN_def
  MAX_INNER_UNFRAGMENTED_def

lemma unat_max_chunks [simp]: "unat MAX_TOTAL_CHUNKS = 219"
  by (simp add: udp_sizes)

subsection \<open>Chunks\<close>

lemma concat_chunks: "0 < n \<Longrightarrow> concat (chunks_of n xs) = xs"
  by (induction n xs rule: chunks_of.induct) (subst chunks_of.simps, simp)

lemma chunk_length: "c \<in> set (chunks_of n xs) \<Longrightarrow> length c \<le> n \<and> c \<noteq> []"
  by (induction n xs rule: chunks_of.induct) (subst (asm) (2) chunks_of.simps, auto split: if_splits)

lemma chunks_count:
  assumes "0 < n"
  shows "length (chunks_of n xs) = (length xs + n - 1) div n"
  using assms
proof (induction n xs rule: chunks_of.induct)
  case (1 n xs)
  have step: "Suc ((l - n + n - 1) div n) = (l + n - 1) div n" if "0 < l" for l
  proof (cases "n \<le> l")
    case True
    then have "l + n - 1 = (l - n + n - 1) + n" using "1.prems" by linarith
    then show ?thesis using div_add_self2[of n "l - n + n - 1"] "1.prems" by (simp only: neq0_conv Suc_eq_plus1)
  next
    case False
    have "(l + n - 1) div n = Suc ((l - 1) div n)" using div_add_self2[of n "l - 1"] that "1.prems" by (simp add: add.commute)
    then show ?thesis using False "1.prems" by (simp add: less_imp_diff_less)
  qed
  show ?case
  proof (cases "xs = []")
    case False
    have "length (chunks_of n xs) = Suc (length (chunks_of n (drop n xs)))"
      using False "1.prems" by (subst chunks_of.simps) simp
    then show ?thesis using "1.IH" "1.prems" False step[of "length xs"] by simp
  qed (use "1.prems" in \<open>simp add: chunks_of.simps\<close>)
qed

subsection \<open>The assembler stays within its bounds\<close>

definition assembly_ok :: "assembly_state \<Rightarrow> bool" where
  "assembly_ok st \<longleftrightarrow> unat (as_total_chunks st) \<le> unat MAX_TOTAL_CHUNKS \<and> distinct (map fst (as_chunks st))
     \<and> length (as_chunks st) < unat (as_total_chunks st) \<and> (\<forall>c \<in> set (as_chunks st). length (snd c) \<le> MAX_UDP_PAYLOAD)"

definition assembler_ok :: "fragment_assembler \<Rightarrow> bool" where
  "assembler_ok asm \<longleftrightarrow> distinct (map fst asm) \<and> length asm \<le> MAX_CONCURRENT_ASSEMBLIES \<and> (\<forall>e \<in> set asm. assembly_ok (snd e))"

lemma assembler_filter: "assembler_ok asm \<Longrightarrow> assembler_ok (filter P asm)"
  unfolding assembler_ok_def by (auto simp: distinct_map_filter intro: order.trans[OF length_filter_le])

lemma evict_shrinks: "assembler_ok asm \<Longrightarrow> asm \<noteq> [] \<Longrightarrow> assembler_ok (evict_stalest asm) \<and> length (evict_stalest asm) < length asm"
  using arg_min_list_in[of asm "\<lambda>e. as_last_update (snd e)"]
  by (auto simp: evict_stalest_def Let_def assembler_filter intro!: length_filter_key)

lemma insert_absent_ok:
  "distinct (map fst cs) \<Longrightarrow> distinct (map fst (insert_if_absent i p cs))"
  "length (insert_if_absent i p cs) \<le> Suc (length cs)"
  "set (insert_if_absent i p cs) \<subseteq> insert (i, p) (set cs)"
  by (auto simp: insert_if_absent_def map_of_eq_None_iff)

lemma slot_ok:
  fixes frame now
  defines "st A \<equiv> (case map_of A (cf_session_id frame, cf_packet_id frame) of Some st \<Rightarrow> st
    | None \<Rightarrow> \<lparr>as_chunks = [], as_total_chunks = cf_total_chunks frame, as_last_update = now\<rparr>)"
  assumes ok: "assembler_ok A" and total: "cf_total_chunks frame \<noteq> 0" "\<not> cf_total_chunks frame > MAX_TOTAL_CHUNKS"
  shows "assembly_ok (st A)"
proof (cases "map_of A (cf_session_id frame, cf_packet_id frame)")
  case None
  have "unat (cf_total_chunks frame) \<le> unat MAX_TOTAL_CHUNKS" using total(2) by (simp only: word_le_nat_alt not_less)
  then show ?thesis using None total(1) by (simp add: st_def assembly_ok_def unat_gt_0)
next
  case (Some x)
  then show ?thesis using ok by (auto simp: st_def assembler_ok_def dest!: map_of_SomeD)
qed

lemma parked_ok:
  assumes "assembly_ok st" "length p \<le> MAX_UDP_PAYLOAD"
    and "length (insert_if_absent i p (as_chunks st)) \<noteq> unat (as_total_chunks st)"
  shows "assembly_ok (st\<lparr>as_last_update := now, as_chunks := insert_if_absent i p (as_chunks st)\<rparr>)"
  using assms insert_absent_ok(1)[of "as_chunks st" i p] insert_absent_ok(2,3)[of i p "as_chunks st"]
  unfolding assembly_ok_def by fastforce

lemma process_chunk_ok:
  assumes ok: "assembler_ok asm"
  shows "assembler_ok (snd (process_chunk now frame asm))"
proof (cases "cf_total_chunks frame = 0 \<or> cf_total_chunks frame > MAX_TOTAL_CHUNKS
    \<or> cf_chunk_index frame \<ge> cf_total_chunks frame \<or> length (cf_payload frame) > MAX_UDP_PAYLOAD")
  case False
  let ?key = "(cf_session_id frame, cf_packet_id frame)"
  let ?asm1 = "if map_of asm ?key = None \<and> length asm \<ge> MAX_CONCURRENT_ASSEMBLIES then evict_stalest asm else asm"
  let ?st = "case map_of ?asm1 ?key of Some st \<Rightarrow> st
    | None \<Rightarrow> \<lparr>as_chunks = [], as_total_chunks = cf_total_chunks frame, as_last_update = now\<rparr>"
  let ?st' = "?st\<lparr>as_last_update := now, as_chunks := insert_if_absent (cf_chunk_index frame) (cf_payload frame) (as_chunks ?st)\<rparr>"
  let ?rest = "filter (\<lambda>e. fst e \<noteq> ?key) ?asm1"
  have full: "asm \<noteq> []" if "length asm \<ge> MAX_CONCURRENT_ASSEMBLIES" using that by (auto simp: udp_sizes)
  have ok1: "assembler_ok ?asm1" using ok evict_shrinks[OF ok full] by simp
  have rest: "assembler_ok ?rest" by (rule assembler_filter[OF ok1])
  have room: "length ?rest < MAX_CONCURRENT_ASSEMBLIES"
  proof (cases "map_of asm ?key")
    case None
    then have "length ?asm1 < MAX_CONCURRENT_ASSEMBLIES"
      using ok evict_shrinks[OF ok full] by (cases "length asm \<ge> MAX_CONCURRENT_ASSEMBLIES") (auto simp: assembler_ok_def)
    then show ?thesis by (rule order.strict_trans1[OF length_filter_le])
  next
    case (Some st)
    then have "?key \<in> fst ` set ?asm1" by (auto dest: map_of_SomeD intro: rev_image_eqI)
    from length_filter_key[OF this] show ?thesis using ok1 by (simp add: assembler_ok_def)
  qed
  have "assembly_ok ?st" using slot_ok[OF ok1] False by blast
  then have "assembly_ok ?st'" if "length (as_chunks ?st') \<noteq> unat (as_total_chunks ?st')"
    using parked_ok[of ?st "cf_payload frame"] that False by simp
  moreover have "?key \<notin> set (map fst ?rest)" by auto
  ultimately have "assembler_ok ((?key, ?st') # ?rest)" if "length (as_chunks ?st') \<noteq> unat (as_total_chunks ?st')"
    using rest room that unfolding assembler_ok_def by simp
  then show ?thesis using rest False unfolding process_chunk_def Let_def by simp
qed (use ok in \<open>simp add: process_chunk_def\<close>)

lemma push_datagram_ok: "assembler_ok asm \<Longrightarrow> assembler_ok (snd (push_datagram now d asm))"
  by (auto simp: push_datagram_def Let_def split_beta process_chunk_ok split: sum.split)

definition held_bytes :: "fragment_assembler \<Rightarrow> nat" where
  "held_bytes asm = sum_list (map (\<lambda>e. sum_list (map (\<lambda>c. length (snd c)) (as_chunks (snd e)))) asm)"

lemma sum_list_le: "(\<And>x. x \<in> set xs \<Longrightarrow> f x \<le> (b :: nat)) \<Longrightarrow> sum_list (map f xs) \<le> length xs * b"
  by (induction xs) (auto intro: add_mono)

lemma held_bytes_bound:
  assumes "assembler_ok asm"
  shows "held_bytes asm \<le> MAX_CONCURRENT_ASSEMBLIES * MAX_REASSEMBLED_LEN"
proof -
  have each: "sum_list (map (\<lambda>c. length (snd c)) (as_chunks (snd e))) \<le> MAX_REASSEMBLED_LEN" if "e \<in> set asm" for e
  proof -
    have ok: "assembly_ok (snd e)" using assms that by (simp add: assembler_ok_def)
    have "sum_list (map (\<lambda>c. length (snd c)) (as_chunks (snd e))) \<le> length (as_chunks (snd e)) * MAX_UDP_PAYLOAD"
      by (rule sum_list_le) (use ok in \<open>auto simp: assembly_ok_def\<close>)
    also have "\<dots> \<le> 218 * MAX_UDP_PAYLOAD" using ok by (intro mult_right_mono) (auto simp: assembly_ok_def)
    finally show ?thesis by (simp add: udp_sizes)
  qed
  have "held_bytes asm \<le> length asm * MAX_REASSEMBLED_LEN" unfolding held_bytes_def by (rule sum_list_le[OF each])
  also have "\<dots> \<le> MAX_CONCURRENT_ASSEMBLIES * MAX_REASSEMBLED_LEN"
    using assms by (intro mult_right_mono) (auto simp: assembler_ok_def)
  finally show ?thesis .
qed

subsection \<open>The header and the length of the wire form\<close>

lemma header_round_trip:
  assumes "length cid = CONN_ID_LEN"
  shows "decode_header (encode_header ty frag cid @ rest) = Ok (\<lparr>oh_ty = ty, oh_fragmented = frag, oh_cid = cid\<rparr>, rest)"
  using assms by (cases ty; cases frag)
    (simp_all add: decode_header_def encode_header_def Let_def udp_sizes)

lemma length_encode_header [simp]: "length (encode_header ty frag cid) = Suc (length cid)"
  by (simp add: encode_header_def Let_def)

lemma chunk_pos [simp]: "0 < MAX_INNER_FRAG_CHUNK" "MAX_INNER_FRAG_CHUNK \<le> MAX_UDP_PAYLOAD"
  by (simp_all add: udp_sizes)

text \<open>The fragments of a frame, and the datagrams that carry them.\<close>

definition piece_of :: "bytes \<Rightarrow> u32 \<Rightarrow> bytes list \<Rightarrow> nat \<Rightarrow> crypto_frame" where
  "piece_of cid pid cs i = \<lparr>cf_session_id = cid16 cid, cf_packet_id = pid, cf_chunk_index = word_of_nat i,
     cf_total_chunks = word_of_nat (length cs), cf_payload = cs ! i\<rparr>"

definition piece_datagram :: "packet_type \<Rightarrow> bytes \<Rightarrow> u32 \<Rightarrow> bytes list \<Rightarrow> nat \<Rightarrow> bytes" where
  "piece_datagram ty cid pid cs i = encode_header ty True cid @ to_be_bytes pid @ to_be_bytes (word_of_nat i :: u16)
     @ to_be_bytes (word_of_nat (length cs) :: u16) @ cs ! i"

lemma encode_cases:
  assumes "encode_datagrams ty cid pid frame = Ok ds"
  obtains (whole) "length frame \<le> MAX_INNER_UNFRAGMENTED" "ds = [encode_header ty False cid @ frame]"
  | (split) cs where "cs = chunks_of MAX_INNER_FRAG_CHUNK frame" "MAX_INNER_UNFRAGMENTED < length frame" "length cs \<le> 219"
      "ds = map (piece_datagram ty cid pid cs) [0..<length cs]"
proof (cases "length frame \<le> MAX_INNER_UNFRAGMENTED")
  case True
  then show ?thesis using assms whole by (simp add: encode_datagrams_def)
next
  case False
  let ?cs = "chunks_of MAX_INNER_FRAG_CHUNK frame"
  have "map (\<lambda>(i, chunk). encode_header ty True cid @ to_be_bytes pid @ to_be_bytes (word_of_nat i :: u16)
      @ to_be_bytes (word_of_nat (length ?cs) :: u16) @ chunk) (enumerate 0 ?cs) = map (piece_datagram ty cid pid ?cs) [0..<length ?cs]"
    by (rule nth_equalityI) (simp_all add: nth_enumerate_eq piece_datagram_def)
  then show ?thesis using False assms split[of ?cs] by (auto simp: encode_datagrams_def Let_def split: if_splits)
qed

lemma sum_list_nth: "sum_list (map (\<lambda>i. a + length (cs ! i)) [0..<length cs]) = length cs * a + length (concat cs)" for a :: nat
proof -
  have "map (\<lambda>i. a + length (cs ! i)) [0..<length cs] = map (\<lambda>c. a + length c) cs" by (rule nth_equalityI) simp_all
  then show ?thesis by (simp add: sum_list_addf sum_list_triv length_concat)
qed

lemma length_piece_datagram [simp]:
  "length cid = CONN_ID_LEN \<Longrightarrow> length (piece_datagram ty cid pid cs i) = 17 + length (cs ! i)"
  by (simp add: piece_datagram_def udp_sizes)

subsection \<open>Reassembly\<close>

text \<open>What the assembler holds of a frame of which the pieces \<open>seen\<close> have arrived.\<close>

definition holding :: "bytes \<Rightarrow> u32 \<Rightarrow> bytes list \<Rightarrow> nat set \<Rightarrow> fragment_assembler \<Rightarrow> bool" where
  "holding cid pid cs seen asm \<longleftrightarrow>
     (case map_of asm (cid16 cid, pid) of
        None \<Rightarrow> seen = {}
      | Some st \<Rightarrow> seen \<noteq> {} \<and> as_total_chunks st = word_of_nat (length cs) \<and> distinct (map fst (as_chunks st))
          \<and> set (as_chunks st) = (\<lambda>i. (word_of_nat i, cs ! i)) ` seen)"

lemma unat_small: "i \<le> 219 \<Longrightarrow> unat (word_of_nat i :: u16) = i"
  by (simp add: unat_of_nat)

lemma small_word_inj: "i \<le> 219 \<Longrightarrow> j \<le> 219 \<Longrightarrow> (word_of_nat i :: u16) = word_of_nat j \<longleftrightarrow> i = j"
  by (metis unat_small)

lemma map_of_evict_None: "map_of asm k = None \<Longrightarrow> map_of (evict_stalest asm) k = None"
  by (simp add: evict_stalest_def Let_def map_of_filter_key)

lemma insert_absent_set:
  assumes "set chs = (\<lambda>i. (word_of_nat i, cs ! i)) ` seen" "distinct (map fst chs)" "seen \<subseteq> {..<length cs}" "i < length cs" "length cs \<le> 219"
  defines "chs' \<equiv> insert_if_absent (word_of_nat i :: u16) (cs ! i) chs"
  shows "set chs' = (\<lambda>i. (word_of_nat i, cs ! i)) ` insert i seen" "distinct (map fst chs')" "length chs' = card (insert i seen)"
proof -
  have mem: "map_of chs (word_of_nat i) = None \<longleftrightarrow> i \<notin> seen"
    using assms(1,3,4,5) by (fastforce simp: map_of_eq_None_iff image_image small_word_inj)
  show s: "set chs' = (\<lambda>i. (word_of_nat i, cs ! i)) ` insert i seen"
    using assms(1) mem by (auto simp: chs'_def insert_if_absent_def insert_absorb)
  show d: "distinct (map fst chs')" unfolding chs'_def by (rule insert_absent_ok(1)[OF assms(2)])
  have "inj_on (\<lambda>i. (word_of_nat i :: u16, cs ! i)) (insert i seen)"
  proof (rule inj_onI)
    fix x y assume "x \<in> insert i seen" "y \<in> insert i seen" "(word_of_nat x :: u16, cs ! x) = (word_of_nat y, cs ! y)"
    moreover from this(1,2) have "x \<le> 219" "y \<le> 219" using assms(3-5) by auto
    ultimately show "x = y" by (simp add: small_word_inj)
  qed
  from card_image[OF this] show "length chs' = card (insert i seen)"
    using s d distinct_card[of chs'] by (auto simp: distinct_map)
qed

lemma collect_all:
  assumes "set (as_chunks st) = (\<lambda>i. (word_of_nat i, cs ! i)) ` {..<length cs}" "distinct (map fst (as_chunks st))"
    and "as_total_chunks st = word_of_nat (length cs)" "length cs \<le> 219"
  shows "collect_chunks st = Some (concat cs)"
proof -
  have "map_of (as_chunks st) (word_of_nat i) = Some (cs ! i)" if "i < length cs" for i
    using assms(1,2) that by (intro map_of_is_SomeI) auto
  then have "map (\<lambda>i. map_of (as_chunks st) (word_of_nat i)) [0..<length cs] = map Some cs"
    by (intro nth_equalityI) simp_all
  moreover have "unat (as_total_chunks st) = length cs" using assms(3,4) by (simp add: unat_small)
  moreover have "those (map Some cs) = Some cs" for cs :: "bytes list" by (induction cs) simp_all
  ultimately show ?thesis by (simp add: collect_chunks_def)
qed

lemma card_eq_length: "A \<subseteq> {..<n} \<Longrightarrow> card A = n \<longleftrightarrow> A = {..<n}"
  using card_subset_eq[of "{..<n}" A] by auto

lemma process_piece:
  assumes h: "holding cid pid cs seen asm" and seen: "seen \<subseteq> {..<length cs}" "seen \<noteq> {..<length cs}"
    and i: "i < length cs" and n: "length cs \<le> 219" and len: "\<forall>c \<in> set cs. length c \<le> MAX_UDP_PAYLOAD"
    and d: "process_chunk now (piece_of cid pid cs i) asm = (r, asm')"
  shows "r = (if insert i seen = {..<length cs} then Some (concat cs) else None)"
    and "holding cid pid cs (if insert i seen = {..<length cs} then {} else insert i seen) asm'"
    and "length asm' \<le> length asm + (if seen = {} then 1 else 0)"
proof -
  let ?key = "(cid16 cid, pid)"
  let ?asm1 = "if map_of asm ?key = None \<and> length asm \<ge> MAX_CONCURRENT_ASSEMBLIES then evict_stalest asm else asm"
  define st where "st = (case map_of ?asm1 ?key of Some st \<Rightarrow> st
    | None \<Rightarrow> \<lparr>as_chunks = [], as_total_chunks = (word_of_nat (length cs) :: u16), as_last_update = now\<rparr>)"
  define chs where "chs = insert_if_absent (word_of_nat i) (cs ! i) (as_chunks st)"
  let ?st' = "st\<lparr>as_last_update := now, as_chunks := chs\<rparr>" and ?rest = "filter (\<lambda>e. fst e \<noteq> ?key) ?asm1"
  have total: "as_total_chunks st = word_of_nat (length cs)"
    and chunks: "set (as_chunks st) = (\<lambda>i. (word_of_nat i, cs ! i)) ` seen" "distinct (map fst (as_chunks st))"
    using h by (auto simp: st_def holding_def map_of_evict_None split: option.splits)
  note chs = insert_absent_set[OF chunks seen(1) i n, folded chs_def]
  have pos: "(word_of_nat (length cs) :: u16) \<noteq> 0" using i small_word_inj[OF n, of 0] by auto
  let ?f = "piece_of cid pid cs i"
  have fields: "cf_session_id ?f = cid16 cid" "cf_packet_id ?f = pid" "cf_chunk_index ?f = word_of_nat i"
    "cf_total_chunks ?f = word_of_nat (length cs)" "cf_payload ?f = cs ! i" by (simp_all add: piece_of_def)
  have guard: "\<not> (cf_total_chunks ?f = 0 \<or> cf_total_chunks ?f > MAX_TOTAL_CHUNKS
      \<or> cf_chunk_index ?f \<ge> cf_total_chunks ?f \<or> length (cf_payload ?f) > MAX_UDP_PAYLOAD)"
    using pos i n len nth_mem[OF i] by (simp add: fields word_le_nat_alt word_less_nat_alt unat_small not_less del: nth_mem)
  have "process_chunk now ?f asm = (if length chs = length cs then (collect_chunks ?st', ?rest) else (None, (?key, ?st') # ?rest))"
    unfolding process_chunk_def Let_def fields if_not_P[OF guard[unfolded fields]] st_def[symmetric] chs_def[symmetric]
    by (simp add: total unat_small[OF n])
  then have "(r, asm') = (if length chs = length cs then (collect_chunks ?st', ?rest) else (None, (?key, ?st') # ?rest))"
    using d by (simp only:)
  moreover have "length chs = length cs \<longleftrightarrow> insert i seen = {..<length cs}"
    unfolding chs(3) by (rule card_eq_length) (use seen(1) i in simp)
  moreover define rest where "rest = ?rest"
  moreover define st1 where "st1 = ?st'"
  ultimately have split: "(r, asm') = (if insert i seen = {..<length cs} then (collect_chunks st1, rest) else (None, (?key, st1) # rest))"
    by (simp only:)
  have st1: "as_chunks st1 = chs" "as_total_chunks st1 = word_of_nat (length cs)" using total by (simp_all add: st1_def)
  have rest: "map_of rest ?key = None" unfolding rest_def by (simp add: map_of_filter_key)
  show "r = (if insert i seen = {..<length cs} then Some (concat cs) else None)"
  proof (cases "insert i seen = {..<length cs}")
    case True
    have "set (as_chunks st1) = (\<lambda>i. (word_of_nat i, cs ! i)) ` {..<length cs}" using chs(1) unfolding True st1 .
    from collect_all[OF this _ st1(2) n] have "collect_chunks st1 = Some (concat cs)" using chs(2) st1(1) by (simp only:)
    then show ?thesis using split True by simp
  next
    case False
    then show ?thesis using split by simp
  qed
  show "holding cid pid cs (if insert i seen = {..<length cs} then {} else insert i seen) asm'"
  proof (cases "insert i seen = {..<length cs}")
    case True
    then have "asm' = rest" using split by simp
    then show ?thesis using rest True by (simp add: holding_def)
  next
    case False
    then have "map_of asm' ?key = Some st1" using split by simp
    then show ?thesis using st1 chs(1,2) False by (simp only: holding_def if_False option.case insert_not_empty not_False_eq_True simp_thms)
  qed
  have "length ?rest + (if seen = {} then 0 else 1) \<le> length asm"
  proof (cases "map_of asm ?key")
    case None
    have "length (evict_stalest asm) \<le> length asm" by (simp add: evict_stalest_def Let_def)
    then have "length ?asm1 \<le> length asm" by simp
    then have "length ?rest \<le> length asm" by (rule order.trans[OF length_filter_le])
    then show ?thesis using None h by (simp add: holding_def)
  next
    case (Some x)
    then have "?key \<in> fst ` set asm" by (auto dest: map_of_SomeD intro: rev_image_eqI)
    from length_filter_key[OF this] show ?thesis using Some h by (simp add: holding_def)
  qed
  then have "length rest + (if seen = {} then 0 else 1) \<le> length asm" by (simp only: rest_def)
  moreover have "length asm' \<le> Suc (length rest)" using split by (cases "insert i seen = {..<length cs}") simp_all
  ultimately show "length asm' \<le> length asm + (if seen = {} then 1 else 0)" by (cases "seen = {}") simp_all
qed

text \<open>A datagram that is no fragment of the frame \<open>(cid, pid)\<close>.\<close>

definition foreign :: "bytes \<Rightarrow> u32 \<Rightarrow> bytes \<Rightarrow> bool" where
  "foreign cid pid d \<longleftrightarrow>
     (case decode_header d of
        Inl _ \<Rightarrow> True
      | Inr (hdr, rest) \<Rightarrow> \<not> oh_fragmented hdr \<or> length rest < FRAG_SUBHDR_LEN
          \<or> (cid16 (oh_cid hdr), from_be_bytes (take 4 rest)) \<noteq> (cid16 cid, pid))"

lemma process_other:
  assumes "(cf_session_id fr, cf_packet_id fr) \<noteq> k" "length asm < MAX_CONCURRENT_ASSEMBLIES"
  shows "map_of (snd (process_chunk now fr asm)) k = map_of asm k" "length (snd (process_chunk now fr asm)) \<le> Suc (length asm)"
  using assms by (auto simp: process_chunk_def Let_def map_of_filter_key intro: le_SucI[OF length_filter_le])

lemma push_foreign:
  assumes "foreign cid pid d" "length asm < MAX_CONCURRENT_ASSEMBLIES"
  shows "holding cid pid cs seen (snd (push_datagram now d asm)) = holding cid pid cs seen asm"
    and "length (snd (push_datagram now d asm)) \<le> Suc (length asm)"
proof -
  have "map_of (snd (push_datagram now d asm)) (cid16 cid, pid) = map_of asm (cid16 cid, pid)
      \<and> length (snd (push_datagram now d asm)) \<le> Suc (length asm)"
    using assms(1) process_other[OF _ assms(2), where k = "(cid16 cid, pid)"]
    by (auto simp: foreign_def push_datagram_def Let_def split_beta split: sum.splits)
  then show "holding cid pid cs seen (snd (push_datagram now d asm)) = holding cid pid cs seen asm"
    and "length (snd (push_datagram now d asm)) \<le> Suc (length asm)" by (simp_all add: holding_def)
qed

lemma push_piece:
  assumes "length cid = CONN_ID_LEN"
  shows "push_datagram now (piece_datagram ty cid pid cs i) asm =
    (Ok (\<lparr>oh_ty = ty, oh_fragmented = True, oh_cid = cid\<rparr>, fst (process_chunk now (piece_of cid pid cs i) asm)),
     snd (process_chunk now (piece_of cid pid cs i) asm))"
  using header_round_trip[OF assms, of ty True]
  by (simp add: push_datagram_def piece_datagram_def piece_of_def udp_sizes Let_def split_beta)

lemma piece_not_foreign: "length cid = CONN_ID_LEN \<Longrightarrow> \<not> foreign cid pid (piece_datagram ty cid pid cs i)"
  using header_round_trip[of cid ty True] by (simp add: foreign_def piece_datagram_def udp_sizes)

lemma piece_inj:
  assumes "piece_datagram ty cid pid cs i = piece_datagram ty cid pid cs j" "i \<le> 219" "j \<le> 219"
  shows "i = j"
proof -
  have "to_be_bytes (word_of_nat i :: u16) = to_be_bytes (word_of_nat j :: u16)" using assms(1) by (simp add: piece_datagram_def)
  then have "(word_of_nat i :: u16) = word_of_nat j" using to_be_bytes_inj[of "word_of_nat i :: u16"] by simp
  then show ?thesis using assms(2,3) by (simp add: small_word_inj)
qed

definition take_in :: "fragment_assembler \<Rightarrow> nanos \<times> bytes \<Rightarrow> (envelope_error, outer_header \<times> bytes option) result \<times> fragment_assembler" where
  "take_in asm x = push_datagram (fst x) (snd x) asm"

definition arrived :: "packet_type \<Rightarrow> bytes \<Rightarrow> u32 \<Rightarrow> bytes list \<Rightarrow> (nanos \<times> bytes) list \<Rightarrow> nat set" where
  "arrived ty cid pid cs xs = {i. i < length cs \<and> piece_datagram ty cid pid cs i \<in> snd ` set xs}"

lemma arrived_Cons:
  "arrived ty cid pid cs (x # xs) = {i. i < length cs \<and> piece_datagram ty cid pid cs i = snd x} \<union> arrived ty cid pid cs xs"
  by (auto simp: arrived_def)

lemma holding_run:
  assumes cid: "length cid = CONN_ID_LEN" and n: "length cs \<le> 219" and len: "\<forall>c \<in> set cs. length c \<le> MAX_UDP_PAYLOAD"
  shows "\<lbrakk>holding cid pid cs seen asm; seen \<subseteq> {..<length cs};
     \<forall>x \<in> set xs. foreign cid pid (snd x) \<or> snd x \<in> piece_datagram ty cid pid cs ` {..<length cs};
     seen \<union> arrived ty cid pid cs xs \<noteq> {..<length cs};
     length asm + (if seen = {} then 1 else 0) + length (filter (foreign cid pid \<circ> snd) xs) \<le> MAX_CONCURRENT_ASSEMBLIES\<rbrakk>
    \<Longrightarrow> holding cid pid cs (seen \<union> arrived ty cid pid cs xs) (snd (run take_in asm xs))"
proof (induction xs arbitrary: seen asm)
  case (Cons x xs)
  have rest: "\<forall>x \<in> set xs. foreign cid pid (snd x) \<or> snd x \<in> piece_datagram ty cid pid cs ` {..<length cs}"
    using Cons.prems(3) by simp
  have run: "snd (run take_in asm (x # xs)) = snd (run take_in (snd (take_in asm x)) xs)" by (simp add: split_beta Let_def)
  show ?case
  proof (cases "foreign cid pid (snd x)")
    case True
    then have "{i. i < length cs \<and> piece_datagram ty cid pid cs i = snd x} = {}" using piece_not_foreign[OF cid, of pid ty cs] by (metis (mono_tags, lifting) Collect_empty_eq)
    then have ar: "arrived ty cid pid cs (x # xs) = arrived ty cid pid cs xs" by (simp only: arrived_Cons Un_empty_left)
    have "length asm < MAX_CONCURRENT_ASSEMBLIES" using Cons.prems(5) True by simp
    note f = push_foreign(1)[OF True this, of cs seen "fst x"] push_foreign(2)[OF True this, of "fst x"]
    show ?thesis unfolding run ar
      by (rule Cons.IH) (use Cons.prems rest f True ar in \<open>auto simp: take_in_def split: if_splits\<close>)
  next
    case False
    then obtain i where i: "i < length cs" "snd x = piece_datagram ty cid pid cs i" using Cons.prems(3) by auto
    then have "{j. j < length cs \<and> piece_datagram ty cid pid cs j = snd x} = {i}"
      using n by (auto dest: piece_inj)
    then have ar: "seen \<union> arrived ty cid pid cs (x # xs) = insert i seen \<union> arrived ty cid pid cs xs"
      unfolding arrived_Cons by (simp only:) blast
    have "seen \<noteq> {..<length cs}" "insert i seen \<noteq> {..<length cs}"
      using Cons.prems(2,4) i(1) unfolding ar by (auto simp: arrived_def)
    note p = process_piece[OF Cons.prems(1,2) this(1) i(1) n len prod.collapse[symmetric], of "fst x"] and this(2)
    show ?thesis unfolding run ar
      by (rule Cons.IH)
        (use Cons.prems rest p \<open>insert i seen \<noteq> {..<length cs}\<close> False ar i in
          \<open>auto simp: take_in_def push_piece[OF cid] split: if_splits\<close>)
  qed
qed (simp add: arrived_def)

lemma piece_result:
  assumes cid: "length cid = CONN_ID_LEN" and n: "length cs \<le> 219" and len: "\<forall>c \<in> set cs. length c \<le> MAX_UDP_PAYLOAD"
    and fresh: "map_of asm (cid16 cid, pid) = None"
    and xs: "\<forall>x \<in> set xs. foreign cid pid (snd x) \<or> snd x \<in> piece_datagram ty cid pid cs ` {..<length cs}"
    and room: "length asm + length (filter (foreign cid pid \<circ> snd) xs) < MAX_CONCURRENT_ASSEMBLIES"
    and missing: "arrived ty cid pid cs xs \<noteq> {..<length cs}" and i: "i < length cs"
  shows "fst (push_datagram now (piece_datagram ty cid pid cs i) (snd (run take_in asm xs))) =
    Ok (\<lparr>oh_ty = ty, oh_fragmented = True, oh_cid = cid\<rparr>,
        if insert i (arrived ty cid pid cs xs) = {..<length cs} then Some (concat cs) else None)"
proof -
  have h: "holding cid pid cs (arrived ty cid pid cs xs) (snd (run take_in asm xs))"
    using holding_run[OF cid n len, of pid "{}" asm xs ty] fresh xs room missing by (simp add: holding_def)
  have sub: "arrived ty cid pid cs xs \<subseteq> {..<length cs}" by (auto simp: arrived_def)
  show ?thesis
    using process_piece(1)[OF h sub missing i n len prod.collapse[symmetric], of now] by (simp add: push_piece[OF cid])
qed

lemma foreign_take: "length (filter P (take k xs)) \<le> length (filter P xs)"
  by (metis append_take_drop_id filter_append le_add1 length_append)

lemma arrived_take:
  "i < length cs \<Longrightarrow> k < length xs \<Longrightarrow> snd (xs ! k) = piece_datagram ty cid pid cs i
    \<Longrightarrow> insert i (arrived ty cid pid cs (take k xs)) \<subseteq> arrived ty cid pid cs xs"
  using set_take_subset[of k xs] nth_mem[of k xs] unfolding arrived_def by (force simp del: nth_mem)

lemma last_piece:
  assumes ds: "set ds = piece_datagram ty cid pid cs ` {..<length cs}" and missing: "set ds - snd ` set pre = {d}"
    and n: "length cs \<le> 219"
  obtains j where "j < length cs" "d = piece_datagram ty cid pid cs j" "insert j (arrived ty cid pid cs pre) = {..<length cs}"
    "arrived ty cid pid cs pre \<noteq> {..<length cs}"
proof -
  have d: "d \<in> set ds" "d \<notin> snd ` set pre" using missing by blast+
  then obtain j where j: "j < length cs" "d = piece_datagram ty cid pid cs j" using ds by auto
  have "x = j \<or> x \<in> arrived ty cid pid cs pre" if x: "x < length cs" for x
  proof -
    have "piece_datagram ty cid pid cs x \<in> set ds" using x ds by blast
    then have "piece_datagram ty cid pid cs x = d \<or> piece_datagram ty cid pid cs x \<in> snd ` set pre" using missing by blast
    then show ?thesis using piece_inj[of ty cid pid cs x j] x j n by (auto simp: arrived_def)
  qed
  then have all: "insert j (arrived ty cid pid cs pre) = {..<length cs}" using j(1) by (auto simp: arrived_def)
  have "j \<notin> arrived ty cid pid cs pre" using d(2) j(2) by (simp add: arrived_def)
  then show ?thesis using that[OF j all] j(1) by blast
qed

subsection \<open>Properties\<close>

text \<open>
  C31. A frame survives the datagram layer. Cut a frame into datagrams and let them reach
  the receiver in any order, with repetitions, at any times and interleaved with fewer
  than 256 datagrams of other frames or none at all. Then no datagram of the frame yields
  anything while one is missing, and the last missing one yields the frame itself, under
  the packet type and the connection id it was sent with.
\<close>

theorem datagram_round_trip:
  assumes enc: "encode_datagrams ty cid pid frame = Ok ds" and cid: "length cid = CONN_ID_LEN"
    and fresh: "map_of asm (cid16 cid, pid) = None"
    and pre: "\<forall>x \<in> set pre. snd x \<in> set ds \<or> foreign cid pid (snd x)"
    and missing: "set ds - snd ` set pre = {d}"
    and room: "length asm + length (filter (foreign cid pid \<circ> snd) pre) < MAX_CONCURRENT_ASSEMBLIES"
  shows "let hdr = \<lparr>oh_ty = ty, oh_fragmented = (MAX_INNER_UNFRAGMENTED < length frame), oh_cid = cid\<rparr> in
    fst (push_datagram now d (snd (run take_in asm pre))) = Ok (hdr, Some frame) \<and>
    (\<forall>k < length pre. snd (pre ! k) \<in> set ds \<longrightarrow> fst (run take_in asm pre) ! k = Ok (hdr, None))"
proof -
  define hdr where "hdr = \<lparr>oh_ty = ty, oh_fragmented = (MAX_INNER_UNFRAGMENTED < length frame), oh_cid = cid\<rparr>"
  have "fst (push_datagram now d (snd (run take_in asm pre))) = Ok (hdr, Some frame) \<and>
    (\<forall>k < length pre. snd (pre ! k) \<in> set ds \<longrightarrow> fst (run take_in asm pre) ! k = Ok (hdr, None))"
    using enc
  proof (cases rule: encode_cases)
    case whole
    then have d: "d = encode_header ty False cid @ frame" and "d \<notin> snd ` set pre" using missing by auto
    then have "snd (pre ! k) \<notin> set ds" if "k < length pre" for k using whole(2) that by (metis image_eqI list.set(1,2) nth_mem singletonD)
    then show ?thesis using d whole(1) header_round_trip[OF cid, of ty False frame] by (auto simp: push_datagram_def hdr_def)
  next
    case (split cs)
    let ?ar = "arrived ty cid pid cs"
    have hdr: "hdr = \<lparr>oh_ty = ty, oh_fragmented = True, oh_cid = cid\<rparr>" using split(2) by (simp add: hdr_def)
    have len: "\<forall>c \<in> set cs. length c \<le> MAX_UDP_PAYLOAD"
      using chunk_length[of _ MAX_INNER_FRAG_CHUNK frame] chunk_pos(2) split(1) order.trans by blast
    have ds: "set ds = piece_datagram ty cid pid cs ` {..<length cs}" using split(4) by (auto simp: lessThan_atLeast0)
    obtain j where j: "j < length cs" "d = piece_datagram ty cid pid cs j" and all: "insert j (?ar pre) = {..<length cs}"
      and miss: "?ar pre \<noteq> {..<length cs}" by (rule last_piece[OF ds missing split(3)])
    note result = piece_result[OF cid split(3) len fresh]
    have whole: "concat cs = frame" using concat_chunks split(1) chunk_pos(1) by simp
    have "fst (run take_in asm pre) ! k = Ok (hdr, None)" if k: "k < length pre" "snd (pre ! k) \<in> set ds" for k
    proof -
      obtain i where i: "i < length cs" "snd (pre ! k) = piece_datagram ty cid pid cs i" using k(2) ds by auto
      note sub = arrived_take[OF i(1) k(1) i(2)]
      have bound: "?ar pre \<subseteq> {..<length cs}" by (auto simp: arrived_def)
      have xs: "\<forall>x \<in> set (take k pre). foreign cid pid (snd x) \<or> snd x \<in> piece_datagram ty cid pid cs ` {..<length cs}"
        using pre ds by (auto dest: in_set_takeD)
      have room': "length asm + length (filter (foreign cid pid \<circ> snd) (take k pre)) < MAX_CONCURRENT_ASSEMBLIES"
        using room foreign_take[of "foreign cid pid \<circ> snd" k pre] by linarith
      have "?ar (take k pre) \<noteq> {..<length cs}" "insert i (?ar (take k pre)) \<noteq> {..<length cs}" using sub bound miss by blast+
      from result[OF xs room' this(1) i(1), of "fst (pre ! k)"] this(2) show ?thesis
        by (simp add: run_nth[OF k(1)] take_in_def i(2) hdr)
    qed
    moreover have "\<forall>x \<in> set pre. foreign cid pid (snd x) \<or> snd x \<in> piece_datagram ty cid pid cs ` {..<length cs}" using pre ds by blast
    from result[OF this room miss j(1), of now] have "fst (push_datagram now d (snd (run take_in asm pre))) = Ok (hdr, Some frame)"
      unfolding all j(2) hdr whole by simp
    ultimately show ?thesis by blast
  qed
  then show ?thesis unfolding hdr_def Let_def .
qed

text \<open>A frame that takes two datagrams, the second arriving twice before the first.\<close>

definition demo_cid :: bytes where "demo_cid = [1, 2, 3, 4, 5, 6, 7, 8]"
definition demo_pieces :: "bytes list" where "demo_pieces = [replicate 1183 7, replicate 9 7]"

lemma demo_encode:
  "encode_datagrams OneRtt demo_cid 1 (replicate 1192 7) =
    Ok [piece_datagram OneRtt demo_cid 1 demo_pieces 0, piece_datagram OneRtt demo_cid 1 demo_pieces 1]"
proof -
  have c: "chunks_of MAX_INNER_FRAG_CHUNK (replicate 1192 7) = demo_pieces"
    by (simp add: chunks_of.simps udp_sizes demo_pieces_def)
  have "\<not> length (replicate 1192 (7 :: u8)) \<le> MAX_INNER_UNFRAGMENTED" by (simp add: udp_sizes)
  then show ?thesis unfolding encode_datagrams_def c by (simp add: demo_pieces_def Let_def piece_datagram_def)
qed

theorem datagram_round_trip_witness:
  "fst (push_datagram 5 (piece_datagram OneRtt demo_cid 1 demo_pieces 0)
      (snd (run take_in [] [(0, piece_datagram OneRtt demo_cid 1 demo_pieces 1), (3, piece_datagram OneRtt demo_cid 1 demo_pieces 1)])))
    = Ok (\<lparr>oh_ty = OneRtt, oh_fragmented = True, oh_cid = demo_cid\<rparr>, Some (replicate 1192 7))"
proof -
  let ?p = "piece_datagram OneRtt demo_cid 1 demo_pieces"
  let ?xs = "[(0 :: nanos, ?p 1), (3, ?p 1)]"
  have len: "length demo_cid = CONN_ID_LEN" by (simp add: demo_cid_def udp_sizes)
  have "length (?p 0) \<noteq> length (?p 1)" by (simp add: len demo_pieces_def)
  then have ne: "?p 0 \<noteq> ?p 1" by metis
  have "let hdr = \<lparr>oh_ty = OneRtt, oh_fragmented = (MAX_INNER_UNFRAGMENTED < length (replicate 1192 (7 :: u8))), oh_cid = demo_cid\<rparr> in
    fst (push_datagram 5 (?p 0) (snd (run take_in [] ?xs))) = Ok (hdr, Some (replicate 1192 7)) \<and>
    (\<forall>k < length ?xs. snd (?xs ! k) \<in> set [?p 0, ?p 1] \<longrightarrow>
       fst (run take_in [] ?xs) ! k = Ok (hdr, None))"
    by (rule datagram_round_trip[OF demo_encode len])
      (use ne in \<open>simp_all add: piece_not_foreign[OF len] udp_sizes insert_Diff_if del: length_piece_datagram\<close>)
  then have "fst (push_datagram 5 (?p 0) (snd (run take_in [] ?xs))) =
      Ok (\<lparr>oh_ty = OneRtt, oh_fragmented = (MAX_INNER_UNFRAGMENTED < length (replicate 1192 (7 :: u8))), oh_cid = demo_cid\<rparr>,
          Some (replicate 1192 7))" unfolding Let_def by (rule conjunct1)
  then show ?thesis by (simp add: udp_sizes)
qed

text \<open>
  \<open>wire_len\<close> is the encoder's own cost: encoding refuses exactly the frames of
  more than 219 fragments, and otherwise the datagrams it makes have together exactly
  \<open>wire_len\<close> bytes, none longer than the path MTU.
\<close>

theorem wire_len_agrees:
  assumes cid: "length cid = CONN_ID_LEN"
  shows "case encode_datagrams ty cid pid frame of
      Inl e \<Rightarrow> e = EnvFrameTooLarge \<and> unat MAX_TOTAL_CHUNKS * MAX_INNER_FRAG_CHUNK < length frame
    | Inr ds \<Rightarrow> length frame \<le> unat MAX_TOTAL_CHUNKS * MAX_INNER_FRAG_CHUNK
        \<and> sum_list (map length ds) = wire_len (length frame) \<and> (\<forall>d \<in> set ds. length d \<le> PATH_MTU)"
proof -
  let ?cs = "chunks_of MAX_INNER_FRAG_CHUNK frame"
  have count: "length ?cs = (length frame + MAX_INNER_FRAG_CHUNK - 1) div MAX_INNER_FRAG_CHUNK" by (rule chunks_count) (simp add: udp_sizes)
  have limit: "length ?cs \<le> 219 \<longleftrightarrow> length frame \<le> 219 * MAX_INNER_FRAG_CHUNK"
    unfolding count by (simp add: udp_sizes) linarith
  show ?thesis
  proof (cases "encode_datagrams ty cid pid frame")
    case (Inl e)
    then show ?thesis using limit by (auto simp: encode_datagrams_def Let_def split: if_splits)
  next
    case (Inr ds)
    then show ?thesis
    proof (cases rule: encode_cases)
      case whole
      then show ?thesis using Inr cid by (auto simp: wire_len_def udp_sizes)
    next
      case (split cs)
      have "sum_list (map length ds) = length cs * 17 + length frame"
        using sum_list_nth[of 17 cs] concat_chunks[of MAX_INNER_FRAG_CHUNK frame] split(1,4) cid by (simp add: o_def)
      then have "sum_list (map length ds) = wire_len (length frame)"
        using split(1,2) count by (simp add: wire_len_def DATAGRAM_HDR_LEN_def)
      moreover have "\<forall>d \<in> set ds. length d \<le> PATH_MTU"
        using chunk_length[of _ MAX_INNER_FRAG_CHUNK frame] split(1,4) cid by (fastforce simp: udp_sizes)
      ultimately show ?thesis using Inr limit split(1,3) by simp
    qed
  qed
qed

theorem wire_len_agrees_witness:
  "case encode_datagrams OneRtt demo_cid 1 (replicate 1192 7) of Inl e \<Rightarrow> False
    | Inr ds \<Rightarrow> sum_list (map length ds) = 1226 \<and> wire_len 1192 = 1226"
proof -
  have len: "length demo_cid = CONN_ID_LEN" by (simp add: demo_cid_def udp_sizes)
  have "wire_len 1192 = 1226" by (simp add: wire_len_def udp_sizes)
  then show ?thesis using wire_len_agrees[OF len, where ty = OneRtt and pid = 1 and frame = "replicate 1192 7"] by (simp add: demo_encode)
qed

text \<open>What happens to an assembler: a datagram arrives, or the timer sweeps it.\<close>

fun assembler_event :: "fragment_assembler \<Rightarrow> (nanos \<times> bytes) + nanos \<Rightarrow> unit \<times> fragment_assembler" where
  "assembler_event asm (Inl x) = ((), snd (take_in asm x))"
| "assembler_event asm (Inr now) = ((), snd (get_nacks_and_evict now asm))"

lemma assembler_event_ok: "assembler_ok asm \<Longrightarrow> assembler_ok (snd (assembler_event asm x))"
  by (cases x) (simp_all add: take_in_def push_datagram_ok get_nacks_and_evict_def assembler_filter Let_def)

text \<open>
  C33. Reassembly memory is bounded. Whatever datagrams arrive, in whatever order and at
  whatever times, an assembler tracks at most 256 frames and holds at most 256 times
  256 KiB of fragments.
\<close>

theorem reassembly_bounded:
  "let asm = snd (run assembler_event assembler_new xs) in
     length asm \<le> MAX_CONCURRENT_ASSEMBLIES \<and> held_bytes asm \<le> MAX_CONCURRENT_ASSEMBLIES * MAX_REASSEMBLED_LEN"
proof -
  have "assembler_ok (snd (run assembler_event assembler_new xs))"
    by (rule run_invariant[where I = assembler_ok]) (simp_all add: assembler_event_ok assembler_ok_def[of "[]"] assembler_new_def)
  then show ?thesis using held_bytes_bound by (simp add: Let_def assembler_ok_def)
qed

end
