(* ===== verification/Stream_Framing.thy ===== *)
theory Stream_Framing
  imports Session Udp_Datagram
begin

text \<open>
  Frames over a byte stream (\<open>transport/framing.rs\<close>): a message is cut into chunks, each
  sealed under the counter nonce with its length prefix as associated data. The bytes a
  call writes are part of its result; reading takes the bytes that will arrive before the
  stream ends. Whether the sealing runs on the blocking pool does not change its result.
\<close>

abbreviation FRAME_HEADER_SIZE :: nat where "FRAME_HEADER_SIZE \<equiv> 4"
abbreviation MAX_FRAME_PAYLOAD :: nat where "MAX_FRAME_PAYLOAD \<equiv> 64 * 1024"

datatype frame_error = FrameIo | FrameEncryptFailed | FrameDecryptFailed | FrameTooLarge nat

text \<open>The body of the loops of both writers: one frame appended to the buffer.\<close>

definition append_frame ::
  "crypto_lib \<Rightarrow> bytes \<Rightarrow> bytes \<Rightarrow> crypto_session \<Rightarrow> (frame_error, bytes) result \<times> crypto_session" where
  "append_frame L payload buf cs =
     (let frame_start = length buf;
          ct_len = length payload + AEAD_OVERHEAD;
          len_bytes = to_be_bytes (word_of_nat ct_len :: u32);
          buf = buf @ len_bytes @ payload
      in case encrypt_in_place_offset L len_bytes buf (frame_start + FRAME_HEADER_SIZE) cs of
           (Inl _, cs) \<Rightarrow> (Err FrameEncryptFailed, cs)
         | (Inr (buf, _), cs) \<Rightarrow> (Ok buf, cs))"

fun append_frames ::
  "crypto_lib \<Rightarrow> bytes list \<Rightarrow> bytes \<Rightarrow> crypto_session \<Rightarrow> (frame_error, bytes) result \<times> crypto_session" where
  "append_frames L [] buf cs = (Ok buf, cs)"
| "append_frames L (payload # payloads) buf cs =
     (case append_frame L payload buf cs of
        (Inl e, cs) \<Rightarrow> (Err e, cs)
      | (Inr buf, cs) \<Rightarrow> append_frames L payloads buf cs)"

text \<open>\<open>io_ok\<close>: whether \<open>write_all\<close> succeeds.\<close>

definition write_frame ::
  "crypto_lib \<Rightarrow> bool \<Rightarrow> bytes \<Rightarrow> crypto_session \<Rightarrow> (frame_error, nat \<times> bytes) result \<times> crypto_session" where
  "write_frame L io_ok data cs =
     (if data = [] then (Ok (0, []), cs)
      else case append_frames L (chunks_of MAX_FRAME_PAYLOAD data) [] cs of
             (Inl e, cs) \<Rightarrow> (Err e, cs)
           | (Inr buf, cs) \<Rightarrow> if io_ok then (Ok (length data, buf), cs) else (Err FrameIo, cs))"

definition write_frames_batch ::
  "crypto_lib \<Rightarrow> bool \<Rightarrow> bytes list \<Rightarrow> crypto_session \<Rightarrow> (frame_error, nat \<times> bytes) result \<times> crypto_session" where
  "write_frames_batch L io_ok payloads cs =
     (if payloads = [] then (Ok (0, []), cs)
      else case append_frames L payloads [] cs of
             (Inl e, cs) \<Rightarrow> (Err e, cs)
           | (Inr buf, cs) \<Rightarrow> if io_ok then (Ok (sum_list (map length payloads), buf), cs) else (Err FrameIo, cs))"

definition read_frame ::
  "crypto_lib \<Rightarrow> bytes \<Rightarrow> crypto_session \<Rightarrow> (frame_error, bytes) result \<times> bytes \<times> crypto_session" where
  "read_frame L arriving cs =
     (if length arriving < FRAME_HEADER_SIZE then (Err FrameIo, [], cs)
      else
        let header_buf = take FRAME_HEADER_SIZE arriving; arriving = drop FRAME_HEADER_SIZE arriving;
            ct_len = unat (from_be_bytes header_buf :: u32)
        in if ct_len > MAX_FRAME_PAYLOAD + AEAD_OVERHEAD then (Err (FrameTooLarge ct_len), arriving, cs)
           else if length arriving < ct_len then (Err FrameIo, [], cs)
           else case decrypt_in_place L header_buf (take ct_len arriving) cs of
                  (Inl _, cs) \<Rightarrow> (Err FrameDecryptFailed, drop ct_len arriving, cs)
                | (Inr pt, cs) \<Rightarrow> (Ok pt, drop ct_len arriving, cs))"

text \<open>A reader that asks for frames until the bytes are used up or a read fails.\<close>

fun read_frames :: "crypto_lib \<Rightarrow> nat \<Rightarrow> bytes \<Rightarrow> crypto_session \<Rightarrow> bytes list \<times> frame_error option \<times> bytes \<times> crypto_session" where
  "read_frames L 0 arriving cs = ([], None, arriving, cs)"
| "read_frames L (Suc n) arriving cs =
     (case read_frame L arriving cs of
        (Inl e, arriving, cs) \<Rightarrow> ([], Some e, arriving, cs)
      | (Inr pt, arriving, cs) \<Rightarrow> let (pts, r) = read_frames L n arriving cs in (pt # pts, r))"

text \<open>Peers whose counters are in step, with room for \<open>n\<close> more frames.\<close>

definition frame_peers :: "nat \<Rightarrow> crypto_session \<Rightarrow> crypto_session \<Rightarrow> bool" where
  "frame_peers n a b \<longleftrightarrow> session_peers a b \<and> cs_send_counter a = cs_recv_counter b \<and> unat (cs_send_counter a) + n \<le> 2 ^ 48"

lemma frame_sealed:
  assumes L: "aead_ok L" and p: "frame_peers (Suc n) a b" and len: "length payload + 16 < 2 ^ 32"
  obtains c a' where "append_frame L payload buf a = (Ok (buf @ to_be_bytes (word_of_nat (length payload + 16) :: u32) @ c), a')"
    "length c = length payload + 16"
    "decrypt_in_place L (to_be_bytes (word_of_nat (length payload + 16) :: u32)) c b = (Ok payload, b\<lparr>cs_recv_counter := cs_recv_counter b + 1\<rparr>)"
    "frame_peers n a' (b\<lparr>cs_recv_counter := cs_recv_counter b + 1\<rparr>)"
proof -
  let ?aad = "to_be_bytes (word_of_nat (length payload + 16) :: u32)" and ?nonce = "make_nonce a (cs_send_counter a)"
  have k: "length (cs_send_key a) = 32" "cs_send_key a = cs_recv_key b" "cs_suite a = cs_suite b" using p by (auto simp: frame_peers_def session_peers_def)
  have nonce: "length ?nonce = 12" "make_nonce b (cs_recv_counter b) = ?nonce" using p by (auto simp: frame_peers_def session_peers_def make_nonce_def)
  have cnt: "unat (cs_send_counter a) < 2 ^ 48" "cs_recv_counter b = cs_send_counter a" using p by (auto simp: frame_peers_def)
  then have lt: "cs_send_counter a < AEAD_MAX_INVOCATIONS" by (simp add: AEAD_MAX_INVOCATIONS_def word_less_nat_alt)
  have "length payload < 2 ^ 32" using len by simp
  then obtain c where c: "aead_seal L (cs_suite a) (cs_send_key a) ?nonce ?aad payload = Some c" "length c = length payload + 16"
      "aead_open L (cs_suite a) (cs_send_key a) ?nonce ?aad c = Some payload"
    using L k(1) nonce(1) unfolding aead_ok_def by blast
  have "unat (cs_send_counter a + 1) = unat (cs_send_counter a) + 1" using cnt(1) by (simp add: unat_word_ariths)
  then have "frame_peers n (a\<lparr>cs_send_counter := cs_send_counter a + 1\<rparr>) (b\<lparr>cs_recv_counter := cs_recv_counter b + 1\<rparr>)"
    using p by (auto simp: frame_peers_def session_peers_def)
  moreover have "append_frame L payload buf a = (Ok (buf @ ?aad @ c), a\<lparr>cs_send_counter := cs_send_counter a + 1\<rparr>)"
    using c(1) lt by (simp add: append_frame_def encrypt_in_place_offset_def AEAD_OVERHEAD_def Let_def)
  moreover have "decrypt_in_place L ?aad c b = (Ok payload, b\<lparr>cs_recv_counter := cs_recv_counter b + 1\<rparr>)"
    using c(3) lt cnt(2) k nonce(2) by (simp add: decrypt_in_place_def Let_def)
  ultimately show ?thesis using that c(2) by blast
qed

lemma frame_read:
  assumes "length c = length payload + 16" "length payload + 16 < 2 ^ 32"
    and "decrypt_in_place L (to_be_bytes (word_of_nat (length payload + 16) :: u32)) c b = (Ok payload, b')"
  shows "read_frame L (to_be_bytes (word_of_nat (length payload + 16) :: u32) @ c @ arriving) b =
    (if length payload \<le> MAX_FRAME_PAYLOAD then (Ok payload, arriving, b') else (Err (FrameTooLarge (length payload + 16)), c @ arriving, b))"
proof -
  have "unat (word_of_nat (length payload + 16) :: u32) = length payload + 16"
    using assms(2) by (subst unat_of_nat) (simp del: of_nat_add)
  then show ?thesis using assms(1,3) by (simp add: read_frame_def AEAD_OVERHEAD_def Let_def del: of_nat_add)
qed

lemma frames_read:
  assumes L: "aead_ok L" and p: "frame_peers (length payloads) a b" and len: "\<And>x. x \<in> set payloads \<Longrightarrow> length x \<le> MAX_FRAME_PAYLOAD"
  shows "\<exists>wire a' b'. append_frames L payloads buf a = (Ok (buf @ wire), a')
    \<and> read_frames L (length payloads) (wire @ arriving) b = (payloads, None, arriving, b') \<and> frame_peers 0 a' b'"
  using p len
proof (induction payloads arbitrary: buf a b)
  case (Cons x xs)
  have "frame_peers (Suc (length xs)) a b" "length x + 16 < 2 ^ 32" "length x \<le> MAX_FRAME_PAYLOAD" using Cons.prems(1) Cons.prems(2)[of x] by simp_all
  note c = this
  let ?b = "b\<lparr>cs_recv_counter := cs_recv_counter b + 1\<rparr>" and ?h = "to_be_bytes (word_of_nat (length x + 16) :: u32)"
  obtain c a' where f: "append_frame L x buf a = (Ok (buf @ ?h @ c), a')" "length c = length x + 16"
    "decrypt_in_place L ?h c b = (Ok x, ?b)" "frame_peers (length xs) a' ?b"
    by (rule frame_sealed[OF L c(1,2)])
  obtain wire a2 b2 where r: "append_frames L xs (buf @ ?h @ c) a' = (Ok ((buf @ ?h @ c) @ wire), a2)"
    "read_frames L (length xs) (wire @ arriving) ?b = (xs, None, arriving, b2)" "frame_peers 0 a2 b2"
    using Cons.IH[OF f(4), of "buf @ ?h @ c"] Cons.prems(2) by auto
  have "read_frames L (length (x # xs)) ((?h @ c @ wire) @ arriving) b = (x # xs, None, arriving, b2)"
    using frame_read[OF f(2) c(2) f(3), of "wire @ arriving"] c(3) r(2) by (simp add: split_beta)
  moreover have "append_frames L (x # xs) buf a = (Ok (buf @ ?h @ c @ wire), a2)" using f(1) r(1) by simp
  ultimately show ?case using r(3) by blast
qed (auto simp: frame_peers_def)

subsection \<open>Properties\<close>

text \<open>
  C32. Frames over a byte stream. A message written with \<open>write_frame\<close>, of any length, is
  read back by the peer: the frames it takes off the stream, one per 64 KiB, together are
  the message, nothing of what follows on the stream is touched and the nonce counters
  stay in step. A payload written with \<open>write_frames_batch\<close> comes back only up to 64 KiB:
  a longer one is written as one frame and refused by \<open>read_frame\<close> as too large.
\<close>

theorem frames_round_trip:
  assumes L: "aead_ok L" and p: "frame_peers (length (chunks_of MAX_FRAME_PAYLOAD data)) a b"
    and q: "frame_peers 1 a b" and len: "length payload + 16 < 2 ^ 32"
  shows "(\<exists>wire a' frames b'. write_frame L True data a = (Ok (length data, wire), a')
      \<and> read_frames L (length (chunks_of MAX_FRAME_PAYLOAD data)) (wire @ arriving) b = (frames, None, arriving, b')
      \<and> concat frames = data \<and> frame_peers 0 a' b')
    \<and> (\<exists>wire a'. write_frames_batch L True [payload] a = (Ok (length payload, wire), a')
      \<and> fst (read_frame L (wire @ arriving) b) =
          (if length payload \<le> MAX_FRAME_PAYLOAD then Ok payload else Err (FrameTooLarge (length payload + 16))))"
proof
  have "\<And>x. x \<in> set (chunks_of MAX_FRAME_PAYLOAD data) \<Longrightarrow> length x \<le> MAX_FRAME_PAYLOAD" using chunk_length by blast
  from frames_read[OF L p this, of "[]" arriving]
  show "\<exists>wire a' frames b'. write_frame L True data a = (Ok (length data, wire), a')
      \<and> read_frames L (length (chunks_of MAX_FRAME_PAYLOAD data)) (wire @ arriving) b = (frames, None, arriving, b')
      \<and> concat frames = data \<and> frame_peers 0 a' b'"
  proof (cases "data = []")
    case True
    then show ?thesis using p by (auto simp: write_frame_def chunks_of.simps)
  qed (auto simp: write_frame_def concat_chunks)
  have q': "frame_peers (Suc 0) a b" using q by simp
  let ?h = "to_be_bytes (word_of_nat (length payload + 16) :: u32)"
  obtain c a' where f: "append_frame L payload [] a = (Ok ([] @ ?h @ c), a')" "length c = length payload + 16"
    "decrypt_in_place L ?h c b = (Ok payload, b\<lparr>cs_recv_counter := cs_recv_counter b + 1\<rparr>)"
    by (rule frame_sealed[OF L q' len])
  show "\<exists>wire a'. write_frames_batch L True [payload] a = (Ok (length payload, wire), a')
      \<and> fst (read_frame L (wire @ arriving) b) =
          (if length payload \<le> MAX_FRAME_PAYLOAD then Ok payload else Err (FrameTooLarge (length payload + 16)))"
    using f(1) frame_read[OF f(2) len f(3), of arriving] by (intro exI[of _ "?h @ c"]) (auto simp: write_frames_batch_def)
qed

theorem frames_round_trip_witness:
  "\<exists>a b wire a' frames r. build_session demo_lib demo_secret Aes256Gcm False = Ok a \<and> build_session demo_lib demo_secret Aes256Gcm True = Ok b
    \<and> write_frame demo_lib True [1, 2, 3] a = (Ok (3, wire), a')
    \<and> read_frames demo_lib 1 (wire @ [9]) b = (frames, r) \<and> concat frames = [1, 2, 3]
    \<and> (\<exists>wire a'. write_frames_batch demo_lib True [replicate 65537 0] a = (Ok (65537, wire), a')
        \<and> fst (read_frame demo_lib (wire @ [9]) b) = Err (FrameTooLarge 65553))"
proof -
  have k: "kdf_ok demo_lib" "aead_ok demo_lib" using demo_lib_ok by (simp_all add: crypto_ok_def)
  obtain a where a: "build_session demo_lib demo_secret Aes256Gcm False = Ok a" "cs_send_counter a = 0"
    by (rule build_session_ok[OF k(1)])
  obtain b where b: "build_session demo_lib demo_secret Aes256Gcm True = Ok b" "cs_recv_counter b = 0"
    by (rule build_session_ok[OF k(1)])
  have "session_peers a b" using build_session_peers[of demo_lib demo_secret Aes256Gcm False a b] k(1) a(1) b(1) by simp
  then have p: "frame_peers 1 a b" using a(2) b(2) by (simp add: frame_peers_def)
  have ch: "chunks_of MAX_FRAME_PAYLOAD [1, 2, 3 :: u8] = [[1, 2, 3]]" by (simp add: chunks_of.simps)
  show ?thesis
    using frames_round_trip[OF k(2), of "[1, 2, 3]" a b "replicate 65537 0" "[9]"] p a(1) b(1) unfolding ch by auto
qed

end
