(* ===== verification/Session_Cache.thy ===== *)
theory Session_Cache
  imports Crypto_Session
begin

text \<open>
  The cache of resumption tickets (\<open>transport/session_cache.rs\<close>): a bounded map from
  session ids to tickets with a least-recently-used order. The hash map is an
  association list with distinct keys; every operation takes the clock.
\<close>

record resumption_ticket =
  rt_secret :: bytes
  rt_suite :: cipher_suite
  rt_created_at :: nanos
  rt_expires_at :: nanos

record session_cache =
  sc_tickets :: "(bytes \<times> resumption_ticket) list"
  sc_lru_order :: "bytes list"
  sc_max_entries :: nat
  sc_ticket_lifetime :: nanos

definition cache_with_capacity :: "nat \<Rightarrow> nanos \<Rightarrow> session_cache" where
  "cache_with_capacity max_entries lifetime =
     \<lparr>sc_tickets = [], sc_lru_order = [], sc_max_entries = max_entries, sc_ticket_lifetime = lifetime\<rparr>"

definition cache_new :: session_cache where
  "cache_new = cache_with_capacity 64 (3600 * 1000000000)"

definition cache_is_disabled :: "session_cache \<Rightarrow> bool" where
  "cache_is_disabled c \<longleftrightarrow> sc_max_entries c = 0"

definition cache_remove :: "bytes \<Rightarrow> session_cache \<Rightarrow> bool \<times> session_cache" where
  "cache_remove sid c =
     (map_of (sc_tickets c) sid \<noteq> None,
      c\<lparr>sc_tickets := filter (\<lambda>e. fst e \<noteq> sid) (sc_tickets c), sc_lru_order := filter (\<lambda>i. i \<noteq> sid) (sc_lru_order c)\<rparr>)"

definition evict_oldest :: "nanos \<Rightarrow> session_cache \<Rightarrow> session_cache" where
  "evict_oldest now c =
     (let expired = map fst (filter (\<lambda>e. now \<ge> rt_expires_at (snd e)) (sc_tickets c));
          c = c\<lparr>sc_tickets := filter (\<lambda>e. fst e \<notin> set expired) (sc_tickets c),
                sc_lru_order := filter (\<lambda>i. i \<notin> set expired) (sc_lru_order c)\<rparr>
      in if length (sc_tickets c) \<ge> sc_max_entries c then
           case sc_lru_order c of
             [] \<Rightarrow> c
           | oldest # rest \<Rightarrow> c\<lparr>sc_tickets := filter (\<lambda>e. fst e \<noteq> oldest) (sc_tickets c), sc_lru_order := rest\<rparr>
         else c)"

text \<open>\<open>tickets.insert\<close> with the two lines that move the id to the end of the LRU order.\<close>

definition cache_insert :: "bytes \<Rightarrow> resumption_ticket \<Rightarrow> session_cache \<Rightarrow> session_cache" where
  "cache_insert sid t c =
     c\<lparr>sc_tickets := (sid, t) # filter (\<lambda>e. fst e \<noteq> sid) (sc_tickets c),
       sc_lru_order := filter (\<lambda>i. i \<noteq> sid) (sc_lru_order c) @ [sid]\<rparr>"

definition cache_store :: "nanos \<Rightarrow> bytes \<Rightarrow> bytes \<Rightarrow> cipher_suite \<Rightarrow> session_cache \<Rightarrow> session_cache" where
  "cache_store now sid secret suite c =
     (if cache_is_disabled c then c
      else let c = (if length (sc_tickets c) \<ge> sc_max_entries c then evict_oldest now c else c)
           in cache_insert sid \<lparr>rt_secret = secret, rt_suite = suite, rt_created_at = now, rt_expires_at = now + sc_ticket_lifetime c\<rparr> c)"

definition try_resume :: "nanos \<Rightarrow> bytes \<Rightarrow> session_cache \<Rightarrow> (bytes \<times> cipher_suite) option \<times> session_cache" where
  "try_resume now sid c =
     (case map_of (sc_tickets c) sid of
        None \<Rightarrow> (None, c)
      | Some t \<Rightarrow>
          if \<not> now < rt_expires_at t then (None, snd (cache_remove sid c))
          else (Some (rt_secret t, rt_suite t), snd (cache_remove sid c)))"

definition cache_peek :: "nanos \<Rightarrow> bytes \<Rightarrow> session_cache \<Rightarrow> resumption_ticket option \<times> session_cache" where
  "cache_peek now sid c =
     (case map_of (sc_tickets c) sid of
        None \<Rightarrow> (None, c)
      | Some t \<Rightarrow> if \<not> now < rt_expires_at t then (None, snd (cache_remove sid c)) else (Some t, c))"

definition reinsert_with_expiry :: "nanos \<Rightarrow> bytes \<Rightarrow> resumption_ticket \<Rightarrow> session_cache \<Rightarrow> session_cache" where
  "reinsert_with_expiry now sid t c =
     (if cache_is_disabled c \<or> now \<ge> rt_expires_at t then c
      else let c = (if length (sc_tickets c) \<ge> sc_max_entries c then evict_oldest now c else c)
           in cache_insert sid t c)"

subsection \<open>The cache invariant\<close>

definition cache_ok :: "session_cache \<Rightarrow> bool" where
  "cache_ok c \<longleftrightarrow> distinct (map fst (sc_tickets c)) \<and> distinct (sc_lru_order c)
     \<and> set (sc_lru_order c) = fst ` set (sc_tickets c) \<and> length (sc_tickets c) \<le> sc_max_entries c"

lemma filter_keys: "fst ` set (filter (\<lambda>e. P (fst e)) xs) = {k \<in> fst ` set xs. P k}"
  by auto

lemma cache_filter_ok:
  assumes "cache_ok c"
  shows "cache_ok (c\<lparr>sc_tickets := filter (\<lambda>e. P (fst e)) (sc_tickets c), sc_lru_order := filter P (sc_lru_order c)\<rparr>)"
  using assms length_filter_le[of "\<lambda>e. P (fst e)" "sc_tickets c"]
  by (auto simp: cache_ok_def filter_keys distinct_map_filter simp del: length_filter_le)

lemma cache_remove_ok: "cache_ok c \<Longrightarrow> cache_ok (snd (cache_remove sid c))"
  using cache_filter_ok[of c "\<lambda>i. i \<noteq> sid"] by (simp add: cache_remove_def)

lemma cache_new_ok: "cache_ok (cache_with_capacity m l)"
  by (simp add: cache_ok_def cache_with_capacity_def)

text \<open>After an eviction there is room for one more ticket, unless the capacity is zero.\<close>

lemma evict_oldest_ok:
  assumes "cache_ok c" "0 < sc_max_entries c"
  shows "cache_ok (evict_oldest now c) \<and> length (sc_tickets (evict_oldest now c)) < sc_max_entries c
    \<and> sc_max_entries (evict_oldest now c) = sc_max_entries c \<and> sc_ticket_lifetime (evict_oldest now c) = sc_ticket_lifetime c"
proof -
  define ex where "ex = map fst (filter (\<lambda>e. now \<ge> rt_expires_at (snd e)) (sc_tickets c))"
  define d where "d = c\<lparr>sc_tickets := filter (\<lambda>e. fst e \<notin> set ex) (sc_tickets c), sc_lru_order := filter (\<lambda>i. i \<notin> set ex) (sc_lru_order c)\<rparr>"
  have ev: "evict_oldest now c = (if length (sc_tickets d) \<ge> sc_max_entries d then
      case sc_lru_order d of [] \<Rightarrow> d
      | oldest # rest \<Rightarrow> d\<lparr>sc_tickets := filter (\<lambda>e. fst e \<noteq> oldest) (sc_tickets d), sc_lru_order := rest\<rparr> else d)"
    unfolding evict_oldest_def Let_def ex_def[symmetric] d_def[symmetric] ..
  have d: "cache_ok d" "sc_max_entries d = sc_max_entries c" "sc_ticket_lifetime d = sc_ticket_lifetime c"
    using cache_filter_ok[OF assms(1), of "\<lambda>i. i \<notin> set ex"] by (simp_all add: d_def)
  show ?thesis
  proof (cases "sc_lru_order d")
    case Nil
    then have "sc_tickets d = []" using d(1) by (auto simp: cache_ok_def)
    then show ?thesis using assms(2) d ev by simp
  next
    case (Cons oldest rest)
    let ?f = "d\<lparr>sc_tickets := filter (\<lambda>e. fst e \<noteq> oldest) (sc_tickets d), sc_lru_order := rest\<rparr>"
    have "filter (\<lambda>i. i \<noteq> oldest) (sc_lru_order d) = rest"
      using d(1) Cons by (auto simp: cache_ok_def filter_id_conv)
    then have "cache_ok ?f" using cache_filter_ok[OF d(1), of "\<lambda>i. i \<noteq> oldest"] by simp
    moreover have "length (sc_tickets ?f) < sc_max_entries c"
    proof -
      have "oldest \<in> fst ` set (sc_tickets d)" using d(1) Cons by (auto simp: cache_ok_def)
      from length_filter_key[OF this] show ?thesis using d(1,2) by (simp add: cache_ok_def)
    qed
    ultimately show ?thesis using ev d Cons by simp
  qed
qed

lemma cache_insert_ok:
  assumes "cache_ok c" "length (sc_tickets c) < sc_max_entries c \<or> sid \<in> fst ` set (sc_tickets c)"
  shows "cache_ok (cache_insert sid t c)"
proof -
  have "length (filter (\<lambda>e. fst e \<noteq> sid) (sc_tickets c)) < sc_max_entries c"
  proof (cases "sid \<in> fst ` set (sc_tickets c)")
    case True
    from length_filter_key[OF this] show ?thesis using assms(1) by (simp add: cache_ok_def)
  qed (use assms(2) in \<open>auto intro: order.strict_trans1[OF length_filter_le]\<close>)
  then show ?thesis using cache_filter_ok[OF assms(1), of "\<lambda>i. i \<noteq> sid"]
    by (auto simp: cache_insert_def cache_ok_def)
qed

lemma cache_make_room:
  fixes now
  assumes "cache_ok c" "\<not> cache_is_disabled c"
  defines "d \<equiv> if length (sc_tickets c) \<ge> sc_max_entries c then evict_oldest now c else c"
  shows "cache_ok (cache_insert sid t d)"
  by (rule cache_insert_ok) (use evict_oldest_ok[OF assms(1)] assms in \<open>auto simp: cache_is_disabled_def\<close>)

lemma cache_store_ok: "cache_ok c \<Longrightarrow> cache_ok (cache_store now sid secret suite c)"
  using cache_make_room by (simp add: cache_store_def Let_def)

lemma reinsert_ok: "cache_ok c \<Longrightarrow> cache_ok (reinsert_with_expiry now sid t c)"
  using cache_make_room by (simp add: reinsert_with_expiry_def Let_def)

lemma cache_peek_ok: "cache_ok c \<Longrightarrow> cache_ok (snd (cache_peek now sid c))"
  by (auto simp: cache_peek_def cache_remove_ok split: option.split)

subsection \<open>Live tickets\<close>

text \<open>What the cache answers to a lookup: its tickets that have not expired.\<close>

definition live_ticket :: "nanos \<Rightarrow> session_cache \<Rightarrow> bytes \<Rightarrow> resumption_ticket option" where
  "live_ticket now c sid = (case map_of (sc_tickets c) sid of None \<Rightarrow> None | Some t \<Rightarrow> if now < rt_expires_at t then Some t else None)"

lemma cache_peek_live:
  "fst (cache_peek now sid c) = live_ticket now c sid" "live_ticket now (snd (cache_peek now sid c)) = live_ticket now c"
  by (auto simp: cache_peek_def live_ticket_def cache_remove_def map_of_filter_key fun_eq_iff split: option.split)

lemma cache_remove_live:
  "live_ticket now (snd (cache_remove sid c)) = (live_ticket now c)(sid := None)"
  by (auto simp: cache_remove_def live_ticket_def map_of_filter_key fun_eq_iff)

lemma cache_insert_live:
  "live_ticket now (cache_insert sid t c) = (live_ticket now c)(sid := if now < rt_expires_at t then Some t else None)"
  by (auto simp: cache_insert_def live_ticket_def map_of_filter_key fun_eq_iff)

lemma evict_filters: "\<exists>P. sc_tickets (evict_oldest now c) = filter (\<lambda>e. P (fst e)) (sc_tickets c)"
proof -
  define ex where "ex = map fst (filter (\<lambda>e. now \<ge> rt_expires_at (snd e)) (sc_tickets c))"
  define l where "l = filter (\<lambda>i. i \<notin> set ex) (sc_lru_order c)"
  have "sc_tickets (evict_oldest now c) = filter (\<lambda>e. fst e \<notin> set ex) (sc_tickets c) \<or>
    sc_tickets (evict_oldest now c) = filter (\<lambda>e. fst e \<notin> set ex \<and> fst e \<noteq> hd l) (sc_tickets c)"
    unfolding evict_oldest_def Let_def ex_def[symmetric] l_def by (simp split: list.split)
  then show ?thesis by (elim disjE) (rule exI[where x = "\<lambda>i. i \<notin> set ex"], assumption, rule exI[where x = "\<lambda>i. i \<notin> set ex \<and> i \<noteq> hd l"], assumption)
qed

lemma evict_live: "live_ticket now (evict_oldest now c) \<subseteq>\<^sub>m live_ticket now c"
  using evict_filters[of now c] by (auto simp: live_ticket_def map_le_def map_of_filter_fst split: option.splits if_splits)

end
