(* ===== verification/Admission.thy ===== *)
theory Admission
  imports Crypto_Session
begin

text \<open>
  Admission control: the stateless proof-of-work challenge (\<open>crypto/pow.rs\<close>) and the
  per-address reputation that sets its difficulty (\<open>transport/reputation.rs\<close>). An
  \<open>IpAddr\<close> is represented by its printed form, which is all the code reads of it besides
  equality. The wall clock, in seconds since the epoch, is an argument; BLAKE3 is a parameter.
\<close>

type_synonym ip_addr = bytes

record blake3_lib =
  blake3_keyed :: "bytes \<Rightarrow> bytes \<Rightarrow> bytes"
  blake3_hash :: "bytes \<Rightarrow> bytes"

text \<open>Documented behaviour: both produce 32 bytes.\<close>

definition blake3_ok :: "blake3_lib \<Rightarrow> bool" where
  "blake3_ok B \<longleftrightarrow> (\<forall>k m. length (blake3_keyed B k m) = 32) \<and> (\<forall>m. length (blake3_hash B m) = 32)"

definition to_le_bytes :: "u64 \<Rightarrow> bytes" where "to_le_bytes w = rev (to_be_bytes w)"
definition from_le_bytes :: "bytes \<Rightarrow> u64" where "from_le_bytes bs = from_be_bytes (rev bs)"

lemma from_to_le_bytes [simp]: "from_le_bytes (to_le_bytes w) = w"
  by (simp add: from_le_bytes_def to_le_bytes_def)

lemma length_to_le_bytes [simp]: "length (to_le_bytes w) = 8"
  by (simp add: to_le_bytes_def)

subsection \<open>Proof of work\<close>

abbreviation MAX_CLIENT_POW_DIFFICULTY :: u8 where "MAX_CLIENT_POW_DIFFICULTY \<equiv> 24"
abbreviation MAX_SOLVE_ITERATIONS :: u64 where "MAX_SOLVE_ITERATIONS \<equiv> push_bit (unat MAX_CLIENT_POW_DIFFICULTY + 8) 1"

datatype pow_error = DifficultyTooHigh u8 u8 | PowExhausted

record pow_challenge =
  pc_nonce :: bytes
  pc_difficulty :: u8

record pow_solution =
  ps_nonce :: bytes
  ps_solution :: u64

definition new_stateless :: "blake3_lib \<Rightarrow> u64 \<Rightarrow> u8 \<Rightarrow> bytes \<Rightarrow> bytes \<Rightarrow> pow_challenge" where
  "new_stateless B timestamp difficulty client_id secret =
     (let mac = blake3_keyed B secret (to_le_bytes timestamp @ client_id)
      in \<lparr>pc_nonce = to_le_bytes timestamp @ take 24 mac, pc_difficulty = difficulty\<rparr>)"

definition compute_blake3_hash :: "blake3_lib \<Rightarrow> bytes \<Rightarrow> u64 \<Rightarrow> bytes" where
  "compute_blake3_hash B nonce solution = blake3_hash B (nonce @ to_le_bytes solution)"

definition leading_zeros :: "u8 \<Rightarrow> u8" where
  "leading_zeros b = word_of_nat (length (takeWhile (\<lambda>i. \<not> bit b i) [7, 6, 5, 4, 3, 2, 1, 0]))"

fun count_zeros :: "bytes \<Rightarrow> u8 \<Rightarrow> u8" where
  "count_zeros [] zeros = zeros"
| "count_zeros (b # bs) zeros = (if b = 0 then count_zeros bs (zeros + 8) else zeros + leading_zeros b)"

definition check_leading_zeros :: "bytes \<Rightarrow> u8 \<Rightarrow> bool" where
  "check_leading_zeros hash difficulty \<longleftrightarrow> count_zeros hash 0 \<ge> difficulty"

definition pow_verify :: "blake3_lib \<Rightarrow> u64 \<Rightarrow> pow_challenge \<Rightarrow> pow_solution \<Rightarrow> bytes \<Rightarrow> bytes \<Rightarrow> bool" where
  "pow_verify B now ch sol client_id secret =
     (if pc_nonce ch \<noteq> ps_nonce sol then False
      else
        let timestamp_bytes = take 8 (pc_nonce ch);
            timestamp = from_le_bytes timestamp_bytes;
            mac = blake3_keyed B secret (timestamp_bytes @ client_id)
        in if take 24 (drop 8 (pc_nonce ch)) \<noteq> take 24 mac then False
           else if now < timestamp \<or> now > timestamp + 120 then False
           else check_leading_zeros (compute_blake3_hash B (pc_nonce ch) (ps_solution sol)) (pc_difficulty ch))"

text \<open>The loop \<open>for solution in 0..max_iters\<close>, with the iterations left as the recursion argument.\<close>

fun solve_from :: "blake3_lib \<Rightarrow> pow_challenge \<Rightarrow> nat \<Rightarrow> u64 \<Rightarrow> (pow_error, pow_solution) result" where
  "solve_from B ch 0 solution = Err PowExhausted"
| "solve_from B ch (Suc left) solution =
     (if check_leading_zeros (compute_blake3_hash B (pc_nonce ch) solution) (pc_difficulty ch)
      then Ok \<lparr>ps_nonce = pc_nonce ch, ps_solution = solution\<rparr>
      else solve_from B ch left (solution + 1))"

definition solve_with_bound :: "blake3_lib \<Rightarrow> u64 \<Rightarrow> pow_challenge \<Rightarrow> (pow_error, pow_solution) result" where
  "solve_with_bound B max_iters ch = solve_from B ch (unat max_iters) 0"

definition solve_capped :: "blake3_lib \<Rightarrow> u8 \<Rightarrow> pow_challenge \<Rightarrow> (pow_error, pow_solution) result" where
  "solve_capped B max_difficulty ch =
     (if pc_difficulty ch > max_difficulty then Err (DifficultyTooHigh (pc_difficulty ch) max_difficulty)
      else solve_with_bound B MAX_SOLVE_ITERATIONS ch)"

lemma solve_from_sound:
  "solve_from B ch n s = Ok sol \<Longrightarrow> ps_nonce sol = pc_nonce ch \<and>
     check_leading_zeros (compute_blake3_hash B (pc_nonce ch) (ps_solution sol)) (pc_difficulty ch)"
  by (induction B ch n s rule: solve_from.induct) (auto split: if_splits)

lemma solve_from_finds:
  "k < n \<Longrightarrow> check_leading_zeros (compute_blake3_hash B (pc_nonce ch) (s + word_of_nat k)) (pc_difficulty ch)
    \<Longrightarrow> \<exists>sol. solve_from B ch n s = Ok sol"
proof (induction B ch n s arbitrary: k rule: solve_from.induct)
  case (2 B ch left solution)
  show ?case
  proof (cases k)
    case (Suc j)
    then have "check_leading_zeros (compute_blake3_hash B (pc_nonce ch) ((solution + 1) + word_of_nat j)) (pc_difficulty ch)"
      using "2.prems"(2) by (simp add: add.commute add.left_commute)
    then show ?thesis using "2.IH"[of j] "2.prems"(1) Suc by auto
  qed (use "2.prems" in simp)
qed simp

text \<open>A solved challenge is accepted while it is fresh, by the address it was made for.\<close>

lemma solved_verifies:
  assumes B: "blake3_ok B" and solved: "solve_from B (new_stateless B t d ip secret) n 0 = Ok sol"
    and fresh: "t \<le> now" "now \<le> t + 120"
  shows "pow_verify B now \<lparr>pc_nonce = ps_nonce sol, pc_difficulty = d\<rparr> sol ip secret"
  using solve_from_sound[OF solved] B fresh
  by (simp add: pow_verify_def Let_def new_stateless_def blake3_ok_def not_less)

text \<open>What a server that accepts a solution knows of it.\<close>

lemma pow_verify_bound:
  assumes "pow_verify B now ch sol ip secret"
  shows "take 24 (drop 8 (ps_nonce sol)) = take 24 (blake3_keyed B secret (take 8 (ps_nonce sol) @ ip))"
    and "from_le_bytes (take 8 (ps_nonce sol)) \<le> now" "now \<le> from_le_bytes (take 8 (ps_nonce sol)) + 120"
    and "check_leading_zeros (compute_blake3_hash B (ps_nonce sol) (ps_solution sol)) (pc_difficulty ch)"
  using assms by (auto simp: pow_verify_def Let_def not_less split: if_splits)

subsection \<open>Reputation\<close>

abbreviation WINDOW_SECS :: u64 where "WINDOW_SECS \<equiv> 60"
abbreviation BASE_DIFFICULTY :: u8 where "BASE_DIFFICULTY \<equiv> 8"
abbreviation MAX_DIFFICULTY :: u8 where "MAX_DIFFICULTY \<equiv> 20"

record reputation_entry =
  re_violations :: u32
  re_last_seen_secs :: u64

record reputation_tracker =
  rp_entries :: "(ip_addr \<times> reputation_entry) list"
  rp_max_entries :: nat

definition reputation_with_capacity :: "nat \<Rightarrow> reputation_tracker" where
  "reputation_with_capacity max_entries = \<lparr>rp_entries = [], rp_max_entries = max max_entries 1\<rparr>"

definition reputation_gc :: "u64 \<Rightarrow> reputation_tracker \<Rightarrow> reputation_tracker" where
  "reputation_gc now r = r\<lparr>rp_entries := filter (\<lambda>e. now \<le> re_last_seen_secs (snd e) + WINDOW_SECS) (rp_entries r)\<rparr>"

definition record_violation :: "u64 \<Rightarrow> ip_addr \<Rightarrow> reputation_tracker \<Rightarrow> reputation_tracker" where
  "record_violation now ip r =
     (case map_of (rp_entries r) ip of
        Some e \<Rightarrow>
          let violations = (if now > re_last_seen_secs e + WINDOW_SECS then 1 else re_violations e + 1)
          in r\<lparr>rp_entries := (ip, \<lparr>re_violations = violations, re_last_seen_secs = now\<rparr>) # filter (\<lambda>e. fst e \<noteq> ip) (rp_entries r)\<rparr>
      | None \<Rightarrow>
          let r = (if length (rp_entries r) \<ge> rp_max_entries r then reputation_gc now r else r)
          in if length (rp_entries r) \<ge> rp_max_entries r then r
             else r\<lparr>rp_entries := (ip, \<lparr>re_violations = 1, re_last_seen_secs = now\<rparr>) # rp_entries r\<rparr>)"

definition reset_violations :: "ip_addr \<Rightarrow> reputation_tracker \<Rightarrow> reputation_tracker" where
  "reset_violations ip r = r\<lparr>rp_entries := filter (\<lambda>e. fst e \<noteq> ip) (rp_entries r)\<rparr>"

definition calculate_difficulty :: "u64 \<Rightarrow> ip_addr \<Rightarrow> bool \<Rightarrow> reputation_tracker \<Rightarrow> u8" where
  "calculate_difficulty now ip has_ticket r =
     (if has_ticket then 0
      else case map_of (rp_entries r) ip of
             Some e \<Rightarrow>
               if now > re_last_seen_secs e + WINDOW_SECS then 0
               else if re_violations e = 0 then 0
               else let exp = min (re_violations e - 1) 8;
                        diff = min (ucast BASE_DIFFICULTY + push_bit (unat exp) 1) (ucast MAX_DIFFICULTY :: u32)
                    in ucast diff
           | None \<Rightarrow> 0)"

definition reputation_ok :: "reputation_tracker \<Rightarrow> bool" where
  "reputation_ok r \<longleftrightarrow> length (rp_entries r) \<le> rp_max_entries r"

lemma reputation_bounded:
  assumes "reputation_ok r"
  shows "reputation_ok (record_violation now ip r)" "reputation_ok (reset_violations ip r)" "reputation_ok (reputation_gc now r)"
proof -
  have f: "length (filter P (rp_entries r)) \<le> rp_max_entries r" for P
    using assms order.trans[OF length_filter_le] by (auto simp: reputation_ok_def)
  show "reputation_ok (reset_violations ip r)" "reputation_ok (reputation_gc now r)"
    using f by (simp_all add: reputation_ok_def reset_violations_def reputation_gc_def)
  show "reputation_ok (record_violation now ip r)"
  proof (cases "map_of (rp_entries r) ip")
    case None
    then show ?thesis using f[of "\<lambda>e. now \<le> re_last_seen_secs (snd e) + WINDOW_SECS"] assms
      unfolding record_violation_def reputation_ok_def Let_def reputation_gc_def by (auto simp del: length_filter_le)
  next
    case (Some e)
    then have "ip \<in> fst ` set (rp_entries r)" by (auto dest: map_of_SomeD intro: rev_image_eqI)
    from length_filter_key[OF this] show ?thesis using Some assms
      by (simp add: record_violation_def reputation_ok_def Let_def)
  qed
qed

lemma difficulty_cap: "calculate_difficulty now ip has_ticket r \<le> MAX_DIFFICULTY"
proof -
  have c: "(ucast (min x 20) :: u8) \<le> 20" for x :: u32
  proof -
    have "min x 20 \<le> (20 :: u32)" by simp
    then have "unat (min x (20 :: u32)) \<le> 20" by (simp add: word_le_nat_alt)
    then show ?thesis by (simp add: word_le_nat_alt unsigned_ucast_eq take_bit_nat_eq_self)
  qed
  show ?thesis unfolding calculate_difficulty_def Let_def by (auto simp: c split: option.split)
qed

end
