(* ===== verification/Hybrid_Keys.thy ===== *)
theory Hybrid_Keys
  imports Crypto_Session
begin

text \<open>
  The hybrid key exchange (\<open>crypto/hybrid_kem.rs\<close>: X25519 or ECDH-P-256 with ML-KEM-768) and
  the hybrid signature (\<open>crypto/hybrid_sign.rs\<close>: Ed25519 with ML-DSA-65). The four
  primitives are packages outside the sources and parameters here; secret keys are the
  seeds they are made from, and randomness drawn by an operation is an argument of it.
\<close>

record pq_lib =
  classical_public :: "bytes \<Rightarrow> bytes option"
  classical_agree :: "bytes \<Rightarrow> bytes \<Rightarrow> bytes option"
  ml_kem_public :: "bytes \<Rightarrow> bytes"
  ml_kem_key_length :: nat
  ml_kem_key_valid :: "bytes \<Rightarrow> bool"
  ml_kem_ct_length :: nat
  ml_kem_encapsulate :: "bytes \<Rightarrow> bytes \<Rightarrow> bytes \<times> bytes"
  ml_kem_decapsulate :: "bytes \<Rightarrow> bytes \<Rightarrow> bytes"
  ed25519_public :: "bytes \<Rightarrow> bytes"
  ed25519_key_valid :: "bytes \<Rightarrow> bool"
  ed25519_sign :: "bytes \<Rightarrow> bytes \<Rightarrow> bytes"
  ed25519_verify_strict :: "bytes \<Rightarrow> bytes \<Rightarrow> bytes \<Rightarrow> bool"
  ml_dsa_public :: "bytes \<Rightarrow> bytes"
  ml_dsa_key_length :: nat
  ml_dsa_sign :: "bytes \<Rightarrow> bytes \<Rightarrow> bytes"
  ml_dsa_sig_length :: nat
  ml_dsa_sig_decodes :: "bytes \<Rightarrow> bool"
  ml_dsa_verify :: "bytes \<Rightarrow> bytes \<Rightarrow> bytes \<Rightarrow> bool"

subsection \<open>Key exchange\<close>

abbreviation CLASSICAL_PK_BYTES :: "crypto_lib \<Rightarrow> nat" where
  "CLASSICAL_PK_BYTES L \<equiv> (if fips_build L then 65 else 32)"

abbreviation COMBINE_LABEL :: "crypto_lib \<Rightarrow> string" where
  "COMBINE_LABEL L \<equiv> (if fips_build L then ''HybridKEM_P256_Kyber768'' else ''HybridKEM_X25519_Kyber768'')"

datatype kem_error = AgreeFailed | PublicKeyFailed | CiphertextLength | EncapKeyLength | EncapKeyInvalid

record hybrid_secret_key =
  hk_classical_sk :: bytes
  hk_ml_kem_dk :: bytes

record hybrid_key_package =
  kp_classical_pk :: bytes
  kp_ml_kem_pk :: bytes

record hybrid_ciphertext =
  hct_classical_pk :: bytes
  hct_ml_kem_ct :: bytes

text \<open>A failing public-key computation is a panic in the source and None here.\<close>

definition hybrid_kem_generate :: "pq_lib \<Rightarrow> bytes \<Rightarrow> bytes \<Rightarrow> (hybrid_secret_key \<times> hybrid_key_package) option" where
  "hybrid_kem_generate P seed dk =
     (case classical_public P seed of
        None \<Rightarrow> None
      | Some pk \<Rightarrow> Some (\<lparr>hk_classical_sk = seed, hk_ml_kem_dk = dk\<rparr>, \<lparr>kp_classical_pk = pk, kp_ml_kem_pk = ml_kem_public P dk\<rparr>))"

definition combine_secrets :: "crypto_lib \<Rightarrow> bytes \<Rightarrow> bytes \<Rightarrow> bytes \<Rightarrow> bytes \<Rightarrow> bytes" where
  "combine_secrets L ecc_secret pq_secret classical_ct classical_pk =
     hkdf_sha256 L None (ecc_secret @ pq_secret @ classical_ct @ classical_pk) (COMBINE_LABEL L) 32"

definition decapsulate :: "crypto_lib \<Rightarrow> pq_lib \<Rightarrow> hybrid_secret_key \<Rightarrow> hybrid_ciphertext \<Rightarrow> (kem_error, bytes) result" where
  "decapsulate L P sk ct =
     (case classical_agree P (hk_classical_sk sk) (hct_classical_pk ct) of
        None \<Rightarrow> Err AgreeFailed
      | Some classical_shared \<Rightarrow>
          if length (hct_ml_kem_ct ct) \<noteq> ml_kem_ct_length P then Err CiphertextLength
          else
            let ml_kem_shared = ml_kem_decapsulate P (hk_ml_kem_dk sk) (hct_ml_kem_ct ct)
            in case classical_public P (hk_classical_sk sk) of
                 None \<Rightarrow> Err PublicKeyFailed
               | Some our_pk \<Rightarrow> Ok (combine_secrets L classical_shared ml_kem_shared (hct_classical_pk ct) our_pk))"

definition encapsulate ::
  "crypto_lib \<Rightarrow> pq_lib \<Rightarrow> bytes \<Rightarrow> bytes \<Rightarrow> hybrid_key_package \<Rightarrow> (kem_error, bytes \<times> hybrid_ciphertext) result" where
  "encapsulate L P seed coins kp =
     (case classical_public P seed of
        None \<Rightarrow> Err PublicKeyFailed
      | Some eph_pk \<Rightarrow>
          (case classical_agree P seed (kp_classical_pk kp) of
             None \<Rightarrow> Err AgreeFailed
           | Some classical_shared \<Rightarrow>
               if length (kp_ml_kem_pk kp) \<noteq> ml_kem_key_length P then Err EncapKeyLength
               else if \<not> ml_kem_key_valid P (kp_ml_kem_pk kp) then Err EncapKeyInvalid
               else
                 let (ct, ml_kem_shared) = ml_kem_encapsulate P (kp_ml_kem_pk kp) coins
                 in Ok (combine_secrets L classical_shared ml_kem_shared eph_pk (kp_classical_pk kp),
                        \<lparr>hct_classical_pk = eph_pk, hct_ml_kem_ct = ct\<rparr>)))"

text \<open>
  Documented behaviour of the two key-exchange primitives: a classical agreement gives
  both sides the same secret, and ML-KEM decapsulation inverts encapsulation to the
  matching, valid key.
\<close>

definition kem_ok :: "pq_lib \<Rightarrow> bool" where
  "kem_ok P \<longleftrightarrow>
     (\<forall>a b pa pb. classical_public P a = Some pa \<longrightarrow> classical_public P b = Some pb \<longrightarrow>
        (\<exists>k. classical_agree P a pb = Some k \<and> classical_agree P b pa = Some k))
   \<and> (\<forall>dk. length (ml_kem_public P dk) = ml_kem_key_length P \<and> ml_kem_key_valid P (ml_kem_public P dk))
   \<and> (\<forall>dk r ct ss. ml_kem_encapsulate P (ml_kem_public P dk) r = (ct, ss) \<longrightarrow>
        length ct = ml_kem_ct_length P \<and> ml_kem_decapsulate P dk ct = ss)"

lemma kem_agrees:
  assumes "kem_ok P" "hybrid_kem_generate P seed dk = Some (sk, kp)" "classical_public P eph \<noteq> None"
  shows "\<exists>ss ct. encapsulate L P eph coins kp = Ok (ss, ct)"
    and "encapsulate L P eph coins kp = Ok (ss, ct) \<Longrightarrow> decapsulate L P sk ct = Ok ss"
proof -
  obtain pk where pk: "classical_public P seed = Some pk" "sk = \<lparr>hk_classical_sk = seed, hk_ml_kem_dk = dk\<rparr>"
    "kp = \<lparr>kp_classical_pk = pk, kp_ml_kem_pk = ml_kem_public P dk\<rparr>"
    using assms(2) by (auto simp: hybrid_kem_generate_def split: option.splits)
  obtain e where e: "classical_public P eph = Some e" using assms(3) by blast
  obtain k where k: "classical_agree P seed e = Some k" "classical_agree P eph pk = Some k"
    using assms(1) pk(1) e unfolding kem_ok_def by blast
  obtain c m where c: "ml_kem_encapsulate P (ml_kem_public P dk) coins = (c, m)" by fastforce
  then have m: "length c = ml_kem_ct_length P" "ml_kem_decapsulate P dk c = m" using assms(1) unfolding kem_ok_def by blast+
  have v: "length (ml_kem_public P dk) = ml_kem_key_length P" "ml_kem_key_valid P (ml_kem_public P dk)"
    using assms(1) unfolding kem_ok_def by blast+
  show "\<exists>ss ct. encapsulate L P eph coins kp = Ok (ss, ct)"
    using e k c v pk(3) by (simp add: encapsulate_def)
  show "decapsulate L P sk ct = Ok ss" if "encapsulate L P eph coins kp = Ok (ss, ct)"
    using that e k c v m pk by (auto simp: encapsulate_def decapsulate_def Let_def)
qed

lemma encapsulate_length: "kdf_ok L \<Longrightarrow> encapsulate L P eph coins kp = Ok (ss, ct) \<Longrightarrow> length ss = 32"
  by (auto simp: encapsulate_def combine_secrets_def kdf_ok_def split_beta split: option.splits if_splits)

subsection \<open>Signatures\<close>

datatype hybrid_sign_error =
    InvalidKeyLength | InvalidKeyFormat | InvalidPublicKey | InvalidSignature | InvalidSignatureLength
  | Ed25519VerificationFailed | DilithiumVerificationFailed

record hybrid_signing_key =
  sk_ed25519 :: bytes
  sk_ml_dsa :: bytes

record hybrid_verifying_key =
  vk_ed25519_pk :: bytes
  vk_ml_dsa_pk :: bytes

record hybrid_signature =
  sig_ed25519 :: bytes
  sig_ml_dsa :: bytes

definition verifying_key :: "pq_lib \<Rightarrow> hybrid_signing_key \<Rightarrow> hybrid_verifying_key" where
  "verifying_key P sk = \<lparr>vk_ed25519_pk = ed25519_public P (sk_ed25519 sk), vk_ml_dsa_pk = ml_dsa_public P (sk_ml_dsa sk)\<rparr>"

definition hybrid_sign_generate :: "pq_lib \<Rightarrow> bytes \<Rightarrow> bytes \<Rightarrow> hybrid_signing_key \<times> hybrid_verifying_key" where
  "hybrid_sign_generate P ed_seed ml_seed =
     (let sk = \<lparr>sk_ed25519 = ed_seed, sk_ml_dsa = ml_seed\<rparr> in (sk, verifying_key P sk))"

definition hybrid_sign :: "pq_lib \<Rightarrow> hybrid_signing_key \<Rightarrow> bytes \<Rightarrow> hybrid_signature" where
  "hybrid_sign P sk message =
     \<lparr>sig_ed25519 = ed25519_sign P (sk_ed25519 sk) message, sig_ml_dsa = ml_dsa_sign P (sk_ml_dsa sk) message\<rparr>"

definition hybrid_verify ::
  "pq_lib \<Rightarrow> hybrid_verifying_key \<Rightarrow> bytes \<Rightarrow> hybrid_signature \<Rightarrow> (hybrid_sign_error, unit) result" where
  "hybrid_verify P vk message sg =
     (if \<not> ed25519_key_valid P (vk_ed25519_pk vk) then Err InvalidPublicKey
      else if \<not> ed25519_verify_strict P (vk_ed25519_pk vk) message (sig_ed25519 sg) then Err Ed25519VerificationFailed
      else if length (vk_ml_dsa_pk vk) \<noteq> ml_dsa_key_length P then Err InvalidPublicKey
      else if length (sig_ml_dsa sg) \<noteq> ml_dsa_sig_length P then Err InvalidSignature
      else if \<not> ml_dsa_sig_decodes P (sig_ml_dsa sg) then Err InvalidSignature
      else if \<not> ml_dsa_verify P (vk_ml_dsa_pk vk) message (sig_ml_dsa sg) then Err DilithiumVerificationFailed
      else Ok ())"

definition pairwise_consistency_check ::
  "pq_lib \<Rightarrow> hybrid_signing_key \<Rightarrow> hybrid_verifying_key \<Rightarrow> (hybrid_sign_error, unit) result" where
  "pairwise_consistency_check P sk vk =
     (let msg = map of_char ''phantom-protocol keygen pairwise-consistency test'' in hybrid_verify P vk msg (hybrid_sign P sk msg))"

definition signing_key_to_bytes :: "hybrid_signing_key \<Rightarrow> bytes" where
  "signing_key_to_bytes sk = sk_ed25519 sk @ sk_ml_dsa sk"

definition signing_key_from_bytes :: "bytes \<Rightarrow> (hybrid_sign_error, hybrid_signing_key) result" where
  "signing_key_from_bytes bs =
     (if length bs \<noteq> 64 then Err InvalidKeyLength else Ok \<lparr>sk_ed25519 = take 32 bs, sk_ml_dsa = drop 32 bs\<rparr>)"

definition verifying_key_to_bytes :: "hybrid_verifying_key \<Rightarrow> bytes" where
  "verifying_key_to_bytes vk = vk_ed25519_pk vk @ vk_ml_dsa_pk vk"

definition verifying_key_from_bytes :: "bytes \<Rightarrow> (hybrid_sign_error, hybrid_verifying_key) result" where
  "verifying_key_from_bytes bs =
     (if length bs \<noteq> 32 + 1952 then Err InvalidKeyLength else Ok \<lparr>vk_ed25519_pk = take 32 bs, vk_ml_dsa_pk = drop 32 bs\<rparr>)"

text \<open>Documented behaviour of the two signature schemes: a key verifies what it signed.\<close>

definition sig_ok :: "pq_lib \<Rightarrow> bool" where
  "sig_ok P \<longleftrightarrow> (\<forall>s m. ed25519_key_valid P (ed25519_public P s) \<and> ed25519_verify_strict P (ed25519_public P s) m (ed25519_sign P s m))
     \<and> (\<forall>s m. length (ml_dsa_public P s) = ml_dsa_key_length P \<and> length (ml_dsa_sign P s m) = ml_dsa_sig_length P
          \<and> ml_dsa_sig_decodes P (ml_dsa_sign P s m) \<and> ml_dsa_verify P (ml_dsa_public P s) m (ml_dsa_sign P s m))"

lemma sign_verifies: "sig_ok P \<Longrightarrow> hybrid_verify P (verifying_key P sk) m (hybrid_sign P sk m) = Ok ()"
  by (simp add: sig_ok_def hybrid_verify_def verifying_key_def hybrid_sign_def)

lemma pairwise_consistent: "sig_ok P \<Longrightarrow> pairwise_consistency_check P sk (verifying_key P sk) = Ok ()"
  by (simp add: pairwise_consistency_check_def Let_def sign_verifies)

text \<open>Both halves must verify.\<close>

lemma hybrid_verify_both:
  "hybrid_verify P vk m sg = Ok () \<Longrightarrow>
     ed25519_verify_strict P (vk_ed25519_pk vk) m (sig_ed25519 sg) \<and> ml_dsa_verify P (vk_ml_dsa_pk vk) m (sig_ml_dsa sg)"
  by (auto simp: hybrid_verify_def split: if_splits)

lemma key_bytes_round_trip:
  "length (sk_ed25519 sk) = 32 \<Longrightarrow> length (sk_ml_dsa sk) = 32 \<Longrightarrow> signing_key_from_bytes (signing_key_to_bytes sk) = Ok sk"
  "length (vk_ed25519_pk vk) = 32 \<Longrightarrow> length (vk_ml_dsa_pk vk) = 1952 \<Longrightarrow> verifying_key_from_bytes (verifying_key_to_bytes vk) = Ok vk"
  by (simp_all add: signing_key_from_bytes_def signing_key_to_bytes_def verifying_key_from_bytes_def
      verifying_key_to_bytes_def)

end
