(* ===== verification/Handshake_Messages.thy ===== *)
theory Handshake_Messages
  imports Hybrid_Keys Admission Session
begin

text \<open>
  The messages of the handshake (\<open>transport/handshake.rs\<close>), the transcript the server signs,
  the framing of a server reply and the structural length check that runs on a
  \<open>ClientHello\<close> before it is decoded.

  The serialisation crate \<open>borsh\<close> is outside the sources: its encoders and decoders are
  the parameters below.
\<close>

subsection \<open>Messages\<close>

abbreviation EARLY_DATA_MAX_LEN :: nat where "EARLY_DATA_MAX_LEN \<equiv> 16 * 1024"
abbreviation EARLY_DATA_SEALED_MAX_LEN :: nat where "EARLY_DATA_SEALED_MAX_LEN \<equiv> EARLY_DATA_MAX_LEN + 16"
abbreviation PROTOCOL_VERSION :: u8 where "PROTOCOL_VERSION \<equiv> 5"
abbreviation REJECT_UNSUPPORTED_VERSION :: u8 where "REJECT_UNSUPPORTED_VERSION \<equiv> 1"
abbreviation REJECT_PROTOCOL_VARIANT :: u8 where "REJECT_PROTOCOL_VARIANT \<equiv> 2"
abbreviation REJECT_RETRY_LIMIT :: u8 where "REJECT_RETRY_LIMIT \<equiv> 3"
abbreviation MAX_HANDSHAKE_RETRY_ROUNDS :: nat where "MAX_HANDSHAKE_RETRY_ROUNDS \<equiv> 3"

definition PROTOCOL_VARIANT :: "crypto_lib \<Rightarrow> bytes" where
  "PROTOCOL_VARIANT L = map of_char (if fips_build L then ''phantom-fips-1'' else ''phantom-default-1'')"

definition SERVER_REJECT_MARKER :: bytes where "SERVER_REJECT_MARKER = map of_char ''PRJ1''"

record server_reject =
  srj_marker :: bytes
  srj_code :: u8
  srj_supported_version :: u8

text \<open>\<open>ServerReject::unsupported_version\<close>, \<open>protocol_variant_mismatch\<close> and \<open>retry_limit\<close>, by their code.\<close>

definition reject_with :: "u8 \<Rightarrow> server_reject" where
  "reject_with code = \<lparr>srj_marker = SERVER_REJECT_MARKER, srj_code = code, srj_supported_version = PROTOCOL_VERSION\<rparr>"

definition has_marker :: "server_reject \<Rightarrow> bool" where
  "has_marker r \<longleftrightarrow> srj_marker r = SERVER_REJECT_MARKER"

record client_hello =
  ch_key_package :: hybrid_key_package
  ch_verify_key :: hybrid_verifying_key
  ch_nonce :: bytes
  ch_version :: u8
  ch_cookie :: "bytes option"
  ch_pow_solution :: "pow_solution option"
  ch_resume_session_id :: "bytes option"
  ch_resumption_binder :: "bytes option"
  ch_protocol_variant :: bytes
  ch_early_data :: "bytes option"

record hello_retry_request =
  hrr_challenge :: "pow_challenge option"
  hrr_cookie :: "bytes option"

record server_hello =
  sh_server_nonce :: bytes
  sh_ciphertext :: hybrid_ciphertext
  sh_server_verify_key :: hybrid_verifying_key
  sh_signature :: hybrid_signature
  sh_session_id :: bytes
  sh_early_data_accepted :: bool

datatype server_reply = RHello server_hello | RRetry hello_retry_request | RReject server_reject

record handshake_transcript =
  tr_protocol_variant :: bytes
  tr_client_hello :: client_hello
  tr_server_nonce :: bytes
  tr_ciphertext :: hybrid_ciphertext
  tr_server_verify_key :: hybrid_verifying_key
  tr_session_id :: bytes
  tr_early_data_accepted :: bool

datatype handshake_error =
    UnsupportedVersion | KemFailed | ServerIdentityMismatch | RngError | HsSerialization | ClockBackwards
  | HsInternal | ProtocolVariantMismatch bytes bytes

subsection \<open>What the handshake takes from other packages\<close>

record hs_lib =
  hl_crypto :: crypto_lib
  hl_pq :: pq_lib
  hl_blake3 :: blake3_lib
  hl_sha256 :: "bytes \<Rightarrow> bytes"
  hl_hmac_sha256 :: "bytes \<Rightarrow> bytes \<Rightarrow> bytes"
  borsh_transcript :: "handshake_transcript \<Rightarrow> bytes"
  borsh_client_hello :: "client_hello \<Rightarrow> bytes"
  unborsh_client_hello :: "bytes \<Rightarrow> client_hello option"
  borsh_reply_body :: "server_reply \<Rightarrow> bytes"
  unborsh_server_hello :: "bytes \<Rightarrow> server_hello option"
  unborsh_retry :: "bytes \<Rightarrow> hello_retry_request option"
  unborsh_reject :: "bytes \<Rightarrow> server_reject option"

text \<open>
  Documented behaviour of \<open>borsh\<close>: the encoding of a transcript is injective and the
  decoders of the server's replies invert their encoders.
\<close>

definition borsh_ok :: "hs_lib \<Rightarrow> bool" where
  "borsh_ok H \<longleftrightarrow> inj (borsh_transcript H)
     \<and> (\<forall>h. unborsh_server_hello H (borsh_reply_body H (RHello h)) = Some h)
     \<and> (\<forall>r. unborsh_retry H (borsh_reply_body H (RRetry r)) = Some r)
     \<and> (\<forall>r. unborsh_reject H (borsh_reply_body H (RReject r)) = Some r)"

definition compute_transcript_hash :: "hs_lib \<Rightarrow> handshake_transcript \<Rightarrow> bytes" where
  "compute_transcript_hash H t = hl_sha256 H (borsh_transcript H t)"

subsection \<open>Server replies\<close>

definition reply_to_wire :: "hs_lib \<Rightarrow> server_reply \<Rightarrow> bytes" where
  "reply_to_wire H r = (case r of RHello _ \<Rightarrow> 0 | RRetry _ \<Rightarrow> 1 | RReject _ \<Rightarrow> 2) # borsh_reply_body H r"

definition reply_from_wire :: "hs_lib \<Rightarrow> bytes \<Rightarrow> (handshake_error, server_reply) result" where
  "reply_from_wire H bs =
     (case bs of
        [] \<Rightarrow> Err HsSerialization
      | kind # body \<Rightarrow>
          (if kind = 0 then case unborsh_server_hello H body of None \<Rightarrow> Err HsSerialization | Some x \<Rightarrow> Ok (RHello x)
           else if kind = 1 then case unborsh_retry H body of None \<Rightarrow> Err HsSerialization | Some x \<Rightarrow> Ok (RRetry x)
           else if kind = 2 then case unborsh_reject H body of None \<Rightarrow> Err HsSerialization | Some x \<Rightarrow> Ok (RReject x)
           else Err HsSerialization))"

lemma reply_round_trip: "borsh_ok H \<Longrightarrow> reply_from_wire H (reply_to_wire H r) = Ok r"
  by (cases r) (simp_all add: reply_to_wire_def reply_from_wire_def borsh_ok_def)

subsection \<open>The length check\<close>

text \<open>
  \<open>client_hello_lengths_within_bounds\<close>. A helper that advances \<open>pos\<close> returns the new
  position, or None where it returns false.
\<close>

definition skip :: "bytes \<Rightarrow> nat \<Rightarrow> nat \<Rightarrow> nat option" where
  "skip bs n pos = (if pos + n \<le> length bs then Some (pos + n) else None)"

definition read_len :: "bytes \<Rightarrow> nat \<Rightarrow> (nat \<times> nat) option" where
  "read_len bs pos =
     (if pos + 4 > length bs then None
      else Some (unat (from_be_bytes (rev (take 4 (drop pos bs))) :: u32), pos + 4))"

definition read_opt :: "bytes \<Rightarrow> nat \<Rightarrow> (bool \<times> nat) option" where
  "read_opt bs pos =
     (if pos < length bs then
        if bs ! pos = 0 then Some (False, pos + 1) else if bs ! pos = 1 then Some (True, pos + 1) else None
      else None)"

definition vec_le :: "bytes \<Rightarrow> nat \<Rightarrow> nat \<Rightarrow> nat option" where
  "vec_le bs max_len pos = (case read_len bs pos of Some (l, pos) \<Rightarrow> if l \<le> max_len then skip bs l pos else None | None \<Rightarrow> None)"

definition opt_fixed :: "bytes \<Rightarrow> nat \<Rightarrow> nat \<Rightarrow> nat option" where
  "opt_fixed bs n pos = (case read_opt bs pos of Some (True, pos) \<Rightarrow> skip bs n pos | Some (False, pos) \<Rightarrow> Some pos | None \<Rightarrow> None)"

definition client_hello_lengths_within_bounds :: "crypto_lib \<Rightarrow> bytes \<Rightarrow> bool" where
  "client_hello_lengths_within_bounds L bs =
     (case Option.bind (skip bs (CLASSICAL_PK_BYTES L) 0) (\<lambda>pos.
           Option.bind (vec_le bs 1184 pos) (\<lambda>pos.
           Option.bind (skip bs 32 pos) (\<lambda>pos.
           Option.bind (vec_le bs 1952 pos) (\<lambda>pos.
           Option.bind (skip bs (32 + 1) pos) (\<lambda>pos.
           Option.bind (opt_fixed bs 32 pos) (\<lambda>pos.
           Option.bind (opt_fixed bs 40 pos) (\<lambda>pos.
           Option.bind (opt_fixed bs 32 pos) (\<lambda>pos.
           Option.bind (opt_fixed bs 32 pos) (\<lambda>pos.
           Option.bind (vec_le bs 64 pos) (\<lambda>pos.
             case read_opt bs pos of
               Some (True, pos) \<Rightarrow> vec_le bs EARLY_DATA_SEALED_MAX_LEN pos
             | Some (False, pos) \<Rightarrow> Some pos
             | None \<Rightarrow> None)))))))))) of
        Some pos \<Rightarrow> pos = length bs
      | None \<Rightarrow> False)"

end
