(* ===== verification/Handshake.thy ===== *)
theory Handshake
  imports Handshake_Messages Session_Cache
begin

text \<open>
  The handshake state machines (\<open>transport/handshake.rs\<close>): \<open>HandshakeServer\<close> with its cookie
  and proof-of-work gate, the one-shot resumption tickets and 0-RTT early data, and
  \<open>HandshakeClient\<close>. A method of the server is one step on its state. The clocks are read
  once per call and the random draws of a call are arguments; metrics are left out.
\<close>

subsection \<open>Clocks and randomness\<close>

text \<open>
  The wall clock in seconds, None when it is before the Unix epoch, and the monotonic
  clock of the ticket cache.
\<close>

record moment =
  unix_secs :: "u64 option"
  instant :: nanos

text \<open>
  The draws of one \<open>process_client_hello\<close>: the seeds of the two key-exchange halves, the
  server nonce (None when the generator fails), and the answer of an installed
  anti-replay store, which belongs to the embedder.
\<close>

record server_coins =
  co_eph :: bytes
  co_kem :: bytes
  co_nonce :: "bytes option"
  co_first_use :: "(bytes \<Rightarrow> bool) option"

subsection \<open>Cookies\<close>

abbreviation COOKIE_BUCKET_SECONDS :: u64 where "COOKIE_BUCKET_SECONDS \<equiv> 300"
abbreviation SECRET_ROTATION_SECONDS :: u64 where "SECRET_ROTATION_SECONDS \<equiv> 3600"

definition current_cookie_bucket :: "moment \<Rightarrow> (handshake_error, u64) result" where
  "current_cookie_bucket now = (case unix_secs now of None \<Rightarrow> Err ClockBackwards | Some s \<Rightarrow> Ok (s div COOKIE_BUCKET_SECONDS))"

definition current_secret_hour :: "moment \<Rightarrow> (handshake_error, u64) result" where
  "current_secret_hour now = (case unix_secs now of None \<Rightarrow> Err ClockBackwards | Some s \<Rightarrow> Ok (s div SECRET_ROTATION_SECONDS))"

definition derive_session_secret_for_hour :: "hs_lib \<Rightarrow> bytes \<Rightarrow> u64 \<Rightarrow> bytes" where
  "derive_session_secret_for_hour H master hour =
     hkdf_sha256 (hl_crypto H) None master (''phantom-pow-cookie-v1'' @ map (\<lambda>b. char_of (unat b)) (to_be_bytes hour)) 32"

definition generate_cookie_for_bucket :: "hs_lib \<Rightarrow> bytes \<Rightarrow> ip_addr \<Rightarrow> u64 \<Rightarrow> bytes" where
  "generate_cookie_for_bucket H derived_secret ip bucket = hl_hmac_sha256 H derived_secret (ip @ to_be_bytes bucket)"

definition generate_cookie :: "hs_lib \<Rightarrow> moment \<Rightarrow> bytes \<Rightarrow> ip_addr \<Rightarrow> (handshake_error, bytes) result" where
  "generate_cookie H now master ip =
     (case current_secret_hour now of
        Inl e \<Rightarrow> Err e
      | Inr hour \<Rightarrow>
          (case current_cookie_bucket now of
             Inl e \<Rightarrow> Err e
           | Inr bucket \<Rightarrow> Ok (generate_cookie_for_bucket H (derive_session_secret_for_hour H master hour) ip bucket)))"

definition validate_cookie :: "hs_lib \<Rightarrow> moment \<Rightarrow> bytes \<Rightarrow> ip_addr \<Rightarrow> bytes \<Rightarrow> (handshake_error, bool) result" where
  "validate_cookie H now master ip cookie =
     (case current_cookie_bucket now of
        Inl e \<Rightarrow> Err e
      | Inr bucket \<Rightarrow>
          (case current_secret_hour now of
             Inl e \<Rightarrow> Err e
           | Inr hour \<Rightarrow>
               let buckets = [bucket, if bucket = 0 then 0 else bucket - 1];
                   hours = [hour, if hour = 0 then 0 else hour - 1]
               in Ok (list_ex (\<lambda>h. list_ex (\<lambda>b.
                    cookie = generate_cookie_for_bucket H (derive_session_secret_for_hour H master h) ip b) buckets) hours)))"

subsection \<open>Derivations\<close>

definition derive_resumption_binder :: "crypto_lib \<Rightarrow> bytes \<Rightarrow> bytes \<Rightarrow> bytes \<Rightarrow> bytes" where
  "derive_resumption_binder L resumption_secret resume_session_id client_nonce =
     derive_key_32 L ''phantom-resume-binder-v1'' (resumption_secret @ resume_session_id @ client_nonce)"

definition derive_session_id :: "hs_lib \<Rightarrow> bytes \<Rightarrow> bytes \<Rightarrow> bytes" where
  "derive_session_id H shared_secret nonce = hl_sha256 H (map of_char ''phantom-session-id-v1'' @ shared_secret @ nonce)"

definition derive_early_data_keying :: "crypto_lib \<Rightarrow> bytes \<Rightarrow> bytes \<Rightarrow> bytes \<times> bytes" where
  "derive_early_data_keying L resumption_secret client_nonce =
     (hkdf_sha256 L (Some client_nonce) resumption_secret ''phantom-early-data-key-v3'' 32,
      hkdf_sha256 L (Some client_nonce) resumption_secret ''phantom-early-data-nonce-v3'' 12)"

definition decrypt_early_data :: "crypto_lib \<Rightarrow> bytes \<Rightarrow> bytes \<Rightarrow> bytes \<Rightarrow> bytes \<Rightarrow> bytes option" where
  "decrypt_early_data L resumption_secret client_nonce resume_session_id sealed =
     (if length sealed > EARLY_DATA_SEALED_MAX_LEN then None
      else
        let (key, nonce) = derive_early_data_keying L resumption_secret client_nonce
        in case with_suite_peer L key Aes256Gcm of
             Inl _ \<Rightarrow> None
           | Inr aead \<Rightarrow>
               (case fst (decrypt_with_nonce L nonce (resume_session_id @ client_nonce) sealed aead) of
                  Inl _ \<Rightarrow> None
                | Inr pt \<Rightarrow> Some pt))"

definition seal_early_data :: "crypto_lib \<Rightarrow> bytes \<Rightarrow> bytes \<Rightarrow> bytes \<Rightarrow> bytes \<Rightarrow> bytes option" where
  "seal_early_data L resumption_secret client_nonce resume_session_id plaintext =
     (let (key, nonce) = derive_early_data_keying L resumption_secret client_nonce
      in case with_suite L key Aes256Gcm of
           Inl _ \<Rightarrow> None
         | Inr aead \<Rightarrow>
             (case fst (encrypt_with_nonce L nonce (resume_session_id @ client_nonce) plaintext aead) of
                Inl _ \<Rightarrow> None
              | Inr c \<Rightarrow> Some c))"

text \<open>\<open>hk.expand(b"phantom-resumption-secret-v1", ..)\<close>, done alike by both sides.\<close>

definition derive_resumption_secret :: "crypto_lib \<Rightarrow> bytes \<Rightarrow> bytes" where
  "derive_resumption_secret L shared_secret = hkdf_sha256 L None shared_secret ''phantom-resumption-secret-v1'' 32"

subsection \<open>The server\<close>

record handshake_server =
  hsv_signing_key :: hybrid_signing_key
  hsv_verifying_key :: hybrid_verifying_key
  hsv_master_secret :: bytes
  hsv_handshakes_this_minute :: u64
  hsv_minute_start :: u64
  hsv_session_cache :: session_cache
  hsv_reputation :: reputation_tracker
  hsv_early_data_enabled :: bool

datatype handshake_response =
    HSuccess server_hello session "bytes option" | HRetry hello_retry_request | HReject server_reject | HFail handshake_error

datatype udp_admission = Admit | AdmitRetry hello_retry_request | AdmitDrop

definition unix_or_zero :: "moment \<Rightarrow> u64" where
  "unix_or_zero now = (case unix_secs now of None \<Rightarrow> 0 | Some s \<Rightarrow> s)"

definition with_signing_key_and_cache ::
  "pq_lib \<Rightarrow> moment \<Rightarrow> bytes option \<Rightarrow> hybrid_signing_key \<Rightarrow> session_cache \<Rightarrow> (handshake_error, handshake_server) result" where
  "with_signing_key_and_cache P now master sk cache =
     (case master of
        None \<Rightarrow> Err RngError
      | Some m \<Rightarrow>
          Ok \<lparr>hsv_signing_key = sk, hsv_verifying_key = verifying_key P sk, hsv_master_secret = m,
              hsv_handshakes_this_minute = 0, hsv_minute_start = unix_or_zero now, hsv_session_cache = cache,
              hsv_reputation = reputation_with_capacity 100000, hsv_early_data_enabled = True\<rparr>)"

definition record_handshake :: "moment \<Rightarrow> handshake_server \<Rightarrow> handshake_server" where
  "record_handshake now s =
     (let now_sec = unix_or_zero now;
          s = (if sat_sub now_sec (hsv_minute_start s) \<ge> 60
               then s\<lparr>hsv_handshakes_this_minute := 0, hsv_minute_start := now_sec\<rparr> else s)
      in s\<lparr>hsv_handshakes_this_minute := hsv_handshakes_this_minute s + 1\<rparr>)"

definition adaptive_difficulty :: "handshake_server \<Rightarrow> u8" where
  "adaptive_difficulty s =
     (let count = hsv_handshakes_this_minute s
      in if count \<le> 99 then 0 else if count \<le> 499 then 4 else if count \<le> 1999 then 8 else if count \<le> 9999 then 12 else 16)"

definition udp_admit :: "hs_lib \<Rightarrow> moment \<Rightarrow> client_hello \<Rightarrow> ip_addr \<Rightarrow> handshake_server \<Rightarrow> udp_admission" where
  "udp_admit H now ch ip s =
     (let cookie_valid = (case ch_cookie ch of
            Some c \<Rightarrow> (case validate_cookie H now (hsv_master_secret s) ip c of Inr v \<Rightarrow> v | Inl _ \<Rightarrow> False)
          | None \<Rightarrow> False)
      in if cookie_valid then Admit
         else case generate_cookie H now (hsv_master_secret s) ip of
                Inr cookie \<Rightarrow> AdmitRetry \<lparr>hrr_challenge = None, hrr_cookie = Some cookie\<rparr>
              | Inl _ \<Rightarrow> AdmitDrop)"

definition has_valid_resume :: "hs_lib \<Rightarrow> moment \<Rightarrow> client_hello \<Rightarrow> handshake_server \<Rightarrow> bool \<times> handshake_server" where
  "has_valid_resume H now ch s =
     (case ch_resume_session_id ch of
        None \<Rightarrow> (False, s)
      | Some rid \<Rightarrow>
          let (t, cache) = cache_peek (instant now) rid (hsv_session_cache s); s = s\<lparr>hsv_session_cache := cache\<rparr>
          in case t of
               None \<Rightarrow> (False, s)
             | Some t \<Rightarrow>
                 (case ch_resumption_binder ch of
                    None \<Rightarrow> (False, s)
                  | Some presented \<Rightarrow>
                      (presented = derive_resumption_binder (hl_crypto H) (rt_secret t) rid (ch_nonce ch), s)))"

text \<open>The resumption fast path of \<open>process_client_hello\<close>: the consumed ticket, if any.\<close>

definition consume_ticket ::
  "hs_lib \<Rightarrow> moment \<Rightarrow> (bytes \<Rightarrow> bool) option \<Rightarrow> client_hello \<Rightarrow> session_cache \<Rightarrow> (bytes \<times> resumption_ticket) option \<times> session_cache" where
  "consume_ticket H now store ch cache =
     (case ch_resume_session_id ch of
        None \<Rightarrow> (None, cache)
      | Some rid \<Rightarrow>
          let (t, cache) = cache_peek (instant now) rid cache
          in case t of
               None \<Rightarrow> (None, cache)
             | Some t \<Rightarrow>
                 (case ch_resumption_binder ch of
                    None \<Rightarrow> (None, cache)
                  | Some presented \<Rightarrow>
                      if presented \<noteq> derive_resumption_binder (hl_crypto H) (rt_secret t) rid (ch_nonce ch) then (None, cache)
                      else
                        let (existed, cache) = cache_remove rid cache
                        in if \<not> existed then (None, cache)
                           else case store of
                                  Some check_and_set \<Rightarrow> if \<not> check_and_set rid then (None, cache) else (Some (rid, t), cache)
                                | None \<Rightarrow> (Some (rid, t), cache)))"

definition cookie_pow_gate ::
  "hs_lib \<Rightarrow> moment \<Rightarrow> client_hello \<Rightarrow> u8 \<Rightarrow> ip_addr \<Rightarrow> bool \<Rightarrow> bytes \<Rightarrow> (handshake_response, unit) result" where
  "cookie_pow_gate H now ch difficulty ip bypass master =
     (case (case ch_cookie ch of Some c \<Rightarrow> validate_cookie H now master ip c | None \<Rightarrow> Ok False) of
        Inl e \<Rightarrow> Err (HFail e)
      | Inr cookie_valid \<Rightarrow>
          (case generate_cookie H now master ip of
             Inl e \<Rightarrow> Err (HFail e)
           | Inr expected_cookie \<Rightarrow>
               (case (if difficulty > 0 then
                        (case current_secret_hour now of
                           Inl e \<Rightarrow> Err (HFail e)
                         | Inr cur_hour \<Rightarrow>
                             let prev_hour = (if cur_hour = 0 then 0 else cur_hour - 1);
                                 hours = (if cur_hour = prev_hour then [cur_hour] else [cur_hour, prev_hour])
                             in case ch_pow_solution ch of
                                  Some sol \<Rightarrow>
                                    Ok (list_ex (\<lambda>h. pow_verify (hl_blake3 H) (unix_or_zero now)
                                          \<lparr>pc_nonce = ps_nonce sol, pc_difficulty = difficulty\<rparr> sol ip
                                          (derive_session_secret_for_hour H master h)) hours, None)
                                | None \<Rightarrow>
                                    Ok (False, Some (new_stateless (hl_blake3 H) (unix_or_zero now) difficulty ip
                                          (derive_session_secret_for_hour H master cur_hour))))
                      else Ok (True, None)) of
                  Inl resp \<Rightarrow> Err resp
                | Inr (pow_valid, challenge) \<Rightarrow>
                    if \<not> bypass \<and> (\<not> cookie_valid \<or> \<not> pow_valid)
                    then Err (HRetry \<lparr>hrr_challenge = challenge, hrr_cookie = (if \<not> cookie_valid then Some expected_cookie else None)\<rparr>)
                    else Ok ())))"

definition finalize_session ::
  "hs_lib \<Rightarrow> moment \<Rightarrow> bytes \<Rightarrow> bytes \<Rightarrow> session_cache \<Rightarrow> (handshake_response, session) result \<times> session_cache" where
  "finalize_session H now shared_secret sid cache =
     (let L = hl_crypto H in
      case crypto_state_new L shared_secret True of
        Inl e \<Rightarrow> (Err (HFail KemFailed), cache)
      | Inr crypto \<Rightarrow>
          let session = session_from_derived L (instant now) sid crypto shared_secret True;
              resumption_secret = derive_resumption_secret L shared_secret
          in (Ok (set_resumption_secret resumption_secret session),
              cache_store (instant now) sid resumption_secret Aes256Gcm cache))"

definition fail_and_reinsert ::
  "moment \<Rightarrow> (bytes \<times> resumption_ticket) option \<Rightarrow> handshake_response \<Rightarrow> handshake_server \<Rightarrow> handshake_response \<times> handshake_server" where
  "fail_and_reinsert now resumed resp s =
     (case resumed of
        None \<Rightarrow> (resp, s)
      | Some (rid, t) \<Rightarrow> (resp, s\<lparr>hsv_session_cache := reinsert_with_expiry (instant now) rid t (hsv_session_cache s)\<rparr>))"

definition process_client_hello ::
  "hs_lib \<Rightarrow> moment \<Rightarrow> server_coins \<Rightarrow> client_hello \<Rightarrow> u8 \<Rightarrow> ip_addr \<Rightarrow> handshake_server \<Rightarrow> handshake_response \<times> handshake_server" where
  "process_client_hello H now coins ch difficulty ip s =
     (let L = hl_crypto H; s = record_handshake now s in
      if ch_protocol_variant ch \<noteq> PROTOCOL_VARIANT L then (HReject (reject_with REJECT_PROTOCOL_VARIANT), s)
      else if ch_version ch \<noteq> PROTOCOL_VERSION then (HReject (reject_with REJECT_UNSUPPORTED_VERSION), s)
      else
        let (resumed, cache) = consume_ticket H now (co_first_use coins) ch (hsv_session_cache s);
            s = s\<lparr>hsv_session_cache := cache\<rparr>
        in case cookie_pow_gate H now ch difficulty ip (resumed \<noteq> None) (hsv_master_secret s) of
             Inl resp \<Rightarrow> fail_and_reinsert now resumed resp s
           | Inr _ \<Rightarrow>
               let early_data_plaintext =
                     (if hsv_early_data_enabled s then
                        case (resumed, ch_early_data ch) of
                          (Some (rid, t), Some blob) \<Rightarrow> decrypt_early_data L (rt_secret t) (ch_nonce ch) rid blob
                        | _ \<Rightarrow> None
                      else None);
                   early_data_accepted = (early_data_plaintext \<noteq> None)
               in case encapsulate L (hl_pq H) (co_eph coins) (co_kem coins) (ch_key_package ch) of
                    Inl e \<Rightarrow> fail_and_reinsert now resumed (HFail KemFailed) s
                  | Inr (shared_secret, ciphertext) \<Rightarrow>
                      (case co_nonce coins of
                         None \<Rightarrow> fail_and_reinsert now resumed (HFail RngError) s
                       | Some server_nonce \<Rightarrow>
                           let sid = derive_session_id H shared_secret (ch_nonce ch);
                               transcript = \<lparr>tr_protocol_variant = PROTOCOL_VARIANT L, tr_client_hello = ch,
                                 tr_server_nonce = server_nonce, tr_ciphertext = ciphertext,
                                 tr_server_verify_key = hsv_verifying_key s, tr_session_id = sid,
                                 tr_early_data_accepted = early_data_accepted\<rparr>;
                               sg = hybrid_sign (hl_pq H) (hsv_signing_key s) (compute_transcript_hash H transcript);
                               sh = \<lparr>sh_server_nonce = server_nonce, sh_ciphertext = ciphertext,
                                 sh_server_verify_key = hsv_verifying_key s, sh_signature = sg,
                                 sh_session_id = sid, sh_early_data_accepted = early_data_accepted\<rparr>;
                               (r, cache) = finalize_session H now shared_secret sid (hsv_session_cache s);
                               s = s\<lparr>hsv_session_cache := cache\<rparr>
                           in case r of
                                Inl resp \<Rightarrow> fail_and_reinsert now resumed resp s
                              | Inr session \<Rightarrow> (HSuccess sh session early_data_plaintext, s)))"

subsection \<open>The client\<close>

datatype handshake_stage = StageInitial | StageClassicalReady | StageEstablished | StageFailed

record handshake_client =
  hc_kem_secret :: hybrid_secret_key
  hc_kem_public :: hybrid_key_package
  hc_verifying_key :: hybrid_verifying_key
  hc_nonce :: bytes
  hc_stage :: handshake_stage

definition handshake_client_new ::
  "pq_lib \<Rightarrow> bytes \<Rightarrow> bytes \<Rightarrow> bytes \<Rightarrow> bytes \<Rightarrow> bytes option \<Rightarrow> (handshake_error, handshake_client) result option" where
  "handshake_client_new P kem_seed kem_dk ed_seed ml_seed nonce =
     (case hybrid_kem_generate P kem_seed kem_dk of
        None \<Rightarrow> None
      | Some (sk, kp) \<Rightarrow>
          Some (case nonce of
                  None \<Rightarrow> Err RngError
                | Some n \<Rightarrow> Ok \<lparr>hc_kem_secret = sk, hc_kem_public = kp,
                    hc_verifying_key = snd (hybrid_sign_generate P ed_seed ml_seed), hc_nonce = n, hc_stage = StageInitial\<rparr>))"

definition create_client_hello :: "crypto_lib \<Rightarrow> handshake_client \<Rightarrow> client_hello" where
  "create_client_hello L c =
     \<lparr>ch_key_package = hc_kem_public c, ch_verify_key = hc_verifying_key c, ch_nonce = hc_nonce c,
      ch_version = PROTOCOL_VERSION, ch_cookie = None, ch_pow_solution = None, ch_resume_session_id = None,
      ch_resumption_binder = None, ch_protocol_variant = PROTOCOL_VARIANT L, ch_early_data = None\<rparr>"

definition create_client_hello_with_resume :: "crypto_lib \<Rightarrow> bytes \<Rightarrow> bytes \<Rightarrow> bytes option \<Rightarrow> handshake_client \<Rightarrow> client_hello" where
  "create_client_hello_with_resume L rid secret early_data c =
     \<lparr>ch_key_package = hc_kem_public c, ch_verify_key = hc_verifying_key c, ch_nonce = hc_nonce c,
      ch_version = PROTOCOL_VERSION, ch_cookie = None, ch_pow_solution = None, ch_resume_session_id = Some rid,
      ch_resumption_binder = Some (derive_resumption_binder L secret rid (hc_nonce c)),
      ch_protocol_variant = PROTOCOL_VARIANT L,
      ch_early_data = Option.bind early_data (seal_early_data L secret (hc_nonce c) rid)\<rparr>"

text \<open>The transcript a \<open>ServerHello\<close> claims, rebuilt from what the client sent and received.\<close>

definition received_transcript :: "crypto_lib \<Rightarrow> client_hello \<Rightarrow> server_hello \<Rightarrow> handshake_transcript" where
  "received_transcript L ch sh =
     \<lparr>tr_protocol_variant = PROTOCOL_VARIANT L, tr_client_hello = ch, tr_server_nonce = sh_server_nonce sh,
      tr_ciphertext = sh_ciphertext sh, tr_server_verify_key = sh_server_verify_key sh,
      tr_session_id = sh_session_id sh, tr_early_data_accepted = sh_early_data_accepted sh\<rparr>"

definition process_server_hello ::
  "hs_lib \<Rightarrow> nanos \<Rightarrow> client_hello \<Rightarrow> server_hello \<Rightarrow> hybrid_verifying_key option \<Rightarrow> handshake_client
     \<Rightarrow> (handshake_error, session \<times> bool option) result \<times> handshake_client" where
  "process_server_hello H now ch sh expected_server_key c =
     (let L = hl_crypto H in
      if expected_server_key \<noteq> None \<and> expected_server_key \<noteq> Some (sh_server_verify_key sh) then (Err ServerIdentityMismatch, c)
      else case hybrid_verify (hl_pq H) (sh_server_verify_key sh) (compute_transcript_hash H (received_transcript L ch sh)) (sh_signature sh) of
             Inl _ \<Rightarrow> (Err KemFailed, c)
           | Inr _ \<Rightarrow>
               (case decapsulate L (hl_pq H) (hc_kem_secret c) (sh_ciphertext sh) of
                  Inl _ \<Rightarrow> (Err KemFailed, c)
                | Inr shared_secret \<Rightarrow>
                    (case crypto_state_new L shared_secret False of
                       Inl _ \<Rightarrow> (Err KemFailed, c)
                     | Inr crypto \<Rightarrow>
                         let session = session_from_derived L now (sh_session_id sh) crypto shared_secret False;
                             session = set_resumption_secret (derive_resumption_secret L shared_secret) session
                         in (Ok (session, map_option (\<lambda>_. sh_early_data_accepted sh) (ch_early_data ch)),
                             c\<lparr>hc_stage := StageEstablished\<rparr>))))"

end
