(* ===== verification/Hello_Layout.thy ===== *)
theory Hello_Layout
  imports Handshake
begin

text \<open>
  The documented layout of an encoded \<open>ClientHello\<close> with a decoder for it, and a concrete
  instance of everything the handshake takes from other packages, on which its properties
  are evaluated.
\<close>

subsection \<open>The encoding of a hello\<close>

text \<open>
  The documented encoding of \<open>borsh\<close>: a structure is its fields in order, a vector is its
  length as a little-endian \<open>u32\<close> and its bytes, an option is a tag byte and its value.
\<close>

definition borsh_vec :: "bytes \<Rightarrow> bytes" where
  "borsh_vec v = rev (to_be_bytes (word_of_nat (length v) :: u32)) @ v"

definition borsh_option :: "('a \<Rightarrow> bytes) \<Rightarrow> 'a option \<Rightarrow> bytes" where
  "borsh_option f x = (case x of None \<Rightarrow> [0] | Some v \<Rightarrow> 1 # f v)"

definition hello_layout :: "client_hello \<Rightarrow> bytes" where
  "hello_layout h =
     kp_classical_pk (ch_key_package h) @ borsh_vec (kp_ml_kem_pk (ch_key_package h))
   @ vk_ed25519_pk (ch_verify_key h) @ borsh_vec (vk_ml_dsa_pk (ch_verify_key h))
   @ (ch_nonce h @ [ch_version h]) @ borsh_option id (ch_cookie h)
   @ borsh_option (\<lambda>s. ps_nonce s @ to_le_bytes (ps_solution s)) (ch_pow_solution h)
   @ borsh_option id (ch_resume_session_id h) @ borsh_option id (ch_resumption_binder h)
   @ borsh_vec (ch_protocol_variant h) @ borsh_option borsh_vec (ch_early_data h)"

text \<open>The lengths that the types of the fields fix, and vectors a \<open>u32\<close> can measure.\<close>

definition hello_typed :: "crypto_lib \<Rightarrow> client_hello \<Rightarrow> bool" where
  "hello_typed L h \<longleftrightarrow> length (kp_classical_pk (ch_key_package h)) = CLASSICAL_PK_BYTES L \<and> length (vk_ed25519_pk (ch_verify_key h)) = 32
     \<and> length (ch_nonce h) = 32 \<and> pred_option (\<lambda>c. length c = 32) (ch_cookie h)
     \<and> pred_option (\<lambda>s. length (ps_nonce s) = 32) (ch_pow_solution h) \<and> pred_option (\<lambda>c. length c = 32) (ch_resume_session_id h)
     \<and> pred_option (\<lambda>c. length c = 32) (ch_resumption_binder h) \<and> length (kp_ml_kem_pk (ch_key_package h)) < 2 ^ 32
     \<and> length (vk_ml_dsa_pk (ch_verify_key h)) < 2 ^ 32 \<and> length (ch_protocol_variant h) < 2 ^ 32
     \<and> pred_option (\<lambda>e. length e < 2 ^ 32) (ch_early_data h)"

text \<open>A decoder: each part returns what it read and the rest.\<close>

definition parse_fixed :: "nat \<Rightarrow> bytes \<Rightarrow> (bytes \<times> bytes) option" where
  "parse_fixed n bs = (if n \<le> length bs then Some (take n bs, drop n bs) else None)"

definition parse_vec :: "bytes \<Rightarrow> (bytes \<times> bytes) option" where
  "parse_vec bs = Option.bind (parse_fixed 4 bs) (\<lambda>(l, bs). parse_fixed (unat (from_be_bytes (rev l) :: u32)) bs)"

definition parse_option :: "(bytes \<Rightarrow> ('a \<times> bytes) option) \<Rightarrow> bytes \<Rightarrow> ('a option \<times> bytes) option" where
  "parse_option f bs =
     (case bs of
        [] \<Rightarrow> None
      | tag # bs \<Rightarrow>
          if tag = 0 then Some (None, bs)
          else if tag = 1 then map_option (\<lambda>(x, bs). (Some x, bs)) (f bs) else None)"

definition parse_solution :: "bytes \<Rightarrow> (pow_solution \<times> bytes) option" where
  "parse_solution bs =
     Option.bind (parse_fixed 32 bs) (\<lambda>(n, bs).
     Option.bind (parse_fixed 8 bs) (\<lambda>(s, bs). Some (\<lparr>ps_nonce = n, ps_solution = from_le_bytes s\<rparr>, bs)))"

definition parse_hello :: "crypto_lib \<Rightarrow> bytes \<Rightarrow> client_hello option" where
  "parse_hello L bs =
     Option.bind (parse_fixed (CLASSICAL_PK_BYTES L) bs) (\<lambda>(kc, bs).
     Option.bind (parse_vec bs) (\<lambda>(kq, bs).
     Option.bind (parse_fixed 32 bs) (\<lambda>(vc, bs).
     Option.bind (parse_vec bs) (\<lambda>(vq, bs).
     Option.bind (parse_fixed 32 bs) (\<lambda>(nonce, bs).
     Option.bind (parse_fixed 1 bs) (\<lambda>(version, bs).
     Option.bind (parse_option (parse_fixed 32) bs) (\<lambda>(cookie, bs).
     Option.bind (parse_option parse_solution bs) (\<lambda>(sol, bs).
     Option.bind (parse_option (parse_fixed 32) bs) (\<lambda>(rid, bs).
     Option.bind (parse_option (parse_fixed 32) bs) (\<lambda>(binder, bs).
     Option.bind (parse_vec bs) (\<lambda>(variant, bs).
     Option.bind (parse_option parse_vec bs) (\<lambda>(early, bs).
       if bs = [] then
         Some \<lparr>ch_key_package = \<lparr>kp_classical_pk = kc, kp_ml_kem_pk = kq\<rparr>,
           ch_verify_key = \<lparr>vk_ed25519_pk = vc, vk_ml_dsa_pk = vq\<rparr>, ch_nonce = nonce, ch_version = hd version,
           ch_cookie = cookie, ch_pow_solution = sol, ch_resume_session_id = rid, ch_resumption_binder = binder,
           ch_protocol_variant = variant, ch_early_data = early\<rparr>
       else None))))))))))))"

lemma parse_fixed_append: "length x = n \<Longrightarrow> parse_fixed n (x @ r) = Some (x, r)"
  by (simp add: parse_fixed_def)

lemma parse_vec_append: "length v < 2 ^ 32 \<Longrightarrow> parse_vec (borsh_vec v @ r) = Some (v, r)"
  by (simp add: parse_vec_def borsh_vec_def parse_fixed_append unat_of_nat)

lemma parse_option_append:
  "pred_option (\<lambda>v. f (g v @ r) = Some (v, r)) x \<Longrightarrow> parse_option f (borsh_option g x @ r) = Some (x, r)"
  by (cases x) (simp_all add: parse_option_def borsh_option_def)

lemma parse_solution_append:
  "length (ps_nonce s) = 32 \<Longrightarrow> parse_solution ((ps_nonce s @ to_le_bytes (ps_solution s)) @ r) = Some (s, r)"
  by (simp add: parse_solution_def parse_fixed_append)

lemma parse_layout:
  assumes "hello_typed L h"
  shows "parse_hello L (hello_layout h) = Some h"
proof -
  have o: "parse_option (parse_fixed 32) (borsh_option id x @ r) = Some (x, r)" if "pred_option (\<lambda>c. length c = 32) x" for x r
    using that by (auto intro!: parse_option_append simp: option.pred_set parse_fixed_append)
  have s: "parse_option parse_solution (borsh_option (\<lambda>s. ps_nonce s @ to_le_bytes (ps_solution s)) x @ r) = Some (x, r)"
    if "pred_option (\<lambda>s. length (ps_nonce s) = 32) x" for x r
    using that parse_solution_append by (auto intro!: parse_option_append simp: option.pred_set simp del: append_assoc)
  have e: "parse_option parse_vec (borsh_option borsh_vec x @ []) = Some (x, [])" if "pred_option (\<lambda>e. length e < 2 ^ 32) x" for x
    using that parse_vec_append[of _ "[]"] by (intro parse_option_append) (auto simp: option.pred_set)
  have b: "parse_fixed (Suc 0) (ch_version h # r) = Some ([ch_version h], r)" for r by (simp add: parse_fixed_def)
  show ?thesis using assms e
    by (simp add: hello_typed_def parse_hello_def hello_layout_def parse_fixed_append parse_vec_append o s b)
qed

subsection \<open>A concrete instance\<close>

text \<open>A self-delimiting encoding of byte strings, and of a list of them.\<close>

fun enc :: "bytes \<Rightarrow> bytes" where
  "enc [] = [0]"
| "enc (b # bs) = 1 # b # enc bs"

fun dec :: "bytes \<Rightarrow> bytes \<times> bytes" where
  "dec (t # b # bs) = (if t = 0 then ([], b # bs) else let (x, r) = dec bs in (b # x, r))"
| "dec _ = ([], [])"

lemma dec_enc [simp]: "dec (enc x @ r) = (x, r)"
  by (induction x) (cases r; simp)+

fun decs :: "nat \<Rightarrow> bytes \<Rightarrow> bytes list" where
  "decs 0 bs = []"
| "decs (Suc n) bs = fst (dec bs) # decs n (snd (dec bs))"

lemma decs_enc [simp]: "decs (length xs) (concat (map enc xs)) = xs"
  by (induction xs) simp_all

lemma enc_inject: "length xs = length ys \<Longrightarrow> concat (map enc xs) = concat (map enc ys) \<Longrightarrow> xs = ys"
  by (metis decs_enc)

definition flag :: "bool \<Rightarrow> bytes" where "flag b = (if b then [1] else [])"
definition maybe :: "('a \<Rightarrow> bytes) \<Rightarrow> 'a option \<Rightarrow> bytes" where "maybe f x = (case x of None \<Rightarrow> [] | Some v \<Rightarrow> 1 # f v)"

lemma flag_inject [simp]: "flag a = flag b \<longleftrightarrow> a = b" "flag a = [] \<longleftrightarrow> \<not> a"
  by (simp_all add: flag_def)

lemma maybe_inject: "inj f \<Longrightarrow> maybe f a = maybe f b \<longleftrightarrow> a = b"
  by (auto simp: maybe_def inj_eq split: option.splits)

definition unmaybe :: "(bytes \<Rightarrow> 'a) \<Rightarrow> bytes \<Rightarrow> 'a option" where
  "unmaybe f bs = (case bs of [] \<Rightarrow> None | _ # v \<Rightarrow> Some (f v))"

lemma unmaybe_maybe [simp]: "(\<And>v. g (f v) = v) \<Longrightarrow> unmaybe g (maybe f x) = x"
  by (cases x) (simp_all add: unmaybe_def maybe_def)

definition hello_fields :: "client_hello \<Rightarrow> bytes list" where
  "hello_fields h =
     [kp_classical_pk (ch_key_package h), kp_ml_kem_pk (ch_key_package h), vk_ed25519_pk (ch_verify_key h),
      vk_ml_dsa_pk (ch_verify_key h), ch_nonce h, [ch_version h], maybe id (ch_cookie h),
      maybe (\<lambda>s. to_be_bytes (ps_solution s) @ ps_nonce s) (ch_pow_solution h), maybe id (ch_resume_session_id h),
      maybe id (ch_resumption_binder h), ch_protocol_variant h, maybe id (ch_early_data h)]"

lemma inj_solution: "inj (\<lambda>s. to_be_bytes (ps_solution s) @ ps_nonce (s :: pow_solution))"
  by (rule injI) (auto simp: to_be_bytes_inj intro: pow_solution.equality)

lemma hello_fields_inject: "hello_fields a = hello_fields b \<Longrightarrow> a = b"
  by (auto simp: hello_fields_def maybe_inject inj_solution intro!: client_hello.equality hybrid_key_package.equality
      hybrid_verifying_key.equality)

definition demo_transcript :: "handshake_transcript \<Rightarrow> bytes" where
  "demo_transcript t = concat (map enc (hello_fields (tr_client_hello t) @
     [tr_protocol_variant t, tr_server_nonce t, hct_classical_pk (tr_ciphertext t), hct_ml_kem_ct (tr_ciphertext t),
      vk_ed25519_pk (tr_server_verify_key t), vk_ml_dsa_pk (tr_server_verify_key t), tr_session_id t, flag (tr_early_data_accepted t)]))"

lemma inj_demo_transcript: "inj demo_transcript"
proof (rule injI)
  fix a b assume "demo_transcript a = demo_transcript b"
  from this[unfolded demo_transcript_def, THEN enc_inject[rotated]] show "a = b"
    by (auto simp: hello_fields_def[THEN arg_cong, of length] dest!: hello_fields_inject
        intro!: handshake_transcript.equality hybrid_ciphertext.equality hybrid_verifying_key.equality)
qed

definition demo_reply :: "server_reply \<Rightarrow> bytes" where
  "demo_reply r = concat (map enc (case r of
       RHello h \<Rightarrow> [sh_server_nonce h, hct_classical_pk (sh_ciphertext h), hct_ml_kem_ct (sh_ciphertext h),
         vk_ed25519_pk (sh_server_verify_key h), vk_ml_dsa_pk (sh_server_verify_key h), sig_ed25519 (sh_signature h),
         sig_ml_dsa (sh_signature h), sh_session_id h, flag (sh_early_data_accepted h)]
     | RRetry r \<Rightarrow> [maybe (\<lambda>c. pc_difficulty c # pc_nonce c) (hrr_challenge r), maybe id (hrr_cookie r)]
     | RReject r \<Rightarrow> [srj_marker r, [srj_code r], [srj_supported_version r]]))"

definition demo_server_hello :: "bytes \<Rightarrow> server_hello option" where
  "demo_server_hello bs = (let x = decs 9 bs in
     Some \<lparr>sh_server_nonce = x ! 0, sh_ciphertext = \<lparr>hct_classical_pk = x ! 1, hct_ml_kem_ct = x ! 2\<rparr>,
       sh_server_verify_key = \<lparr>vk_ed25519_pk = x ! 3, vk_ml_dsa_pk = x ! 4\<rparr>,
       sh_signature = \<lparr>sig_ed25519 = x ! 5, sig_ml_dsa = x ! 6\<rparr>, sh_session_id = x ! 7,
       sh_early_data_accepted = (x ! 8 \<noteq> [])\<rparr>)"

definition demo_retry :: "bytes \<Rightarrow> hello_retry_request option" where
  "demo_retry bs = (let x = decs 2 bs in
     Some \<lparr>hrr_challenge = unmaybe (\<lambda>v. \<lparr>pc_nonce = tl v, pc_difficulty = hd v\<rparr>) (x ! 0), hrr_cookie = unmaybe id (x ! 1)\<rparr>)"

definition demo_reject :: "bytes \<Rightarrow> server_reject option" where
  "demo_reject bs = (let x = decs 3 bs in
     Some \<lparr>srj_marker = x ! 0, srj_code = hd (x ! 1), srj_supported_version = hd (x ! 2)\<rparr>)"

lemmas dec_enc_end [simp] = dec_enc[of _ "[]", simplified]

lemma demo_replies_decode:
  "demo_server_hello (demo_reply (RHello h)) = Some h" "demo_retry (demo_reply (RRetry r)) = Some r"
  "demo_reject (demo_reply (RReject j)) = Some j"
  by (simp_all add: demo_server_hello_def demo_retry_def demo_reject_def demo_reply_def eval_nat_numeral)

text \<open>
  Keys and messages of the real sizes; the key exchange and the signatures are trivial, a
  hash begins with two zero bytes, and the MAC of a cookie keeps the hour, the bucket and
  the beginning of the address apart.
\<close>

definition demo_pq :: pq_lib where
  "demo_pq = \<lparr>classical_public = (\<lambda>s. Some (replicate 32 1)), classical_agree = (\<lambda>s p. Some [3]),
     ml_kem_public = (\<lambda>dk. replicate 1184 2), ml_kem_key_length = 1184, ml_kem_key_valid = (\<lambda>k. True), ml_kem_ct_length = 1088,
     ml_kem_encapsulate = (\<lambda>k r. (replicate 1088 4, [5])), ml_kem_decapsulate = (\<lambda>dk c. [5]),
     ed25519_public = (\<lambda>s. replicate 32 6), ed25519_key_valid = (\<lambda>k. True), ed25519_sign = (\<lambda>s m. m),
     ed25519_verify_strict = (\<lambda>k m sg. sg = m), ml_dsa_public = (\<lambda>s. replicate 1952 7), ml_dsa_key_length = 1952,
     ml_dsa_sign = (\<lambda>s m. replicate 3309 8), ml_dsa_sig_length = 3309, ml_dsa_sig_decodes = (\<lambda>sg. True),
     ml_dsa_verify = (\<lambda>k m sg. True)\<rparr>"

definition demo_hs :: hs_lib where
  "demo_hs = \<lparr>
     hl_crypto = demo_lib\<lparr>hkdf_sha256 := \<lambda>salt i l n. take n (rev (map of_char l) @ replicate n 0)\<rparr>,
     hl_pq = demo_pq,
     hl_blake3 = \<lparr>blake3_keyed = (\<lambda>k m. take 32 (m @ replicate 32 0)), blake3_hash = (\<lambda>m. 0 # 0 # 1 # replicate 29 1)\<rparr>,
     hl_sha256 = (\<lambda>m. m), hl_hmac_sha256 = (\<lambda>k m. take 8 (k @ replicate 8 0) @ take 24 (rev m @ replicate 24 0)),
     borsh_transcript = demo_transcript, borsh_client_hello = hello_layout, unborsh_client_hello = parse_hello demo_lib,
     borsh_reply_body = demo_reply, unborsh_server_hello = demo_server_hello, unborsh_retry = demo_retry, unborsh_reject = demo_reject\<rparr>"

lemma demo_hs_parts:
  "crypto_ok (hl_crypto demo_hs)" "kem_ok (hl_pq demo_hs)" "sig_ok (hl_pq demo_hs)" "blake3_ok (hl_blake3 demo_hs)" "borsh_ok demo_hs"
proof -
  show "crypto_ok (hl_crypto demo_hs)" using demo_lib_ok
    by (simp add: crypto_ok_def kdf_ok_def aead_ok_def mask_ok_def demo_hs_def) (auto simp: min_def)
  show "kem_ok (hl_pq demo_hs)" "sig_ok (hl_pq demo_hs)" by (simp_all add: kem_ok_def sig_ok_def demo_hs_def demo_pq_def)
  show "blake3_ok (hl_blake3 demo_hs)" by (simp add: blake3_ok_def demo_hs_def min_def)
  show "borsh_ok demo_hs" by (simp add: borsh_ok_def demo_hs_def inj_demo_transcript demo_replies_decode)
qed

text \<open>A client, a server, and the hello of the client with a cookie for the address \<open>[1]\<close>, at the epoch.\<close>

definition demo_client :: handshake_client where
  "demo_client = \<lparr>hc_kem_secret = \<lparr>hk_classical_sk = [], hk_ml_kem_dk = []\<rparr>,
     hc_kem_public = \<lparr>kp_classical_pk = replicate 32 1, kp_ml_kem_pk = replicate 1184 2\<rparr>,
     hc_verifying_key = \<lparr>vk_ed25519_pk = replicate 32 6, vk_ml_dsa_pk = replicate 1952 7\<rparr>, hc_nonce = replicate 32 9,
     hc_stage = StageInitial\<rparr>"

definition demo_moment :: moment where "demo_moment = \<lparr>unix_secs = Some 0, instant = 0\<rparr>"

definition demo_coins :: server_coins where
  "demo_coins = \<lparr>co_eph = [], co_kem = [], co_nonce = Some (replicate 32 10), co_first_use = None\<rparr>"

definition demo_ticket :: resumption_ticket where
  "demo_ticket = \<lparr>rt_secret = replicate 32 11, rt_suite = Aes256Gcm, rt_created_at = 0, rt_expires_at = 1\<rparr>"

definition demo_cache :: session_cache where
  "demo_cache = cache_insert (replicate 32 12) demo_ticket cache_new"

definition demo_server :: handshake_server where
  "demo_server = \<lparr>hsv_signing_key = \<lparr>sk_ed25519 = [], sk_ml_dsa = []\<rparr>,
     hsv_verifying_key = verifying_key demo_pq \<lparr>sk_ed25519 = [], sk_ml_dsa = []\<rparr>, hsv_master_secret = [],
     hsv_handshakes_this_minute = 0, hsv_minute_start = 0, hsv_session_cache = demo_cache,
     hsv_reputation = reputation_with_capacity 100000, hsv_early_data_enabled = True\<rparr>"

definition demo_hello :: client_hello where
  "demo_hello = (create_client_hello (hl_crypto demo_hs) demo_client)
     \<lparr>ch_cookie := Some (generate_cookie_for_bucket demo_hs (derive_session_secret_for_hour demo_hs [] 0) [1] 0)\<rparr>"

end
