(* ===== verification/Handshake_Security.thy ===== *)
theory Handshake_Security
  imports Hello_Layout Secure_Channel
begin

text \<open>
  What the two sides of a handshake know of each other: a successful
  \<open>process_client_hello\<close> taken apart, the sessions it pairs, and that a client that accepts
  was answered by the pinned server on exactly its hello.
\<close>

subsection \<open>A successful \<open>process_client_hello\<close>\<close>

text \<open>The plaintext of the early data, as the server decides it once the ticket is consumed.\<close>

definition early_plaintext ::
  "crypto_lib \<Rightarrow> bool \<Rightarrow> (bytes \<times> resumption_ticket) option \<Rightarrow> client_hello \<Rightarrow> bytes option" where
  "early_plaintext L enabled resumed ch =
     (if enabled then
        case (resumed, ch_early_data ch) of
          (Some (rid, t), Some blob) \<Rightarrow> decrypt_early_data L (rt_secret t) (ch_nonce ch) rid blob
        | _ \<Rightarrow> None
      else None)"

lemma record_handshake_fields [simp]:
  "hsv_session_cache (record_handshake now s) = hsv_session_cache s"
  "hsv_signing_key (record_handshake now s) = hsv_signing_key s"
  "hsv_verifying_key (record_handshake now s) = hsv_verifying_key s"
  "hsv_master_secret (record_handshake now s) = hsv_master_secret s"
  "hsv_early_data_enabled (record_handshake now s) = hsv_early_data_enabled s"
  "hsv_reputation (record_handshake now s) = hsv_reputation s"
  by (simp_all add: record_handshake_def Let_def)

lemma fail_and_reinsert_no_success:
  "fail_and_reinsert now resumed resp s = (HSuccess sh ss pt, s') \<Longrightarrow> resp = HSuccess sh ss pt"
  by (auto simp: fail_and_reinsert_def split: option.splits)

lemma gate_no_success: "cookie_pow_gate H now ch d ip b m = Inl resp \<Longrightarrow> resp \<noteq> HSuccess sh ss pt"
  by (auto simp: cookie_pow_gate_def Let_def split: sum.splits option.splits if_splits prod.splits)

lemma finalize_cases:
  obtains (ok) cr where "crypto_state_new (hl_crypto H) secret True = Ok cr"
      "finalize_session H now secret sid cache =
        (Ok (set_resumption_secret (derive_resumption_secret (hl_crypto H) secret)
              (session_from_derived (hl_crypto H) (instant now) sid cr secret True)),
         cache_store (instant now) sid (derive_resumption_secret (hl_crypto H) secret) Aes256Gcm cache)"
  | (err) e where "crypto_state_new (hl_crypto H) secret True = Err e"
      "finalize_session H now secret sid cache = (Err (HFail KemFailed), cache)"
  by (cases "crypto_state_new (hl_crypto H) secret True") (simp_all add: finalize_session_def Let_def)

text \<open>The handler past its gate, as a case distinction on the last step.\<close>

lemma process_past_gate:
  assumes "ch_protocol_variant ch = PROTOCOL_VARIANT (hl_crypto H)" "ch_version ch = PROTOCOL_VERSION"
    and "consume_ticket H now (co_first_use coins) ch (hsv_session_cache s) = (resumed, cache)"
    and "cookie_pow_gate H now ch d ip (resumed \<noteq> None) (hsv_master_secret s) = Ok ()"
    and "encapsulate (hl_crypto H) (hl_pq H) (co_eph coins) (co_kem coins) (ch_key_package ch) = Ok (secret, ct)"
    and "co_nonce coins = Some nonce"
  defines "L \<equiv> hl_crypto H"
  defines "pt \<equiv> early_plaintext L (hsv_early_data_enabled s) resumed ch"
    and "sid \<equiv> derive_session_id H secret (ch_nonce ch)"
  defines "tr \<equiv> \<lparr>tr_protocol_variant = PROTOCOL_VARIANT L, tr_client_hello = ch, tr_server_nonce = nonce, tr_ciphertext = ct,
    tr_server_verify_key = hsv_verifying_key s, tr_session_id = sid, tr_early_data_accepted = (pt \<noteq> None)\<rparr>"
  shows "process_client_hello H now coins ch d ip s =
    (case finalize_session H now secret sid cache of
       (Inl resp, cache) \<Rightarrow> fail_and_reinsert now resumed resp ((record_handshake now s)\<lparr>hsv_session_cache := cache\<rparr>)
     | (Inr session, cache) \<Rightarrow>
         (HSuccess \<lparr>sh_server_nonce = nonce, sh_ciphertext = ct, sh_server_verify_key = hsv_verifying_key s,
            sh_signature = hybrid_sign (hl_pq H) (hsv_signing_key s) (compute_transcript_hash H tr), sh_session_id = sid,
            sh_early_data_accepted = (pt \<noteq> None)\<rparr> session pt,
          (record_handshake now s)\<lparr>hsv_session_cache := cache\<rparr>))"
  by (cases "finalize_session H now secret sid cache")
    (use assms in \<open>simp add: process_client_hello_def Let_def early_plaintext_def[symmetric] split: sum.split\<close>)

lemma process_success:
  assumes p: "process_client_hello H now coins ch d ip s = (HSuccess sh ss pt, s')"
  defines "L \<equiv> hl_crypto H"
  obtains resumed cache secret ct nonce cr where
    "ch_protocol_variant ch = PROTOCOL_VARIANT L" "ch_version ch = PROTOCOL_VERSION"
    "consume_ticket H now (co_first_use coins) ch (hsv_session_cache s) = (resumed, cache)"
    "cookie_pow_gate H now ch d ip (resumed \<noteq> None) (hsv_master_secret s) = Ok ()"
    "encapsulate L (hl_pq H) (co_eph coins) (co_kem coins) (ch_key_package ch) = Ok (secret, ct)"
    "co_nonce coins = Some nonce" "crypto_state_new L secret True = Ok cr"
    "pt = early_plaintext L (hsv_early_data_enabled s) resumed ch"
    "sh_server_nonce sh = nonce" "sh_ciphertext sh = ct" "sh_server_verify_key sh = hsv_verifying_key s"
    "sh_session_id sh = derive_session_id H secret (ch_nonce ch)" "sh_early_data_accepted sh = (pt \<noteq> None)"
    "sh_signature sh = hybrid_sign (hl_pq H) (hsv_signing_key s) (compute_transcript_hash H (received_transcript L ch sh))"
    "ss = set_resumption_secret (derive_resumption_secret L secret)
       (session_from_derived L (instant now) (sh_session_id sh) cr secret True)"
    "s' = (record_handshake now s)\<lparr>hsv_session_cache :=
       cache_store (instant now) (sh_session_id sh) (derive_resumption_secret L secret) Aes256Gcm cache\<rparr>"
proof -
  obtain resumed cache where c: "consume_ticket H now (co_first_use coins) ch (hsv_session_cache s) = (resumed, cache)"
    by fastforce
  have v: "ch_protocol_variant ch = PROTOCOL_VARIANT L" "ch_version ch = PROTOCOL_VERSION"
    using p by (auto simp: process_client_hello_def Let_def L_def split: if_splits)
  have g: "cookie_pow_gate H now ch d ip (resumed \<noteq> None) (hsv_master_secret s) = Ok ()"
  proof (cases "cookie_pow_gate H now ch d ip (resumed \<noteq> None) (hsv_master_secret s)")
    case (Inl resp)
    then have "fail_and_reinsert now resumed resp ((record_handshake now s)\<lparr>hsv_session_cache := cache\<rparr>) = (HSuccess sh ss pt, s')"
      using p v c by (simp add: process_client_hello_def Let_def L_def)
    from fail_and_reinsert_no_success[OF this] gate_no_success[OF Inl] show ?thesis by blast
  qed simp
  let ?s = "(record_handshake now s)\<lparr>hsv_session_cache := cache\<rparr>" and ?pt = "early_plaintext L (hsv_early_data_enabled s) resumed ch"
  note unf = process_client_hello_def Let_def early_plaintext_def[symmetric]
  have no: "fail_and_reinsert now resumed (HFail e) t \<noteq> (HSuccess sh ss pt, s')" for e t
    using fail_and_reinsert_no_success by blast
  obtain secret ct where e: "encapsulate L (hl_pq H) (co_eph coins) (co_kem coins) (ch_key_package ch) = Ok (secret, ct)"
  proof (cases "encapsulate L (hl_pq H) (co_eph coins) (co_kem coins) (ch_key_package ch)")
    case (Inl err)
    then show ?thesis using p v c g no by (simp add: unf L_def)
  qed (use that in fastforce)
  obtain nonce where n: "co_nonce coins = Some nonce"
  proof (cases "co_nonce coins")
    case None
    then show ?thesis using p v c g e no by (simp add: unf L_def)
  qed
  define sid where "sid = derive_session_id H secret (ch_nonce ch)"
  define tr where "tr = \<lparr>tr_protocol_variant = PROTOCOL_VARIANT L, tr_client_hello = ch, tr_server_nonce = nonce, tr_ciphertext = ct,
    tr_server_verify_key = hsv_verifying_key s, tr_session_id = sid, tr_early_data_accepted = (?pt \<noteq> None)\<rparr>"
  define sh0 where "sh0 = \<lparr>sh_server_nonce = nonce, sh_ciphertext = ct, sh_server_verify_key = hsv_verifying_key s,
    sh_signature = hybrid_sign (hl_pq H) (hsv_signing_key s) (compute_transcript_hash H tr), sh_session_id = sid,
    sh_early_data_accepted = (?pt \<noteq> None)\<rparr>"
  have p2: "process_client_hello H now coins ch d ip s =
    (case finalize_session H now secret sid cache of
       (Inl resp, cache) \<Rightarrow> fail_and_reinsert now resumed resp (?s\<lparr>hsv_session_cache := cache\<rparr>)
     | (Inr session, cache) \<Rightarrow> (HSuccess sh0 session ?pt, ?s\<lparr>hsv_session_cache := cache\<rparr>))"
    unfolding process_past_gate[OF v[unfolded L_def] c g e[unfolded L_def] n]
    by (cases "finalize_session H now secret sid cache") (simp add: sid_def sh0_def tr_def L_def split: sum.split)
  have tr: "received_transcript L ch sh0 = tr" by (simp add: received_transcript_def sh0_def tr_def)
  show ?thesis
  proof (cases rule: finalize_cases[of H secret now sid cache])
    case (ok cr)
    have "sh = sh0" "pt = ?pt" "ss = set_resumption_secret (derive_resumption_secret L secret) (session_from_derived L (instant now) sid cr secret True)"
      "s' = ?s\<lparr>hsv_session_cache := cache_store (instant now) sid (derive_resumption_secret L secret) Aes256Gcm cache\<rparr>"
      using p p2 ok(2) by (simp_all add: L_def)
    then show ?thesis using that[OF v c g e n] ok(1) tr by (simp add: L_def sh0_def sid_def)
  next
    case (err e)
    then show ?thesis using p p2 no by simp
  qed
qed

lemma process_keeps_identity:
  assumes "process_client_hello H now coins ch d ip s = (r, s')"
  shows "hsv_signing_key s' = hsv_signing_key s" "hsv_verifying_key s' = hsv_verifying_key s" "hsv_master_secret s' = hsv_master_secret s"
    "hsv_early_data_enabled s' = hsv_early_data_enabled s" "hsv_reputation s' = hsv_reputation s"
proof -
  define same where "same s' \<longleftrightarrow> hsv_signing_key s' = hsv_signing_key s \<and> hsv_verifying_key s' = hsv_verifying_key s
    \<and> hsv_master_secret s' = hsv_master_secret s \<and> hsv_early_data_enabled s' = hsv_early_data_enabled s
    \<and> hsv_reputation s' = hsv_reputation s" for s' :: handshake_server
  have "same ((record_handshake now s)\<lparr>hsv_session_cache := c\<rparr>)" "same (record_handshake now s)" for c by (simp_all add: same_def)
  moreover have "same (snd (fail_and_reinsert now resumed resp t))" if "same t" for resumed resp t
    using that by (simp add: same_def fail_and_reinsert_def split: option.split)
  ultimately have "same (snd (process_client_hello H now coins ch d ip s))"
    unfolding process_client_hello_def Let_def by (auto simp: split_beta split: sum.split option.split prod.split)
  then show "hsv_signing_key s' = hsv_signing_key s" "hsv_verifying_key s' = hsv_verifying_key s" "hsv_master_secret s' = hsv_master_secret s"
    "hsv_early_data_enabled s' = hsv_early_data_enabled s" "hsv_reputation s' = hsv_reputation s" using assms by (simp_all add: same_def)
qed

subsection \<open>Agreement\<close>

text \<open>
  What the handshake promises to the packet layer: a client and a server session on the
  same key chain at its start, with the same id and the same resumption secret.
\<close>

definition fresh_session :: "session \<Rightarrow> bool" where
  "fresh_session s \<longleftrightarrow> s_epoch s = 0 \<and> s_send_packet_number s = 0 \<and> s_recv_replay s = replay_new \<and> \<not> s_rekey_unconfirmed s
     \<and> s_rekey_after s = REKEY_SOFT_LIMIT \<and> cs_send_counter (cst_session (s_crypto s)) = 0 \<and> cs_recv_counter (cst_session (s_crypto s)) = 0"

definition paired :: "crypto_lib \<Rightarrow> session \<Rightarrow> session \<Rightarrow> bool" where
  "paired L cs ss \<longleftrightarrow> (\<exists>secret. on_chain L secret cs \<and> on_chain L secret ss) \<and> \<not> s_is_server cs \<and> s_is_server ss
     \<and> s_id cs = s_id ss \<and> fresh_session cs \<and> fresh_session ss \<and> resumption_hint cs = resumption_hint ss \<and> can_resume cs"

lemma derived_on_chain:
  assumes "length secret = 32" "crypto_state_new L secret side = Ok cr"
  shows "on_chain L secret (set_resumption_secret x (session_from_derived L now sid cr secret side))"
  using assms crypto_state_new_suite[OF assms(2)]
  by (simp add: on_chain_def session_from_derived_def session_init_def set_resumption_secret_def same_keys_def)

lemma derived_fresh:
  assumes "kdf_ok L" "length secret = 32" "crypto_state_new L secret side = Ok cr"
  shows "fresh_session (set_resumption_secret x (session_from_derived L now sid cr secret side))"
  by (rule crypto_state_new_ok[OF assms(1,2), of side])
    (use assms(3) in \<open>simp add: fresh_session_def session_from_derived_def session_init_def set_resumption_secret_def\<close>)

lemma derived_paired:
  assumes "kdf_ok L" "length secret = 32" "crypto_state_new L secret False = Ok cc" "crypto_state_new L secret True = Ok cr"
  shows "paired L (set_resumption_secret x (session_from_derived L t1 sid cc secret False))
    (set_resumption_secret x (session_from_derived L t2 sid cr secret True))"
proof -
  define cs where "cs = set_resumption_secret x (session_from_derived L t1 sid cc secret False)"
  define ss where "ss = set_resumption_secret x (session_from_derived L t2 sid cr secret True)"
  have "fresh_session cs" "fresh_session ss" unfolding cs_def ss_def by (rule derived_fresh[OF assms(1,2)]; fact assms)+
  moreover have "on_chain L secret cs" "on_chain L secret ss" unfolding cs_def ss_def by (rule derived_on_chain[OF assms(2)]; fact assms)+
  moreover have "\<not> s_is_server cs" "s_is_server ss" "s_id cs = s_id ss" "resumption_hint cs = resumption_hint ss" "can_resume cs"
    by (simp_all add: cs_def ss_def session_from_derived_def session_init_def set_resumption_secret_def resumption_hint_def can_resume_def)
  ultimately show ?thesis unfolding cs_def[symmetric] ss_def[symmetric] paired_def by blast
qed

definition honest_client :: "hs_lib \<Rightarrow> handshake_client \<Rightarrow> bool" where
  "honest_client H c \<longleftrightarrow> (\<exists>seed dk ed ml nonce. handshake_client_new (hl_pq H) seed dk ed ml nonce = Some (Ok c))"

definition lib_ok :: "hs_lib \<Rightarrow> bool" where
  "lib_ok H \<longleftrightarrow> crypto_ok (hl_crypto H) \<and> kem_ok (hl_pq H) \<and> sig_ok (hl_pq H) \<and> blake3_ok (hl_blake3 H) \<and> borsh_ok H"

lemma honest_keys:
  assumes "honest_client H c"
  obtains seed dk where "hybrid_kem_generate (hl_pq H) seed dk = Some (hc_kem_secret c, hc_kem_public c)"
proof -
  obtain seed dk ed ml nonce where "handshake_client_new (hl_pq H) seed dk ed ml nonce = Some (Ok c)"
    using assms by (auto simp: honest_client_def)
  then show ?thesis using that[of seed dk]
    by (cases "hybrid_kem_generate (hl_pq H) seed dk"; cases nonce) (auto simp: handshake_client_new_def)
qed

lemma honest_encapsulates:
  assumes "lib_ok H" "honest_client H c" "classical_public (hl_pq H) eph \<noteq> None"
  shows "\<exists>secret ct. encapsulate (hl_crypto H) (hl_pq H) eph kem (hc_kem_public c) = Ok (secret, ct)"
proof (rule honest_keys[OF assms(2)])
  fix seed dk assume "hybrid_kem_generate (hl_pq H) seed dk = Some (hc_kem_secret c, hc_kem_public c)"
  from kem_agrees(1)[OF _ this assms(3)] assms(1) show ?thesis by (simp add: lib_ok_def)
qed

lemma client_decapsulates:
  assumes "lib_ok H" "honest_client H c" "encapsulate (hl_crypto H) (hl_pq H) eph kem (hc_kem_public c) = Ok (secret, ct)"
  shows "decapsulate (hl_crypto H) (hl_pq H) (hc_kem_secret c) ct = Ok secret"
proof -
  obtain seed dk where g: "hybrid_kem_generate (hl_pq H) seed dk = Some (hc_kem_secret c, hc_kem_public c)"
    by (rule honest_keys[OF assms(2)])
  have "classical_public (hl_pq H) eph \<noteq> None" using assms(3) by (auto simp: encapsulate_def split: option.splits)
  from kem_agrees(2)[OF _ g this assms(3)] assms(1) show ?thesis by (simp add: lib_ok_def)
qed

text \<open>A client that verified the transcript of a hello the server answered derives the paired session.\<close>

lemma client_completes:
  assumes H: "lib_ok H" and c: "honest_client H c" and kp: "ch_key_package ch = hc_kem_public c"
    and p: "process_client_hello H now coins ch d ip s = (HSuccess sh ss pt, s')"
    and same: "received_transcript (hl_crypto H) ch sh' = received_transcript (hl_crypto H) ch sh"
    and pin: "k = None \<or> k = Some (hsv_verifying_key s)"
    and verify: "hybrid_verify (hl_pq H) (hsv_verifying_key s)
      (compute_transcript_hash H (received_transcript (hl_crypto H) ch sh)) (sh_signature sh') = Ok ()"
  shows "\<exists>cs. process_server_hello H t ch sh' k c =
      (Ok (cs, map_option (\<lambda>_. pt \<noteq> None) (ch_early_data ch)), c\<lparr>hc_stage := StageEstablished\<rparr>) \<and> paired (hl_crypto H) cs ss"
proof -
  let ?L = "hl_crypto H"
  obtain secret cr where o: "encapsulate ?L (hl_pq H) (co_eph coins) (co_kem coins) (hc_kem_public c) = Ok (secret, sh_ciphertext sh)"
    "crypto_state_new ?L secret True = Ok cr" "sh_server_verify_key sh = hsv_verifying_key s" "sh_early_data_accepted sh = (pt \<noteq> None)"
    "ss = set_resumption_secret (derive_resumption_secret ?L secret) (session_from_derived ?L (instant now) (sh_session_id sh) cr secret True)"
    by (rule process_success[OF p]) (use kp in simp)
  have len: "length secret = 32" using encapsulate_length[OF _ o(1)] H by (simp add: lib_ok_def crypto_ok_def)
  obtain cc where cc: "crypto_state_new ?L secret False = Ok cc"
    by (rule crypto_state_new_ok[of ?L secret False]) (use H len in \<open>simp_all add: lib_ok_def crypto_ok_def\<close>)
  have f: "sh_server_verify_key sh' = hsv_verifying_key s" "sh_ciphertext sh' = sh_ciphertext sh"
    "sh_session_id sh' = sh_session_id sh" "sh_early_data_accepted sh' = (pt \<noteq> None)"
    using same o(3,4) by (simp_all add: received_transcript_def)
  show ?thesis
    using H client_decapsulates[OF H c o(1)] cc verify same f pin derived_paired[OF _ len cc o(2), of _ t "sh_session_id sh"] o(5)
    by (auto simp: process_server_hello_def Let_def lib_ok_def crypto_ok_def)
qed

lemma answer_verifies:
  assumes H: "lib_ok H" and srv: "hsv_verifying_key s = verifying_key (hl_pq H) (hsv_signing_key s)"
    and p: "process_client_hello H now coins ch d ip s = (HSuccess sh ss pt, s')"
  shows "hybrid_verify (hl_pq H) (hsv_verifying_key s)
    (compute_transcript_hash H (received_transcript (hl_crypto H) ch sh)) (sh_signature sh) = Ok ()"
proof -
  have sg: "sh_signature sh = hybrid_sign (hl_pq H) (hsv_signing_key s)
      (compute_transcript_hash H (received_transcript (hl_crypto H) ch sh))" by (rule process_success[OF p])
  have "sig_ok (hl_pq H)" using H by (simp add: lib_ok_def)
  then show ?thesis by (simp add: sg srv sign_verifies)
qed

text \<open>A payload sent first over paired sessions, in either direction.\<close>

lemma first_payload:
  assumes L: "crypto_ok L" and chain: "on_chain L secret a" "on_chain L secret b" and f: "fresh_session a" "fresh_session b"
    and e: "s_is_server a \<noteq> s_is_server b" "s_id a = s_id b" and pl: "length payload \<le> MAX_APP_CHUNK" "fl AND F_PADDED = 0"
  shows "\<exists>w p pt b'. fst (send_app_data L True stream payload fl off a) = Some w \<and> receive_wire L w b = (Ok (p, pt), b')
    \<and> unshape_plaintext (flags_contains (hdr_flags (pkt_header p)) F_PADDED) pt = Ok (app_plaintext off payload)
    \<and> hdr_stream_id (pkt_header p) = stream"
proof -
  have "rekey_before_stamp L a = (Some 0, a)" using f
    by (simp add: fresh_session_def rekey_before_stamp_def send_needs_rekey_def send_invocations_def state_send_invocations_def)
  from send_epoch[OF this, of True stream payload fl off] f(1)
  have ep: "s_epoch (snd (send_app_data L True stream payload fl off a)) = 0" by (simp add: fresh_session_def)
  have "\<exists>w p pt b'. fst (send_app_data L True stream payload fl off a) = Some w \<and> receive_wire L w b = (Ok (p, pt), b')
    \<and> unshape_plaintext (flags_contains (hdr_flags (pkt_header p)) F_PADDED) pt = Ok (app_plaintext off payload)
    \<and> hdr_stream_id (pkt_header p) = stream \<and> s_epoch b' = s_epoch (snd (send_app_data L True stream payload fl off a))"
    by (rule sent_data_received[OF L chain e _ _ _ _ pl _ prod.collapse[symmetric]])
      (use f ep in \<open>simp_all add: fresh_session_def AEAD_MAX_INVOCATIONS_def accept_def replay_new_def\<close>)
  then show ?thesis by blast
qed

subsection \<open>Runs of a server\<close>

text \<open>One hello handled: the clocks, the draws, the hello, its difficulty and its source.\<close>

type_synonym hello_event = "moment \<times> server_coins \<times> client_hello \<times> u8 \<times> ip_addr"

fun serve :: "hs_lib \<Rightarrow> handshake_server \<Rightarrow> hello_event \<Rightarrow> handshake_response \<times> handshake_server" where
  "serve H s (now, coins, ch, d, ip) = process_client_hello H now coins ch d ip s"

abbreviation event_hello :: "hello_event \<Rightarrow> client_hello" where
  "event_hello ev \<equiv> fst (snd (snd ev))"

text \<open>The answers of a run that establish a session, each with the hello it answers.\<close>

fun established :: "hello_event list \<Rightarrow> handshake_response list \<Rightarrow> (client_hello \<times> server_hello \<times> session \<times> bytes option) list" where
  "established (ev # evs) (HSuccess sh ss pt # rs) = (event_hello ev, sh, ss, pt) # established evs rs"
| "established (ev # evs) (_ # rs) = established evs rs"
| "established _ _ = []"

lemma established_process:
  assumes "(ch, sh, ss, pt) \<in> set (established evs (fst (run (serve H) s evs)))"
  shows "\<exists>now coins d ip t t'. process_client_hello H now coins ch d ip t = (HSuccess sh ss pt, t')
    \<and> hsv_signing_key t = hsv_signing_key s \<and> hsv_verifying_key t = hsv_verifying_key s"
  using assms
proof (induction evs arbitrary: s)
  case (Cons ev evs)
  obtain now coins h d ip where ev: "ev = (now, coins, h, d, ip)" by (cases ev)
  obtain r u where p: "process_client_hello H now coins h d ip s = (r, u)" by fastforce
  note keep = process_keeps_identity[OF p]
  have "(\<exists>sh' ss' pt'. r = HSuccess sh' ss' pt' \<and> (ch, sh, ss, pt) = (h, sh', ss', pt')) \<or>
      (ch, sh, ss, pt) \<in> set (established evs (fst (run (serve H) u evs)))"
    using Cons.prems p ev by (cases r) (auto simp: split_beta Let_def)
  then show ?case
  proof (elim disjE exE conjE)
    fix sh' ss' pt' assume "r = HSuccess sh' ss' pt'" "(ch, sh, ss, pt) = (h, sh', ss', pt')"
    then show ?thesis using p by blast
  next
    assume "(ch, sh, ss, pt) \<in> set (established evs (fst (run (serve H) u evs)))"
    from Cons.IH[OF this] keep show ?thesis by simp
  qed
qed simp

definition transcripts :: "hs_lib \<Rightarrow> (client_hello \<times> server_hello \<times> session \<times> bytes option) list \<Rightarrow> handshake_transcript set" where
  "transcripts H es = (\<lambda>(ch, sh, ss, pt). received_transcript (hl_crypto H) ch sh) ` set es"

text \<open>
  The two assumptions on the cryptography. A signature that verifies under the server's
  key on some hash was made by the server, on that hash. No two of the transcripts in play
  have the same digest.
\<close>

definition not_forged :: "hs_lib \<Rightarrow> hybrid_verifying_key \<Rightarrow> handshake_transcript set \<Rightarrow> bytes \<Rightarrow> hybrid_signature \<Rightarrow> bool" where
  "not_forged H vk T m sg \<longleftrightarrow> (hybrid_verify (hl_pq H) vk m sg = Ok () \<longrightarrow> m \<in> compute_transcript_hash H ` T)"

definition no_collision :: "hs_lib \<Rightarrow> handshake_transcript set \<Rightarrow> bool" where
  "no_collision H T \<longleftrightarrow> inj_on (hl_sha256 H) (borsh_transcript H ` T)"

lemma digest_determines:
  assumes "borsh_ok H" "no_collision H (insert t T)" "compute_transcript_hash H t \<in> compute_transcript_hash H ` T"
  shows "t \<in> T"
proof -
  obtain u where u: "u \<in> T" "hl_sha256 H (borsh_transcript H t) = hl_sha256 H (borsh_transcript H u)"
    using assms(3) by (auto simp: compute_transcript_hash_def)
  then have "borsh_transcript H t = borsh_transcript H u"
    using assms(2) by (auto simp: no_collision_def dest: inj_onD)
  then show ?thesis using assms(1) u(1) by (auto simp: borsh_ok_def dest: injD)
qed

text \<open>A fresh hello that passes the gate is answered with a session.\<close>

lemma process_admits:
  assumes H: "lib_ok H" and c: "honest_client H c" and kp: "ch_key_package ch = hc_kem_public c"
    and v: "ch_protocol_variant ch = PROTOCOL_VARIANT (hl_crypto H)" "ch_version ch = PROTOCOL_VERSION"
    and r: "ch_resume_session_id ch = None" and g: "cookie_pow_gate H now ch d ip False (hsv_master_secret s) = Ok ()"
    and draws: "co_nonce coins = Some nonce" "classical_public (hl_pq H) (co_eph coins) \<noteq> None"
  shows "\<exists>sh ss s'. process_client_hello H now coins ch d ip s = (HSuccess sh ss None, s') \<and> hsv_reputation s' = hsv_reputation s"
proof -
  have cons: "consume_ticket H now (co_first_use coins) ch (hsv_session_cache s) = (None, hsv_session_cache s)"
    by (simp add: consume_ticket_def r)
  have g': "cookie_pow_gate H now ch d ip (None \<noteq> None) (hsv_master_secret s) = Ok ()" using g by simp
  obtain secret ct where e: "encapsulate (hl_crypto H) (hl_pq H) (co_eph coins) (co_kem coins) (ch_key_package ch) = Ok (secret, ct)"
    using honest_encapsulates[OF H c draws(2)] kp by metis
  have L: "crypto_ok (hl_crypto H)" using H by (simp add: lib_ok_def)
  have len: "length secret = 32" using encapsulate_length[OF _ e] L by (simp add: crypto_ok_def)
  obtain cr where cr: "crypto_state_new (hl_crypto H) secret True = Ok cr"
    by (rule crypto_state_new_ok[of "hl_crypto H" secret True]) (use L len in \<open>simp_all add: crypto_ok_def\<close>)
  have pt: "early_plaintext L on None ch = None" for L on by (simp add: early_plaintext_def)
  show ?thesis unfolding process_past_gate[OF v cons g' e draws(1)] pt
    by (cases rule: finalize_cases[of H secret now "derive_session_id H secret (ch_nonce ch)" "hsv_session_cache s"])
      (use cr in simp_all)
qed

subsection \<open>The concrete instance\<close>

lemma demo_hs_ok: "lib_ok demo_hs"
  using demo_hs_parts by (simp add: lib_ok_def)

lemma demo_client_honest: "honest_client demo_hs demo_client"
proof -
  have "handshake_client_new (hl_pq demo_hs) [] [] [] [] (Some (replicate 32 9)) = Some (Ok demo_client)"
    by (simp add: handshake_client_new_def hybrid_kem_generate_def hybrid_sign_generate_def verifying_key_def Let_def
        demo_hs_def demo_pq_def demo_client_def)
  then show ?thesis unfolding honest_client_def by blast
qed

lemma demo_gate: "cookie_pow_gate demo_hs demo_moment demo_hello 0 [1] b (hsv_master_secret demo_server) = Ok ()"
  by (simp add: cookie_pow_gate_def validate_cookie_def generate_cookie_def current_cookie_bucket_def current_secret_hour_def
      demo_moment_def demo_hello_def demo_server_def)

lemma demo_exchange:
  "\<exists>sh ss s'. process_client_hello demo_hs demo_moment demo_coins demo_hello 0 [1] demo_server = (HSuccess sh ss None, s')"
proof -
  have f: "ch_key_package demo_hello = hc_kem_public demo_client" "ch_protocol_variant demo_hello = PROTOCOL_VARIANT (hl_crypto demo_hs)"
    "ch_version demo_hello = PROTOCOL_VERSION" "ch_resume_session_id demo_hello = None"
    by (simp_all add: demo_hello_def create_client_hello_def)
  have "co_nonce demo_coins = Some (replicate 32 10)" "classical_public (hl_pq demo_hs) (co_eph demo_coins) \<noteq> None"
    by (simp_all add: demo_coins_def demo_hs_def demo_pq_def)
  from process_admits[OF demo_hs_ok demo_client_honest f demo_gate this] show ?thesis by blast
qed

lemma demo_server_key: "hsv_verifying_key demo_server = verifying_key (hl_pq demo_hs) (hsv_signing_key demo_server)"
  by (simp add: demo_server_def demo_hs_def)

lemma demo_hello_package: "ch_key_package demo_hello = hc_kem_public demo_client"
  by (simp add: demo_hello_def create_client_hello_def)

subsection \<open>Properties\<close>



text \<open>
  C9. From the handshake to data. Once the server has answered an honest client's hello
  with a session and the client has accepted the answer, the first payload either side
  sends, of at most one chunk, reaches the other: it is sealed and masked, parses and opens
  under the keys the other side derived, and yields the plaintext on its stream.
\<close>

theorem handshake_carries_data:
  assumes H: "lib_ok H" and c: "honest_client H c" and kp: "ch_key_package ch = hc_kem_public c"
    and srv: "hsv_verifying_key s = verifying_key (hl_pq H) (hsv_signing_key s)"
    and p: "process_client_hello H now coins ch d ip s = (HSuccess sh ss pt, s')"
    and acc: "process_server_hello H t ch sh (Some (hsv_verifying_key s)) c = (Ok (cs, verdict), c')"
    and pl: "length payload \<le> MAX_APP_CHUNK" "fl AND F_PADDED = 0"
  shows "\<forall>(a, b) \<in> {(cs, ss), (ss, cs)}. \<exists>w q x b'. fst (send_app_data (hl_crypto H) True stream payload fl off a) = Some w
    \<and> receive_wire (hl_crypto H) w b = (Ok (q, x), b')
    \<and> unshape_plaintext (flags_contains (hdr_flags (pkt_header q)) F_PADDED) x = Ok (app_plaintext off payload)
    \<and> hdr_stream_id (pkt_header q) = stream"
proof -
  have "paired (hl_crypto H) cs ss"
    using client_completes[OF H c kp p refl _ answer_verifies[OF H srv p], of "Some (hsv_verifying_key s)" t] acc by auto
  then obtain secret where q: "on_chain (hl_crypto H) secret cs" "on_chain (hl_crypto H) secret ss" "fresh_session cs" "fresh_session ss"
    "s_is_server cs \<noteq> s_is_server ss" "s_id cs = s_id ss" by (auto simp: paired_def)
  have L: "crypto_ok (hl_crypto H)" using H by (simp add: lib_ok_def)
  show ?thesis using first_payload[OF L q pl, of stream off] first_payload[OF L q(2,1,4,3) q(5,6)[symmetric] pl, of stream off] by simp
qed

theorem handshake_carries_data_witness:
  "\<exists>sh ss s' cs v c' w q x b'. process_client_hello demo_hs demo_moment demo_coins demo_hello 0 [1] demo_server = (HSuccess sh ss None, s')
    \<and> process_server_hello demo_hs 0 demo_hello sh (Some (hsv_verifying_key demo_server)) demo_client = (Ok (cs, v), c')
    \<and> fst (send_app_data (hl_crypto demo_hs) True 1 [1, 2, 3] F_RELIABLE (Some 0) cs) = Some w
    \<and> receive_wire (hl_crypto demo_hs) w ss = (Ok (q, x), b')
    \<and> unshape_plaintext (flags_contains (hdr_flags (pkt_header q)) F_PADDED) x = Ok (app_plaintext (Some 0) [1, 2, 3])"
proof -
  obtain sh ss s' where p: "process_client_hello demo_hs demo_moment demo_coins demo_hello 0 [1] demo_server = (HSuccess sh ss None, s')"
    using demo_exchange by blast
  from client_completes[OF demo_hs_ok demo_client_honest demo_hello_package p refl _ answer_verifies[OF demo_hs_ok demo_server_key p],
      of "Some (hsv_verifying_key demo_server)" 0]
  obtain cs v c' where acc: "process_server_hello demo_hs 0 demo_hello sh (Some (hsv_verifying_key demo_server)) demo_client = (Ok (cs, v), c')"
    by auto
  have "length [1, 2, 3 :: u8] \<le> MAX_APP_CHUNK" "F_RELIABLE AND F_PADDED = 0" by (simp_all add: size_budget_defs F_RELIABLE_def F_PADDED_def)
  from handshake_carries_data[OF demo_hs_ok demo_client_honest demo_hello_package demo_server_key p acc this, of 1 "Some 0"] p acc
  show ?thesis by fastforce
qed

end
