(* ===== verification/Handshake_Tickets.thy ===== *)
theory Handshake_Tickets
  imports Handshake_Security
begin

text \<open>
  Resumption tickets over the life of a server: each is spent at most once, a refused
  hello loses none, and early data sealed for a live ticket reaches the server.
\<close>

subsection \<open>Accounts\<close>

text \<open>
  A state that holds credit, steps that spend and mint it: over a run, what is spent is
  covered by what was held and what was minted.
\<close>

locale account =
  fixes step :: "'s \<Rightarrow> 'e \<Rightarrow> 'r \<times> 's" and credit :: "'s \<Rightarrow> nat" and spent minted :: "'e \<Rightarrow> 'r \<Rightarrow> nat"
  assumes covered: "step s e = (r, s') \<Longrightarrow> spent e r + credit s' \<le> credit s + minted e r"
begin

lemma run_covered:
  "sum_list (map2 spent es (fst (run step s es))) + credit (snd (run step s es))
    \<le> credit s + sum_list (map2 minted es (fst (run step s es)))"
proof (induction es arbitrary: s)
  case (Cons e es)
  obtain r s' where s: "step s e = (r, s')" by fastforce
  show ?case using covered[OF s] Cons.IH[of s'] s by (simp add: split_beta Let_def)
qed simp

end

subsection \<open>The ticket cache under a hello\<close>

definition ticket_credit :: "bytes \<Rightarrow> session_cache \<Rightarrow> nat" where
  "ticket_credit rid c = (if map_of (sc_tickets c) rid = None then 0 else 1)"

lemma ticket_credit_le: "map_of (sc_tickets c) rid = None \<longrightarrow> map_of (sc_tickets c') rid = None \<Longrightarrow> ticket_credit rid c' \<le> ticket_credit rid c"
  by (auto simp: ticket_credit_def)

lemma credit_remove: "ticket_credit k (snd (cache_remove rid c)) = (if k = rid then 0 else ticket_credit k c)"
  by (simp add: ticket_credit_def cache_remove_def map_of_filter_key)

lemma credit_peek: "ticket_credit k (snd (cache_peek now rid c)) \<le> ticket_credit k c"
  by (rule ticket_credit_le) (auto simp: cache_peek_def cache_remove_def map_of_filter_key split: option.split)

lemma credit_evict: "ticket_credit k (evict_oldest now c) \<le> ticket_credit k c"
proof (rule ticket_credit_le)
  obtain P where "sc_tickets (evict_oldest now c) = filter (\<lambda>e. P (fst e)) (sc_tickets c)" using evict_filters by blast
  then show "map_of (sc_tickets c) k = None \<longrightarrow> map_of (sc_tickets (evict_oldest now c)) k = None"
    by (simp add: map_of_filter_fst)
qed

lemma credit_insert: "ticket_credit k (cache_insert rid t c) = (if k = rid then 1 else ticket_credit k c)"
  by (simp add: ticket_credit_def cache_insert_def map_of_filter_key)

lemma credit_store: "ticket_credit k (cache_store now rid x u c) \<le> ticket_credit k c + (if k = rid then 1 else 0)"
  using credit_evict[of k now c] by (simp add: cache_store_def Let_def credit_insert)

lemma credit_reinsert: "ticket_credit k (reinsert_with_expiry now rid t c) \<le> ticket_credit k c + (if k = rid then 1 else 0)"
  using credit_evict[of k now c] by (simp add: reinsert_with_expiry_def Let_def credit_insert)

text \<open>The two outcomes of the fast path: nothing consumed, or a live ticket whose secret the hello proves to hold.\<close>

lemma consume_cases:
  assumes "consume_ticket H now st ch c = (resumed, c')"
  obtains (none) "resumed = None" "\<And>k. ticket_credit k c' \<le> ticket_credit k c"
      "st = None \<Longrightarrow> live_ticket (instant now) c' = live_ticket (instant now) c" "cache_ok c \<Longrightarrow> cache_ok c'"
      "sc_max_entries c' = sc_max_entries c"
  | (taken) rid t where "resumed = Some (rid, t)" "ch_resume_session_id ch = Some rid" "live_ticket (instant now) c rid = Some t"
      "ch_resumption_binder ch = Some (derive_resumption_binder (hl_crypto H) (rt_secret t) rid (ch_nonce ch))"
      "c' = snd (cache_remove rid c)" "map_of (sc_tickets c) rid = Some t"
proof (cases "ch_resume_session_id ch")
  case None
  then show ?thesis using assms none by (simp add: consume_ticket_def)
next
  case (Some rid)
  let ?p = "cache_peek (instant now) rid c"
  have pk: "\<And>k. ticket_credit k (snd ?p) \<le> ticket_credit k c" "live_ticket (instant now) (snd ?p) = live_ticket (instant now) c"
    "cache_ok c \<Longrightarrow> cache_ok (snd ?p)" "sc_max_entries (snd ?p) = sc_max_entries c"
    using credit_peek cache_peek_live cache_peek_ok by (auto simp: cache_peek_def cache_remove_def split: option.split)
  show ?thesis
  proof (cases "fst ?p")
    case None
    then have "resumed = None" "c' = snd ?p" using assms Some by (auto simp: consume_ticket_def split_beta Let_def)
    then show ?thesis using none pk by simp
  next
    case (Some t)
    have live: "live_ticket (instant now) c rid = Some t" using Some by (simp add: cache_peek_live(1))
    have same: "snd ?p = c" and m: "map_of (sc_tickets c) rid = Some t"
      using Some by (auto simp: cache_peek_def split: option.splits if_splits)
    have rm: "\<And>k. ticket_credit k (snd (cache_remove rid c)) \<le> ticket_credit k c" by (simp add: credit_remove)
    have ex: "fst (cache_remove rid c)" using m by (simp add: cache_remove_def)
    show ?thesis
    proof (cases "ch_resumption_binder ch = Some (derive_resumption_binder (hl_crypto H) (rt_secret t) rid (ch_nonce ch))")
      case False
      then have "resumed = None" "c' = c" using assms Some same \<open>ch_resume_session_id ch = Some rid\<close>
        by (auto simp: consume_ticket_def split_beta Let_def split: option.splits if_splits)
      then show ?thesis using none by simp
    next
      case True
      then have c: "c' = snd (cache_remove rid c)"
        and r: "resumed = (case st of Some f \<Rightarrow> if f rid then Some (rid, t) else None | None \<Rightarrow> Some (rid, t))"
        using assms Some same ex \<open>ch_resume_session_id ch = Some rid\<close>
        by (auto simp: consume_ticket_def split_beta Let_def split: option.splits if_splits)
      show ?thesis
      proof (cases resumed)
        case None
        have "cache_ok c \<Longrightarrow> cache_ok c'" using c cache_remove_ok by simp
        moreover have "sc_max_entries c' = sc_max_entries c" using c by (simp add: cache_remove_def)
        ultimately show ?thesis using none[OF None] rm c r None by (auto split: option.splits)
      next
        case (Some x)
        then have "resumed = Some (rid, t)" using r by (auto split: option.splits if_splits)
        then show ?thesis using taken[OF _ \<open>ch_resume_session_id ch = Some rid\<close> live True c m] by blast
      qed
    qed
  qed
qed

definition handed_back :: "moment \<Rightarrow> (bytes \<times> resumption_ticket) option \<Rightarrow> session_cache \<Rightarrow> session_cache" where
  "handed_back now resumed cache = (case resumed of None \<Rightarrow> cache | Some (rid, t) \<Rightarrow> reinsert_with_expiry (instant now) rid t cache)"

lemma fail_and_reinsert_cache:
  "fail_and_reinsert now resumed resp s = (resp, s\<lparr>hsv_session_cache := handed_back now resumed (hsv_session_cache s)\<rparr>)"
  by (simp add: fail_and_reinsert_def handed_back_def split: option.split prod.split)

lemma refused_cache:
  assumes "process_client_hello H now coins ch d ip s = (r, s')" "\<And>sh ss pt. r \<noteq> HSuccess sh ss pt"
    and "consume_ticket H now (co_first_use coins) ch (hsv_session_cache s) = (resumed, cache)"
  shows "hsv_session_cache s' = hsv_session_cache s \<or> hsv_session_cache s' = handed_back now resumed cache"
proof -
  have fin: "finalize_session H now secret sid cache = (Inl resp, c) \<Longrightarrow> c = cache" for secret sid resp c
    by (cases rule: finalize_cases[of H secret now sid cache]) simp_all
  have no: "r = HSuccess sh ss pt \<Longrightarrow> False" for sh ss pt using assms(2) by blast
  show ?thesis
    using assms(1,3) unfolding process_client_hello_def Let_def fail_and_reinsert_cache
    by (auto split: sum.splits option.splits prod.splits if_splits dest: fin no)
qed

text \<open>A consumed ticket handed back leaves the live tickets as they were.\<close>

lemma handed_back_live:
  assumes ok: "cache_ok c" and live: "live_ticket (instant now) c rid = Some t" "map_of (sc_tickets c) rid = Some t"
  defines "c' \<equiv> snd (cache_remove rid c)"
  shows "live_ticket (instant now) (reinsert_with_expiry (instant now) rid t c') = live_ticket (instant now) c"
proof -
  have "rid \<in> fst ` set (sc_tickets c)" using live(2) by (auto dest: map_of_SomeD intro: rev_image_eqI)
  then have "length (sc_tickets c') < sc_max_entries c'"
    using length_filter_key[of rid "sc_tickets c"] ok by (simp add: c'_def cache_remove_def cache_ok_def)
  moreover have t: "instant now < rt_expires_at t" using live by (auto simp: live_ticket_def split: if_splits)
  ultimately have "reinsert_with_expiry (instant now) rid t c' = cache_insert rid t c'"
    by (auto simp: reinsert_with_expiry_def cache_is_disabled_def)
  then show ?thesis using live(1) t by (simp add: cache_insert_live c'_def cache_remove_live fun_eq_iff)
qed

definition early_uses :: "bytes \<Rightarrow> hello_event \<Rightarrow> handshake_response \<Rightarrow> nat" where
  "early_uses rid ev r =
     (case r of HSuccess _ _ (Some _) \<Rightarrow> if ch_resume_session_id (event_hello ev) = Some rid then 1 else 0 | _ \<Rightarrow> 0)"

definition tickets_minted :: "bytes \<Rightarrow> hello_event \<Rightarrow> handshake_response \<Rightarrow> nat" where
  "tickets_minted rid ev r = (case r of HSuccess sh _ _ \<Rightarrow> if sh_session_id sh = rid then 1 else 0 | _ \<Rightarrow> 0)"

lemma serve_covered:
  assumes "serve H s ev = (r, s')"
  shows "early_uses rid ev r + ticket_credit rid (hsv_session_cache s') \<le> ticket_credit rid (hsv_session_cache s) + tickets_minted rid ev r"
proof -
  obtain now coins ch d ip where ev: "ev = (now, coins, ch, d, ip)" by (cases ev)
  have p: "process_client_hello H now coins ch d ip s = (r, s')" using assms ev by simp
  show ?thesis
  proof (cases "\<exists>sh ss pt. r = HSuccess sh ss pt")
    case True
    then obtain sh ss pt where r: "r = HSuccess sh ss pt" by blast
    obtain resumed cache x where o: "consume_ticket H now (co_first_use coins) ch (hsv_session_cache s) = (resumed, cache)"
      "pt = early_plaintext (hl_crypto H) (hsv_early_data_enabled s) resumed ch"
      "s' = (record_handshake now s)\<lparr>hsv_session_cache := cache_store (instant now) (sh_session_id sh) x Aes256Gcm cache\<rparr>"
      by (rule process_success[OF p[unfolded r]])
    have st: "ticket_credit rid (hsv_session_cache s') \<le> ticket_credit rid cache + tickets_minted rid ev r"
      using credit_store[of rid "instant now" "sh_session_id sh" x Aes256Gcm cache] by (auto simp: o(3) r tickets_minted_def)
    from o(1) show ?thesis
    proof (cases rule: consume_cases)
      case none
      then have "early_uses rid ev r = 0" using o(2) by (auto simp: r early_uses_def early_plaintext_def split: option.split if_splits)
      then show ?thesis using st none(2)[of rid] by linarith
    next
      case (taken k t)
      then have one: "ticket_credit k (hsv_session_cache s) = 1" by (simp add: ticket_credit_def)
      have "early_uses rid ev r + ticket_credit rid cache \<le> ticket_credit rid (hsv_session_cache s)"
        using taken ev one by (auto simp: credit_remove early_uses_def r split: option.split)
      then show ?thesis using st by linarith
    qed
  next
    case False
    obtain resumed cache where c: "consume_ticket H now (co_first_use coins) ch (hsv_session_cache s) = (resumed, cache)" by fastforce
    have "ticket_credit rid (handed_back now resumed cache) \<le> ticket_credit rid (hsv_session_cache s)"
      using c
    proof (cases rule: consume_cases)
      case (taken k t)
      then have "ticket_credit k (hsv_session_cache s) = 1" by (simp add: ticket_credit_def)
      then show ?thesis using taken credit_reinsert[of rid "instant now" k t cache]
        by (auto simp: handed_back_def credit_remove split: if_splits)
    qed (simp add: handed_back_def)
    moreover have "early_uses rid ev r = 0" using False by (cases r) (auto simp: early_uses_def)
    ultimately show ?thesis using refused_cache[OF p _ c] False by fastforce
  qed
qed

subsection \<open>Early data\<close>

lemma early_data_opens:
  assumes L: "crypto_ok L" and len: "length data \<le> EARLY_DATA_MAX_LEN"
  obtains blob where "seal_early_data L secret nonce rid data = Some blob" "decrypt_early_data L secret nonce rid blob = Some data"
proof -
  obtain key iv where k: "derive_early_data_keying L secret nonce = (key, iv)" "length iv = 12"
    using L by (simp add: derive_early_data_keying_def crypto_ok_def kdf_ok_def)
  define ka kb where "ka = derive_key_32 L ''phantom-aes-send-v1'' key" and "kb = derive_key_32 L ''phantom-aes-recv-v1'' key"
  have kl: "length ka = 32" "length kb = 32" using L by (auto simp: ka_def kb_def derive_key_32_def crypto_ok_def kdf_ok_def)
  let ?cs = "\<lambda>a b. \<lparr>cs_suite = Aes256Gcm, cs_send_key = a, cs_recv_key = b, cs_send_counter = 0, cs_recv_counter = 0,
    cs_nonce_prefix = take 4 (derive_key_32 L ''phantom-nonce-pfx-v1'' key)\<rparr>"
  have w: "with_suite L key Aes256Gcm = Ok (?cs ka kb)" "with_suite_peer L key Aes256Gcm = Ok (?cs kb ka)"
    using kl by (simp_all add: with_suite_def with_suite_peer_def guard_suite_under_fips_def build_session_def Let_def ka_def kb_def)
  obtain c where c: "aead_seal L Aes256Gcm ka iv (rid @ nonce) data = Some c" "length c = length data + 16"
    "aead_open L Aes256Gcm ka iv (rid @ nonce) c = Some data"
  proof -
    have "length data < 2 ^ 32" using len by simp
    then show ?thesis using L kl(1) k(2) that unfolding crypto_ok_def aead_ok_def by blast
  qed
  show ?thesis
  proof (rule that)
    show "seal_early_data L secret nonce rid data = Some c"
      using c(1) by (simp add: seal_early_data_def k w encrypt_with_nonce_def Let_def AEAD_MAX_INVOCATIONS_def)
    show "decrypt_early_data L secret nonce rid c = Some data"
      using c(2,3) len by (simp add: decrypt_early_data_def k w decrypt_with_nonce_def Let_def AEAD_MAX_INVOCATIONS_def)
  qed
qed

lemma gate_bypass: "unix_secs now = Some u \<Longrightarrow> cookie_pow_gate H now ch d ip True m = Ok ()"
  by (auto simp: cookie_pow_gate_def validate_cookie_def generate_cookie_def current_cookie_bucket_def current_secret_hour_def
      Let_def split: option.split)

text \<open>A hello that proves to hold a live ticket consumes it.\<close>

lemma consume_live:
  assumes "live_ticket (instant now) c rid = Some t" "ch_resume_session_id ch = Some rid"
    and "ch_resumption_binder ch = Some (derive_resumption_binder (hl_crypto H) (rt_secret t) rid (ch_nonce ch))"
  shows "consume_ticket H now None ch c = (Some (rid, t), snd (cache_remove rid c))"
proof -
  have "cache_peek (instant now) rid c = (Some t, c)" "map_of (sc_tickets c) rid = Some t"
    using assms(1) by (auto simp: cache_peek_def live_ticket_def split: option.splits if_splits)
  then show ?thesis using assms by (simp add: consume_ticket_def cache_remove_def)
qed

interpretation tickets: account "serve H" "\<lambda>s. ticket_credit rid (hsv_session_cache s)" "early_uses rid" "tickets_minted rid" for H rid
  by unfold_locales (rule serve_covered)

subsection \<open>The concrete instance\<close>

abbreviation demo_rid :: bytes where "demo_rid \<equiv> replicate 32 12"

definition demo_resume :: client_hello where
  "demo_resume = create_client_hello_with_resume (hl_crypto demo_hs) demo_rid (rt_secret demo_ticket) None demo_client"

lemma demo_live: "live_ticket 0 (hsv_session_cache demo_server) demo_rid = Some demo_ticket"
  by (simp add: live_ticket_def demo_server_def demo_cache_def cache_insert_def demo_ticket_def)

lemma demo_cache_ok: "cache_ok demo_cache"
  by (simp add: demo_cache_def cache_insert_def cache_new_def cache_with_capacity_def cache_ok_def)

lemma demo_resume_fields:
  "ch_protocol_variant demo_resume = PROTOCOL_VARIANT (hl_crypto demo_hs)" "ch_version demo_resume = PROTOCOL_VERSION"
  "ch_key_package demo_resume = hc_kem_public demo_client" "ch_early_data demo_resume = None"
  by (simp_all add: demo_resume_def create_client_hello_with_resume_def)

lemma demo_resume_taken:
  "co_first_use coins = None \<Longrightarrow> consume_ticket demo_hs demo_moment (co_first_use coins) demo_resume (hsv_session_cache demo_server)
     = (Some (demo_rid, demo_ticket), snd (cache_remove demo_rid (hsv_session_cache demo_server)))"
  using consume_live[of demo_moment "hsv_session_cache demo_server" demo_rid demo_ticket demo_resume demo_hs] demo_live
  by (simp add: demo_moment_def demo_resume_def create_client_hello_with_resume_def)

subsection \<open>Properties\<close>

text \<open>
  C7. Early data is not replayed. Over any sequence of hellos a server handles, from any
  sources and at any times, the early data accepted under one ticket id is counted at most
  as often as a ticket of that id was issued: once for each session established with that
  id in the sequence, and once more if the cache held one at its start. A hello that is
  sent again therefore does not have its early data accepted again.
\<close>

theorem early_data_at_most_once:
  "sum_list (map2 (early_uses rid) evs (fst (run (serve H) s evs)))
    \<le> ticket_credit rid (hsv_session_cache s) + sum_list (map2 (tickets_minted rid) evs (fst (run (serve H) s evs)))"
  using tickets.run_covered[of rid evs H s] by linarith

text \<open>
  C20. A refused hello costs nobody a ticket. Whatever hello a server turns away, be it
  with a retry, a reject or a failure after the ticket was already taken, every ticket that
  was valid before is valid afterwards, with its secret and its expiry unchanged, and none
  is added. (On a server without a distributed anti-replay store.)
\<close>

theorem refused_hello_keeps_tickets:
  assumes ok: "cache_ok (hsv_session_cache s)" and store: "co_first_use coins = None"
    and p: "process_client_hello H now coins ch d ip s = (r, s')" and refused: "\<And>sh ss pt. r \<noteq> HSuccess sh ss pt"
  shows "live_ticket (instant now) (hsv_session_cache s') = live_ticket (instant now) (hsv_session_cache s)"
proof -
  obtain resumed cache where c: "consume_ticket H now (co_first_use coins) ch (hsv_session_cache s) = (resumed, cache)" by fastforce
  then have "live_ticket (instant now) (handed_back now resumed cache) = live_ticket (instant now) (hsv_session_cache s)"
  proof (cases rule: consume_cases)
    case (taken rid t)
    then show ?thesis using handed_back_live[OF ok taken(3,6)] by (simp add: handed_back_def)
  qed (simp add: handed_back_def store)
  then show ?thesis using refused_cache[OF p refused c] by auto
qed

text \<open>A ticket that was taken and handed back because the server could not draw its nonce.\<close>

theorem refused_hello_keeps_tickets_witness:
  "fst (process_client_hello demo_hs demo_moment (demo_coins\<lparr>co_nonce := None\<rparr>) demo_resume 5 [1] demo_server) = HFail RngError
    \<and> live_ticket 0 (hsv_session_cache
        (snd (process_client_hello demo_hs demo_moment (demo_coins\<lparr>co_nonce := None\<rparr>) demo_resume 5 [1] demo_server))) demo_rid = Some demo_ticket"
proof -
  let ?coins = "demo_coins\<lparr>co_nonce := None\<rparr>"
  obtain r s' where p: "process_client_hello demo_hs demo_moment ?coins demo_resume 5 [1] demo_server = (r, s')" by fastforce
  obtain secret ct where e: "encapsulate (hl_crypto demo_hs) (hl_pq demo_hs) (co_eph ?coins) (co_kem ?coins) (ch_key_package demo_resume) = Ok (secret, ct)"
    using honest_encapsulates[OF demo_hs_ok demo_client_honest, of "co_eph ?coins" "co_kem ?coins"] demo_resume_fields(3)
    by (auto simp: demo_hs_def demo_pq_def)
  have "co_nonce ?coins = None" by simp
  with p demo_resume_fields demo_resume_taken[of ?coins] e gate_bypass[of demo_moment 0 demo_hs demo_resume 5 "[1]" "hsv_master_secret demo_server"]
  have r: "r = HFail RngError"
    by (simp add: process_client_hello_def Let_def fail_and_reinsert_def demo_moment_def demo_coins_def)
  have "live_ticket (instant demo_moment) (hsv_session_cache s') = live_ticket (instant demo_moment) (hsv_session_cache demo_server)"
    by (rule refused_hello_keeps_tickets[OF _ _ p]) (simp_all add: r demo_coins_def demo_server_def demo_cache_ok)
  then show ?thesis using p r demo_live by (simp add: demo_moment_def)
qed

text \<open>
  C21. Resumption works and spends its ticket. A client that holds the secret of a live
  ticket and seals up to 16 KiB of early data into its hello is answered with a session at
  once, without cookie or proof of work and whatever difficulty is demanded; the server
  hands up exactly the data that was sealed and says so in its answer; and the ticket is
  gone from the cache. (This is the server's handler of a hello; the UDP listener asks a
  client it does not know for a cookie before a hello gets there.)
\<close>

theorem early_data_round_trip:
  assumes H: "lib_ok H" and c: "honest_client H c" and len: "length data \<le> EARLY_DATA_MAX_LEN"
    and live: "live_ticket (instant now) (hsv_session_cache s) rid = Some t" and on: "hsv_early_data_enabled s"
    and draws: "co_first_use coins = None" "co_nonce coins = Some nonce" "classical_public (hl_pq H) (co_eph coins) \<noteq> None"
    and clock: "unix_secs now = Some u"
  shows "\<exists>sh ss s'. process_client_hello H now coins
      (create_client_hello_with_resume (hl_crypto H) rid (rt_secret t) (Some data) c) d ip s = (HSuccess sh ss (Some data), s')
    \<and> sh_early_data_accepted sh \<and> (sh_session_id sh = rid \<or> live_ticket (instant now) (hsv_session_cache s') rid = None)"
proof -
  let ?L = "hl_crypto H" and ?cache = "snd (cache_remove rid (hsv_session_cache s))"
  define ch where "ch = create_client_hello_with_resume ?L rid (rt_secret t) (Some data) c"
  have L: "crypto_ok ?L" using H by (simp add: lib_ok_def)
  obtain blob where blob: "seal_early_data ?L (rt_secret t) (hc_nonce c) rid data = Some blob"
    "decrypt_early_data ?L (rt_secret t) (hc_nonce c) rid blob = Some data" by (rule early_data_opens[OF L len])
  have f: "ch_protocol_variant ch = PROTOCOL_VARIANT ?L" "ch_version ch = PROTOCOL_VERSION" "ch_key_package ch = hc_kem_public c"
    "ch_resume_session_id ch = Some rid" "ch_early_data ch = Some blob" "ch_nonce ch = hc_nonce c"
    "ch_resumption_binder ch = Some (derive_resumption_binder ?L (rt_secret t) rid (ch_nonce ch))"
    using blob(1) by (simp_all add: ch_def create_client_hello_with_resume_def)
  have cons: "consume_ticket H now (co_first_use coins) ch (hsv_session_cache s) = (Some (rid, t), ?cache)"
    using consume_live[OF live f(4,7)] draws(1) by simp
  obtain secret ct where e: "encapsulate ?L (hl_pq H) (co_eph coins) (co_kem coins) (ch_key_package ch) = Ok (secret, ct)"
    using honest_encapsulates[OF H c draws(3)] f(3) by metis
  have len: "length secret = 32" using encapsulate_length[OF _ e] L by (simp add: crypto_ok_def)
  obtain cr where cr: "crypto_state_new ?L secret True = Ok cr"
    by (rule crypto_state_new_ok[of ?L secret True]) (use L len in \<open>simp_all add: crypto_ok_def\<close>)
  have gate: "cookie_pow_gate H now ch d ip (Some (rid, t) \<noteq> None) (hsv_master_secret s) = Ok ()" using gate_bypass[OF clock] by simp
  have pt: "early_plaintext ?L (hsv_early_data_enabled s) (Some (rid, t)) ch = Some data"
    using on f blob(2) by (simp add: early_plaintext_def)
  have gone: "live_ticket (instant now) (cache_store (instant now) sid x v ?cache) rid = None \<or> sid = rid" for sid x v
  proof (cases "sid = rid")
    case False
    then have "ticket_credit rid (cache_store (instant now) sid x v ?cache) = 0"
      using credit_store[of rid "instant now" sid x v ?cache] by (simp add: credit_remove)
    then show ?thesis by (simp add: ticket_credit_def live_ticket_def split: if_splits)
  qed simp
  show ?thesis unfolding ch_def[symmetric] process_past_gate[OF f(1,2) cons gate e draws(2)] pt
    by (cases rule: finalize_cases[of H secret now "derive_session_id H secret (ch_nonce ch)" ?cache]) 
      (use cr gone[of "derive_session_id H secret (ch_nonce ch)" "derive_resumption_secret ?L secret" Aes256Gcm] in auto)
qed

theorem early_data_round_trip_witness:
  "\<exists>sh ss s'. process_client_hello demo_hs demo_moment demo_coins
      (create_client_hello_with_resume (hl_crypto demo_hs) demo_rid (rt_secret demo_ticket) (Some [1, 2, 3]) demo_client) 20 [1] demo_server
      = (HSuccess sh ss (Some [1, 2, 3]), s') \<and> sh_early_data_accepted sh"
proof -
  have "live_ticket (instant demo_moment) (hsv_session_cache demo_server) demo_rid = Some demo_ticket"
    "unix_secs demo_moment = Some 0" using demo_live by (simp_all add: demo_moment_def)
  moreover have "hsv_early_data_enabled demo_server" by (simp add: demo_server_def)
  moreover have "co_first_use demo_coins = None" "co_nonce demo_coins = Some (replicate 32 10)"
    "classical_public (hl_pq demo_hs) (co_eph demo_coins) \<noteq> None" by (simp_all add: demo_coins_def demo_hs_def demo_pq_def)
  ultimately show ?thesis
    using early_data_round_trip[OF demo_hs_ok demo_client_honest, of "[1, 2, 3]" demo_moment demo_server demo_rid demo_ticket
        demo_coins "replicate 32 10" 0 20 "[1]"] by auto
qed

end
