(* ===== verification/Handshake_Gate.thy ===== *)
theory Handshake_Gate
  imports Handshake_Tickets
begin

text \<open>
  The admission gate of the handshake: what a source must show before the server commits
  to a session, how long a cookie is good for, and the length check that precedes decoding.
\<close>

subsection \<open>Cookies\<close>

lemma unat_div_300: "unat ((t :: u64) div 300) = unat t div 300"
  by (simp add: unat_div_distrib)

lemma unat_div_3600: "unat ((t :: u64) div 3600) = unat t div 3600"
  by (simp add: unat_div_distrib)

text \<open>
  Documented behaviour of the two primitives behind a cookie: HKDF and HMAC do not
  collide on given inputs. The inputs in play are the HKDF labels of a few hours, and
  under the keys derived from those the messages of a few sources and buckets.
\<close>

definition hkdf_injective :: "hs_lib \<Rightarrow> bytes \<Rightarrow> string set \<Rightarrow> bool" where
  "hkdf_injective H ikm infos \<longleftrightarrow> inj_on (\<lambda>info. hkdf_sha256 (hl_crypto H) None ikm info 32) infos"

definition hmac_injective :: "hs_lib \<Rightarrow> bytes set \<Rightarrow> bytes set \<Rightarrow> bool" where
  "hmac_injective H keys msgs \<longleftrightarrow> inj_on (\<lambda>(k, m). hl_hmac_sha256 H k m) (keys \<times> msgs)"

definition hour_infos :: "u64 set \<Rightarrow> string set" where
  "hour_infos hours = (\<lambda>h. ''phantom-pow-cookie-v1'' @ map (\<lambda>b. char_of (unat b)) (to_be_bytes h)) ` hours"

definition hour_keys :: "hs_lib \<Rightarrow> bytes \<Rightarrow> u64 set \<Rightarrow> bytes set" where
  "hour_keys H ikm hours = (\<lambda>info. hkdf_sha256 (hl_crypto H) None ikm info 32) ` hour_infos hours"

definition source_messages :: "ip_addr set \<Rightarrow> u64 set \<Rightarrow> bytes set" where
  "source_messages ips buckets = {ip @ to_be_bytes b | ip b. ip \<in> ips \<and> b \<in> buckets}"

lemma of_char_of_unat: "of_char (char_of (unat (b :: u8))) = b"
proof -
  have "unat b < 2 ^ 8" using unsigned_less[of b] by simp
  then have "(of_char (char_of (unat b)) :: nat) = unat b" by (simp add: take_bit_nat_eq_self)
  then have "of_nat (of_char (char_of (unat b))) = b" by (simp del: of_nat_of_char of_char_of)
  then show ?thesis by (simp only: of_nat_of_char)
qed

lemma hour_info_inj:
  "map (\<lambda>b. char_of (unat b)) (to_be_bytes (h :: u64)) = map (\<lambda>b. char_of (unat b)) (to_be_bytes h') \<Longrightarrow> h = h'"
proof -
  assume "map (\<lambda>b. char_of (unat b)) (to_be_bytes h) = map (\<lambda>b. char_of (unat b)) (to_be_bytes h')"
  then have "map of_char (map (\<lambda>b. char_of (unat b)) (to_be_bytes h)) = (map of_char (map (\<lambda>b. char_of (unat b)) (to_be_bytes h')) :: bytes)"
    by (simp only:)
  then show ?thesis by (simp add: comp_def of_char_of_unat to_be_bytes_inj)
qed

text \<open>Then a cookie determines the hour, the source and the bucket it was made for.\<close>

lemma cookie_determines:
  assumes hk: "hkdf_injective H m (hour_infos hs)" and hm: "hmac_injective H (hour_keys H m hs) (source_messages ips bs)"
    and i: "h \<in> hs" "h' \<in> hs" "ip \<in> ips" "ip' \<in> ips" "b \<in> bs" "b' \<in> bs"
    and eq: "generate_cookie_for_bucket H (derive_session_secret_for_hour H m h) ip b
      = generate_cookie_for_bucket H (derive_session_secret_for_hour H m h') ip' b'"
  shows "h = h' \<and> ip = ip' \<and> b = b'"
proof -
  let ?key = "derive_session_secret_for_hour H m"
  have k: "?key x \<in> hour_keys H m hs" if "x \<in> hs" for x
    using that by (simp add: hour_keys_def hour_infos_def derive_session_secret_for_hour_def)
  have c: "x @ to_be_bytes y \<in> source_messages ips bs" if "x \<in> ips" "y \<in> bs" for x y
    using that by (auto simp: source_messages_def)
  have "(?key h, ip @ to_be_bytes b) = (?key h', ip' @ to_be_bytes b')"
    by (rule inj_onD[OF hm[unfolded hmac_injective_def]])
      (use eq k[OF i(1)] k[OF i(2)] c[OF i(3,5)] c[OF i(4,6)] in \<open>simp_all add: generate_cookie_for_bucket_def\<close>)
  then have "?key h = ?key h'" "ip = ip'" "b = b'" by (simp_all add: to_be_bytes_inj)
  moreover have "h = h'"
  proof (rule hour_info_inj)
    let ?i = "\<lambda>h. ''phantom-pow-cookie-v1'' @ map (\<lambda>b. char_of (unat b)) (to_be_bytes h)"
    have "?i h = ?i h'" by (rule inj_onD[OF hk[unfolded hkdf_injective_def]])
        (use \<open>?key h = ?key h'\<close> i(1,2) in \<open>simp_all add: derive_session_secret_for_hour_def hour_infos_def\<close>)
    then show "map (\<lambda>b. char_of (unat b)) (to_be_bytes h) = map (\<lambda>b. char_of (unat b)) (to_be_bytes h')" by simp
  qed
  ultimately show ?thesis by blast
qed

lemma prev_word:
  fixes h h' :: u64
  shows "(h = h' \<or> h = (if h' = 0 then 0 else h' - 1)) \<longleftrightarrow> unat h = unat h' \<or> Suc (unat h) = unat h'"
proof (cases "h' = 0")
  case False
  then have "unat (h' - 1) = unat h' - 1" "0 < unat h'" by (simp_all add: unat_minus_one unat_gt_0)
  then have "h = h' - 1 \<longleftrightarrow> Suc (unat h) = unat h'" by (metis Suc_pred unat_inject diff_Suc_1)
  then show ?thesis using False by auto
qed (auto simp: unat_eq_0)

text \<open>Two moments in the same or in adjacent buckets are in the same or in adjacent hours.\<close>

lemma bucket_hour:
  fixes t t' :: nat
  assumes "t div 300 = t' div 300 \<or> Suc (t div 300) = t' div 300"
  shows "t div 3600 = t' div 3600 \<or> Suc (t div 3600) = t' div 3600"
proof -
  have h: "x div 3600 = (x div 300) div 12" for x :: nat by (simp add: div_mult2_eq[symmetric])
  have "b div 12 = b' div 12 \<or> Suc (b div 12) = b' div 12" if "b = b' \<or> Suc b = b'" for b b' :: nat using that by linarith
  then show ?thesis using assms unfolding h by blast
qed

lemma gate_passed:
  assumes "cookie_pow_gate H now ch d ip False m = Ok ()" "unix_secs now = Some u"
  shows "\<exists>c. ch_cookie ch = Some c \<and> validate_cookie H now m ip c = Ok True"
    and "0 < d \<Longrightarrow> \<exists>sol h. ch_pow_solution ch = Some sol \<and> h \<in> {u div 3600, if u div 3600 = 0 then 0 else u div 3600 - 1}
      \<and> pow_verify (hl_blake3 H) u \<lparr>pc_nonce = ps_nonce sol, pc_difficulty = d\<rparr> sol ip (derive_session_secret_for_hour H m h)"
proof -
  obtain g where g: "generate_cookie H now m ip = Ok g"
    using assms(2) by (simp add: generate_cookie_def current_secret_hour_def current_cookie_bucket_def)
  obtain v where v: "(case ch_cookie ch of Some c \<Rightarrow> validate_cookie H now m ip c | None \<Rightarrow> Ok False) = Ok v"
    using assms(1) by (cases "case ch_cookie ch of Some c \<Rightarrow> validate_cookie H now m ip c | None \<Rightarrow> Ok False") (simp_all add: cookie_pow_gate_def)
  have t: "unix_or_zero now = u" "current_secret_hour now = Ok (u div 3600)"
    using assms(2) by (simp_all add: unix_or_zero_def current_secret_hour_def)
  have "v" using assms(1) g v t
    by (cases "0 < d"; cases "ch_pow_solution ch") (simp_all add: cookie_pow_gate_def Let_def split: if_splits)
  then show "\<exists>c. ch_cookie ch = Some c \<and> validate_cookie H now m ip c = Ok True" using v by (cases "ch_cookie ch") simp_all
  show "\<exists>sol h. ch_pow_solution ch = Some sol \<and> h \<in> {u div 3600, if u div 3600 = 0 then 0 else u div 3600 - 1}
      \<and> pow_verify (hl_blake3 H) u \<lparr>pc_nonce = ps_nonce sol, pc_difficulty = d\<rparr> sol ip (derive_session_secret_for_hour H m h)"
    if "0 < d"
    using assms(1) g v t that
    by (cases "ch_pow_solution ch") (auto simp: cookie_pow_gate_def Let_def split: if_splits)
qed

lemma gate_needs_clock:
  assumes "cookie_pow_gate H now ch d ip b m = Ok ()"
  shows "unix_secs now \<noteq> None"
proof
  assume "unix_secs now = None"
  then have "generate_cookie H now m ip = Err ClockBackwards" by (simp add: generate_cookie_def current_secret_hour_def)
  then show False using assms
    by (cases "case ch_cookie ch of Some c \<Rightarrow> validate_cookie H now m ip c | None \<Rightarrow> Ok False") (simp_all add: cookie_pow_gate_def)
qed

lemma not_resumed:
  assumes "\<not> fst (has_valid_resume H now ch s)" "consume_ticket H now st ch (hsv_session_cache s) = (resumed, cache)"
  shows "resumed = None"
  using assms(2)
proof (cases rule: consume_cases)
  case (taken rid t)
  then have "fst (has_valid_resume H now ch s)"
    by (simp add: has_valid_resume_def split_beta Let_def cache_peek_live(1))
  then show ?thesis using assms(1) by blast
qed

subsection \<open>The length check\<close>

text \<open>A position in a buffer and what is left there.\<close>

definition at :: "bytes \<Rightarrow> nat \<Rightarrow> bytes \<Rightarrow> bool" where
  "at bs pos left \<longleftrightarrow> pos \<le> length bs \<and> drop pos bs = left"

lemma at_append: "at bs pos (x @ left) \<Longrightarrow> at bs (pos + length x) left \<and> pos + length x \<le> length bs"
proof -
  assume a: "at bs pos (x @ left)"
  then have d: "pos \<le> length bs" "drop pos bs = x @ left" by (simp_all add: at_def)
  then have "length (drop pos bs) = length (x @ left)" by (simp only:)
  then have "length bs = pos + length (x @ left)" using d(1) by simp
  moreover have "drop (pos + length x) bs = left" using d(2) drop_drop[of "length x" pos bs] by (simp add: add.commute)
  ultimately show ?thesis by (simp add: at_def)
qed

lemma skip_at: "at bs pos (x @ left) \<Longrightarrow> skip bs (length x) pos = Some (pos + length x)"
  using at_append by (simp add: skip_def)

lemma vec_le_at:
  assumes a: "at bs pos (borsh_vec v @ left)" and v: "length v < 2 ^ 32"
  shows "vec_le bs m pos = (if length v \<le> m then Some (pos + length (borsh_vec v)) else None)"
proof -
  let ?l = "rev (to_be_bytes (word_of_nat (length v) :: u32))"
  have a1: "at bs pos (?l @ v @ left)" using a by (simp add: borsh_vec_def)
  have a2: "at bs (pos + 4) (v @ left)" "pos + 4 \<le> length bs" using at_append[OF a1] by simp_all
  have "take 4 (drop pos bs) = ?l" using a1 by (simp add: at_def)
  then have "read_len bs pos = Some (length v, pos + 4)" using a2(2) v by (simp add: read_len_def unat_of_nat)
  then show ?thesis using skip_at[OF a2(1)] by (simp add: vec_le_def borsh_vec_def)
qed

lemma read_opt_at: "at bs pos (borsh_option f x @ left) \<Longrightarrow> read_opt bs pos = Some (x \<noteq> None, pos + 1)"
proof -
  assume a: "at bs pos (borsh_option f x @ left)"
  have "pos < length bs" using at_append[OF a] by (auto simp: borsh_option_def split: option.splits)
  moreover from this have "bs ! pos = hd (borsh_option f x @ left)" using a by (metis at_def hd_drop_conv_nth)
  ultimately show ?thesis by (cases x) (simp_all add: read_opt_def borsh_option_def)
qed

lemma opt_fixed_at:
  assumes a: "at bs pos (borsh_option f x @ left)" and n: "pred_option (\<lambda>v. length (f v) = n) x"
  shows "opt_fixed bs n pos = Some (pos + length (borsh_option f x))"
proof (cases x)
  case None
  then show ?thesis using read_opt_at[OF a] by (simp add: opt_fixed_def borsh_option_def)
next
  case (Some v)
  then have "at bs pos ([1] @ f v @ left)" using a by (simp add: borsh_option_def)
  from at_append[OF this] have "at bs (pos + 1) (f v @ left)" by simp
  from skip_at[OF this] show ?thesis using read_opt_at[OF a] Some n by (simp add: opt_fixed_def borsh_option_def)
qed

lemma skip_next: "at bs pos (x @ left) \<Longrightarrow> length x = n \<Longrightarrow> \<exists>q. skip bs n pos = Some q \<and> at bs q left"
  using skip_at at_append by blast

lemma vec_next:
  "at bs pos (borsh_vec v @ left) \<Longrightarrow> length v < 2 ^ 32 \<Longrightarrow> \<exists>q. vec_le bs m pos = (if length v \<le> m then Some q else None) \<and> at bs q left"
  using vec_le_at at_append by blast

lemma opt_next:
  "at bs pos (borsh_option f x @ left) \<Longrightarrow> pred_option (\<lambda>v. length (f v) = n) x \<Longrightarrow> \<exists>q. opt_fixed bs n pos = Some q \<and> at bs q left"
  using opt_fixed_at at_append by blast

lemma early_at:
  assumes a: "at bs pos (borsh_option borsh_vec x @ left)" and n: "pred_option (\<lambda>v. length v < 2 ^ 32) x"
  shows "(case read_opt bs pos of Some (True, pos) \<Rightarrow> vec_le bs m pos | Some (False, pos) \<Rightarrow> Some pos | None \<Rightarrow> None) =
    (if pred_option (\<lambda>v. length v \<le> m) x then Some (pos + length (borsh_option borsh_vec x)) else None)"
proof (cases x)
  case None
  then show ?thesis using read_opt_at[OF a] by (simp add: borsh_option_def)
next
  case (Some v)
  then have "at bs pos ([1] @ borsh_vec v @ left)" using a by (simp add: borsh_option_def)
  from at_append[OF this] have "at bs (pos + 1) (borsh_vec v @ left)" by simp
  from vec_le_at[OF this] show ?thesis using read_opt_at[OF a] Some n by (simp add: borsh_option_def)
qed

lemma length_check_layout:
  assumes ty: "hello_typed L h"
  shows "client_hello_lengths_within_bounds L (hello_layout h) \<longleftrightarrow>
    length (kp_ml_kem_pk (ch_key_package h)) \<le> 1184 \<and> length (vk_ml_dsa_pk (ch_verify_key h)) \<le> 1952
    \<and> length (ch_protocol_variant h) \<le> 64 \<and> pred_option (\<lambda>e. length e \<le> EARLY_DATA_SEALED_MAX_LEN) (ch_early_data h)"
proof -
  define bs where "bs = hello_layout h"
  let ?f1 = "kp_classical_pk (ch_key_package h)" and ?f2 = "borsh_vec (kp_ml_kem_pk (ch_key_package h))"
    and ?f3 = "vk_ed25519_pk (ch_verify_key h)" and ?f4 = "borsh_vec (vk_ml_dsa_pk (ch_verify_key h))"
    and ?f5 = "ch_nonce h @ [ch_version h]" and ?f6 = "borsh_option id (ch_cookie h)"
    and ?f7 = "borsh_option (\<lambda>s. ps_nonce s @ to_le_bytes (ps_solution s)) (ch_pow_solution h)"
    and ?f8 = "borsh_option id (ch_resume_session_id h)" and ?f9 = "borsh_option id (ch_resumption_binder h)"
    and ?f10 = "borsh_vec (ch_protocol_variant h)" and ?f11 = "borsh_option borsh_vec (ch_early_data h)"
  have a1: "at bs 0 (?f1 @ ?f2 @ ?f3 @ ?f4 @ ?f5 @ ?f6 @ ?f7 @ ?f8 @ ?f9 @ ?f10 @ ?f11 @ [])"
    by (simp add: at_def bs_def hello_layout_def)
  have ty': "length ?f1 = CLASSICAL_PK_BYTES L" "length ?f3 = 32" "length ?f5 = 33"
    "pred_option (\<lambda>v. length (id v) = 32) (ch_cookie h)"
    "pred_option (\<lambda>s. length (ps_nonce s @ to_le_bytes (ps_solution s)) = 40) (ch_pow_solution h)"
    "pred_option (\<lambda>v. length (id v) = 32) (ch_resume_session_id h)" "pred_option (\<lambda>v. length (id v) = 32) (ch_resumption_binder h)"
    "length (kp_ml_kem_pk (ch_key_package h)) < 2 ^ 32" "length (vk_ml_dsa_pk (ch_verify_key h)) < 2 ^ 32"
    "length (ch_protocol_variant h) < 2 ^ 32" "pred_option (\<lambda>e. length e < 2 ^ 32) (ch_early_data h)"
    using ty by (auto simp: hello_typed_def option.pred_set)
  obtain p2 where s1: "skip bs (CLASSICAL_PK_BYTES L) 0 = Some p2" and a2: "at bs p2 (?f2 @ ?f3 @ ?f4 @ ?f5 @ ?f6 @ ?f7 @ ?f8 @ ?f9 @ ?f10 @ ?f11 @ [])"
    using skip_next[OF a1 ty'(1)] by blast
  obtain p3 where s2: "vec_le bs 1184 p2 = (if length (kp_ml_kem_pk (ch_key_package h)) \<le> 1184 then Some p3 else None)"
    and a3: "at bs p3 (?f3 @ ?f4 @ ?f5 @ ?f6 @ ?f7 @ ?f8 @ ?f9 @ ?f10 @ ?f11 @ [])" using vec_next[OF a2 ty'(8)] by blast
  obtain p4 where s3: "skip bs 32 p3 = Some p4" and a4: "at bs p4 (?f4 @ ?f5 @ ?f6 @ ?f7 @ ?f8 @ ?f9 @ ?f10 @ ?f11 @ [])"
    using skip_next[OF a3 ty'(2)] by blast
  obtain p5 where s4: "vec_le bs 1952 p4 = (if length (vk_ml_dsa_pk (ch_verify_key h)) \<le> 1952 then Some p5 else None)"
    and a5: "at bs p5 (?f5 @ ?f6 @ ?f7 @ ?f8 @ ?f9 @ ?f10 @ ?f11 @ [])" using vec_next[OF a4 ty'(9)] by blast
  obtain p6 where s5: "skip bs 33 p5 = Some p6" and a6: "at bs p6 (?f6 @ ?f7 @ ?f8 @ ?f9 @ ?f10 @ ?f11 @ [])"
    using skip_next[OF a5 ty'(3)] by blast
  obtain p7 where s6: "opt_fixed bs 32 p6 = Some p7" and a7: "at bs p7 (?f7 @ ?f8 @ ?f9 @ ?f10 @ ?f11 @ [])" using opt_next[OF a6 ty'(4)] by blast
  obtain p8 where s7: "opt_fixed bs 40 p7 = Some p8" and a8: "at bs p8 (?f8 @ ?f9 @ ?f10 @ ?f11 @ [])" using opt_next[OF a7 ty'(5)] by blast
  obtain p9 where s8: "opt_fixed bs 32 p8 = Some p9" and a9: "at bs p9 (?f9 @ ?f10 @ ?f11 @ [])" using opt_next[OF a8 ty'(6)] by blast
  obtain p10 where s9: "opt_fixed bs 32 p9 = Some p10" and a10: "at bs p10 (?f10 @ ?f11 @ [])" using opt_next[OF a9 ty'(7)] by blast
  obtain p11 where s10: "vec_le bs 64 p10 = (if length (ch_protocol_variant h) \<le> 64 then Some p11 else None)"
    and a11: "at bs p11 (?f11 @ [])" using vec_next[OF a10 ty'(10)] by blast
  have s11: "p11 + length ?f11 = length bs" using at_append[OF a11] by (simp add: at_def)
  show ?thesis unfolding bs_def[symmetric] client_hello_lengths_within_bounds_def early_at[OF a11 ty'(11)]
    by (simp add: s1 s2 s3 s4 s5 s6 s7 s8 s9 s10 s11 early_at[OF a11 ty'(11)])
qed

subsection \<open>The concrete instance\<close>

lemma demo_cookie:
  "generate_cookie_for_bucket demo_hs (derive_session_secret_for_hour demo_hs m hour) ip bucket =
     rev (to_be_bytes hour) @ take 24 (rev (to_be_bytes bucket) @ rev ip @ replicate 24 0)"
  by (simp add: generate_cookie_for_bucket_def derive_session_secret_for_hour_def demo_hs_def comp_def of_char_of_unat)

lemma demo_hkdf: "hkdf_sha256 (hl_crypto demo_hs) None m (''phantom-pow-cookie-v1'' @ map (\<lambda>b. char_of (unat b)) (to_be_bytes (h :: u64))) 32
    = rev (to_be_bytes h) @ rev (map of_char ''phantom-pow-cookie-v1'') @ replicate 3 0"
  by (simp add: demo_hs_def comp_def of_char_of_unat)

lemma demo_hkdf_injective: "hkdf_injective demo_hs m (hour_infos hs)"
  by (auto simp: hkdf_injective_def inj_on_def hour_infos_def demo_hkdf[unfolded append.simps] to_be_bytes_inj)

lemma demo_hmac_injective: "hmac_injective demo_hs (hour_keys demo_hs m hs) (source_messages {[1], [2]} bs)"
proof -
  have "hl_hmac_sha256 demo_hs (rev (to_be_bytes (h :: u64)) @ x) ([i] @ to_be_bytes (b :: u64))
      = rev (to_be_bytes h) @ rev (to_be_bytes b) @ [i] @ replicate 15 0" for h x i b
    by (simp add: demo_hs_def)
  then show ?thesis
    by (auto simp: hmac_injective_def inj_on_def hour_keys_def hour_infos_def demo_hkdf[unfolded append.simps] source_messages_def to_be_bytes_inj)
qed

text \<open>The demo hello with a solved challenge of difficulty 8.\<close>

definition demo_challenge :: pow_challenge where
  "demo_challenge = new_stateless (hl_blake3 demo_hs) 0 8 [1] (derive_session_secret_for_hour demo_hs (hsv_master_secret demo_server) 0)"

definition demo_pow_hello :: client_hello where
  "demo_pow_hello = demo_hello\<lparr>ch_pow_solution := Some \<lparr>ps_nonce = pc_nonce demo_challenge, ps_solution = 0\<rparr>\<rparr>"

lemma demo_pow_verifies:
  "pow_verify (hl_blake3 demo_hs) 0 \<lparr>pc_nonce = pc_nonce demo_challenge, pc_difficulty = 8\<rparr>
     \<lparr>ps_nonce = pc_nonce demo_challenge, ps_solution = 0\<rparr> [1] (derive_session_secret_for_hour demo_hs (hsv_master_secret demo_server) 0)"
proof -
  have "count_zeros (0 # 0 # 1 # replicate 29 1) 0 = 23" by code_simp
  then have "check_leading_zeros (0 # 0 # 1 # replicate 29 1) 8" by (simp add: check_leading_zeros_def)
  then show ?thesis
    by (simp add: pow_verify_def demo_challenge_def new_stateless_def Let_def compute_blake3_hash_def) (simp add: demo_hs_def)
qed

lemma demo_pow_exchange:
  "\<exists>sh ss s'. process_client_hello demo_hs demo_moment demo_coins demo_pow_hello 8 [1] demo_server = (HSuccess sh ss None, s')"
proof -
  have f: "ch_key_package demo_pow_hello = hc_kem_public demo_client" "ch_protocol_variant demo_pow_hello = PROTOCOL_VARIANT (hl_crypto demo_hs)"
    "ch_version demo_pow_hello = PROTOCOL_VERSION" "ch_resume_session_id demo_pow_hello = None"
    by (simp_all add: demo_pow_hello_def demo_hello_def create_client_hello_def)
  have g: "cookie_pow_gate demo_hs demo_moment demo_pow_hello 8 [1] False (hsv_master_secret demo_server) = Ok ()"
    using demo_pow_verifies
    by (simp add: cookie_pow_gate_def validate_cookie_def generate_cookie_def current_cookie_bucket_def current_secret_hour_def
        demo_moment_def demo_pow_hello_def demo_hello_def unix_or_zero_def) (simp add: demo_server_def)
  have "co_nonce demo_coins = Some (replicate 32 10)" "classical_public (hl_pq demo_hs) (co_eph demo_coins) \<noteq> None"
    by (simp_all add: demo_coins_def demo_hs_def demo_pq_def)
  from process_admits[OF demo_hs_ok demo_client_honest f g this] show ?thesis by blast
qed

lemma demo_cookie_length: "length (generate_cookie_for_bucket demo_hs (derive_session_secret_for_hour demo_hs m hour) ip bucket) = 32"
  by (simp add: demo_cookie)

subsection \<open>Properties\<close>

text \<open>
  C8. No session without passing the gate. When the server establishes a session for a
  hello that does not prove to hold a live ticket, the hello carried a cookie valid now for
  its source address, and, when a difficulty is demanded, a solved challenge: one that the
  server's secret of this hour or the one before, derived from its master secret, bound to
  this address at most 120 seconds ago, and whose hash has the demanded number of leading
  zero bits.
\<close>

theorem no_session_without_gate:
  assumes p: "process_client_hello H now coins ch d ip s = (HSuccess sh ss pt, s')"
    and no: "\<not> fst (has_valid_resume H now ch s)"
  shows "\<exists>u c. unix_secs now = Some u \<and> ch_cookie ch = Some c \<and> validate_cookie H now (hsv_master_secret s) ip c = Ok True
    \<and> (d = 0 \<or> (\<exists>sol hour t. ch_pow_solution ch = Some sol \<and> t = from_le_bytes (take 8 (ps_nonce sol)) \<and> t \<le> u \<and> u \<le> t + 120
         \<and> (unat hour = unat u div 3600 \<or> Suc (unat hour) = unat u div 3600)
         \<and> take 24 (drop 8 (ps_nonce sol)) = take 24 (blake3_keyed (hl_blake3 H)
             (derive_session_secret_for_hour H (hsv_master_secret s) hour) (take 8 (ps_nonce sol) @ ip))
         \<and> check_leading_zeros (compute_blake3_hash (hl_blake3 H) (ps_nonce sol) (ps_solution sol)) d))"
proof -
  obtain resumed cache where o: "consume_ticket H now (co_first_use coins) ch (hsv_session_cache s) = (resumed, cache)"
    "cookie_pow_gate H now ch d ip (resumed \<noteq> None) (hsv_master_secret s) = Ok ()" by (rule process_success[OF p])
  have gate: "cookie_pow_gate H now ch d ip False (hsv_master_secret s) = Ok ()" using o not_resumed[OF no o(1)] by simp
  obtain u where u: "unix_secs now = Some u" using gate_needs_clock[OF gate] by blast
  obtain c where c: "ch_cookie ch = Some c" "validate_cookie H now (hsv_master_secret s) ip c = Ok True"
    using gate_passed(1)[OF gate u] by blast
  show ?thesis
  proof (cases "d = 0")
    case False
    then have "0 < d" by (simp add: word_gt_0)
    then obtain sol h where sol: "ch_pow_solution ch = Some sol" "h \<in> {u div 3600, if u div 3600 = 0 then 0 else u div 3600 - 1}"
      "pow_verify (hl_blake3 H) u \<lparr>pc_nonce = ps_nonce sol, pc_difficulty = d\<rparr> sol ip (derive_session_secret_for_hour H (hsv_master_secret s) h)"
      using gate_passed(2)[OF gate u] by blast
    have "unat h = unat u div 3600 \<or> Suc (unat h) = unat u div 3600"
      using sol(2) prev_word[of h "u div 3600"] by (simp add: unat_div_3600)
    then show ?thesis using u c sol(1) pow_verify_bound[OF sol(3)] by fastforce
  qed (use u c in blast)
qed

theorem no_session_without_gate_witness:
  "\<exists>sh ss s' c sol. process_client_hello demo_hs demo_moment demo_coins demo_pow_hello 8 [1] demo_server = (HSuccess sh ss None, s')
    \<and> ch_cookie demo_pow_hello = Some c \<and> validate_cookie demo_hs demo_moment (hsv_master_secret demo_server) [1] c = Ok True
    \<and> ch_pow_solution demo_pow_hello = Some sol
    \<and> check_leading_zeros (compute_blake3_hash (hl_blake3 demo_hs) (ps_nonce sol) (ps_solution sol)) 8"
proof -
  obtain sh ss s' where p: "process_client_hello demo_hs demo_moment demo_coins demo_pow_hello 8 [1] demo_server = (HSuccess sh ss None, s')"
    using demo_pow_exchange by blast
  have "\<not> fst (has_valid_resume demo_hs demo_moment demo_pow_hello demo_server)"
    by (simp add: has_valid_resume_def demo_pow_hello_def demo_hello_def create_client_hello_def)
  from no_session_without_gate[OF p this] have "\<exists>c sol. ch_cookie demo_pow_hello = Some c
      \<and> validate_cookie demo_hs demo_moment (hsv_master_secret demo_server) [1] c = Ok True \<and> ch_pow_solution demo_pow_hello = Some sol
      \<and> check_leading_zeros (compute_blake3_hash (hl_blake3 demo_hs) (ps_nonce sol) (ps_solution sol)) 8" by auto
  then show ?thesis using p by blast
qed

text \<open>
  C23. How long a cookie lasts. A cookie minted for one address is accepted from an address
  and at a time exactly when it is the same address and the five-minute bucket of that time
  is the one of the minting or the next; hour boundaries do not shorten it. So it is
  accepted for at least five minutes and for less than ten. (HKDF-SHA256 is assumed not to
  collide on the labels of the three hours compared, and HMAC-SHA256 not to collide on the
  two addresses and three buckets under the keys of those hours.)
\<close>

theorem cookie_window:
  assumes t: "unix_secs minted = Some t" and t': "unix_secs now = Some t'"
    and hs: "hs = {t div 3600, t' div 3600, if t' div 3600 = 0 then 0 else t' div 3600 - 1}"
    and bs: "bs = {t div 300, t' div 300, if t' div 300 = 0 then 0 else t' div 300 - 1}"
    and hkdf: "hkdf_injective H master (hour_infos hs)"
    and hmac: "hmac_injective H (hour_keys H master hs) (source_messages {ip, ip'} bs)"
  shows "\<exists>c. generate_cookie H minted master ip = Ok c \<and>
    validate_cookie H now master ip' c = Ok (ip' = ip \<and> (unat t div 300 = unat t' div 300 \<or> Suc (unat t div 300) = unat t' div 300))"
proof -
  define mac where "mac = (\<lambda>h i b. generate_cookie_for_bucket H (derive_session_secret_for_hour H master h) i b)"
  let ?h = "t div 3600" and ?b = "t div 300" and ?h' = "t' div 3600" and ?b' = "t' div 300"
  let ?hp = "if ?h' = 0 then 0 else ?h' - 1" and ?bp = "if ?b' = 0 then 0 else ?b' - 1"
  have eq: "mac ?h ip ?b = mac x ip' y \<longleftrightarrow> ?h = x \<and> ip = ip' \<and> ?b = y" if "x \<in> {?h', ?hp}" "y \<in> {?b', ?bp}" for x y
    using cookie_determines[OF hkdf hmac, of ?h x ip ip' ?b y] that unfolding mac_def hs bs by auto
  have v: "validate_cookie H now master ip' (mac ?h ip ?b) =
      Ok ((mac ?h ip ?b = mac ?h' ip' ?b' \<or> mac ?h ip ?b = mac ?h' ip' ?bp) \<or> (mac ?h ip ?b = mac ?hp ip' ?b' \<or> mac ?h ip ?b = mac ?hp ip' ?bp))"
    using t' by (simp add: validate_cookie_def current_cookie_bucket_def current_secret_hour_def Let_def mac_def)
  have "((mac ?h ip ?b = mac ?h' ip' ?b' \<or> mac ?h ip ?b = mac ?h' ip' ?bp) \<or> (mac ?h ip ?b = mac ?hp ip' ?b' \<or> mac ?h ip ?b = mac ?hp ip' ?bp))
      \<longleftrightarrow> ip' = ip \<and> (?b = ?b' \<or> ?b = ?bp) \<and> (?h = ?h' \<or> ?h = ?hp)"
    using eq[of ?h' ?b'] eq[of ?h' ?bp] eq[of ?hp ?b'] eq[of ?hp ?bp] by blast
  also have "\<dots> \<longleftrightarrow> ip' = ip \<and> (unat t div 300 = unat t' div 300 \<or> Suc (unat t div 300) = unat t' div 300)"
    unfolding prev_word unat_div_300 unat_div_3600 using bucket_hour by blast
  finally show ?thesis using v t by (simp add: generate_cookie_def current_cookie_bucket_def current_secret_hour_def mac_def)
qed

text \<open>Minted at the epoch for one address: accepted 599 seconds later, not 600 seconds later, and not from another address.\<close>

theorem cookie_window_witness:
  "\<exists>c. generate_cookie demo_hs demo_moment [] [1] = Ok c
    \<and> validate_cookie demo_hs \<lparr>unix_secs = Some 599, instant = 0\<rparr> [] [1] c = Ok True
    \<and> validate_cookie demo_hs \<lparr>unix_secs = Some 600, instant = 0\<rparr> [] [1] c = Ok False
    \<and> validate_cookie demo_hs demo_moment [] [2] c = Ok False"
proof -
  have mac: "hmac_injective demo_hs (hour_keys demo_hs [] hs) (source_messages {[1], [1]} bs)" for hs bs
  proof -
    have "source_messages {[1], [1]} bs \<subseteq> source_messages {[1], [2]} bs" unfolding source_messages_def by blast
    then show ?thesis unfolding hmac_injective_def
      by (intro inj_on_subset[OF demo_hmac_injective[of "[]" hs bs, unfolded hmac_injective_def]]) auto
  qed
  have t: "unix_secs demo_moment = Some 0" by (simp add: demo_moment_def)
  show ?thesis
    using cookie_window[OF t _ refl refl demo_hkdf_injective mac, of "\<lparr>unix_secs = Some 599, instant = 0\<rparr>" 599]
      cookie_window[OF t _ refl refl demo_hkdf_injective mac, of "\<lparr>unix_secs = Some 600, instant = 0\<rparr>" 600]
      cookie_window[OF t t refl refl demo_hkdf_injective demo_hmac_injective, of "[]"] by auto
qed

text \<open>
  C24. The length check before decoding is exact. On the encoding of a hello it answers
  yes exactly when the ML-KEM key, the ML-DSA key, the variant tag and the sealed early
  data are within their maxima, the last one at 16 KiB and the authentication tag.
\<close>

theorem hello_length_check_exact:
  assumes lay: "borsh_client_hello H h = hello_layout h" and ty: "hello_typed L h"
  shows "client_hello_lengths_within_bounds L (borsh_client_hello H h) \<longleftrightarrow>
    length (kp_ml_kem_pk (ch_key_package h)) \<le> 1184 \<and> length (vk_ml_dsa_pk (ch_verify_key h)) \<le> 1952
    \<and> length (ch_protocol_variant h) \<le> 64 \<and> pred_option (\<lambda>e. length e \<le> EARLY_DATA_SEALED_MAX_LEN) (ch_early_data h)"
  unfolding lay by (rule length_check_layout[OF ty])

theorem hello_length_check_exact_witness:
  "client_hello_lengths_within_bounds demo_lib (borsh_client_hello demo_hs demo_hello)
    \<and> \<not> client_hello_lengths_within_bounds demo_lib (borsh_client_hello demo_hs (demo_hello\<lparr>ch_protocol_variant := replicate 65 0\<rparr>))"
proof -
  have l: "borsh_client_hello demo_hs h = hello_layout h" for h by (simp add: demo_hs_def)
  have f: "\<not> fips_build demo_lib" by (simp add: demo_lib_def)
  have "hello_typed demo_lib demo_hello" "hello_typed demo_lib (demo_hello\<lparr>ch_protocol_variant := replicate 65 0\<rparr>)"
    by (simp_all add: hello_typed_def demo_hello_def create_client_hello_def demo_client_def f PROTOCOL_VARIANT_def demo_cookie_length)
  from hello_length_check_exact[OF l this(1)] hello_length_check_exact[OF l this(2)] show ?thesis
    by (simp add: demo_hello_def create_client_hello_def demo_client_def PROTOCOL_VARIANT_def)
qed

end
