(* ===== verification/Handshake_Driver.thy ===== *)
theory Handshake_Driver
  imports Handshake_Gate
begin

text \<open>
  The loops around the handshake: \<open>drive_server_handshake\<close> (\<open>api/listener.rs\<close>) and
  \<open>run_client_handshake\<close> (\<open>api/session.rs\<close>), each as the step it makes per message
  received, and the exchange of an honest client and server over a connection and over
  UDP, where the listener asks for a cookie before it commits a slot.
\<close>

subsection \<open>The server side\<close>

record server_conn =
  sc_retry_rounds :: nat
  sc_demanded_difficulty :: "u8 option"

text \<open>What the loop does after a message: answer and read on, finish, or close, with a last answer or none.\<close>

datatype server_turn = SAnswer bytes | SDone bytes session "bytes option" | SClose "bytes option"

definition demanded_difficulty ::
  "hs_lib \<Rightarrow> moment \<Rightarrow> ip_addr \<Rightarrow> client_hello \<Rightarrow> server_conn \<Rightarrow> handshake_server \<Rightarrow> u8 \<times> server_conn \<times> handshake_server" where
  "demanded_difficulty H now ip ch conn s =
     (case sc_demanded_difficulty conn of
        Some fixed \<Rightarrow> (fixed, conn, s)
      | None \<Rightarrow>
          let (has_ticket, s) = has_valid_resume H now ch s;
              first = max (adaptive_difficulty s) (calculate_difficulty (unix_or_zero now) ip has_ticket (hsv_reputation s))
          in (first, conn\<lparr>sc_demanded_difficulty := Some first\<rparr>, s))"

text \<open>One message of the loop; \<open>sent\<close> is whether the transport takes the answer.\<close>

definition server_round ::
  "hs_lib \<Rightarrow> moment \<Rightarrow> server_coins \<Rightarrow> bool \<Rightarrow> ip_addr \<Rightarrow> bytes \<Rightarrow> server_conn \<Rightarrow> handshake_server \<Rightarrow> server_turn \<times> server_conn \<times> handshake_server" where
  "server_round H now coins sent ip hello_bytes conn s =
     (if \<not> client_hello_lengths_within_bounds (hl_crypto H) hello_bytes then (SClose None, conn, s)
      else case unborsh_client_hello H hello_bytes of
             None \<Rightarrow> (SClose None, conn, s)
           | Some ch \<Rightarrow>
               let (difficulty, conn, s) = demanded_difficulty H now ip ch conn s;
                   (r, s) = process_client_hello H now coins ch difficulty ip s
               in case r of
                    HRetry retry \<Rightarrow>
                      let conn = conn\<lparr>sc_retry_rounds := sc_retry_rounds conn + 1\<rparr>
                      in if sc_retry_rounds conn > MAX_HANDSHAKE_RETRY_ROUNDS
                         then (SClose (if sent then Some (reply_to_wire H (RReject (reject_with REJECT_RETRY_LIMIT))) else None), conn, s)
                         else if \<not> sent then (SClose None, conn, s)
                         else (SAnswer (reply_to_wire H (RRetry retry)), conn, s)
                  | HSuccess sh session early_data \<Rightarrow>
                      if \<not> sent then (SClose None, conn, s)
                      else (SDone (reply_to_wire H (RHello sh)) session early_data, conn,
                            s\<lparr>hsv_reputation := reset_violations ip (hsv_reputation s)\<rparr>)
                  | HReject reject \<Rightarrow> (SClose (if sent then Some (reply_to_wire H (RReject reject)) else None), conn, s)
                  | HFail e \<Rightarrow>
                      (SClose None, conn,
                       (case e of
                          ProtocolVariantMismatch _ _ \<Rightarrow> s
                        | _ \<Rightarrow> s\<lparr>hsv_reputation := record_violation (unix_or_zero now) ip (hsv_reputation s)\<rparr>)))"

subsection \<open>The client side\<close>

abbreviation MAX_CLIENT_REJECT_ROUNDS :: nat where "MAX_CLIENT_REJECT_ROUNDS \<equiv> 3"

record client_conn =
  cc_handshake :: handshake_client
  cc_hello :: client_hello
  cc_retry_rounds :: nat
  cc_reject_rounds :: nat
  cc_remembered_reject :: "server_reject option"

datatype client_failure =
    ProtocolRejected server_reject | MissingMarker | TooManyRetries | PowFailed pow_error | BadReply
  | HelloRefused handshake_error | TransportEnded

datatype client_turn = CSend bytes | CWait | CDone session "bool option" | CFail client_failure

text \<open>The state with which the loop starts, and the first hello it sends.\<close>

definition client_start :: "hs_lib \<Rightarrow> handshake_client \<Rightarrow> (bytes \<times> bytes \<times> bytes) option \<Rightarrow> bytes \<times> client_conn" where
  "client_start H c resumption =
     (let hello = (case resumption of
            Some (rid, secret, early_data) \<Rightarrow>
              create_client_hello_with_resume (hl_crypto H) rid secret (if early_data = [] then None else Some early_data) c
          | None \<Rightarrow> create_client_hello (hl_crypto H) c)
      in (borsh_client_hello H hello,
          \<lparr>cc_handshake = c, cc_hello = hello, cc_retry_rounds = 0, cc_reject_rounds = 0, cc_remembered_reject = None\<rparr>))"

text \<open>The hello that answers a retry request.\<close>

definition answer_retry :: "blake3_lib \<Rightarrow> hello_retry_request \<Rightarrow> client_hello \<Rightarrow> (pow_error, client_hello) result" where
  "answer_retry B retry hello =
     (let hello = hello\<lparr>ch_cookie := hrr_cookie retry\<rparr>
      in case hrr_challenge retry of
           None \<Rightarrow> Ok hello
         | Some challenge \<Rightarrow>
             (case solve_capped B MAX_CLIENT_POW_DIFFICULTY challenge of
                Inl e \<Rightarrow> Err e
              | Inr sol \<Rightarrow> Ok (hello\<lparr>ch_pow_solution := Some sol\<rparr>)))"

definition client_round ::
  "hs_lib \<Rightarrow> nanos \<Rightarrow> hybrid_verifying_key \<Rightarrow> bytes \<Rightarrow> client_conn \<Rightarrow> client_turn \<times> client_conn" where
  "client_round H now key resp conn =
     (case reply_from_wire H resp of
        Inl _ \<Rightarrow> (CFail BadReply, conn)
      | Inr (RHello sh) \<Rightarrow>
          (case process_server_hello H now (cc_hello conn) sh (Some key) (cc_handshake conn) of
             (Inl e, c) \<Rightarrow> (CFail (HelloRefused e), conn\<lparr>cc_handshake := c\<rparr>)
           | (Inr (session, accepted), c) \<Rightarrow> (CDone session accepted, conn\<lparr>cc_handshake := c\<rparr>))
      | Inr (RReject reject) \<Rightarrow>
          if has_marker reject then
            let conn = conn\<lparr>cc_reject_rounds := cc_reject_rounds conn + 1\<rparr>
            in if cc_reject_rounds conn > MAX_CLIENT_REJECT_ROUNDS then (CFail (ProtocolRejected reject), conn)
               else (CWait, conn\<lparr>cc_remembered_reject := Some reject\<rparr>)
          else (CFail MissingMarker, conn)
      | Inr (RRetry retry) \<Rightarrow>
          let conn = conn\<lparr>cc_retry_rounds := cc_retry_rounds conn + 1\<rparr>
          in if cc_retry_rounds conn > MAX_HANDSHAKE_RETRY_ROUNDS then (CFail TooManyRetries, conn)
             else case answer_retry (hl_blake3 H) retry (cc_hello conn) of
                    Inl e \<Rightarrow> (CFail (PowFailed e), conn)
                  | Inr hello \<Rightarrow> (CSend (borsh_client_hello H hello), conn\<lparr>cc_hello := hello\<rparr>))"

text \<open>The transport ended while a reply was awaited.\<close>

definition client_channel_ended :: "client_conn \<Rightarrow> client_failure" where
  "client_channel_ended conn = (case cc_remembered_reject conn of Some r \<Rightarrow> ProtocolRejected r | None \<Rightarrow> TransportEnded)"

subsection \<open>First contact over UDP\<close>

text \<open>
  What the demultiplexer does with the first message of a connection id it has no route
  for; the caps on pending handshakes and routes are left out.
\<close>

datatype udp_contact = UdpIgnore | UdpAnswer bytes | UdpCommit

definition udp_first_contact :: "hs_lib \<Rightarrow> moment \<Rightarrow> ip_addr \<Rightarrow> bytes \<Rightarrow> handshake_server \<Rightarrow> udp_contact" where
  "udp_first_contact H now ip frame s =
     (if \<not> client_hello_lengths_within_bounds (hl_crypto H) frame then UdpIgnore
      else case unborsh_client_hello H frame of
             None \<Rightarrow> UdpIgnore
           | Some ch \<Rightarrow>
               (case udp_admit H now ch ip s of
                  Admit \<Rightarrow> UdpCommit
                | AdmitRetry hrr \<Rightarrow> UdpAnswer (reply_to_wire H (RRetry hrr))
                | AdmitDrop \<Rightarrow> UdpIgnore))"

subsection \<open>A client and a server connected\<close>

datatype connect_result = Joined session "bool option" session "bytes option" | GaveUp client_failure | Pending

text \<open>
  The two loops joined by a path that delivers every message once and in order. A round is
  one hello: the clock and the draws of the server, and the clock of the client.
  \<open>committed\<close> is whether the server runs its loop for this client: from the start on a
  connection, after a valid cookie over UDP.
\<close>

type_synonym round = "moment \<times> server_coins \<times> nanos"

fun connect ::
  "hs_lib \<Rightarrow> hybrid_verifying_key \<Rightarrow> ip_addr \<Rightarrow> round list \<Rightarrow> bool \<Rightarrow> bytes \<Rightarrow> client_conn \<Rightarrow> server_conn \<Rightarrow> handshake_server
     \<Rightarrow> connect_result \<times> client_conn" where
  "connect H key ip [] committed hello cc sc s = (Pending, cc)"
| "connect H key ip ((now, coins, t) # rounds) committed hello cc sc s =
     (case (if committed then UdpCommit else udp_first_contact H now ip hello s) of
        UdpIgnore \<Rightarrow> (GaveUp (client_channel_ended cc), cc)
      | UdpAnswer reply \<Rightarrow>
          (case client_round H t key reply cc of
             (CSend hello, cc) \<Rightarrow> connect H key ip rounds False hello cc sc s
           | (CFail f, cc) \<Rightarrow> (GaveUp f, cc)
           | (_, cc) \<Rightarrow> (Pending, cc))
      | UdpCommit \<Rightarrow>
          (case server_round H now coins True ip hello sc s of
             (SAnswer reply, sc, s) \<Rightarrow>
               (case client_round H t key reply cc of
                  (CSend hello, cc) \<Rightarrow> connect H key ip rounds True hello cc sc s
                | (CFail f, cc) \<Rightarrow> (GaveUp f, cc)
                | (_, cc) \<Rightarrow> (Pending, cc))
           | (SDone reply ss early, sc, s) \<Rightarrow>
               (case client_round H t key reply cc of
                  (CDone cs verdict, cc) \<Rightarrow> (Joined cs verdict ss early, cc)
                | (CFail f, cc) \<Rightarrow> (GaveUp f, cc)
                | (_, cc) \<Rightarrow> (Pending, cc))
           | (SClose None, sc, s) \<Rightarrow> (GaveUp (client_channel_ended cc), cc)
           | (SClose (Some reply), sc, s) \<Rightarrow>
               (case client_round H t key reply cc of
                  (CWait, cc) \<Rightarrow> (GaveUp (client_channel_ended cc), cc)
                | (CFail f, cc) \<Rightarrow> (GaveUp f, cc)
                | (_, cc) \<Rightarrow> (Pending, cc))))"

subsection \<open>The gate, as a function of what the hello carries\<close>

definition fresh_cookie :: "hs_lib \<Rightarrow> u64 \<Rightarrow> bytes \<Rightarrow> ip_addr \<Rightarrow> bytes" where
  "fresh_cookie H u m ip = generate_cookie_for_bucket H (derive_session_secret_for_hour H m (u div 3600)) ip (u div 300)"

definition fresh_challenge :: "hs_lib \<Rightarrow> u64 \<Rightarrow> bytes \<Rightarrow> u8 \<Rightarrow> ip_addr \<Rightarrow> pow_challenge" where
  "fresh_challenge H u m d ip = new_stateless (hl_blake3 H) u d ip (derive_session_secret_for_hour H m (u div 3600))"

definition cookie_good :: "hs_lib \<Rightarrow> moment \<Rightarrow> bytes \<Rightarrow> ip_addr \<Rightarrow> client_hello \<Rightarrow> bool" where
  "cookie_good H now m ip ch \<longleftrightarrow> (case ch_cookie ch of None \<Rightarrow> False | Some c \<Rightarrow> validate_cookie H now m ip c = Ok True)"

definition solution_good :: "hs_lib \<Rightarrow> u64 \<Rightarrow> bytes \<Rightarrow> u8 \<Rightarrow> ip_addr \<Rightarrow> pow_solution \<Rightarrow> bool" where
  "solution_good H u m d ip sol \<longleftrightarrow>
     (\<exists>h \<in> {u div 3600, if u div 3600 = 0 then 0 else u div 3600 - 1}.
        pow_verify (hl_blake3 H) u \<lparr>pc_nonce = ps_nonce sol, pc_difficulty = d\<rparr> sol ip (derive_session_secret_for_hour H m h))"

lemma gate_value:
  assumes u: "unix_secs now = Some u"
  shows "cookie_pow_gate H now ch d ip False m =
    (if cookie_good H now m ip ch \<and> (d = 0 \<or> (\<exists>sol. ch_pow_solution ch = Some sol \<and> solution_good H u m d ip sol)) then Ok ()
     else Err (HRetry \<lparr>hrr_challenge = (if d \<noteq> 0 \<and> ch_pow_solution ch = None then Some (fresh_challenge H u m d ip) else None),
       hrr_cookie = (if cookie_good H now m ip ch then None else Some (fresh_cookie H u m ip))\<rparr>))"
proof -
  have g: "generate_cookie H now m ip = Ok (fresh_cookie H u m ip)" "current_secret_hour now = Ok (u div 3600)" "unix_or_zero now = u"
    using u by (simp_all add: generate_cookie_def current_secret_hour_def current_cookie_bucket_def fresh_cookie_def unix_or_zero_def)
  have c: "(case ch_cookie ch of Some c \<Rightarrow> validate_cookie H now m ip c | None \<Rightarrow> Ok False) = Ok (cookie_good H now m ip ch)"
    using u by (auto simp: cookie_good_def validate_cookie_def current_secret_hour_def current_cookie_bucket_def Let_def split: option.split)
  have d: "0 < d \<longleftrightarrow> d \<noteq> 0" by (simp add: word_gt_0)
  show ?thesis
    by (cases "ch_pow_solution ch"; cases "d = 0")
      (auto simp: cookie_pow_gate_def c g d Let_def fresh_challenge_def solution_good_def)
qed

lemma validate_fresh:
  assumes "unix_secs now = Some u'" "u \<le> u'" "unat u' \<le> unat u + 120"
  shows "validate_cookie H now m ip (fresh_cookie H u m ip) = Ok True"
proof -
  have "unat u div 300 = unat u' div 300 \<or> Suc (unat u div 300) = unat u' div 300"
    using assms(2,3) unfolding word_le_nat_alt by linarith
  then have "u div 300 = u' div 300 \<or> u div 300 = (if u' div 300 = 0 then 0 else u' div 300 - 1)"
    "u div 3600 = u' div 3600 \<or> u div 3600 = (if u' div 3600 = 0 then 0 else u' div 3600 - 1)"
    unfolding prev_word unat_div_300 unat_div_3600 using bucket_hour by blast+
  then show ?thesis using assms(1)
    by (auto simp: validate_cookie_def current_secret_hour_def current_cookie_bucket_def Let_def fresh_cookie_def)
qed

lemma solution_fresh:
  assumes B: "blake3_ok (hl_blake3 H)" and sol: "solve_capped (hl_blake3 H) MAX_CLIENT_POW_DIFFICULTY (fresh_challenge H u m d ip) = Ok sol"
    and t: "u \<le> u'" "unat u' \<le> unat u + 120" "unat u' + 120 < 2 ^ 64"
  shows "solution_good H u' m d ip sol" "length (ps_nonce sol) = 32"
proof -
  have s: "solve_from (hl_blake3 H) (fresh_challenge H u m d ip) (unat MAX_SOLVE_ITERATIONS) 0 = Ok sol"
    using sol unfolding solve_capped_def solve_with_bound_def by (simp only: sum.distinct split: if_splits)
  have "unat u + 120 < 2 ^ 64" using t by (simp add: word_le_nat_alt)
  then have "unat (u + 120) = unat u + 120" by (simp add: unat_word_ariths)
  then have u': "u' \<le> u + 120" using t(2) by (simp add: word_le_nat_alt)
  have "unat u div 3600 = unat u' div 3600 \<or> Suc (unat u div 3600) = unat u' div 3600"
    using t(1,2) unfolding word_le_nat_alt by linarith
  then have "u div 3600 \<in> {u' div 3600, if u' div 3600 = 0 then 0 else u' div 3600 - 1}"
    unfolding insert_iff prev_word[symmetric] unat_div_3600[symmetric] using prev_word by blast
  then show "solution_good H u' m d ip sol" unfolding solution_good_def
    using solved_verifies[OF B s[unfolded fresh_challenge_def] t(1) u'] by blast
  show "length (ps_nonce sol) = 32" using solve_from_sound[OF s] B
    by (simp add: fresh_challenge_def new_stateless_def blake3_ok_def Let_def)
qed

subsection \<open>One round at a time\<close>

text \<open>
  Documented sizes of the keys and the MAC, and the documented layout of a hello with a
  decoder that inverts it.
\<close>

definition sizes_ok :: "hs_lib \<Rightarrow> bool" where
  "sizes_ok H \<longleftrightarrow> (\<forall>s pk. classical_public (hl_pq H) s = Some pk \<longrightarrow> length pk = CLASSICAL_PK_BYTES (hl_crypto H))
     \<and> ml_kem_key_length (hl_pq H) = 1184 \<and> (\<forall>s. length (ed25519_public (hl_pq H) s) = 32) \<and> ml_dsa_key_length (hl_pq H) = 1952
     \<and> (\<forall>k m. length (hl_hmac_sha256 H k m) = 32)"

definition hello_codec :: "hs_lib \<Rightarrow> bool" where
  "hello_codec H \<longleftrightarrow> (\<forall>h. hello_typed (hl_crypto H) h \<longrightarrow>
     borsh_client_hello H h = hello_layout h \<and> unborsh_client_hello H (hello_layout h) = Some h)"

text \<open>A fresh hello of the client with what it has collected from retries.\<close>

abbreviation hello_with :: "hs_lib \<Rightarrow> handshake_client \<Rightarrow> bytes option \<Rightarrow> pow_solution option \<Rightarrow> client_hello" where
  "hello_with H c cookie sol \<equiv> (create_client_hello (hl_crypto H) c)\<lparr>ch_cookie := cookie, ch_pow_solution := sol\<rparr>"

abbreviation conn_at :: "handshake_client \<Rightarrow> client_hello \<Rightarrow> nat \<Rightarrow> client_conn" where
  "conn_at c h n \<equiv> \<lparr>cc_handshake = c, cc_hello = h, cc_retry_rounds = n, cc_reject_rounds = 0, cc_remembered_reject = None\<rparr>"

lemma hello_decodes:
  assumes H: "lib_ok H" "sizes_ok H" "hello_codec H" and c: "honest_client H c" "length (hc_nonce c) = 32"
    and k: "pred_option (\<lambda>c. length c = 32) cookie" "pred_option (\<lambda>s. length (ps_nonce s) = 32) sol"
  defines "h \<equiv> hello_with H c cookie sol"
  shows "client_hello_lengths_within_bounds (hl_crypto H) (borsh_client_hello H h)" "unborsh_client_hello H (borsh_client_hello H h) = Some h"
proof -
  obtain seed dk ed ml nonce where n: "handshake_client_new (hl_pq H) seed dk ed ml nonce = Some (Ok c)"
    using c(1) by (auto simp: honest_client_def)
  have l: "length (kp_classical_pk (hc_kem_public c)) = CLASSICAL_PK_BYTES (hl_crypto H)" "length (kp_ml_kem_pk (hc_kem_public c)) = 1184"
    "length (vk_ed25519_pk (hc_verifying_key c)) = 32" "length (vk_ml_dsa_pk (hc_verifying_key c)) = 1952"
    using n H(1,2) unfolding handshake_client_new_def hybrid_kem_generate_def hybrid_sign_generate_def verifying_key_def Let_def
      lib_ok_def kem_ok_def sig_ok_def sizes_ok_def
    by (cases "classical_public (hl_pq H) seed"; cases nonce; simp; fastforce)+
  have v: "length (PROTOCOL_VARIANT (hl_crypto H)) \<le> 64" by (simp add: PROTOCOL_VARIANT_def)
  have ty: "hello_typed (hl_crypto H) h" using l v k c(2) by (simp add: hello_typed_def h_def create_client_hello_def)
  have lay: "borsh_client_hello H h = hello_layout h" "unborsh_client_hello H (hello_layout h) = Some h"
    using H(3) ty by (simp_all add: hello_codec_def)
  show "client_hello_lengths_within_bounds (hl_crypto H) (borsh_client_hello H h)"
    unfolding lay(1) length_check_layout[OF ty] using l v by (simp add: h_def create_client_hello_def)
  show "unborsh_client_hello H (borsh_client_hello H h) = Some h" using lay by simp
qed

text \<open>The difficulty a server demands of a hello without a ticket.\<close>

definition first_difficulty :: "u64 \<Rightarrow> ip_addr \<Rightarrow> handshake_server \<Rightarrow> u8" where
  "first_difficulty u ip s = max (adaptive_difficulty s) (calculate_difficulty u ip False (hsv_reputation s))"

lemma demanded_fresh:
  assumes "ch_resume_session_id ch = None" "unix_secs now = Some u"
    and "sc_demanded_difficulty sc = Some d \<or> sc_demanded_difficulty sc = None \<and> d = first_difficulty u ip s"
  shows "demanded_difficulty H now ip ch sc s = (d, sc\<lparr>sc_demanded_difficulty := Some d\<rparr>, s)"
  using assms by (auto simp: demanded_difficulty_def has_valid_resume_def first_difficulty_def unix_or_zero_def Let_def)

lemma server_round_retry:
  assumes ok: "client_hello_lengths_within_bounds (hl_crypto H) (borsh_client_hello H h)" "unborsh_client_hello H (borsh_client_hello H h) = Some h"
    and h: "h = hello_with H c cookie sol" and u: "unix_secs now = Some u"
    and d: "sc_demanded_difficulty sc = Some d \<or> sc_demanded_difficulty sc = None \<and> d = first_difficulty u ip s"
    and g: "cookie_pow_gate H now h d ip False (hsv_master_secret s) = Err (HRetry r)" and n: "sc_retry_rounds sc < 3"
  shows "\<exists>s'. server_round H now coins True ip (borsh_client_hello H h) sc s =
      (SAnswer (reply_to_wire H (RRetry r)), \<lparr>sc_retry_rounds = sc_retry_rounds sc + 1, sc_demanded_difficulty = Some d\<rparr>, s')
    \<and> hsv_master_secret s' = hsv_master_secret s \<and> hsv_signing_key s' = hsv_signing_key s \<and> hsv_verifying_key s' = hsv_verifying_key s"
proof -
  have f: "ch_resume_session_id h = None" "ch_protocol_variant h = PROTOCOL_VARIANT (hl_crypto H)" "ch_version h = PROTOCOL_VERSION"
    by (simp_all add: h create_client_hello_def)
  obtain s' where p: "process_client_hello H now coins h d ip s = (HRetry r, s')"
    using f g by (simp add: process_client_hello_def consume_ticket_def Let_def fail_and_reinsert_def)
  show ?thesis using process_keeps_identity[OF p] n
    by (simp add: server_round_def ok demanded_fresh[OF f(1) u d] p)
qed

lemma client_round_retry:
  assumes "lib_ok H" "cc_retry_rounds cc < 3" "answer_retry (hl_blake3 H) r (cc_hello cc) = Ok h"
  shows "client_round H t key (reply_to_wire H (RRetry r)) cc =
    (CSend (borsh_client_hello H h), cc\<lparr>cc_retry_rounds := cc_retry_rounds cc + 1, cc_hello := h\<rparr>)"
  using assms by (simp add: client_round_def reply_round_trip lib_ok_def)

text \<open>The last round: a hello that passes the gate.\<close>

lemma connect_last:
  assumes H: "lib_ok H" and c: "honest_client H c"
    and ok: "client_hello_lengths_within_bounds (hl_crypto H) (borsh_client_hello H h)" "unborsh_client_hello H (borsh_client_hello H h) = Some h"
    and h: "h = hello_with H c cookie sol" and u: "unix_secs now = Some u"
    and d: "sc_demanded_difficulty sc = Some d \<or> sc_demanded_difficulty sc = None \<and> d = first_difficulty u ip s"
    and g: "cookie_pow_gate H now h d ip False (hsv_master_secret s) = Ok ()"
    and draws: "co_nonce coins = Some nonce" "classical_public (hl_pq H) (co_eph coins) \<noteq> None"
    and srv: "hsv_verifying_key s = verifying_key (hl_pq H) (hsv_signing_key s)"
    and com: "committed \<or> udp_first_contact H now ip (borsh_client_hello H h) s = UdpCommit"
  shows "\<exists>cs ss cc'. connect H (hsv_verifying_key s) ip ((now, coins, t) # rounds) committed (borsh_client_hello H h) (conn_at c h n) sc s =
      (Joined cs None ss None, cc') \<and> paired (hl_crypto H) cs ss \<and> cc_retry_rounds cc' = n"
proof -
  have f: "ch_key_package h = hc_kem_public c" "ch_protocol_variant h = PROTOCOL_VARIANT (hl_crypto H)" "ch_version h = PROTOCOL_VERSION"
    "ch_resume_session_id h = None" "ch_early_data h = None"
    by (simp_all add: h create_client_hello_def)
  obtain sh ss s' where p: "process_client_hello H now coins h d ip s = (HSuccess sh ss None, s')"
    using process_admits[OF H c f(1-4) g draws] by blast
  have S: "\<exists>sc' s''. server_round H now coins True ip (borsh_client_hello H h) sc s = (SDone (reply_to_wire H (RHello sh)) ss None, sc', s'')"
    by (simp add: server_round_def ok demanded_fresh[OF f(4) u d] p)
  obtain cs where cs: "process_server_hello H t h sh (Some (hsv_verifying_key s)) c = (Ok (cs, None), c\<lparr>hc_stage := StageEstablished\<rparr>)"
    "paired (hl_crypto H) cs ss"
    using client_completes[OF H c f(1) p refl _ answer_verifies[OF H srv p], of "Some (hsv_verifying_key s)" t] f(5) by auto
  have C: "client_round H t (hsv_verifying_key s) (reply_to_wire H (RHello sh)) (conn_at c h n) = (CDone cs None, conn_at (c\<lparr>hc_stage := StageEstablished\<rparr>) h n)"
    using H cs(1) by (simp add: client_round_def reply_round_trip lib_ok_def)
  show ?thesis using S C cs(2) com by auto
qed

lemma connect_retry:
  assumes H: "lib_ok H"
    and ok: "client_hello_lengths_within_bounds (hl_crypto H) (borsh_client_hello H h)" "unborsh_client_hello H (borsh_client_hello H h) = Some h"
    and h: "h = hello_with H c cookie sol" and u: "unix_secs now = Some u"
    and d: "sc_demanded_difficulty sc = Some d \<or> sc_demanded_difficulty sc = None \<and> d = first_difficulty u ip s"
    and g: "cookie_pow_gate H now h d ip False (hsv_master_secret s) = Err (HRetry r)" and n: "sc_retry_rounds sc < 3" "n < 3"
    and a: "answer_retry (hl_blake3 H) r h = Ok h'"
    and com: "committed \<or> udp_first_contact H now ip (borsh_client_hello H h) s = UdpCommit"
  shows "\<exists>s'. connect H key ip ((now, coins, t) # rounds) committed (borsh_client_hello H h) (conn_at c h n) sc s =
      connect H key ip rounds True (borsh_client_hello H h') (conn_at c h' (n + 1))
        \<lparr>sc_retry_rounds = sc_retry_rounds sc + 1, sc_demanded_difficulty = Some d\<rparr> s'
    \<and> hsv_master_secret s' = hsv_master_secret s \<and> hsv_signing_key s' = hsv_signing_key s \<and> hsv_verifying_key s' = hsv_verifying_key s"
proof -
  obtain s' where S: "server_round H now coins True ip (borsh_client_hello H h) sc s =
      (SAnswer (reply_to_wire H (RRetry r)), \<lparr>sc_retry_rounds = sc_retry_rounds sc + 1, sc_demanded_difficulty = Some d\<rparr>, s')"
    "hsv_master_secret s' = hsv_master_secret s" "hsv_signing_key s' = hsv_signing_key s" "hsv_verifying_key s' = hsv_verifying_key s"
    using server_round_retry[OF ok h u d g n(1)] by blast
  have C: "client_round H t key (reply_to_wire H (RRetry r)) (conn_at c h n) = (CSend (borsh_client_hello H h'), conn_at c h' (n + 1))"
    using client_round_retry[OF H, of "conn_at c h n" r h'] n(2) a by simp
  show ?thesis using S C com by auto
qed

lemma udp_contact_value:
  assumes ok: "client_hello_lengths_within_bounds (hl_crypto H) (borsh_client_hello H h)" "unborsh_client_hello H (borsh_client_hello H h) = Some h"
    and u: "unix_secs now = Some u"
  shows "udp_first_contact H now ip (borsh_client_hello H h) s =
    (if cookie_good H now (hsv_master_secret s) ip h then UdpCommit
     else UdpAnswer (reply_to_wire H (RRetry \<lparr>hrr_challenge = None, hrr_cookie = Some (fresh_cookie H u (hsv_master_secret s) ip)\<rparr>)))"
proof -
  have g: "generate_cookie H now m ip = Ok (fresh_cookie H u m ip)" for m
    using u by (simp add: generate_cookie_def current_secret_hour_def current_cookie_bucket_def fresh_cookie_def)
  have "(case ch_cookie h of Some c \<Rightarrow> (case validate_cookie H now m ip c of Inr v \<Rightarrow> v | Inl _ \<Rightarrow> False) | None \<Rightarrow> False) = cookie_good H now m ip h" for m
    by (auto simp: cookie_good_def split: option.split sum.split)
  then show ?thesis by (simp add: udp_first_contact_def ok udp_admit_def g)
qed

lemma connect_udp_retry:
  assumes H: "lib_ok H"
    and ok: "client_hello_lengths_within_bounds (hl_crypto H) (borsh_client_hello H h)" "unborsh_client_hello H (borsh_client_hello H h) = Some h"
    and u: "unix_secs now = Some u" and none: "ch_cookie h = None" "n < 3"
  shows "connect H key ip ((now, coins, t) # rounds) False (borsh_client_hello H h) (conn_at c h n) sc s =
    (let h' = h\<lparr>ch_cookie := Some (fresh_cookie H u (hsv_master_secret s) ip)\<rparr>
     in connect H key ip rounds False (borsh_client_hello H h') (conn_at c h' (n + 1)) sc s)"
  using client_round_retry[OF H, of "conn_at c h n" "\<lparr>hrr_challenge = None, hrr_cookie = Some (fresh_cookie H u (hsv_master_secret s) ip)\<rparr>"] none
  by (simp add: udp_contact_value[OF ok u] cookie_good_def answer_retry_def Let_def)

declare connect.simps [simp del]

lemma first_difficulty_cap: "first_difficulty u ip s \<le> 20"
proof -
  have "adaptive_difficulty s \<le> 20" by (simp add: adaptive_difficulty_def Let_def)
  then show ?thesis using difficulty_cap by (simp add: first_difficulty_def)
qed

lemma solvable:
  assumes "d \<le> 20" "\<exists>k < 2 ^ 32. check_leading_zeros (compute_blake3_hash (hl_blake3 H) (pc_nonce (fresh_challenge H u m d ip)) (word_of_nat k)) d"
  shows "\<exists>sol. solve_capped (hl_blake3 H) MAX_CLIENT_POW_DIFFICULTY (fresh_challenge H u m d ip) = Ok sol"
proof -
  have d: "pc_difficulty (fresh_challenge H u m d ip) = d" by (simp add: fresh_challenge_def new_stateless_def Let_def)
  obtain k where k: "k < 2 ^ 32" "check_leading_zeros (compute_blake3_hash (hl_blake3 H) (pc_nonce (fresh_challenge H u m d ip)) (0 + word_of_nat k))
      (pc_difficulty (fresh_challenge H u m d ip))" using assms(2) d by auto
  have n: "unat MAX_SOLVE_ITERATIONS = 2 ^ 32" by (simp add: push_bit_eq_mult)
  have le: "\<not> 24 < d" using assms(1) unfolding word_le_nat_alt word_less_nat_alt by simp
  show ?thesis unfolding solve_capped_def solve_with_bound_def n d using le solve_from_finds[OF k] by auto
qed

subsection \<open>An honest client and server\<close>

definition honest_setup :: "hs_lib \<Rightarrow> handshake_client \<Rightarrow> handshake_server \<Rightarrow> bool" where
  "honest_setup H c s \<longleftrightarrow> lib_ok H \<and> sizes_ok H \<and> hello_codec H \<and> honest_client H c \<and> length (hc_nonce c) = 32
     \<and> hsv_verifying_key s = verifying_key (hl_pq H) (hsv_signing_key s)"

text \<open>A round at a time of the wall clock in which the server's draws succeed.\<close>

fun round_at :: "hs_lib \<Rightarrow> u64 \<Rightarrow> round \<Rightarrow> bool" where
  "round_at H u (now, coins, t) \<longleftrightarrow> unix_secs now = Some u \<and> co_nonce coins \<noteq> None \<and> classical_public (hl_pq H) (co_eph coins) \<noteq> None"

text \<open>Times in order, with less than the lifetime of a challenge between any two of them.\<close>

definition prompt :: "u64 list \<Rightarrow> bool" where
  "prompt us \<longleftrightarrow> sorted us \<and> us \<noteq> [] \<and> unat (last us) \<le> unat (hd us) + 120 \<and> unat (last us) + 120 < 2 ^ 64"

abbreviation server_conn_new :: server_conn where
  "server_conn_new \<equiv> \<lparr>sc_retry_rounds = 0, sc_demanded_difficulty = None\<rparr>"

lemma client_starts:
  "client_start H c None = (borsh_client_hello H (hello_with H c None None), conn_at c (hello_with H c None None) 0)"
  by (simp add: client_start_def create_client_hello_def Let_def)

text \<open>On a connection: the first hello draws a cookie and a challenge at once.\<close>

lemma connect_tcp:
  assumes hs: "honest_setup H c s" and r: "round_at H u0 (m0, k0, t0)" "round_at H u1 (m1, k1, t1)" and t: "prompt [u0, u1]"
    and d: "d = first_difficulty u0 ip s"
    and sol: "d \<noteq> 0 \<Longrightarrow> solve_capped (hl_blake3 H) MAX_CLIENT_POW_DIFFICULTY (fresh_challenge H u0 (hsv_master_secret s) d ip) = Ok sol"
  shows "\<exists>cs ss cc. connect H (hsv_verifying_key s) ip ((m0, k0, t0) # (m1, k1, t1) # rounds) True
      (fst (client_start H c None)) (snd (client_start H c None)) server_conn_new s = (Joined cs None ss None, cc)
    \<and> paired (hl_crypto H) cs ss \<and> cc_retry_rounds cc = 1"
proof -
  let ?m = "hsv_master_secret s"
  have H: "lib_ok H" "sizes_ok H" "hello_codec H" and c: "honest_client H c" "length (hc_nonce c) = 32"
    and srv: "hsv_verifying_key s = verifying_key (hl_pq H) (hsv_signing_key s)" and B: "blake3_ok (hl_blake3 H)"
    using hs by (simp_all add: honest_setup_def lib_ok_def)
  have u: "unix_secs m0 = Some u0" "unix_secs m1 = Some u1" using r by simp_all
  have le: "u0 \<le> u1" "unat u1 \<le> unat u0 + 120" "unat u1 + 120 < 2 ^ 64" using t by (simp_all add: prompt_def)
  define ck where "ck = fresh_cookie H u0 ?m ip"
  have ck: "length ck = 32" using H(2) by (simp add: ck_def fresh_cookie_def generate_cookie_for_bucket_def sizes_ok_def)
  define ps where "ps = (if d = 0 then None else Some sol)"
  have ps: "pred_option (\<lambda>s. length (ps_nonce s) = 32) ps" "d = 0 \<or> (\<exists>x. ps = Some x \<and> solution_good H u1 ?m d ip x)"
    using solution_fresh[OF B sol le] by (auto simp: ps_def)
  define h where "h = hello_with H c None None"
  define h' where "h' = hello_with H c (Some ck) ps"
  have ok: "client_hello_lengths_within_bounds (hl_crypto H) (borsh_client_hello H h)" "unborsh_client_hello H (borsh_client_hello H h) = Some h"
    "client_hello_lengths_within_bounds (hl_crypto H) (borsh_client_hello H h')" "unborsh_client_hello H (borsh_client_hello H h') = Some h'"
    unfolding h_def h'_def by (rule hello_decodes[OF H c]; simp add: ck ps)+
  let ?r = "\<lparr>hrr_challenge = (if d = 0 then None else Some (fresh_challenge H u0 ?m d ip)), hrr_cookie = Some ck\<rparr>"
  have g: "cookie_pow_gate H m0 h d ip False ?m = Err (HRetry ?r)"
    by (simp add: gate_value[OF u(1)] h_def cookie_good_def ck_def create_client_hello_def)
  have a: "answer_retry (hl_blake3 H) ?r h = Ok h'"
    using sol by (simp add: answer_retry_def h_def h'_def ps_def create_client_hello_def)
  have good: "cookie_good H m1 ?m ip h'"
    using validate_fresh[OF u(2) le(1,2)] by (simp add: cookie_good_def h'_def ck_def)
  have g': "cookie_pow_gate H m1 h' d ip False ?m = Ok ()"
    using good ps(2) by (simp add: gate_value[OF u(2)] h'_def)
  obtain s' where s': "connect H (hsv_verifying_key s) ip ((m0, k0, t0) # (m1, k1, t1) # rounds) True (borsh_client_hello H h) (conn_at c h 0) server_conn_new s =
      connect H (hsv_verifying_key s) ip ((m1, k1, t1) # rounds) True (borsh_client_hello H h') (conn_at c h' 1)
        \<lparr>sc_retry_rounds = 1, sc_demanded_difficulty = Some d\<rparr> s'"
    "hsv_master_secret s' = ?m" "hsv_signing_key s' = hsv_signing_key s" "hsv_verifying_key s' = hsv_verifying_key s"
    using connect_retry[OF H(1) ok(1,2) h_def u(1) _ g _ _ a, of server_conn_new 0 True "hsv_verifying_key s" k0 t0 "(m1, k1, t1) # rounds"] d by auto
  obtain nonce where n: "co_nonce k1 = Some nonce" "classical_public (hl_pq H) (co_eph k1) \<noteq> None" using r(2) by auto
  show ?thesis unfolding client_starts fst_conv snd_conv h_def[symmetric] s'(1)
    using connect_last[OF H(1) c(1) ok(3,4) h'_def u(2) _ _ n, of "\<lparr>sc_retry_rounds = 1, sc_demanded_difficulty = Some d\<rparr>" d ip s' True t1 rounds 1]
      g' s'(2-4) srv by auto
qed

text \<open>
  Over UDP: the demultiplexer asks for the cookie; the server's loop for the challenge,
  in a retry without a cookie, which the client takes for its new cookie; and the loop
  for the cookie again.
\<close>

lemma connect_udp_pow:
  assumes hs: "honest_setup H c s" and r: "round_at H u1 (m1, k1, t1)" "round_at H u2 (m2, k2, t2)" "round_at H u3 (m3, k3, t3)"
    and t: "prompt [u0, u1, u2, u3]" and d: "d = first_difficulty u1 ip s" "d \<noteq> 0"
    and sol: "solve_capped (hl_blake3 H) MAX_CLIENT_POW_DIFFICULTY (fresh_challenge H u1 (hsv_master_secret s) d ip) = Ok sol"
  defines "h \<equiv> hello_with H c (Some (fresh_cookie H u0 (hsv_master_secret s) ip)) None"
  shows "\<exists>cs ss cc. connect H (hsv_verifying_key s) ip ((m1, k1, t1) # (m2, k2, t2) # (m3, k3, t3) # rounds) False
      (borsh_client_hello H h) (conn_at c h 1) server_conn_new s = (Joined cs None ss None, cc)
    \<and> paired (hl_crypto H) cs ss \<and> cc_retry_rounds cc = 3"
proof -
  let ?m = "hsv_master_secret s" and ?key = "hsv_verifying_key s"
  have H: "lib_ok H" "sizes_ok H" "hello_codec H" and c: "honest_client H c" "length (hc_nonce c) = 32"
    and srv: "?key = verifying_key (hl_pq H) (hsv_signing_key s)" and B: "blake3_ok (hl_blake3 H)"
    using hs by (simp_all add: honest_setup_def lib_ok_def)
  have u: "unix_secs m1 = Some u1" "unix_secs m2 = Some u2" "unix_secs m3 = Some u3" using r by simp_all
  have le: "u0 \<le> u1" "unat u1 \<le> unat u0 + 120" "u1 \<le> u2" "unat u2 \<le> unat u1 + 120" "unat u2 + 120 < 2 ^ 64"
    "u1 \<le> u3" "unat u3 \<le> unat u1 + 120" "unat u3 + 120 < 2 ^ 64" "u2 \<le> u3" "unat u3 \<le> unat u2 + 120"
    using t unfolding prompt_def word_le_nat_alt sorted_wrt.simps list.set last.simps list.sel by auto
  have ck: "length (fresh_cookie H v ?m ip) = 32" for v using H(2) by (simp add: fresh_cookie_def generate_cookie_for_bucket_def sizes_ok_def)
  note good = solution_fresh(1)[OF B sol le(3,4,5)] solution_fresh(1)[OF B sol le(6,7,8)]
  define h2 where "h2 = hello_with H c None (Some sol)"
  define h3 where "h3 = hello_with H c (Some (fresh_cookie H u2 ?m ip)) (Some sol)"
  have ok: "client_hello_lengths_within_bounds (hl_crypto H) (borsh_client_hello H h)" "unborsh_client_hello H (borsh_client_hello H h) = Some h"
    "client_hello_lengths_within_bounds (hl_crypto H) (borsh_client_hello H h2)" "unborsh_client_hello H (borsh_client_hello H h2) = Some h2"
    "client_hello_lengths_within_bounds (hl_crypto H) (borsh_client_hello H h3)" "unborsh_client_hello H (borsh_client_hello H h3) = Some h3"
    unfolding h_def h2_def h3_def by (rule hello_decodes[OF H c]; simp add: ck solution_fresh(2)[OF B sol le(3,4,5)])+
  have cg: "cookie_good H m1 ?m ip h" "\<not> cookie_good H m2 ?m ip h2" "cookie_good H m3 ?m ip h3"
    using validate_fresh[OF u(1) le(1,2)] validate_fresh[OF u(3) le(9,10)] by (simp_all add: cookie_good_def h_def h2_def h3_def)
  let ?r1 = "\<lparr>hrr_challenge = Some (fresh_challenge H u1 ?m d ip), hrr_cookie = None\<rparr>"
    and ?r2 = "\<lparr>hrr_challenge = None, hrr_cookie = Some (fresh_cookie H u2 ?m ip)\<rparr>"
  have g: "cookie_pow_gate H m1 h d ip False ?m = Err (HRetry ?r1)" "cookie_pow_gate H m2 h2 d ip False ?m = Err (HRetry ?r2)"
    "cookie_pow_gate H m3 h3 d ip False ?m = Ok ()"
    using d(2) good cg by (simp_all add: gate_value[OF u(1)] gate_value[OF u(2)] gate_value[OF u(3)]) (simp_all add: h_def h2_def h3_def)
  have a: "answer_retry (hl_blake3 H) ?r1 h = Ok h2" "answer_retry (hl_blake3 H) ?r2 h2 = Ok h3"
    using sol by (simp_all add: answer_retry_def h_def h2_def h3_def)
  have com: "udp_first_contact H m1 ip (borsh_client_hello H h) s = UdpCommit" using udp_contact_value[OF ok(1,2) u(1)] cg(1) by simp
  obtain s' where s': "connect H ?key ip ((m1, k1, t1) # (m2, k2, t2) # (m3, k3, t3) # rounds) False (borsh_client_hello H h) (conn_at c h 1) server_conn_new s =
      connect H ?key ip ((m2, k2, t2) # (m3, k3, t3) # rounds) True (borsh_client_hello H h2) (conn_at c h2 2) \<lparr>sc_retry_rounds = 1, sc_demanded_difficulty = Some d\<rparr> s'"
    "hsv_master_secret s' = ?m" "hsv_signing_key s' = hsv_signing_key s" "hsv_verifying_key s' = ?key"
    using connect_retry[OF H(1) ok(1,2) h_def[THEN meta_eq_to_obj_eq] u(1) _ g(1) _ _ a(1), of server_conn_new 1 False ?key k1 t1 "(m2, k2, t2) # (m3, k3, t3) # rounds"]
      d(1) com by (auto simp: numeral_2_eq_2)
  obtain s'' where s'': "connect H ?key ip ((m2, k2, t2) # (m3, k3, t3) # rounds) True (borsh_client_hello H h2) (conn_at c h2 2) \<lparr>sc_retry_rounds = 1, sc_demanded_difficulty = Some d\<rparr> s' =
      connect H ?key ip ((m3, k3, t3) # rounds) True (borsh_client_hello H h3) (conn_at c h3 3) \<lparr>sc_retry_rounds = 2, sc_demanded_difficulty = Some d\<rparr> s''"
    "hsv_master_secret s'' = ?m" "hsv_signing_key s'' = hsv_signing_key s" "hsv_verifying_key s'' = ?key"
    using connect_retry[OF H(1) ok(3,4) h2_def u(2) _ _ _ _ a(2), of "\<lparr>sc_retry_rounds = 1, sc_demanded_difficulty = Some d\<rparr>" d ip s' 2 True ?key k2 t2 "(m3, k3, t3) # rounds"]
      g(2) s'(2-4) by (auto simp: numeral_2_eq_2 numeral_3_eq_3)
  obtain nonce where n: "co_nonce k3 = Some nonce" "classical_public (hl_pq H) (co_eph k3) \<noteq> None" using r(3) by auto
  show ?thesis unfolding s'(1) s''(1)
    using connect_last[OF H(1) c(1) ok(5,6) h3_def u(3) _ _ n, of "\<lparr>sc_retry_rounds = 2, sc_demanded_difficulty = Some d\<rparr>" d ip s'' True t3 rounds 3]
      g(3) s''(2-4) srv by auto
qed

lemma connect_udp_free:
  assumes hs: "honest_setup H c s" and r: "round_at H u1 (m1, k1, t1)" and t: "u0 \<le> u1" "unat u1 \<le> unat u0 + 120"
    and d: "first_difficulty u1 ip s = 0"
  defines "h \<equiv> hello_with H c (Some (fresh_cookie H u0 (hsv_master_secret s) ip)) None"
  shows "\<exists>cs ss cc. connect H (hsv_verifying_key s) ip ((m1, k1, t1) # rounds) False
      (borsh_client_hello H h) (conn_at c h 1) server_conn_new s = (Joined cs None ss None, cc)
    \<and> paired (hl_crypto H) cs ss \<and> cc_retry_rounds cc = 1"
proof -
  let ?m = "hsv_master_secret s"
  have H: "lib_ok H" "sizes_ok H" "hello_codec H" and c: "honest_client H c" "length (hc_nonce c) = 32"
    and srv: "hsv_verifying_key s = verifying_key (hl_pq H) (hsv_signing_key s)" using hs by (simp_all add: honest_setup_def)
  have u: "unix_secs m1 = Some u1" using r by simp
  have ck: "length (fresh_cookie H u0 ?m ip) = 32" using H(2) by (simp add: fresh_cookie_def generate_cookie_for_bucket_def sizes_ok_def)
  have ok: "client_hello_lengths_within_bounds (hl_crypto H) (borsh_client_hello H h)" "unborsh_client_hello H (borsh_client_hello H h) = Some h"
    unfolding h_def by (rule hello_decodes[OF H c]; simp add: ck)+
  have cg: "cookie_good H m1 ?m ip h" using validate_fresh[OF u t] by (simp add: cookie_good_def h_def)
  have "cookie_pow_gate H m1 h 0 ip False ?m = Ok ()" using cg by (simp add: gate_value[OF u])
  moreover have "udp_first_contact H m1 ip (borsh_client_hello H h) s = UdpCommit" using udp_contact_value[OF ok u] cg by simp
  moreover obtain nonce where n: "co_nonce k1 = Some nonce" "classical_public (hl_pq H) (co_eph k1) \<noteq> None" using r by auto
  ultimately show ?thesis
    using connect_last[OF H(1) c(1) ok h_def[THEN meta_eq_to_obj_eq] u _ _ n srv, of server_conn_new 0 ip False t1 rounds 1] d by simp
qed

subsection \<open>The server's tables\<close>

definition cache_of :: "nat \<Rightarrow> session_cache \<Rightarrow> bool" where
  "cache_of n c \<longleftrightarrow> cache_ok c \<and> sc_max_entries c = n"

lemma evict_capacity [simp]: "sc_max_entries (evict_oldest now c) = sc_max_entries c"
  by (simp add: evict_oldest_def Let_def split: list.split)

lemma cache_of_steps:
  assumes "cache_of n c"
  shows "cache_of n (snd (cache_peek now rid c))" "cache_of n (snd (cache_remove rid c))"
    "cache_of n (cache_store now rid secret suite c)" "cache_of n (reinsert_with_expiry now rid t c)"
proof -
  have c: "cache_ok c" "sc_max_entries c = n" using assms by (simp_all add: cache_of_def)
  show "cache_of n (snd (cache_peek now rid c))" "cache_of n (snd (cache_remove rid c))"
    using c cache_peek_ok[OF c(1)] cache_remove_ok[OF c(1)]
    by (auto simp: cache_of_def cache_peek_def cache_remove_def split: option.splits)
  show "cache_of n (cache_store now rid secret suite c)" "cache_of n (reinsert_with_expiry now rid t c)"
    using c cache_store_ok[OF c(1)] reinsert_ok[OF c(1)]
    by (auto simp: cache_of_def cache_store_def reinsert_with_expiry_def cache_insert_def Let_def)
qed

lemma consume_cache_of:
  assumes "consume_ticket H now st ch c = (resumed, c')" "cache_of n c"
  shows "cache_of n c'"
  using assms cache_of_steps(1)[OF assms(2), of "instant now"] cache_of_steps(2)[OF cache_of_steps(1)[OF assms(2), of "instant now"]]
  unfolding consume_ticket_def Let_def
  by (auto simp: split_beta split: option.splits if_splits)

lemma process_cache_of:
  assumes p: "process_client_hello H now coins ch d ip s = (r, s')" and c: "cache_of n (hsv_session_cache s)"
  shows "cache_of n (hsv_session_cache s')"
proof -
  obtain resumed cache where k: "consume_ticket H now (co_first_use coins) ch (hsv_session_cache s) = (resumed, cache)" by fastforce
  note kc = consume_cache_of[OF k c]
  show ?thesis
  proof (cases r)
    case (HSuccess sh ss pt)
    obtain secret where "s' = (record_handshake now s)\<lparr>hsv_session_cache :=
        cache_store (instant now) (sh_session_id sh) (derive_resumption_secret (hl_crypto H) secret) Aes256Gcm cache\<rparr>"
      by (rule process_success[OF p[unfolded HSuccess]]) (use k in simp)
    then show ?thesis using cache_of_steps(3)[OF kc] by simp
  qed (use refused_cache[OF p _ k] c kc cache_of_steps(4)[OF kc] in \<open>auto simp: handed_back_def split: option.splits\<close>)
qed

definition server_ok :: "pq_lib \<Rightarrow> nat \<Rightarrow> handshake_server \<Rightarrow> bool" where
  "server_ok P n s \<longleftrightarrow> cache_of n (hsv_session_cache s) \<and> reputation_ok (hsv_reputation s) \<and> rp_max_entries (hsv_reputation s) = 100000
     \<and> hsv_verifying_key s = verifying_key P (hsv_signing_key s)"

lemma reputation_capacity [simp]:
  "rp_max_entries (record_violation now ip r) = rp_max_entries r" "rp_max_entries (reset_violations ip r) = rp_max_entries r"
  by (simp_all add: record_violation_def reset_violations_def reputation_gc_def Let_def split: option.split)

lemma process_server_ok:
  assumes "process_client_hello H now coins ch d ip s = (r, s')" "server_ok P n s"
  shows "server_ok P n s'"
  using process_keeps_identity[OF assms(1)] process_cache_of[OF assms(1)] assms(2) by (simp add: server_ok_def)

lemma demanded_server_ok:
  assumes "demanded_difficulty H now ip ch conn s = (d, conn', s')" "server_ok P n s"
  shows "server_ok P n s'"
proof -
  have "server_ok P n (snd (has_valid_resume H now ch s))"
    using assms(2) cache_of_steps(1)[of n "hsv_session_cache s" "instant now"]
    by (auto simp: has_valid_resume_def server_ok_def split_beta Let_def split: option.split)
  then show ?thesis using assms by (auto simp: demanded_difficulty_def split_beta Let_def split: option.splits)
qed

text \<open>A message for some connection, as an event of the server.\<close>

type_synonym arrival = "moment \<times> server_coins \<times> bool \<times> ip_addr \<times> bytes \<times> server_conn"

fun arrive :: "hs_lib \<Rightarrow> handshake_server \<Rightarrow> arrival \<Rightarrow> (server_turn \<times> server_conn) \<times> handshake_server" where
  "arrive H s (now, coins, sent, ip, bs, conn) = (let (turn, conn, s) = server_round H now coins sent ip bs conn s in ((turn, conn), s))"

lemma arrive_server_ok:
  assumes "server_ok P n s"
  shows "server_ok P n (snd (arrive H s a))"
proof -
  obtain now coins sent ip bs conn where a: "a = (now, coins, sent, ip, bs, conn)" by (cases a)
  have upd: "server_ok P n (t\<lparr>hsv_reputation := reset_violations ip (hsv_reputation t)\<rparr>)"
    "server_ok P n (t\<lparr>hsv_reputation := record_violation u ip (hsv_reputation t)\<rparr>)" if "server_ok P n t" for t u
    using that reputation_bounded by (simp_all add: server_ok_def)
  have "server_ok P n (snd (snd (server_round H now coins sent ip bs conn s)))"
  proof (cases "unborsh_client_hello H bs")
    case (Some ch)
    obtain d conn' s1 where d: "demanded_difficulty H now ip ch conn s = (d, conn', s1)" by (metis surj_pair)
    obtain r s2 where p: "process_client_hello H now coins ch d ip s1 = (r, s2)" by fastforce
    have ok: "server_ok P n s2" by (rule process_server_ok[OF p demanded_server_ok[OF d assms]])
    show ?thesis
      by (cases r) (use assms ok upd[OF ok] in \<open>simp_all add: server_round_def Some d p Let_def split: handshake_error.split\<close>)
  qed (simp add: server_round_def assms)
  then show ?thesis by (simp add: a split_beta Let_def)
qed

subsection \<open>Properties\<close>

text \<open>
  C22. The server's tables stay well formed and bounded. From its construction on, whatever
  bytes arrive on whatever connections, from any addresses and at any times, and whether or
  not the answers can be sent, the ticket cache keeps one entry per id with its eviction order naming exactly the cached ids, never
  holds more than its capacity, the reputation table never tracks more than 100000
  addresses, and the key the server announces is the one that belongs to its signing key.
\<close>

theorem server_stays_well_formed:
  assumes new: "with_signing_key_and_cache (hl_pq H) now master sk (cache_with_capacity n lifetime) = Ok s"
  shows "let s' = snd (run (arrive H) s arrivals); c = hsv_session_cache s'
    in distinct (map fst (sc_tickets c)) \<and> distinct (sc_lru_order c) \<and> set (sc_lru_order c) = fst ` set (sc_tickets c)
      \<and> length (sc_tickets c) \<le> n \<and> length (rp_entries (hsv_reputation s')) \<le> 100000
      \<and> hsv_verifying_key s' = verifying_key (hl_pq H) (hsv_signing_key s')"
proof -
  have "server_ok (hl_pq H) n s"
    using new cache_new_ok[of n lifetime]
    by (cases master) (auto simp: with_signing_key_and_cache_def server_ok_def cache_of_def cache_with_capacity_def
        reputation_with_capacity_def reputation_ok_def)
  from run_invariant[where I = "server_ok (hl_pq H) n", OF arrive_server_ok this]
  have "server_ok (hl_pq H) n (snd (run (arrive H) s arrivals))" .
  then show ?thesis by (auto simp: server_ok_def cache_of_def cache_ok_def reputation_ok_def Let_def)
qed

text \<open>A server that is sent a client's first hello, which it cannot answer, and then bytes that are no hello.\<close>

theorem server_stays_well_formed_witness:
  "\<exists>s. with_signing_key_and_cache (hl_pq demo_hs) demo_moment (Some []) (hsv_signing_key demo_server) (cache_with_capacity 2 1) = Ok s
    \<and> (let c = hsv_session_cache (snd (run (arrive demo_hs) s
          [(demo_moment, demo_coins, False, [1], hello_layout demo_hello, server_conn_new), (demo_moment, demo_coins, True, [1], [1, 2, 3], server_conn_new)]))
       in length (sc_tickets c) \<le> 2 \<and> set (sc_lru_order c) = fst ` set (sc_tickets c))"
proof -
  obtain s where s: "with_signing_key_and_cache (hl_pq demo_hs) demo_moment (Some []) (hsv_signing_key demo_server) (cache_with_capacity 2 1) = Ok s"
    by (simp add: with_signing_key_and_cache_def)
  with server_stays_well_formed[OF s, of "[(demo_moment, demo_coins, False, [1], hello_layout demo_hello, server_conn_new), (demo_moment, demo_coins, True, [1], [1, 2, 3], server_conn_new)]"]
  show ?thesis unfolding Let_def by blast
qed

text \<open>
  C6. An honest client connects. Over a path that delivers its messages, in at most four
  hellos that the server handles within the 120 seconds a challenge lives, an honest client
  ends with a session paired with the server's, whatever difficulty the server's load and
  the address's record demand, provided the challenge has a solution below 2 to the 32. It
  takes one retry on a connection, and over UDP when no work is demanded; over UDP with
  work demanded it takes three, all that either side allows, because the retry that
  carries the challenge makes the client drop the cookie it already had.
\<close>

theorem connect_completes:
  assumes hs: "honest_setup H c s" and t: "prompt [u0, u1, u2, u3]"
    and r: "round_at H u0 r0" "round_at H u1 r1" "round_at H u2 r2" "round_at H u3 r3"
    and d: "d = first_difficulty (if tcp then u0 else u1) ip s"
    and pow: "\<exists>k < 2 ^ 32. check_leading_zeros (compute_blake3_hash (hl_blake3 H)
      (pc_nonce (fresh_challenge H (if tcp then u0 else u1) (hsv_master_secret s) d ip)) (word_of_nat k)) d"
  shows "\<exists>cs ss cc. connect H (hsv_verifying_key s) ip [r0, r1, r2, r3] tcp
      (fst (client_start H c None)) (snd (client_start H c None)) server_conn_new s = (Joined cs None ss None, cc)
    \<and> paired (hl_crypto H) cs ss \<and> cc_retry_rounds cc = (if tcp \<or> d = 0 then 1 else MAX_HANDSHAKE_RETRY_ROUNDS)"
proof -
  obtain m0 k0 t0 m1 k1 t1 m2 k2 t2 m3 k3 t3 where e: "r0 = (m0, k0, t0)" "r1 = (m1, k1, t1)" "r2 = (m2, k2, t2)" "r3 = (m3, k3, t3)"
    by (cases r0; cases r1; cases r2; cases r3)
  obtain sol where sol: "solve_capped (hl_blake3 H) MAX_CLIENT_POW_DIFFICULTY
      (fresh_challenge H (if tcp then u0 else u1) (hsv_master_secret s) d ip) = Ok sol"
    using solvable[OF _ pow] first_difficulty_cap d by blast
  have le: "u0 \<le> u1" "unat u1 \<le> unat u0 + 120" "unat u1 + 120 < 2 ^ 64"
    using t unfolding prompt_def word_le_nat_alt sorted_wrt.simps list.set last.simps list.sel by auto
  show ?thesis
  proof (cases tcp)
    case True
    have "prompt [u0, u1]" using le by (simp add: prompt_def)
    then show ?thesis using connect_tcp[OF hs r(1,2)[unfolded e], of d ip sol] d sol True by (simp add: e)
  next
    case False
    let ?h = "hello_with H c (Some (fresh_cookie H u0 (hsv_master_secret s) ip)) None"
    have H: "lib_ok H" "sizes_ok H" "hello_codec H" and c: "honest_client H c" "length (hc_nonce c) = 32"
      using hs by (simp_all add: honest_setup_def)
    have sw: "(create_client_hello (hl_crypto H) c)\<lparr>ch_pow_solution := None, ch_cookie := x\<rparr> = hello_with H c x None" for x
      by (simp add: create_client_hello_def)
    have "unix_secs m0 = Some u0" using r(1) e by simp
    from connect_udp_retry[OF H(1) hello_decodes[OF H c] this, of None None 0]
    have first: "connect H (hsv_verifying_key s) ip [r0, r1, r2, r3] tcp (fst (client_start H c None)) (snd (client_start H c None)) server_conn_new s =
        connect H (hsv_verifying_key s) ip [r1, r2, r3] False (borsh_client_hello H ?h) (conn_at c ?h 1) server_conn_new s"
      using False by (simp add: client_starts e Let_def sw)
    show ?thesis unfolding first
      using connect_udp_free[OF hs r(2)[unfolded e] le(1,2), of ip "[r2, r3]"]
        connect_udp_pow[OF hs r(2,3,4)[unfolded e] t, of d ip sol "[]"] d sol False by (cases "d = 0") (simp_all add: e)
  qed
qed

text \<open>A busy server, which demands four bits of work, over UDP.\<close>

theorem connect_completes_witness:
  "\<exists>cs ss cc. connect demo_hs (hsv_verifying_key demo_server) [1]
      [(demo_moment, demo_coins, 0), (demo_moment, demo_coins, 0), (demo_moment, demo_coins, 0), (demo_moment, demo_coins, 0)] False
      (fst (client_start demo_hs demo_client None)) (snd (client_start demo_hs demo_client None)) server_conn_new
      (demo_server\<lparr>hsv_handshakes_this_minute := 100\<rparr>) = (Joined cs None ss None, cc)
    \<and> paired (hl_crypto demo_hs) cs ss \<and> cc_retry_rounds cc = 3"
proof -
  let ?s = "demo_server\<lparr>hsv_handshakes_this_minute := 100\<rparr>" and ?r = "(demo_moment, demo_coins, 0)"
  have "hello_codec demo_hs" unfolding hello_codec_def
  proof (intro allI impI)
    fix h assume "hello_typed (hl_crypto demo_hs) h"
    then have "hello_typed demo_lib h" by (simp add: hello_typed_def demo_hs_def)
    from parse_layout[OF this] show "borsh_client_hello demo_hs h = hello_layout h \<and> unborsh_client_hello demo_hs (hello_layout h) = Some h"
      by (simp add: demo_hs_def)
  qed
  moreover have "sizes_ok demo_hs" by (simp add: sizes_ok_def demo_hs_def demo_pq_def demo_lib_def) (simp add: min_def)
  ultimately have hs: "honest_setup demo_hs demo_client ?s"
    using demo_hs_ok demo_client_honest demo_server_key by (simp add: honest_setup_def) (simp add: demo_client_def)
  have r: "round_at demo_hs 0 ?r" by (simp add: demo_moment_def demo_coins_def demo_hs_def demo_pq_def)
  have d: "first_difficulty 0 [1] ?s = 4"
    by (simp add: first_difficulty_def adaptive_difficulty_def calculate_difficulty_def demo_server_def reputation_with_capacity_def)
  have z: "check_leading_zeros (compute_blake3_hash (hl_blake3 demo_hs) n x) 4" for n x
    by (simp add: check_leading_zeros_def compute_blake3_hash_def demo_hs_def leading_zeros_def bit_1_iff)
  have "prompt [0, 0, 0, 0]" by (simp add: prompt_def)
  moreover have "\<exists>k < 2 ^ 32. check_leading_zeros (compute_blake3_hash (hl_blake3 demo_hs) n (word_of_nat k)) 4" for n
    by (rule exI[of _ 0]) (use z[of n "word_of_nat 0"] in simp)
  ultimately have "\<exists>cs ss cc. connect demo_hs (hsv_verifying_key ?s) [1] [?r, ?r, ?r, ?r] False
      (fst (client_start demo_hs demo_client None)) (snd (client_start demo_hs demo_client None)) server_conn_new ?s = (Joined cs None ss None, cc)
    \<and> paired (hl_crypto demo_hs) cs ss \<and> cc_retry_rounds cc = (if False \<or> (4 :: u8) = 0 then 1 else MAX_HANDSHAKE_RETRY_ROUNDS)"
    using connect_completes[OF hs _ r r r r, of 4 False "[1]"] d by simp
  then show ?thesis by simp
qed

end
