(* ===== verification/Spec2Isabelle.thy ===== *)
theory Spec2Isabelle
  imports Phantom_Prelude Replay_Window Wire_Types Sack_Codec Rto_Estimator Stream_Base Stream_Send Stream_Recv
    Reliable_Delivery Shaping Path_Registry Pacer Liveness Crypto_Session Session Secure_Channel Control_Frames
    Rekey_Channel Coalescer Stream_Table Delivery Packet_Dispatch End_To_End Udp_Datagram Stream_Framing Session_Cache Admission Hybrid_Keys
    Handshake_Messages Handshake Hello_Layout Handshake_Security Handshake_Tickets Handshake_Gate Handshake_Driver
begin

text \<open>
  Verification of the Phantom protocol core (paths below are under \<open>src/core/src\<close>).

  \<^bold>\<open>The program.\<close> A client and a server run a hybrid post-quantum handshake
  (\<open>transport/handshake.rs\<close>), which ends with a shared secret on both sides. From it each
  side builds a transport session (\<open>transport/session.rs\<close>) with AEAD keys, header
  protection and connection-id chains. A session carries streams (\<open>transport/stream.rs\<close>):
  the application queues data, the pump polls segments, seals them into packets
  (\<open>transport/types.rs\<close>) and hands them to a leg, for UDP through an envelope that
  fragments large frames (\<open>transport/phantom_udp\<close>, \<open>transport/fragmentation.rs\<close>). The peer
  unmasks, opens and de-duplicates a packet, and its handler (\<open>handle_packet\<close> of
  \<open>api/session.rs\<close>) acts on it: data goes through the reorder buffer and a delivery
  pipeline to the application, acknowledgements retire segments, control frames move
  windows, validate paths, rotate keys and close the session.

  \<^bold>\<open>Theories and sources.\<close>
  \<^item> \<open>Phantom_Prelude\<close>: machine integers, byte encodings, saturating arithmetic, results,
    runs of a step function over a list of events.
  \<^item> Packets and acknowledgements: \<open>Wire_Types\<close> (\<open>transport/types.rs\<close>), \<open>Sack_Codec\<close>
    (\<open>transport/sack.rs\<close>), \<open>Shaping\<close> (\<open>transport/shaping.rs\<close>, \<open>transport/mtu.rs\<close>),
    \<open>Coalescer\<close> (\<open>transport/packet_coalescer.rs\<close> and its codec), \<open>Udp_Datagram\<close>
    (\<open>transport/phantom_udp\<close>, \<open>transport/fragmentation.rs\<close>), \<open>Stream_Framing\<close>
    (\<open>transport/framing.rs\<close>).
  \<^item> Streams: \<open>Rto_Estimator\<close>, \<open>Stream_Base\<close>, \<open>Stream_Send\<close>, \<open>Stream_Recv\<close>
    (\<open>transport/stream.rs\<close>), \<open>Stream_Table\<close> (\<open>transport/multiplexer.rs\<close> and the table of
    \<open>api/session.rs\<close>), \<open>Delivery\<close> (reader, router and delivery tasks of \<open>api/session.rs\<close>).
  \<^item> Sessions: \<open>Crypto_Session\<close> (\<open>crypto/adaptive_crypto.rs\<close>, \<open>crypto/kdf.rs\<close>,
    \<open>crypto/header_protection.rs\<close>, \<open>crypto/cid_chain.rs\<close>), \<open>Session\<close>
    (\<open>transport/session.rs\<close> and the sealing step of the pump), \<open>Replay_Window\<close>
    (\<open>security/replay_window.rs\<close>), \<open>Path_Registry\<close> (\<open>transport/path.rs\<close> and its codec),
    \<open>Pacer\<close> (\<open>transport/pacer.rs\<close>), \<open>Liveness\<close> (\<open>transport/liveness.rs\<close>), \<open>Control_Frames\<close>
    and \<open>Packet_Dispatch\<close> (\<open>api/session.rs\<close>).
  \<^item> Handshake: \<open>Hybrid_Keys\<close> (\<open>crypto/hybrid_kem.rs\<close>, \<open>crypto/hybrid_sign.rs\<close>),
    \<open>Session_Cache\<close> (\<open>transport/session_cache.rs\<close>), \<open>Admission\<close> (\<open>crypto/pow.rs\<close>,
    \<open>transport/reputation.rs\<close>), \<open>Handshake_Messages\<close> and \<open>Handshake\<close>
    (\<open>transport/handshake.rs\<close>), \<open>Handshake_Driver\<close> (\<open>drive_server_handshake\<close> of
    \<open>api/listener.rs\<close>, \<open>run_client_handshake\<close> of \<open>api/session.rs\<close>, first contact in
    \<open>api/udp_listener.rs\<close>).
  \<^item> Composition: \<open>Reliable_Delivery\<close> (a sender, a receiver and a lossy network),
    \<open>Secure_Channel\<close> (what one session seals and another opens), \<open>Rekey_Channel\<close> (two
    sessions that exchange frames of every kind over an adversarial network), \<open>End_To_End\<close> (two
    endpoints), \<open>Handshake_Security\<close>, \<open>Handshake_Tickets\<close>, \<open>Handshake_Gate\<close> (runs of a
    server) and \<open>Hello_Layout\<close> (the encoding of a hello, and the concrete library on which
    the handshake properties are evaluated).

  \<^bold>\<open>How the code is rendered.\<close> A struct is a record, an enum a datatype, a machine
  integer a word of its width; \<open>usize\<close> is a natural number where it only counts. A method
  that mutates is a function from state to result and state, with an error value for every
  early return; a body under one lock is one step, and concurrent callers are sequences of
  steps. Clocks, random draws and the answers of sockets are arguments. A hash map is a
  partial function, or an association list where its size matters. The cryptographic
  primitives, \<open>borsh\<close>, BLAKE3 and the hash functions are packages outside the sources:
  records of functions (\<open>crypto_lib\<close>, \<open>pq_lib\<close>, \<open>blake3_lib\<close>, \<open>hs_lib\<close>) with their
  documented behaviour as hypotheses (\<open>crypto_ok\<close>, \<open>kem_ok\<close>, \<open>sig_ok\<close>, \<open>blake3_ok\<close>,
  \<open>borsh_ok\<close>, \<open>sizes_ok\<close>, \<open>hello_codec\<close>, \<open>hkdf_injective\<close>, \<open>hmac_injective\<close>), all satisfied by \<open>demo_lib\<close> and \<open>demo_hs\<close>. Both ends
  of a session share one \<open>crypto_lib\<close>, hence one cipher suite and one build variant; the
  sources pick the suite by the local hardware and document that both ends must agree.

  \<^bold>\<open>What is shown.\<close>
  \<^item> Reliable delivery: over loss, duplication and reordering, in every reachable state what
    the application has read is a prefix of what was queued; each acknowledged segment was
    delivered or is held with its payload; the end of stream is signalled once, after all
    data; a segment past its timeout is sent again within a bounded number of polls; window
    credit is charged exactly once per segment; memory for reordering is bounded; the
    channels to the application hold exactly what was queued for them.
    \<open>reliable_segment_end_to_end\<close> refines a step of that system by the real path: seal,
    mask, parse, open, dispatch, deliver, and the acknowledgement back to the sender.
  \<^item> Secure channel: what one end seals the other opens, across key rotations that both
    sides start on their own, and the two stay in step (path validations apart, which are
    refused by a peer that is behind); no nonce repeats under a key; no packet number is delivered
    twice; a packet the AEAD does not open changes nothing but counters and the liveness of
    its path; a packet touches only its own stream; stream ids are never reused.
  \<^item> Handshake: a client that accepts under the pinned key was answered by that server on
    exactly its hello (version, variant, ticket and early data included); the two sessions
    are paired and carry data at once; an honest client connects within the retry rounds
    whatever work is demanded; early data is accepted at most once per ticket issued; a
    refused hello costs no ticket; no session without a ticket or a cookie and work bound to
    the server's hourly secret; cookies last between five and ten minutes, for their address
    only; the server's tables stay well formed and bounded.
  \<^item> Codecs and small components: round trips of acknowledgements, bundles, datagrams,
    frames and padding; the replay bitmap refines the history it stands for; pacing conformance; death
    of a silent peer; validation of paths only by proof.

  Locales state the contracts several operations share, each interpreted on the model:
  \<open>replay_guard\<close> (an acceptance test that never accepts twice), \<open>nonce_discipline\<close> (sends
  that advance a counter), \<open>id_ledger\<close> (ids that stay used), \<open>account\<close> (credit spent only when
  held or minted).

  \<^bold>\<open>Bounds.\<close> Every loop is a total function. \<open>solve_from\<close> recurses on the iterations
  left, starting from the source's own bound of 2 to the 32; \<open>connect\<close> on the list of rounds,
  of which four suffice because either side stops after three retries; \<open>chunks_of\<close>, \<open>ilog2\<close>
  and the decoders terminate by a measure on their input. No fuel is used.

  \<^bold>\<open>Not modelled.\<close> The bandwidth estimator (\<open>transport/bandwidth_estimator.rs\<close>), whose
  gains are floating-point numbers: the sender takes its congestion budget as an argument.
  The select loop of the data pump and the asynchronous facade around it, listeners and
  legs other than the decisions above, TLS mimicry and the embedded transport: socket input
  and output and task scheduling. Metrics and logging, which
  do not feed back into the protocol. The scheduler, the fallback machine, compression and
  buffer pools, which are not on the packet path of a session. Random number generation and
  self tests, whose results are arguments here. The programs around the core.
\<close>

end
